(* ===== verification/Prelude.thy ===== *)
theory Prelude
  imports Main "HOL-Library.Word" "HOL-Library.Multiset"
begin

text \<open>
  Shared vocabulary of the development: the machine integers the C code uses, signed
  tests on them, the collections that the component proofs extend, and the generic
  lemmas on words and lists that several components need.
\<close>

unbundle bit_operations_syntax

type_synonym u8 = "8 word"
type_synonym u16 = "16 word"
type_synonym u32 = "32 word"
type_synonym u64 = "64 word"
type_synonym i32 = "32 word"   \<comment> \<open>C \<open>int\<close>: the same bits, read with \<^term>\<open>sint\<close>\<close>
type_synonym opid = nat        \<comment> \<open>the index of an op in its ring's pool\<close>

named_theorems frame_simps "which parts of a ring an operation leaves alone"
named_theorems acct_simps "how an operation moves ops between the places that own them"

subsection \<open>Signed readings of an \<open>int\<close>\<close>

definition neg32 :: "i32 \<Rightarrow> bool" where
  "neg32 x \<longleftrightarrow> sint x < 0"

lemma neg32_bit: "neg32 x \<longleftrightarrow> bit x 31"
  by (simp add: neg32_def bit_last_iff [symmetric])

lemma neg32_0 [simp]: "\<not> neg32 0"
  by (simp add: neg32_def)

lemma neg32_unat: "neg32 x \<longleftrightarrow> 2 ^ 31 \<le> unat x"
proof -
  have "bit x 31 \<longleftrightarrow> odd (unat x div 2 ^ 31)"
    by (metis bit_iff_odd bit_unsigned_iff possible_bit_nat)
  moreover have "unat x div 2 ^ 31 < 2"
    using unsigned_less [of x, where ?'a = nat] by simp
  moreover have "unat x div 2 ^ 31 = 0 \<longleftrightarrow> unat x < 2 ^ 31"
    by (simp add: div_eq_0_iff)
  ultimately show ?thesis
    by (auto simp: neg32_bit less_2_cases_iff)
qed

lemma neg32_small: "unat x < 2 ^ 31 \<Longrightarrow> \<not> neg32 x"
  by (simp add: neg32_unat)

subsection \<open>Indices of a power-of-two ring\<close>

lemma and_mask_unat:
  fixes x m :: "32 word"
  assumes "unat m = 2 ^ k" and "k < 32"
  shows "unat (x AND (m - 1)) = unat x mod 2 ^ k"
proof -
  have m: "m = 2 ^ k"
    using arg_cong [OF assms(1), where f = "of_nat :: nat \<Rightarrow> 32 word"] by simp
  have "x AND (m - 1) = take_bit k x"
    by (simp add: m take_bit_eq_mask mask_eq_decr_exp)
  moreover have "unat (take_bit k x) = unat x mod 2 ^ k"
    by (metis unsigned_take_bit_eq take_bit_eq_mod)
  ultimately show ?thesis by simp
qed

lemma unat_add_1_mod:
  fixes x :: "'a::len word"
  shows "unat (x + 1) = (unat x + 1) mod 2 ^ LENGTH('a)"
  by (simp add: unat_word_ariths)

lemma mod_pow2_wrap:
  assumes "k \<le> n"
  shows "((a :: nat) mod 2 ^ n) mod 2 ^ k = a mod 2 ^ k"
  using assms by (simp add: mod_mod_cancel le_imp_power_dvd)

subsection \<open>The test for a power of two\<close>

lemma and_pred_0_pow2:
  fixes n :: nat
  assumes "n AND (n - 1) = 0" "n \<noteq> 0"
  shows "\<exists>k. n = 2 ^ k"
  using assms
proof (induction n rule: less_induct)
  case (less n)
  show ?case
  proof (cases "odd n")
    case True
    then obtain m where m: "n = 2 * m + 1" by (rule oddE)
    have "n AND (n - 1) = 2 * m" unfolding m by (subst and_rec) simp
    with less.prems m have "n = 2 ^ 0" by simp
    then show ?thesis by blast
  next
    case False
    then obtain m where m: "n = 2 * m" by (auto elim: evenE)
    with less.prems have "0 < m" by simp
    have "(2 * m - 1) div 2 = m - 1" using \<open>0 < m\<close> by simp
    then have "n AND (n - 1) = 2 * (m AND (m - 1))" unfolding m by (subst and_rec) simp
    with less.prems have "m AND (m - 1) = 0" by simp
    with less.IH [of m] \<open>0 < m\<close> m obtain k where "m = 2 ^ k" by auto
    with m have "n = 2 ^ Suc k" by simp
    then show ?thesis by blast
  qed
qed

lemma and_pred_0_word:
  fixes x :: "32 word"
  assumes "x AND (x - 1) = 0" "x \<noteq> 0"
  shows "\<exists>k < 32. unat x = 2 ^ k"
proof -
  have "unat (x - 1) = unat x - 1" using assms(2) by (simp add: unat_minus_one unat_gt_0)
  then have "unat x AND (unat x - 1) = unat (x AND (x - 1))" by (simp add: unsigned_and_eq)
  then obtain k where k: "unat x = 2 ^ k"
    using and_pred_0_pow2 [of "unat x"] assms by (auto simp: unat_eq_0)
  then have "(2 :: nat) ^ k < 2 ^ 32" using unsigned_less [of x, where ?'a = nat] by simp
  then have "k < 32" by (rule power_less_imp_less_exp [rotated]) simp
  with k show ?thesis by blast
qed

end
