(* ===== verification/Abi.thy ===== *)
theory Abi
  imports Prelude
begin

text \<open>
  The words the engine reads and writes: the submission entry, the completion entry, the
  opcodes it carries, the bits it tests and the errno values it answers.  The layout comes
  from liburing's own \<open>io_uring.h\<close>, which is carried beside the repository and is not
  part of it, so opcodes are constructors and not numbers; the few bits and errno values
  that the C code tests or answers are the documented ones of the io_uring ABI and of
  \<open>errno.h\<close> on Linux.
\<close>

subsection \<open>Opcodes\<close>

datatype opcode =
    OP_NOP | OP_READ | OP_WRITE | OP_RECV | OP_SEND | OP_RECVMSG | OP_SENDMSG | OP_ACCEPT
  | OP_CONNECT | OP_SOCKET | OP_BIND | OP_LISTEN | OP_SHUTDOWN | OP_CLOSE | OP_POLL_ADD
  | OP_POLL_REMOVE | OP_ASYNC_CANCEL | OP_STATX | OP_UNLINKAT | OP_OPENAT | OP_OPENAT2
  | OP_URING_CMD | OP_MSG_RING | OP_OTHER u8

subsection \<open>Submission and completion entries\<close>

text \<open>
  The unions of the SQE are one field each: \<open>sqe_off\<close> is also addr2, \<open>sqe_op_flags\<close> is
  msg_flags, accept_flags, cancel_flags, poll32_events and the other per-op words,
  \<open>sqe_file_index\<close> is also optlen, \<open>sqe_addr3\<close> is also optval, and \<open>sqe_addr\<close> holds level and
  optname in its low and high half.  \<open>sqe_cmd_op\<close> is the command word of a URING_CMD.
\<close>

datatype sock_cmd = SOCK_SETSOCKOPT | SOCK_GETSOCKOPT | SOCK_GETSOCKNAME | SOCK_OTHER u32

record sqe =
  sqe_opcode :: opcode
  sqe_flags :: u8
  sqe_ioprio :: u16
  sqe_fd :: i32
  sqe_off :: u64
  sqe_addr :: u64
  sqe_len :: u32
  sqe_op_flags :: u32
  sqe_user_data :: u64
  sqe_buf_group :: u16
  sqe_file_index :: u32
  sqe_addr3 :: u64
  sqe_cmd_op :: sock_cmd
  sqe_pad2 :: u64

record cqe =
  cqe_user_data :: u64
  cqe_res :: i32
  cqe_flags :: u32

definition zero_sqe :: sqe where
  "zero_sqe = \<lparr>sqe_opcode = OP_NOP, sqe_flags = 0, sqe_ioprio = 0, sqe_fd = 0, sqe_off = 0,
     sqe_addr = 0, sqe_len = 0, sqe_op_flags = 0, sqe_user_data = 0, sqe_buf_group = 0,
     sqe_file_index = 0, sqe_addr3 = 0, sqe_cmd_op = SOCK_OTHER 0, sqe_pad2 = 0\<rparr>"

definition zero_cqe :: cqe where
  "zero_cqe = \<lparr>cqe_user_data = 0, cqe_res = 0, cqe_flags = 0\<rparr>"

subsection \<open>Bits\<close>

text \<open>IOSQE bits of \<open>sqe->flags\<close>.\<close>

definition fixed_file :: "sqe \<Rightarrow> bool" where "fixed_file s \<longleftrightarrow> bit (sqe_flags s) 0"
definition io_link :: "sqe \<Rightarrow> bool" where "io_link s \<longleftrightarrow> bit (sqe_flags s) 2"
definition buffer_select :: "sqe \<Rightarrow> bool" where "buffer_select s \<longleftrightarrow> bit (sqe_flags s) 5"
definition skip_success :: "sqe \<Rightarrow> bool" where "skip_success s \<longleftrightarrow> bit (sqe_flags s) 6"

text \<open>Bits of \<open>sqe->ioprio\<close>, \<open>sqe->len\<close> and \<open>sqe->cancel_flags\<close>.\<close>

definition accept_multishot :: "sqe \<Rightarrow> bool" where "accept_multishot s \<longleftrightarrow> bit (sqe_ioprio s) 0"
definition recv_multishot :: "sqe \<Rightarrow> bool" where "recv_multishot s \<longleftrightarrow> bit (sqe_ioprio s) 1"
definition recvsend_bundle :: "sqe \<Rightarrow> bool" where "recvsend_bundle s \<longleftrightarrow> bit (sqe_ioprio s) 4"
definition poll_add_multi :: "sqe \<Rightarrow> bool" where "poll_add_multi s \<longleftrightarrow> bit (sqe_len s) 0"
definition cancel_all :: "sqe \<Rightarrow> bool" where "cancel_all s \<longleftrightarrow> bit (sqe_op_flags s) 0"
definition cancel_fd :: "sqe \<Rightarrow> bool" where "cancel_fd s \<longleftrightarrow> bit (sqe_op_flags s) 1"

text \<open>Bits of \<open>cqe->flags\<close>: \<open>IORING_CQE_F_BUFFER\<close>, \<open>IORING_CQE_F_MORE\<close>, and the buffer id
  above \<open>IORING_CQE_BUFFER_SHIFT\<close>.\<close>

definition CQE_F_BUFFER :: u32 where "CQE_F_BUFFER = 1"
definition CQE_F_MORE :: u32 where "CQE_F_MORE = push_bit 1 1"

definition cqe_buffer_flags :: "u16 \<Rightarrow> u32" where
  "cqe_buffer_flags bid = CQE_F_BUFFER OR push_bit 16 (ucast bid)"

lemma cqe_buffer_bid: "drop_bit 16 (cqe_buffer_flags bid OR CQE_F_MORE) = ucast bid"
  by (rule bit_word_eqI)
    (auto simp: cqe_buffer_flags_def CQE_F_BUFFER_def CQE_F_MORE_def bit_simps
      simp del: push_bit_numeral_minus_1 dest: bit_imp_le_length)

text \<open>\<open>poll.h\<close>, \<open>MSG_DONTWAIT\<close> and the bit of \<open>O_NONBLOCK\<close>.\<close>

definition POLLIN :: "16 word" where "POLLIN = 1"
definition POLLPRI :: "16 word" where "POLLPRI = 2"
definition POLLOUT :: "16 word" where "POLLOUT = 4"
definition POLLERR :: "16 word" where "POLLERR = 8"
definition POLLHUP :: "16 word" where "POLLHUP = 16"
definition POLLNVAL :: "16 word" where "POLLNVAL = 32"
definition MSG_DONTWAIT :: u32 where "MSG_DONTWAIT = 64"
definition O_NONBLOCK_BIT :: nat where "O_NONBLOCK_BIT = 11"

lemmas poll_defs = POLLIN_def POLLPRI_def POLLOUT_def POLLERR_def POLLHUP_def POLLNVAL_def

definition FILE_INDEX_ALLOC :: u32 where "FILE_INDEX_ALLOC = - 1"

subsection \<open>Answers\<close>

definition EPERM :: i32 where "EPERM = 1"
definition ENOENT :: i32 where "ENOENT = 2"
definition ENXIO :: i32 where "ENXIO = 6"
definition EBADF :: i32 where "EBADF = 9"
definition EAGAIN :: i32 where "EAGAIN = 11"
definition ENOMEM :: i32 where "ENOMEM = 12"
definition EFAULT :: i32 where "EFAULT = 14"
definition EBUSY :: i32 where "EBUSY = 16"
definition EEXIST :: i32 where "EEXIST = 17"
definition EINVAL :: i32 where "EINVAL = 22"
definition ENFILE :: i32 where "ENFILE = 23"
definition EMFILE :: i32 where "EMFILE = 24"
definition ENOSYS :: i32 where "ENOSYS = 38"
definition ETIME :: i32 where "ETIME = 62"
definition EOPNOTSUPP :: i32 where "EOPNOTSUPP = 95"
definition ENOBUFS :: i32 where "ENOBUFS = 105"
definition ENOTCONN :: i32 where "ENOTCONN = 107"
definition EALREADY :: i32 where "EALREADY = 114"
definition EINPROGRESS :: i32 where "EINPROGRESS = 115"
definition ECANCELED :: i32 where "ECANCELED = 125"

lemmas errno_defs = EPERM_def ENOENT_def ENXIO_def EBADF_def EAGAIN_def ENOMEM_def EFAULT_def
  EBUSY_def EEXIST_def EINVAL_def ENFILE_def EMFILE_def ENOSYS_def ETIME_def EOPNOTSUPP_def
  ENOBUFS_def ENOTCONN_def EALREADY_def EINPROGRESS_def ECANCELED_def

lemma errno_neg [simp]:
  "neg32 (- ENOENT)" "neg32 (- ENXIO)" "neg32 (- EBADF)" "neg32 (- ENOMEM)" "neg32 (- EFAULT)"
  "neg32 (- EBUSY)" "neg32 (- EEXIST)" "neg32 (- EINVAL)" "neg32 (- ENFILE)" "neg32 (- EMFILE)"
  "neg32 (- ETIME)" "neg32 (- EOPNOTSUPP)" "neg32 (- ENOBUFS)" "neg32 (- EALREADY)"
  "neg32 (- ECANCELED)"
  by (simp_all add: neg32_def errno_defs)

end
