(* ===== verification/Ring.thy ===== *)
theory Ring
  imports Abi
begin

text \<open>
  The state of one ring (\<open>struct slip_ring\<close>, \<open>src/src/engine_internal.h\<close>) and the pool its
  ops come from.  An op is named by its index in the pool: the C code's \<open>struct eng_op *\<close>.
  The singly linked lists threaded on \<open>eng_op::next\<close> (the free list, the submission queue,
  the backlog and the worker queue) are lists of such indices, head first.  The mutex is
  not state: each operation below is what one holder of it does.
\<close>

subsection \<open>An op, and how it can leave its chain\<close>

record eng_op =
  op_sqe :: sqe
  op_wait_events :: "16 word"
  op_connect_in_progress :: bool
  op_socket_error :: i32
  op_wait_slot :: nat
  op_stalls_queue :: bool
  op_cqe_flags :: u32

definition zero_op :: eng_op where
  "zero_op = \<lparr>op_sqe = zero_sqe, op_wait_events = 0, op_connect_in_progress = False,
     op_socket_error = 0, op_wait_slot = 0, op_stalls_queue = False, op_cqe_flags = 0\<rparr>"

datatype chain = SLIP_CHAIN_HOLDS | SLIP_CHAIN_CANCELS | SLIP_CHAIN_CANCELS_QUIETLY

definition slip_chain_failure_of :: "eng_op \<Rightarrow> chain" where
  "slip_chain_failure_of op =
     (if skip_success (op_sqe op) then SLIP_CHAIN_CANCELS_QUIETLY else SLIP_CHAIN_CANCELS)"

lemma chain_failure_not_holds [simp]: "slip_chain_failure_of op \<noteq> SLIP_CHAIN_HOLDS"
  by (simp add: slip_chain_failure_of_def)

subsection \<open>The shared memory the caller maps\<close>

record sq_ring =
  sq_head :: u32
  sq_tail :: u32
  sq_ring_mask :: u32
  sq_ring_entries :: u32
  sq_dropped :: u32
  sq_array :: "nat \<Rightarrow> u32"

record cq_ring =
  cq_head :: u32
  cq_tail :: u32
  cq_ring_mask :: u32
  cq_ring_entries :: u32
  cq_overflow :: u32
  cq_cqes :: "nat \<Rightarrow> cqe"

subsection \<open>Registered buffers\<close>

record slip_bufring =
  br_bufs :: u64          \<comment> \<open>the address of the caller's ring memory\<close>
  br_entries :: u32
  br_bgid :: u16
  br_head :: u16
  br_in_use :: bool

definition zero_bufring :: slip_bufring where
  "zero_bufring = \<lparr>br_bufs = 0, br_entries = 0, br_bgid = 0, br_head = 0, br_in_use = False\<rparr>"

definition SLIP_BUFRINGS_MAX :: nat where "SLIP_BUFRINGS_MAX = 16"
definition SLIP_RINGS_MAX :: nat where "SLIP_RINGS_MAX = 64"

subsection \<open>The ring\<close>

text \<open>
  \<open>r_fixed\<close> is the fixed file table with its length (\<open>fixed\<close> and \<open>fixed_n\<close>), \<open>None\<close> for a
  null pointer.  \<open>r_ctl\<close> says whether the poke pipe holds a byte.  \<open>r_be_state\<close> is the
  backend's own state.
\<close>

record 'b slip_ring =
  r_in_use :: bool
  r_sq_entries :: u32
  r_cq_entries :: u32
  r_op_pool :: "opid \<Rightarrow> eng_op"
  r_op_pool_n :: u32
  r_op_free :: "opid list"
  r_sq :: sq_ring
  r_cq :: cq_ring
  r_sqes :: "nat \<Rightarrow> sqe"
  r_backlog :: "opid list"
  r_wq :: "opid list"
  r_blocked_done :: "opid option"
  r_blocked_failed :: chain
  r_queue :: "opid list"
  r_waiting :: "opid list"
  r_chain_failed :: chain
  r_blocking :: "opid option"
  r_fixed :: "i32 list option"
  r_alloc_off :: u32
  r_alloc_len :: u32
  r_alloc_hint :: u32
  r_bufrings :: "slip_bufring list"
  r_be_state :: 'b
  r_ctl :: bool
  r_worker_live :: bool
  r_stopping :: bool

text \<open>Field access through the pool, as \<open>op->sqe\<close> reads in C, and an update of one op.\<close>

definition the_op :: "'b slip_ring \<Rightarrow> opid \<Rightarrow> eng_op" where
  "the_op r i = r_op_pool r i"

definition sqe_of :: "'b slip_ring \<Rightarrow> opid \<Rightarrow> sqe" where
  "sqe_of r i = op_sqe (the_op r i)"

definition upd_op :: "opid \<Rightarrow> (eng_op \<Rightarrow> eng_op) \<Rightarrow> 'b slip_ring \<Rightarrow> 'b slip_ring" where
  "upd_op i f r = r\<lparr>r_op_pool := (r_op_pool r)(i := f (r_op_pool r i))\<rparr>"

subsection \<open>Where ops come from\<close>

definition op_alloc_locked :: "'b slip_ring \<Rightarrow> opid option \<times> 'b slip_ring" where
  "op_alloc_locked r = (case r_op_free r of
       [] \<Rightarrow> (None, r)
     | i # fs \<Rightarrow> (Some i, r\<lparr>r_op_free := fs, r_op_pool := (r_op_pool r)(i := zero_op)\<rparr>))"

definition op_release :: "opid \<Rightarrow> 'b slip_ring \<Rightarrow> 'b slip_ring" where
  "op_release i r = r\<lparr>r_op_free := i # r_op_free r\<rparr>"

subsection \<open>Ownership\<close>

text \<open>
  Every op of the pool is in exactly one place: free, queued, parked, at the worker's
  queue, in the backlog, or in the hands \<open>H\<close> of the code that is working on it.
\<close>

definition acct :: "'b slip_ring \<Rightarrow> opid multiset" where
  "acct r = mset (r_op_free r) + mset (r_backlog r) + mset (r_wq r) + mset (r_queue r)
            + mset (r_waiting r)"

definition pool_ok :: "'b slip_ring \<Rightarrow> opid multiset \<Rightarrow> bool" where
  "pool_ok r H \<longleftrightarrow> acct r + H = mset [0..<unat (r_op_pool_n r)]"

lemma pool_ok_count_le:
  assumes "pool_ok r H"
  shows "count (acct r + H) i \<le> 1"
  using assms by (simp add: pool_ok_def count_mset_set')

lemma distinct_if_count_le_1:
  assumes "\<And>a. count (mset xs) a \<le> 1"
  shows "distinct xs"
  unfolding distinct_count_atmost_1
proof
  fix a
  show "count (mset xs) a = (if a \<in> set xs then 1 else 0)"
    using assms [of a] count_greater_zero_iff [of "mset xs" a]
    by (cases "count (mset xs) a") (auto simp: count_eq_zero_iff)
qed

lemma pool_ok_hand:
  assumes "pool_ok r (add_mset i H)"
  shows "i \<notin> set (r_op_free r)" "i \<notin> set (r_backlog r)" "i \<notin> set (r_wq r)"
    "i \<notin> set (r_queue r)" "i \<notin> set (r_waiting r)" "i \<notin># H" "i < unat (r_op_pool_n r)"
proof -
  have c: "count (acct r + add_mset i H) i \<le> 1"
    by (rule pool_ok_count_le [OF assms])
  then have "count (acct r) i = 0" "count H i = 0" by auto
  then show "i \<notin> set (r_op_free r)" "i \<notin> set (r_backlog r)" "i \<notin> set (r_wq r)"
    "i \<notin> set (r_queue r)" "i \<notin> set (r_waiting r)" "i \<notin># H"
    by (auto simp: acct_def count_eq_zero_iff)
  have "i \<in># acct r + add_mset i H" by simp
  then show "i < unat (r_op_pool_n r)"
    using assms by (auto simp: pool_ok_def dest!: arg_cong [where f = set_mset])
qed

lemma pool_ok_distinct:
  assumes "pool_ok r H"
  shows "distinct (r_op_free r)" "distinct (r_backlog r)" "distinct (r_wq r)"
    "distinct (r_queue r)" "distinct (r_waiting r)"
proof -
  have c: "count (mset (r_op_free r)) i + count (mset (r_backlog r)) i + count (mset (r_wq r)) i
      + count (mset (r_queue r)) i + count (mset (r_waiting r)) i \<le> 1" for i
    using pool_ok_count_le [OF assms, of i] by (simp add: acct_def)
  show "distinct (r_op_free r)" "distinct (r_backlog r)" "distinct (r_wq r)"
    "distinct (r_queue r)" "distinct (r_waiting r)"
    by (rule distinct_if_count_le_1; use c in \<open>metis add_leE add.commute\<close>)+
qed

text \<open>So an op in somebody's hands always finds room in \<open>waiting[]\<close>.\<close>

lemma waiting_has_room:
  assumes "pool_ok r (add_mset i H)"
  shows "length (r_waiting r) < unat (r_op_pool_n r)"
proof -
  have "size (acct r + add_mset i H) = unat (r_op_pool_n r)"
    using assms by (simp only: pool_ok_def) simp
  then show ?thesis by (simp add: acct_def)
qed

subsection \<open>Framing\<close>

text \<open>
  Posting touches the completion ring, the backlog, the free list and the ops of the pool
  and nothing else: \<open>same_core\<close> says that two rings agree on the rest.
\<close>

definition same_core :: "'b slip_ring \<Rightarrow> 'b slip_ring \<Rightarrow> bool" where
  "same_core r' r \<longleftrightarrow>
     r_in_use r' = r_in_use r \<and> r_sq_entries r' = r_sq_entries r \<and> r_cq_entries r' = r_cq_entries r \<and>
     r_op_pool_n r' = r_op_pool_n r \<and> r_sq r' = r_sq r \<and> r_sqes r' = r_sqes r \<and> r_wq r' = r_wq r \<and>
     r_blocked_done r' = r_blocked_done r \<and> r_blocked_failed r' = r_blocked_failed r \<and>
     r_queue r' = r_queue r \<and> r_waiting r' = r_waiting r \<and> r_chain_failed r' = r_chain_failed r \<and>
     r_blocking r' = r_blocking r \<and> r_fixed r' = r_fixed r \<and> r_alloc_off r' = r_alloc_off r \<and>
     r_alloc_len r' = r_alloc_len r \<and> r_alloc_hint r' = r_alloc_hint r \<and>
     r_bufrings r' = r_bufrings r \<and> r_be_state r' = r_be_state r \<and> r_ctl r' = r_ctl r \<and>
     r_worker_live r' = r_worker_live r \<and> r_stopping r' = r_stopping r \<and>
     cq_head (r_cq r') = cq_head (r_cq r) \<and> cq_ring_mask (r_cq r') = cq_ring_mask (r_cq r) \<and>
     cq_ring_entries (r_cq r') = cq_ring_entries (r_cq r)"

lemma same_core_refl [simp]: "same_core r r"
  by (simp add: same_core_def)

lemma same_core_trans [trans]: "same_core r'' r' \<Longrightarrow> same_core r' r \<Longrightarrow> same_core r'' r"
  by (simp add: same_core_def)

end
