(* ===== verification/Completions.thy ===== *)
theory Completions
  imports Ring
begin

text \<open>
  Posting completions (\<open>src/src/slipstream_engine.c\<close>, "completions"): the completion ring the
  caller reads, the backlog that holds what it had no room for, and the two doors,
  \<open>slip_engine_post\<close> for the completion of an op and \<open>slip_engine_emit\<close> for a completion
  that leaves its op alive.  The abstract view is one queue, \<open>cq_stream\<close>: the unread
  entries of the ring followed by the backlog.
\<close>

subsection \<open>The code\<close>

definition cq_avail :: "'b slip_ring \<Rightarrow> u32" where
  "cq_avail r = cq_tail (r_cq r) - cq_head (r_cq r)"

definition cq_room :: "'b slip_ring \<Rightarrow> bool" where
  "cq_room r \<longleftrightarrow> cq_avail r < r_cq_entries r"

definition cq_slot :: "'b slip_ring \<Rightarrow> u32 \<Rightarrow> nat" where
  "cq_slot r x = unat (x AND cq_ring_mask (r_cq r))"

definition post_locked :: "u64 \<Rightarrow> i32 \<Rightarrow> u32 \<Rightarrow> 'b slip_ring \<Rightarrow> 'b slip_ring" where
  "post_locked ud res fl r =
     (let cq = r_cq r;
          c = \<lparr>cqe_user_data = ud, cqe_res = res, cqe_flags = fl\<rparr>
      in r\<lparr>r_cq := cq\<lparr>cq_cqes := (cq_cqes cq)(cq_slot r (cq_tail cq) := c),
                      cq_tail := cq_tail cq + 1\<rparr>\<rparr>)"

text \<open>The result of a backlogged op rides in \<open>__pad2[0]\<close>: stored as
  \<open>(__u64) (unsigned) res\<close>, read back as \<open>(int)\<close>.\<close>

definition pad2_of_res :: "i32 \<Rightarrow> u64" where "pad2_of_res res = ucast res"
definition res_of_pad2 :: "u64 \<Rightarrow> i32" where "res_of_pad2 p = ucast p"

definition backlog_cqe :: "'b slip_ring \<Rightarrow> opid \<Rightarrow> cqe" where
  "backlog_cqe r i = \<lparr>cqe_user_data = sqe_user_data (sqe_of r i),
     cqe_res = res_of_pad2 (sqe_pad2 (sqe_of r i)), cqe_flags = op_cqe_flags (the_op r i)\<rparr>"

function drain_backlog_locked :: "'b slip_ring \<Rightarrow> 'b slip_ring" where
  "drain_backlog_locked r = (case r_backlog r of
       [] \<Rightarrow> r
     | i # bs \<Rightarrow>
         if cq_room r then
           drain_backlog_locked
             (op_release i
               (post_locked (sqe_user_data (sqe_of r i)) (res_of_pad2 (sqe_pad2 (sqe_of r i)))
                 (op_cqe_flags (the_op r i)) (r\<lparr>r_backlog := bs\<rparr>)))
         else r)"
  by pat_completeness auto
termination
  by (relation "measure (\<lambda>r. length (r_backlog r))")
    (auto simp: op_release_def post_locked_def Let_def)

declare drain_backlog_locked.simps [simp del]

definition set_pad2 :: "u64 \<Rightarrow> eng_op \<Rightarrow> eng_op" where
  "set_pad2 p op = op\<lparr>op_sqe := (op_sqe op)\<lparr>sqe_pad2 := p\<rparr>\<rparr>"

definition overflow_inc :: "'b slip_ring \<Rightarrow> 'b slip_ring" where
  "overflow_inc r = r\<lparr>r_cq := (r_cq r)\<lparr>cq_overflow := cq_overflow (r_cq r) + 1\<rparr>\<rparr>"

definition backlog_locked :: "opid \<Rightarrow> i32 \<Rightarrow> 'b slip_ring \<Rightarrow> 'b slip_ring" where
  "backlog_locked i res r =
     (let r' = upd_op i (set_pad2 (pad2_of_res res)) r
      in overflow_inc (r'\<lparr>r_backlog := r_backlog r @ [i]\<rparr>))"

definition slip_engine_post :: "opid \<Rightarrow> i32 \<Rightarrow> 'b slip_ring \<Rightarrow> 'b slip_ring" where
  "slip_engine_post i res r =
     (let r = drain_backlog_locked r in
      if \<not> neg32 res \<and> skip_success (sqe_of r i) then op_release i r
      else if cq_room r then
        op_release i (post_locked (sqe_user_data (sqe_of r i)) res (op_cqe_flags (the_op r i)) r)
      else backlog_locked i res r)"

definition slip_engine_emit :: "u64 \<Rightarrow> i32 \<Rightarrow> u32 \<Rightarrow> 'b slip_ring \<Rightarrow> 'b slip_ring" where
  "slip_engine_emit ud res fl r =
     (let r = drain_backlog_locked r in
      if cq_room r then post_locked ud res fl r
      else (case op_alloc_locked r of
          (Some carrier, r) \<Rightarrow>
            backlog_locked carrier res
              (upd_op carrier (\<lambda>op. op\<lparr>op_sqe := (op_sqe op)\<lparr>sqe_user_data := ud\<rparr>,
                                        op_cqe_flags := fl\<rparr>) r)
        | (None, r) \<Rightarrow> overflow_inc r))"

subsection \<open>The abstract view\<close>

definition unread :: "'b slip_ring \<Rightarrow> cqe list" where
  "unread r = map (\<lambda>j. cq_cqes (r_cq r) (cq_slot r (cq_head (r_cq r) + of_nat j)))
                  [0..<unat (cq_avail r)]"

definition cq_stream :: "'b slip_ring \<Rightarrow> cqe list" where
  "cq_stream r = unread r @ map (backlog_cqe r) (r_backlog r)"

definition cq_wf :: "'b slip_ring \<Rightarrow> bool" where
  "cq_wf r \<longleftrightarrow> (\<exists>k<32. unat (r_cq_entries r) = 2 ^ k) \<and>
     cq_ring_mask (r_cq r) = r_cq_entries r - 1 \<and> cq_avail r \<le> r_cq_entries r"

text \<open>What a completion appends to the stream.\<close>

definition completion_of :: "'b slip_ring \<Rightarrow> opid \<Rightarrow> i32 \<Rightarrow> cqe list" where
  "completion_of r i res =
     (if \<not> neg32 res \<and> skip_success (sqe_of r i) then []
      else [\<lparr>cqe_user_data = sqe_user_data (sqe_of r i), cqe_res = res,
             cqe_flags = op_cqe_flags (the_op r i)\<rparr>])"

subsection \<open>The completion ring\<close>

lemma res_pad2_roundtrip [simp]: "res_of_pad2 (pad2_of_res res) = res"
  by (rule bit_word_eqI) (simp add: res_of_pad2_def pad2_of_res_def bit_simps)

lemma cq_wf_pow2:
  assumes "cq_wf r"
  obtains k where "k < 32" "unat (r_cq_entries r) = 2 ^ k"
    "\<And>x. cq_slot r x = unat x mod 2 ^ k" "unat (cq_avail r) \<le> 2 ^ k"
proof -
  from assms obtain k where k: "k < 32" "unat (r_cq_entries r) = 2 ^ k"
    and m: "cq_ring_mask (r_cq r) = r_cq_entries r - 1" and a: "cq_avail r \<le> r_cq_entries r"
    by (auto simp: cq_wf_def)
  show thesis
  proof (rule that [OF k])
    fix x show "cq_slot r x = unat x mod 2 ^ k"
      unfolding cq_slot_def m by (rule and_mask_unat [OF k(2,1)])
  next
    show "unat (cq_avail r) \<le> 2 ^ k"
      using a k(2) by (simp add: word_le_nat_alt)
  qed
qed

lemma cq_slot_less:
  assumes "cq_wf r"
  shows "cq_slot r x < unat (r_cq_entries r)"
  using assms by (elim cq_wf_pow2) simp

lemma cq_tail_eq: "cq_tail (r_cq r) = cq_head (r_cq r) + of_nat (unat (cq_avail r))"
  by (simp add: cq_avail_def)

text \<open>The slot the tail points at is none of the slots that hold unread entries.\<close>

lemma cq_slot_fresh:
  assumes wf: "cq_wf r" and room: "cq_room r" and j: "j < unat (cq_avail r)"
  shows "cq_slot r (cq_head (r_cq r) + of_nat j) \<noteq> cq_slot r (cq_tail (r_cq r))"
proof -
  obtain k where k: "k < 32" "unat (r_cq_entries r) = 2 ^ k"
    and s: "\<And>x. cq_slot r x = unat x mod 2 ^ k"
    using cq_wf_pow2 [OF wf] by blast
  define a h where "a = unat (cq_avail r)" and "h = unat (cq_head (r_cq r))"
  have a: "a < 2 ^ k"
    using room k(2) by (simp add: a_def cq_room_def word_less_nat_alt)
  have slot: "cq_slot r (cq_head (r_cq r) + of_nat i) = (h + i) mod 2 ^ k" if "i \<le> a" for i
  proof -
    have "(2 :: nat) ^ k \<le> 2 ^ 31" using k(1) by (intro power_increasing) auto
    then have "i < 2 ^ 32" using that a by simp
    then have "unat (of_nat i :: 32 word) = i" by (simp add: unat_of_nat)
    then have "unat (cq_head (r_cq r) + of_nat i) = (h + i) mod 2 ^ 32"
      by (simp add: unat_word_ariths h_def)
    then show ?thesis
      using k(1) mod_pow2_wrap [of k 32 "h + i"] by (simp add: s)
  qed
  have "(h + j) mod 2 ^ k \<noteq> (h + a) mod 2 ^ k"
  proof
    assume eq: "(h + j) mod 2 ^ k = (h + a) mod 2 ^ k"
    then have "2 ^ k dvd (h + a) - (h + j)"
      using j by (intro mod_eq_dvd_iff_nat [THEN iffD1]) (auto simp: a_def)
    then have "2 ^ k dvd a - j" by simp
    then show False
      using a j by (auto simp: a_def dest: dvd_imp_le)
  qed
  then show ?thesis
    using slot [of j] slot [of a] j by (subst cq_tail_eq) (simp add: a_def)
qed

subsection \<open>What each operation leaves alone\<close>

lemmas cq_prims = post_locked_def op_release_def overflow_inc_def upd_op_def Let_def
  op_alloc_locked_def set_pad2_def

lemma same_core_prims [simp]:
  "same_core (post_locked ud res fl r) s \<longleftrightarrow> same_core r s"
  "same_core (op_release i r) s \<longleftrightarrow> same_core r s"
  "same_core (overflow_inc r) s \<longleftrightarrow> same_core r s"
  "same_core (upd_op i f r) s \<longleftrightarrow> same_core r s"
  "same_core (r\<lparr>r_backlog := bs\<rparr>) s \<longleftrightarrow> same_core r s"
  "same_core (r\<lparr>r_op_free := fs\<rparr>) s \<longleftrightarrow> same_core r s"
  "same_core (r\<lparr>r_op_pool := p\<rparr>) s \<longleftrightarrow> same_core r s"
  "same_core (r\<lparr>r_op_free := fs, r_op_pool := p\<rparr>) s \<longleftrightarrow> same_core r s"
  by (simp_all add: same_core_def cq_prims)

lemma backlog_same_core [simp]: "same_core (backlog_locked i res r) s \<longleftrightarrow> same_core r s"
  by (simp add: backlog_locked_def Let_def)

lemma alloc_same_core: "op_alloc_locked r = (x, r') \<Longrightarrow> same_core r' s \<longleftrightarrow> same_core r s"
  by (auto simp: op_alloc_locked_def split: list.splits)

lemma drain_empty: "r_backlog r = [] \<Longrightarrow> drain_backlog_locked r = r"
  by (subst drain_backlog_locked.simps) simp

lemma drain_induct [case_names stop step]:
  assumes stop: "\<And>r. r_backlog r = [] \<or> \<not> cq_room r \<Longrightarrow> P r r"
    and step: "\<And>r i bs r' s. \<lbrakk>r_backlog r = i # bs; cq_room r;
       s = op_release i (post_locked (sqe_user_data (sqe_of r i)) (res_of_pad2 (sqe_pad2 (sqe_of r i)))
             (op_cqe_flags (the_op r i)) (r\<lparr>r_backlog := bs\<rparr>)); P s r'\<rbrakk> \<Longrightarrow> P r r'"
  shows "P r (drain_backlog_locked r)"
proof (induction r rule: drain_backlog_locked.induct)
  case (1 r)
  consider (stop) "r_backlog r = [] \<or> \<not> cq_room r" | (go) i bs where "r_backlog r = i # bs" "cq_room r"
    by (cases "r_backlog r") auto
  then show ?case
  proof cases
    case stop
    then have "drain_backlog_locked r = r"
      by (subst drain_backlog_locked.simps) (auto split: list.split)
    with assms(1) [OF stop] show ?thesis by simp
  next
    case go
    have "drain_backlog_locked r = drain_backlog_locked (op_release i
        (post_locked (sqe_user_data (sqe_of r i)) (res_of_pad2 (sqe_pad2 (sqe_of r i)))
             (op_cqe_flags (the_op r i)) (r\<lparr>r_backlog := bs\<rparr>)))"
      using go by (subst drain_backlog_locked.simps) simp
    with step [OF go refl 1 [OF go]] show ?thesis by (simp only:)
  qed
qed

lemma drain_same_core [simp]: "same_core (drain_backlog_locked r) s \<longleftrightarrow> same_core r s"
  by (induction r rule: drain_induct) simp_all

lemma drain_pool [simp]: "r_op_pool (drain_backlog_locked r) = r_op_pool r"
  by (induction r rule: drain_induct) (simp_all add: cq_prims)

lemma post_same_core [simp]: "same_core (slip_engine_post i res r) s \<longleftrightarrow> same_core r s"
  by (simp add: slip_engine_post_def Let_def)

lemma emit_same_core [simp]: "same_core (slip_engine_emit ud res fl r) s \<longleftrightarrow> same_core r s"
  by (auto simp: slip_engine_emit_def Let_def alloc_same_core split: prod.split option.split)

lemma post_locked_fields [simp]:
  "cq_tail (r_cq (post_locked ud res fl r)) = cq_tail (r_cq r) + 1"
  "cq_head (r_cq (post_locked ud res fl r)) = cq_head (r_cq r)"
  "cq_ring_mask (r_cq (post_locked ud res fl r)) = cq_ring_mask (r_cq r)"
  "r_cq_entries (post_locked ud res fl r) = r_cq_entries r"
  "r_backlog (post_locked ud res fl r) = r_backlog r"
  "r_op_pool (post_locked ud res fl r) = r_op_pool r"
  "cq_slot (post_locked ud res fl r) = cq_slot r"
  "cq_avail (post_locked ud res fl r) = cq_avail r + 1"
  "cq_cqes (r_cq (post_locked ud res fl r)) = (cq_cqes (r_cq r))(cq_slot r (cq_tail (r_cq r)) :=
     \<lparr>cqe_user_data = ud, cqe_res = res, cqe_flags = fl\<rparr>)"
  by (simp_all add: post_locked_def Let_def cq_slot_def cq_avail_def fun_eq_iff)

lemma unat_avail_inc:
  assumes "cq_wf r" "cq_room r"
  shows "unat (cq_avail r + 1) = Suc (unat (cq_avail r))"
proof -
  obtain k where k: "k < 32" "unat (r_cq_entries r) = 2 ^ k"
    using cq_wf_pow2 [OF assms(1)] by blast
  have "unat (cq_avail r) < 2 ^ k"
    using assms(2) k(2) by (simp add: cq_room_def word_less_nat_alt)
  moreover have "(2 :: nat) ^ k \<le> 2 ^ 31" using k(1) by (intro power_increasing) auto
  ultimately show ?thesis by (simp add: unat_add_1_mod)
qed

lemma unread_post_locked:
  assumes "cq_wf r" "cq_room r"
  shows "unread (post_locked ud res fl r) =
    unread r @ [\<lparr>cqe_user_data = ud, cqe_res = res, cqe_flags = fl\<rparr>]"
proof -
  have "cq_head (r_cq r) + cq_avail r = cq_tail (r_cq r)"
    by (simp add: cq_avail_def)
  then show ?thesis
    using cq_slot_fresh [OF assms] by (simp add: unread_def unat_avail_inc [OF assms])
qed

lemma cq_wf_post_locked:
  assumes "cq_wf r" "cq_room r"
  shows "cq_wf (post_locked ud res fl r)"
  using assms unat_avail_inc [OF assms]
  by (auto simp: cq_wf_def cq_room_def word_le_nat_alt word_less_nat_alt)

text \<open>The other primitives do not touch the ring.\<close>

lemma unread_cong: "r_cq r' = r_cq r \<Longrightarrow> unread r' = unread r"
  by (simp add: unread_def cq_avail_def cq_slot_def)

lemma cq_wf_cong:
  "\<lbrakk>cq_tail (r_cq r') = cq_tail (r_cq r); cq_head (r_cq r') = cq_head (r_cq r);
    cq_ring_mask (r_cq r') = cq_ring_mask (r_cq r); r_cq_entries r' = r_cq_entries r\<rbrakk>
   \<Longrightarrow> cq_wf r' = cq_wf r"
  by (simp add: cq_wf_def cq_avail_def)

lemma release_view [simp]:
  "unread (op_release i r) = unread r" "cq_wf (op_release i r) = cq_wf r"
  "cq_room (op_release i r) = cq_room r" "backlog_cqe (op_release i r) = backlog_cqe r"
  "r_backlog (op_release i r) = r_backlog r" "cq_stream (op_release i r) = cq_stream r"
  by (simp_all add: op_release_def unread_def cq_avail_def cq_slot_def cq_wf_def cq_room_def
      backlog_cqe_def sqe_of_def the_op_def fun_eq_iff cq_stream_def)

lemma set_backlog_view [simp]:
  "unread (r\<lparr>r_backlog := bs\<rparr>) = unread r" "cq_wf (r\<lparr>r_backlog := bs\<rparr>) = cq_wf r"
  "cq_room (r\<lparr>r_backlog := bs\<rparr>) = cq_room r" "backlog_cqe (r\<lparr>r_backlog := bs\<rparr>) = backlog_cqe r"
  by (simp_all add: unread_def cq_avail_def cq_slot_def cq_wf_def cq_room_def
      backlog_cqe_def sqe_of_def the_op_def fun_eq_iff)

lemma post_locked_backlog_cqe [simp]: "backlog_cqe (post_locked ud res fl r) = backlog_cqe r"
  by (simp add: backlog_cqe_def sqe_of_def the_op_def fun_eq_iff)

lemma drain_wf_stream:
  assumes "cq_wf r"
  shows "cq_wf (drain_backlog_locked r) \<and> cq_stream (drain_backlog_locked r) = cq_stream r"
  using assms
proof (induction r rule: drain_induct)
  case (step r i bs r' s)
  define p where "p = post_locked (sqe_user_data (sqe_of r i)) (res_of_pad2 (sqe_pad2 (sqe_of r i)))
    (op_cqe_flags (the_op r i)) (r\<lparr>r_backlog := bs\<rparr>)"
  have "cq_wf p" and u: "unread p = unread r @ [backlog_cqe r i]"
    using step.prems step(2)
    by (simp_all add: p_def cq_wf_post_locked unread_post_locked backlog_cqe_def)
  then have "cq_wf s" and "cq_stream s = cq_stream r"
    using step(1) by (simp_all add: step(3) p_def [symmetric] cq_stream_def)
      (simp_all add: p_def)
  with step.IH show ?case by simp
qed simp

lemmas drain_wf [simp] = drain_wf_stream [THEN conjunct1]
lemmas drain_stream [simp] = drain_wf_stream [THEN conjunct2]

lemma drain_stops: "r_backlog (drain_backlog_locked r) = [] \<or> \<not> cq_room (drain_backlog_locked r)"
  by (induction r rule: drain_induct) auto

lemma drain_acct [simp]: "acct (drain_backlog_locked r) = acct r"
  by (induction r rule: drain_induct) (simp_all add: acct_def cq_prims)

lemma drain_backlog_subset: "set (r_backlog (drain_backlog_locked r)) \<subseteq> set (r_backlog r)"
  by (induction r rule: drain_induct) (auto simp: op_release_def)

lemma drain_sqe_of [simp]:
  "sqe_of (drain_backlog_locked r) = sqe_of r" "the_op (drain_backlog_locked r) = the_op r"
  by (simp_all add: sqe_of_def the_op_def fun_eq_iff)

subsection \<open>The two doors\<close>

lemma sqe_of_set_pad2 [simp]:
  "sqe_user_data (op_sqe (set_pad2 p op)) = sqe_user_data (op_sqe op)"
  "sqe_flags (op_sqe (set_pad2 p op)) = sqe_flags (op_sqe op)"
  "sqe_pad2 (op_sqe (set_pad2 p op)) = p"
  "op_cqe_flags (set_pad2 p op) = op_cqe_flags op"
  by (simp_all add: set_pad2_def)

lemma overflow_view [simp]:
  "unread (overflow_inc r) = unread r" "cq_wf (overflow_inc r) = cq_wf r"
  "cq_stream (overflow_inc r) = cq_stream r" "backlog_cqe (overflow_inc r) = backlog_cqe r"
  "r_backlog (overflow_inc r) = r_backlog r"
  by (simp_all add: overflow_inc_def unread_def cq_avail_def cq_slot_def cq_wf_def cq_stream_def
      backlog_cqe_def sqe_of_def the_op_def fun_eq_iff)

lemma upd_op_view [simp]:
  "unread (upd_op i f r) = unread r" "cq_wf (upd_op i f r) = cq_wf r"
  "cq_room (upd_op i f r) = cq_room r" "r_backlog (upd_op i f r) = r_backlog r"
  "r_cq (upd_op i f r) = r_cq r" "r_op_free (upd_op i f r) = r_op_free r"
  by (simp_all add: upd_op_def unread_def cq_avail_def cq_slot_def cq_wf_def cq_room_def)

lemma the_op_upd_op [simp]: "the_op (upd_op i f r) j = (if j = i then f (the_op r i) else the_op r j)"
  by (simp add: the_op_def upd_op_def)

lemma backlog_locked_view:
  assumes "i \<notin> set (r_backlog r)"
  shows "cq_stream (backlog_locked i res r) = cq_stream r @
    [\<lparr>cqe_user_data = sqe_user_data (sqe_of r i), cqe_res = res, cqe_flags = op_cqe_flags (the_op r i)\<rparr>]"
  using assms
  by (auto simp: backlog_locked_def Let_def cq_stream_def backlog_cqe_def sqe_of_def)

lemma backlog_locked_wf [simp]: "cq_wf (backlog_locked i res r) = cq_wf r"
  by (simp add: backlog_locked_def Let_def)

lemma backlog_locked_acct [simp]: "acct (backlog_locked i res r) = add_mset i (acct r)"
  by (simp add: backlog_locked_def acct_def cq_prims)

lemma post_locked_stream:
  assumes "cq_wf r" "cq_room r" "r_backlog r = []"
  shows "cq_stream (post_locked ud res fl r) =
    cq_stream r @ [\<lparr>cqe_user_data = ud, cqe_res = res, cqe_flags = fl\<rparr>]"
  using assms by (simp add: cq_stream_def unread_post_locked)

lemma post_locked_acct [simp]: "acct (post_locked ud res fl r) = acct r"
  by (simp add: acct_def post_locked_def Let_def)

lemma upd_op_acct [simp]: "acct (upd_op i f r) = acct r"
  by (simp add: acct_def upd_op_def)

lemma overflow_acct [simp]: "acct (overflow_inc r) = acct r"
  by (simp add: acct_def overflow_inc_def)

lemma release_acct [simp]: "acct (op_release i r) = add_mset i (acct r)"
  by (simp add: acct_def op_release_def)

lemma post_wf [simp]: "cq_wf r \<Longrightarrow> cq_wf (slip_engine_post i res r)"
  by (simp add: slip_engine_post_def Let_def cq_wf_post_locked)

lemma post_acct [simp]: "acct (slip_engine_post i res r) = add_mset i (acct r)"
  by (simp add: slip_engine_post_def Let_def)

lemma post_stream:
  assumes "cq_wf r" "i \<notin> set (r_backlog r)"
  shows "cq_stream (slip_engine_post i res r) = cq_stream r @ completion_of r i res"
proof -
  define d where "d = drain_backlog_locked r"
  have "cq_wf d" and "cq_stream d = cq_stream r" and "i \<notin> set (r_backlog d)"
    and "r_backlog d = [] \<or> \<not> cq_room d"
    using assms drain_backlog_subset [of r] drain_stops [of r] by (auto simp: d_def)
  then show ?thesis
    by (auto simp: slip_engine_post_def Let_def d_def [symmetric] completion_of_def
        post_locked_stream backlog_locked_view) (simp_all add: d_def)
qed

lemma alloc_None: "op_alloc_locked r = (None, r') \<Longrightarrow> r' = r \<and> r_op_free r = []"
  by (simp add: op_alloc_locked_def split: list.splits)

lemma alloc_Some:
  assumes "op_alloc_locked r = (Some i, r')"
  shows "acct r = add_mset i (acct r')" "cq_wf r' = cq_wf r" "unread r' = unread r"
    "r_backlog r' = r_backlog r" "the_op r' = (the_op r)(i := zero_op)" "i \<in> set (r_op_free r)"
    "r_cq r' = r_cq r"
proof -
  obtain fs where "r_op_free r = i # fs"
    and r': "r' = r\<lparr>r_op_free := fs, r_op_pool := (r_op_pool r)(i := zero_op)\<rparr>"
    using assms by (auto simp: op_alloc_locked_def split: list.splits)
  then show "acct r = add_mset i (acct r')" "cq_wf r' = cq_wf r" "unread r' = unread r"
    "r_backlog r' = r_backlog r" "the_op r' = (the_op r)(i := zero_op)" "i \<in> set (r_op_free r)"
    "r_cq r' = r_cq r"
    by (simp_all add: acct_def unread_def cq_wf_def cq_avail_def cq_slot_def the_op_def fun_eq_iff)
qed

lemma emit_cases:
  obtains (room) "cq_room (drain_backlog_locked r)"
      "slip_engine_emit ud res fl r = post_locked ud res fl (drain_backlog_locked r)"
    | (carried) i r' where "\<not> cq_room (drain_backlog_locked r)"
      "op_alloc_locked (drain_backlog_locked r) = (Some i, r')"
      "slip_engine_emit ud res fl r = backlog_locked i res
         (upd_op i (\<lambda>op. op\<lparr>op_sqe := (op_sqe op)\<lparr>sqe_user_data := ud\<rparr>, op_cqe_flags := fl\<rparr>) r')"
    | (lost) "\<not> cq_room (drain_backlog_locked r)" "r_op_free (drain_backlog_locked r) = []"
      "slip_engine_emit ud res fl r = overflow_inc (drain_backlog_locked r)"
proof (cases "cq_room (drain_backlog_locked r)")
  case True
  then show ?thesis by (rule room) (simp add: slip_engine_emit_def True)
next
  case False
  obtain x r' where a: "op_alloc_locked (drain_backlog_locked r) = (x, r')" by fastforce
  show ?thesis
  proof (cases x)
    case None
    with a have "r' = drain_backlog_locked r" "r_op_free (drain_backlog_locked r) = []"
      by (auto dest: alloc_None)
    with a None False show ?thesis by (intro lost) (simp_all add: slip_engine_emit_def)
  next
    case (Some i)
    with a False show ?thesis by (intro carried) (simp_all add: slip_engine_emit_def)
  qed
qed

lemma emit_wf [simp]:
  assumes "cq_wf r"
  shows "cq_wf (slip_engine_emit ud res fl r)"
  using assms
  by (cases rule: emit_cases [of r ud res fl]) (simp_all add: cq_wf_post_locked alloc_Some(2))

lemma emit_acct [simp]: "acct (slip_engine_emit ud res fl r) = acct r"
  by (cases rule: emit_cases [of r ud res fl]) (simp_all, metis alloc_Some(1) drain_acct)

lemma pool_ok_free_backlog:
  assumes "pool_ok r H" "i \<in> set (r_op_free r)"
  shows "i \<notin> set (r_backlog r)"
proof
  assume "i \<in> set (r_backlog r)"
  with assms(2) have "count (mset (r_op_free r)) i > 0" "count (mset (r_backlog r)) i > 0"
    by simp_all
  with pool_ok_count_le [OF assms(1), of i] show False by (simp add: acct_def)
qed

lemma emit_stream:
  assumes "cq_wf r" "pool_ok r H"
  shows "cq_stream (slip_engine_emit ud res fl r) =
    (if cq_room (drain_backlog_locked r) \<or> r_op_free (drain_backlog_locked r) \<noteq> []
     then cq_stream r @ [\<lparr>cqe_user_data = ud, cqe_res = res, cqe_flags = fl\<rparr>] else cq_stream r)"
proof (cases rule: emit_cases [of r ud res fl])
  case room
  then show ?thesis
    using assms(1) drain_stops [of r] by (simp add: post_locked_stream)
next
  case (carried i r')
  have "pool_ok (drain_backlog_locked r) H"
    using assms(2) by (simp add: pool_ok_def) (metis drain_same_core same_core_def same_core_refl)
  moreover have f: "i \<in> set (r_op_free (drain_backlog_locked r))"
    by (rule alloc_Some(6) [OF carried(2)])
  ultimately have nb: "i \<notin> set (r_backlog r')"
    using alloc_Some(4) [OF carried(2)] pool_ok_free_backlog by metis
  have "cq_stream r' = cq_stream (drain_backlog_locked r)"
    using nb alloc_Some [OF carried(2)] by (auto simp: cq_stream_def backlog_cqe_def sqe_of_def)
  moreover have "cq_stream (upd_op i g r') = cq_stream r'" for g
    using nb by (auto simp: cq_stream_def backlog_cqe_def sqe_of_def)
  ultimately show ?thesis
    using f assms(1) nb by (auto simp: carried(1,3) backlog_locked_view sqe_of_def)
next
  case lost
  then show ?thesis using assms(1) by simp
qed

subsection \<open>What the reader sees\<close>

text \<open>Entries that were published stay where they are, whatever is posted after them.\<close>

lemma unread_bound: "cq_wf r \<Longrightarrow> length (unread r) \<le> unat (r_cq_entries r)"
  by (simp add: unread_def cq_wf_def word_le_nat_alt)

lemma drain_unread: "cq_wf r \<Longrightarrow> \<exists>xs. unread (drain_backlog_locked r) = unread r @ xs"
proof (induction r rule: drain_induct)
  case (step r i bs r' s)
  let ?p = "post_locked (sqe_user_data (sqe_of r i)) (res_of_pad2 (sqe_pad2 (sqe_of r i)))
    (op_cqe_flags (the_op r i)) (r\<lparr>r_backlog := bs\<rparr>)"
  have "cq_wf ?p" "\<exists>x. unread ?p = unread r @ [x]"
    using step.prems step(2) by (simp_all add: cq_wf_post_locked unread_post_locked)
  then show ?case using step.IH by (auto simp: step(3))
qed simp

lemma post_unread:
  assumes "cq_wf r"
  shows "\<exists>xs. unread (slip_engine_post i res r) = unread r @ xs"
proof -
  define d where "d = drain_backlog_locked r"
  obtain xs where d: "unread d = unread r @ xs" "cq_wf d"
    using drain_unread [OF assms] assms by (auto simp: d_def)
  have "unread (backlog_locked i res d) = unread d" by (simp add: backlog_locked_def Let_def)
  with d show ?thesis
    by (auto simp: slip_engine_post_def Let_def d_def [symmetric] unread_post_locked)
qed

end
