(* ===== verification/FixedFiles.thy ===== *)
theory FixedFiles
  imports Ring
begin

text \<open>
  The fixed file table (\<open>src/src/slipstream_engine.c\<close>): slots that hold real descriptors, a
  negative number in an empty one, and the alloc range a direct install may pick from.
\<close>

subsection \<open>The code\<close>

definition fixed_n :: "'b slip_ring \<Rightarrow> u32" where
  "fixed_n r = (case r_fixed r of None \<Rightarrow> 0 | Some t \<Rightarrow> of_nat (length t))"

definition slip_fixed_lookup :: "'b slip_ring \<Rightarrow> i32 \<Rightarrow> i32" where
  "slip_fixed_lookup r slot =
     (case r_fixed r of
        None \<Rightarrow> - EBADF
      | Some t \<Rightarrow>
          if neg32 slot \<or> fixed_n r \<le> slot \<or> neg32 (t ! unat slot) then - EBADF
          else t ! unat slot)"

text \<open>The scan of the alloc range: at most \<open>alloc_len\<close> probes, wrapping at its end.\<close>

fun alloc_scan :: "i32 list \<Rightarrow> u32 \<Rightarrow> u32 \<Rightarrow> nat \<Rightarrow> u32 \<Rightarrow> u32 option" where
  "alloc_scan t off endp 0 probe = None"
| "alloc_scan t off endp (Suc n) probe =
     (if neg32 (t ! unat probe) then Some probe
      else alloc_scan t off endp n (if endp \<le> probe + 1 then off else probe + 1))"

definition slip_fixed_install :: "'b slip_ring \<Rightarrow> u32 \<Rightarrow> i32 \<Rightarrow> i32 \<times> 'b slip_ring" where
  "slip_fixed_install r file_index realfd =
     (case r_fixed r of
        None \<Rightarrow> (- ENXIO, r)
      | Some t \<Rightarrow>
          if file_index = FILE_INDEX_ALLOC then
            let endp = r_alloc_off r + r_alloc_len r;
                probe = (if r_alloc_hint r < r_alloc_off r \<or> endp \<le> r_alloc_hint r
                         then r_alloc_off r else r_alloc_hint r)
            in (case alloc_scan t (r_alloc_off r) endp (unat (r_alloc_len r)) probe of
                  Some p \<Rightarrow> (p, r\<lparr>r_fixed := Some (t[unat p := realfd]), r_alloc_hint := p + 1\<rparr>)
                | None \<Rightarrow> (- ENFILE, r))
          else
            let slot = file_index - 1 in
            if fixed_n r \<le> slot then (- EBADF, r)
            else if \<not> neg32 (t ! unat slot) then (- EBUSY, r)
            else (slot, r\<lparr>r_fixed := Some (t[unat slot := realfd])\<rparr>))"

definition slip_fixed_clear :: "'b slip_ring \<Rightarrow> u32 \<Rightarrow> i32 \<times> 'b slip_ring" where
  "slip_fixed_clear r slot =
     (case r_fixed r of
        None \<Rightarrow> (- EBADF, r)
      | Some t \<Rightarrow>
          if fixed_n r \<le> slot \<or> neg32 (t ! unat slot) then (- EBADF, r)
          else (0, r\<lparr>r_fixed := Some (t[unat slot := - 1]),
                    r_alloc_hint := (if r_alloc_off r \<le> slot \<and> slot < r_alloc_hint r then slot
                                     else r_alloc_hint r)\<rparr>))"

subsection \<open>What holds of every table\<close>

definition fixed_wf :: "'b slip_ring \<Rightarrow> bool" where
  "fixed_wf r \<longleftrightarrow>
     (case r_fixed r of
        None \<Rightarrow> True
      | Some t \<Rightarrow> 0 < length t \<and> length t \<le> 2 ^ 20 \<and>
          unat (r_alloc_off r) + unat (r_alloc_len r) \<le> length t \<and>
          unat (r_alloc_hint r) \<le> length t)"

lemma fixed_wf_cong:
  "\<lbrakk>r_fixed r' = r_fixed r; r_alloc_off r' = r_alloc_off r; r_alloc_len r' = r_alloc_len r;
    r_alloc_hint r' = r_alloc_hint r\<rbrakk> \<Longrightarrow> fixed_wf r' = fixed_wf r"
  by (simp add: fixed_wf_def split: option.split)

definition slot_free :: "'b slip_ring \<Rightarrow> nat \<Rightarrow> bool" where
  "slot_free r k \<longleftrightarrow> (case r_fixed r of None \<Rightarrow> False | Some t \<Rightarrow> k < length t \<and> neg32 (t ! k))"

text \<open>The slots of the alloc range.\<close>

definition alloc_range :: "'b slip_ring \<Rightarrow> nat set" where
  "alloc_range r = {unat (r_alloc_off r)..<unat (r_alloc_off r) + unat (r_alloc_len r)}"

lemma fixed_n_unat: "length t < 2 ^ 32 \<Longrightarrow> r_fixed r = Some t \<Longrightarrow> unat (fixed_n r) = length t"
  by (simp add: fixed_n_def unat_of_nat)

lemma fixed_wf_table:
  assumes "fixed_wf r" "r_fixed r = Some t"
  shows "unat (fixed_n r) = length t" "length t \<le> 2 ^ 20" "0 < length t"
    "unat (r_alloc_off r) + unat (r_alloc_len r) \<le> length t" "unat (r_alloc_hint r) \<le> length t"
    "\<And>x. fixed_n r \<le> x \<longleftrightarrow> length t \<le> unat x"
proof -
  have b: "length t \<le> 2 ^ 20" using assms by (simp add: fixed_wf_def)
  then show n: "unat (fixed_n r) = length t" using assms(2) by (simp add: fixed_n_unat)
  from assms show "length t \<le> 2 ^ 20" "0 < length t"
    "unat (r_alloc_off r) + unat (r_alloc_len r) \<le> length t" "unat (r_alloc_hint r) \<le> length t"
    by (simp_all add: fixed_wf_def)
  show "fixed_n r \<le> x \<longleftrightarrow> length t \<le> unat x" for x
    using n by (simp add: word_le_nat_alt)
qed

subsection \<open>The scan\<close>

text \<open>The \<open>j\<close>-th slot the scan looks at, from \<open>q\<close> slots above the start of the range.\<close>

lemma scan_next:
  fixes off probe endp :: u32
  assumes o: "unat off + l < 2 ^ 32" "0 < l" and e: "endp = off + of_nat l"
    and p: "unat probe = unat off + q" "q < l"
  shows "unat (if endp \<le> probe + 1 then off else probe + 1) = unat off + (q + 1) mod l"
proof -
  have l: "unat (of_nat l :: u32) = l" using o by (simp add: unat_of_nat)
  have "unat endp = unat off + l" using o l by (simp add: e unat_word_ariths)
  moreover have "unat (probe + 1) = unat off + q + 1"
    using o p by (simp add: unat_add_1_mod)
  ultimately have "endp \<le> probe + 1 \<longleftrightarrow> l \<le> q + 1"
    by (simp add: word_le_nat_alt)
  moreover have "l \<le> q + 1 \<longleftrightarrow> q + 1 = l" using p(2) by auto
  ultimately show ?thesis
    using p \<open>unat (probe + 1) = unat off + q + 1\<close> by auto
qed

lemma alloc_scan_spec:
  fixes off probe endp :: u32
  assumes "unat off + l < 2 ^ 32" "0 < l" "endp = off + of_nat l"
    and "unat probe = unat off + q" "q < l"
  shows "case alloc_scan t off endp n probe of
      Some p \<Rightarrow> \<exists>j<n. unat p = unat off + (q + j) mod l \<and> neg32 (t ! unat p) \<and>
        (\<forall>i<j. \<not> neg32 (t ! (unat off + (q + i) mod l)))
    | None \<Rightarrow> \<forall>j<n. \<not> neg32 (t ! (unat off + (q + j) mod l))"
  using assms(4,5)
proof (induction n arbitrary: probe q)
  case 0
  then show ?case by simp
next
  case (Suc n)
  show ?case
  proof (cases "neg32 (t ! unat probe)")
    case True
    with Suc.prems show ?thesis by (auto intro!: exI [of _ 0])
  next
    case False
    define probe' q' where "probe' = (if endp \<le> probe + 1 then off else probe + 1)"
      and "q' = (q + 1) mod l"
    have p': "unat probe' = unat off + q'"
      unfolding probe'_def q'_def by (rule scan_next [OF assms(1-3) Suc.prems])
    have q': "q' < l" using assms(2) by (simp add: q'_def)
    have shift: "(q' + j) mod l = (q + Suc j) mod l" for j
      by (simp add: q'_def mod_add_left_eq)
    have zero: "\<not> neg32 (t ! (unat off + (q + 0) mod l))"
      using False Suc.prems by simp
    have step: "(\<forall>i<Suc j. \<not> neg32 (t ! (unat off + (q + i) mod l))) \<longleftrightarrow>
        (\<forall>i<j. \<not> neg32 (t ! (unat off + (q' + i) mod l)))" for j
      unfolding shift using zero by (auto simp: less_Suc_eq_0_disj)
    have eq: "alloc_scan t off endp (Suc n) probe = alloc_scan t off endp n probe'"
      using False by (simp add: probe'_def)
    show ?thesis
    proof (cases "alloc_scan t off endp n probe'")
      case None
      then have "\<forall>i<Suc n. \<not> neg32 (t ! (unat off + (q + i) mod l))"
        using Suc.IH [OF p' q'] by (simp only: step option.case)
      then show ?thesis unfolding eq None by simp
    next
      case (Some p)
      then obtain j where j: "j < n" "unat p = unat off + (q' + j) mod l" "neg32 (t ! unat p)"
        "\<forall>i<j. \<not> neg32 (t ! (unat off + (q' + i) mod l))"
        using Suc.IH [OF p' q'] by auto
      then have "Suc j < Suc n" "unat p = unat off + (q + Suc j) mod l"
        "\<forall>i<Suc j. \<not> neg32 (t ! (unat off + (q + i) mod l))"
        by (simp_all only: step shift)
      with j(3) show ?thesis unfolding eq Some by auto
    qed
  qed
qed

text \<open>So the scan finds an empty slot of the range exactly when there is one.\<close>

lemma alloc_scan_range:
  assumes wf: "fixed_wf r" and t: "r_fixed r = Some t"
    and probe: "probe = (if r_alloc_hint r < r_alloc_off r \<or> r_alloc_off r + r_alloc_len r \<le> r_alloc_hint r
                         then r_alloc_off r else r_alloc_hint r)"
  shows "case alloc_scan t (r_alloc_off r) (r_alloc_off r + r_alloc_len r) (unat (r_alloc_len r)) probe of
      Some p \<Rightarrow> unat p \<in> alloc_range r \<and> slot_free r (unat p)
    | None \<Rightarrow> \<forall>k \<in> alloc_range r. \<not> slot_free r k"
proof (cases "r_alloc_len r = 0")
  case True
  then show ?thesis by (simp add: alloc_range_def)
next
  case False
  define o' l where "o' = unat (r_alloc_off r)" and "l = unat (r_alloc_len r)"
  note table = fixed_wf_table [OF wf t]
  have l: "0 < l" using False by (simp add: l_def unat_gt_0)
  have ol: "o' + l \<le> length t" "o' + l < 2 ^ 32" using table(2,4) by (simp_all add: o'_def l_def)
  have endp: "unat (r_alloc_off r + r_alloc_len r) = o' + l"
    using ol(2) by (simp add: unat_word_ariths o'_def l_def)
  define q where "q = unat probe - o'"
  have q: "unat probe = o' + q" "q < l"
    using l endp unfolding probe q_def
    by (auto simp: word_less_nat_alt word_le_nat_alt o'_def l_def not_le not_less)
  have spec: "case alloc_scan t (r_alloc_off r) (r_alloc_off r + r_alloc_len r) l probe of
      Some p \<Rightarrow> \<exists>j<l. unat p = o' + (q + j) mod l \<and> neg32 (t ! unat p) \<and>
        (\<forall>i<j. \<not> neg32 (t ! (o' + (q + i) mod l)))
    | None \<Rightarrow> \<forall>j<l. \<not> neg32 (t ! (o' + (q + j) mod l))"
    unfolding o'_def
    by (rule alloc_scan_spec) (use ol(2) l q in \<open>simp_all add: o'_def l_def\<close>)
  have hit: "\<exists>j<l. k = o' + (q + j) mod l" if "k \<in> alloc_range r" for k
  proof -
    from that have k: "o' \<le> k" "k < o' + l" by (auto simp: alloc_range_def o'_def l_def)
    let ?j = "(k - o' + (l - q)) mod l"
    have "(q + ?j) mod l = (q + (k - o' + (l - q))) mod l" by (simp add: mod_add_right_eq)
    also have "q + (k - o' + (l - q)) = (k - o') + l" using q(2) k by simp
    also have "((k - o') + l) mod l = k - o'" unfolding mod_add_self2 using k by (intro mod_less) simp
    finally show ?thesis using l k(1) by (intro exI [of _ ?j]) simp
  qed
  have free: "slot_free r k \<longleftrightarrow> k < length t \<and> neg32 (t ! k)" for k
    by (simp add: slot_free_def t)
  show ?thesis
  proof (cases "alloc_scan t (r_alloc_off r) (r_alloc_off r + r_alloc_len r) l probe")
    case None
    then have "\<forall>k \<in> alloc_range r. \<not> slot_free r k"
      using spec hit by (auto simp: free)
    with None show ?thesis by (simp add: l_def)
  next
    case (Some p)
    then obtain j where "unat p = o' + (q + j) mod l" and n: "neg32 (t ! unat p)"
      using spec by auto
    moreover have "(q + j) mod l < l" using l by simp
    ultimately have "o' \<le> unat p" "unat p < o' + l" by simp_all
    then have "unat p \<in> alloc_range r" "unat p < length t"
      using ol(1) by (simp_all add: alloc_range_def o'_def l_def)
    with n Some show ?thesis by (simp add: l_def free)
  qed
qed

subsection \<open>Install, look up, clear\<close>

lemma install_alloc_cases:
  assumes "fixed_wf r"
  obtains (null) "r_fixed r = None" "slip_fixed_install r FILE_INDEX_ALLOC fd = (- ENXIO, r)"
    | (full) t where "r_fixed r = Some t" "\<forall>k \<in> alloc_range r. \<not> slot_free r k"
        "slip_fixed_install r FILE_INDEX_ALLOC fd = (- ENFILE, r)"
    | (found) t p where "r_fixed r = Some t" "unat p \<in> alloc_range r" "slot_free r (unat p)"
        "slip_fixed_install r FILE_INDEX_ALLOC fd =
           (p, r\<lparr>r_fixed := Some (t[unat p := fd]), r_alloc_hint := p + 1\<rparr>)"
proof (cases "r_fixed r")
  case None
  then show ?thesis by (intro null) (simp_all add: slip_fixed_install_def)
next
  case (Some t)
  let ?probe = "if r_alloc_hint r < r_alloc_off r \<or> r_alloc_off r + r_alloc_len r \<le> r_alloc_hint r
    then r_alloc_off r else r_alloc_hint r"
  let ?scan = "alloc_scan t (r_alloc_off r) (r_alloc_off r + r_alloc_len r) (unat (r_alloc_len r)) ?probe"
  note spec = alloc_scan_range [OF assms Some refl]
  have eq: "slip_fixed_install r FILE_INDEX_ALLOC fd = (case ?scan of
      Some p \<Rightarrow> (p, r\<lparr>r_fixed := Some (t[unat p := fd]), r_alloc_hint := p + 1\<rparr>) | None \<Rightarrow> (- ENFILE, r))"
    by (simp add: slip_fixed_install_def Some Let_def cong: if_cong)
  show ?thesis
  proof (cases ?scan)
    case None
    with spec eq show ?thesis by (intro full [OF Some]) simp_all
  next
    case (Some p)
    with spec eq \<open>r_fixed r = Some t\<close> show ?thesis by (intro found) simp_all
  qed
qed

lemma slot_free_table: "r_fixed r = Some t \<Longrightarrow> slot_free r k \<longleftrightarrow> k < length t \<and> neg32 (t ! k)"
  by (simp add: slot_free_def)

lemma lookup_table:
  assumes "fixed_wf r" "r_fixed r = Some t"
  shows "slip_fixed_lookup r slot = (if unat slot < length t \<and> \<not> neg32 (t ! unat slot)
    then t ! unat slot else - EBADF)"
proof -
  have "\<not> neg32 slot" if "unat slot < length t"
    using that fixed_wf_table(2) [OF assms] by (intro neg32_small) simp
  then show ?thesis
    using fixed_wf_table(6) [OF assms] by (auto simp: slip_fixed_lookup_def assms(2) not_le)
qed

lemma install_named_table:
  assumes "fixed_wf r" "r_fixed r = Some t" "x \<noteq> FILE_INDEX_ALLOC"
  shows "slip_fixed_install r x fd =
    (if length t \<le> unat (x - 1) then (- EBADF, r)
     else if \<not> neg32 (t ! unat (x - 1)) then (- EBUSY, r)
     else (x - 1, r\<lparr>r_fixed := Some (t[unat (x - 1) := fd])\<rparr>))"
  using fixed_wf_table(6) [OF assms(1,2)] assms(2,3) by (simp add: slip_fixed_install_def Let_def)

lemma clear_table:
  assumes "fixed_wf r" "r_fixed r = Some t"
  shows "slip_fixed_clear r slot =
    (if length t \<le> unat slot \<or> neg32 (t ! unat slot) then (- EBADF, r)
     else (0, r\<lparr>r_fixed := Some (t[unat slot := - 1]),
                r_alloc_hint := (if r_alloc_off r \<le> slot \<and> slot < r_alloc_hint r then slot
                                 else r_alloc_hint r)\<rparr>))"
  using fixed_wf_table(6) [OF assms] assms(2) by (simp add: slip_fixed_clear_def)

lemma install_result_neg:
  assumes "fixed_wf r" "slip_fixed_install r x fd = (s, r')" "neg32 s"
  shows "r' = r"
proof (cases "x = FILE_INDEX_ALLOC")
  case True
  show ?thesis
  proof (cases rule: install_alloc_cases [OF assms(1), of fd, case_names null full found])
    case (found t p)
    then have "\<not> neg32 p"
      using fixed_wf_table(2) [OF assms(1) found(1)]
      by (intro neg32_small) (simp add: slot_free_table)
    with found assms True show ?thesis by auto
  qed (use assms True in auto)
next
  case False
  show ?thesis
  proof (cases "r_fixed r")
    case None
    with assms False show ?thesis by (simp add: slip_fixed_install_def)
  next
    case (Some t)
    have "\<not> neg32 (x - 1)" if "\<not> length t \<le> unat (x - 1)"
      using that fixed_wf_table(2) [OF assms(1) Some] by (intro neg32_small) simp
    with Some assms False show ?thesis
      by (auto simp: install_named_table split: if_splits)
  qed
qed

lemma fixed_wf_install:
  assumes "fixed_wf r"
  shows "fixed_wf (snd (slip_fixed_install r x fd))"
proof (cases "x = FILE_INDEX_ALLOC")
  case True
  show ?thesis
  proof (cases rule: install_alloc_cases [OF assms, of fd, case_names null full found])
    case (found t p)
    have "unat (p + 1) \<le> length t"
      using found(1,3) fixed_wf_table(2) [OF assms found(1)]
      by (simp add: slot_free_table unat_add_1_mod)
    with found assms True show ?thesis by (simp add: fixed_wf_def)
  qed (use assms True in auto)
next
  case False
  show ?thesis
  proof (cases "r_fixed r")
    case None
    with assms False show ?thesis by (simp add: slip_fixed_install_def)
  next
    case (Some t)
    with assms show ?thesis
      using install_named_table [OF assms Some False, of fd] by (auto simp: fixed_wf_def)
  qed
qed

lemma fixed_wf_clear:
  assumes "fixed_wf r"
  shows "fixed_wf (snd (slip_fixed_clear r slot))"
proof (cases "r_fixed r")
  case None
  with assms show ?thesis by (simp add: slip_fixed_clear_def)
next
  case (Some t)
  with assms show ?thesis
    using clear_table [OF assms Some, of slot] by (auto simp: fixed_wf_def)
qed

lemma install_shape_ok:
  assumes "fixed_wf r" "slip_fixed_install r x fd = (s, r')" "\<not> neg32 s"
  obtains t where "r_fixed r = Some t" "unat s < length t" "r_fixed r' = Some (t[unat s := fd])"
proof (cases "r_fixed r")
  case None
  with assms show thesis by (auto simp: slip_fixed_install_def)
next
  case (Some t)
  show thesis
  proof (cases "x = FILE_INDEX_ALLOC")
    case True
    show thesis
    proof (cases rule: install_alloc_cases [OF assms(1), of fd, case_names null full found])
      case (found u p)
      with True assms(2) Some show thesis
        by (intro that [of u]) (auto simp: slot_free_table)
    qed (use True assms Some in auto)
  next
    case False
    with assms(2,3) Some show thesis
      by (intro that [OF Some]) (auto simp: install_named_table [OF assms(1) Some False] split: if_splits)
  qed
qed

end
