(* ===== verification/BufRings.thy ===== *)
theory BufRings
  imports Ring
begin

text \<open>
  Provided buffers (\<open>slip_bufring_of\<close> in \<open>src/src/slipstream_engine.c\<close>, \<open>bufring_take\<close> and
  \<open>bufring_unget\<close> in \<open>src/src/engine_posix.c\<close>).  The entries and the tail live in the
  caller's memory, read here through \<open>umem\<close>; the engine keeps a 16-bit head.
\<close>

subsection \<open>The caller's memory\<close>

record io_uring_buf =
  buf_addr :: u64
  buf_len :: u32
  buf_bid :: u16

record umem =
  um_tail :: "u64 \<Rightarrow> u16"                  \<comment> \<open>the tail that overlays \<open>bufs[0].resv\<close>\<close>
  um_buf :: "u64 \<Rightarrow> nat \<Rightarrow> io_uring_buf"

subsection \<open>The code\<close>

text \<open>\<open>slip_bufring_of\<close>: the first ring in use with that group, as its index.\<close>

definition slip_bufring_of :: "'b slip_ring \<Rightarrow> u16 \<Rightarrow> nat option" where
  "slip_bufring_of r bgid =
     List.find (\<lambda>i. br_in_use (r_bufrings r ! i) \<and> br_bgid (r_bufrings r ! i) = bgid)
       [0..<SLIP_BUFRINGS_MAX]"

definition upd_bufring :: "nat \<Rightarrow> (slip_bufring \<Rightarrow> slip_bufring) \<Rightarrow> 'b slip_ring \<Rightarrow> 'b slip_ring" where
  "upd_bufring i f r = r\<lparr>r_bufrings := (r_bufrings r)[i := f (r_bufrings r ! i)]\<rparr>"

definition buf_index :: "slip_bufring \<Rightarrow> nat" where
  "buf_index b = unat ((ucast (br_head b) :: u32) AND (br_entries b - 1))"

definition bufring_take :: "umem \<Rightarrow> 'b slip_ring \<Rightarrow> u16 \<Rightarrow> (i32 + io_uring_buf) \<times> 'b slip_ring" where
  "bufring_take m r bgid =
     (case slip_bufring_of r bgid of
        None \<Rightarrow> (Inl (- ENOBUFS), r)
      | Some i \<Rightarrow>
          let b = r_bufrings r ! i;
              tail = um_tail m (br_bufs b)
          in if tail = br_head b then (Inl (- ENOBUFS), r)
             else (Inr (um_buf m (br_bufs b) (buf_index b)),
                   upd_bufring i (\<lambda>b. b\<lparr>br_head := br_head b + 1\<rparr>) r))"

definition bufring_unget :: "'b slip_ring \<Rightarrow> u16 \<Rightarrow> 'b slip_ring" where
  "bufring_unget r bgid =
     (case slip_bufring_of r bgid of
        None \<Rightarrow> r
      | Some i \<Rightarrow> upd_bufring i (\<lambda>b. b\<lparr>br_head := br_head b - 1\<rparr>) r)"

subsection \<open>What holds of every registered ring\<close>

definition bufring_wf :: "slip_bufring \<Rightarrow> bool" where
  "bufring_wf b \<longleftrightarrow> br_in_use b \<longrightarrow> (\<exists>k\<le>15. unat (br_entries b) = 2 ^ k)"

definition bufrings_wf :: "'b slip_ring \<Rightarrow> bool" where
  "bufrings_wf r \<longleftrightarrow> length (r_bufrings r) = SLIP_BUFRINGS_MAX \<and> (\<forall>b \<in> set (r_bufrings r). bufring_wf b)"

lemma bufrings_wf_cong: "r_bufrings r' = r_bufrings r \<Longrightarrow> bufrings_wf r' = bufrings_wf r"
  by (simp add: bufrings_wf_def)

text \<open>How many buffers the caller has published and the engine not yet taken.\<close>

definition bufs_left :: "umem \<Rightarrow> 'b slip_ring \<Rightarrow> u16 \<Rightarrow> nat" where
  "bufs_left m r bgid =
     (case slip_bufring_of r bgid of
        None \<Rightarrow> 0
      | Some i \<Rightarrow> unat (um_tail m (br_bufs (r_bufrings r ! i)) - br_head (r_bufrings r ! i)))"

lemma bufring_of_Some:
  assumes "slip_bufring_of r bgid = Some i"
  shows "i < SLIP_BUFRINGS_MAX" "br_in_use (r_bufrings r ! i)" "br_bgid (r_bufrings r ! i) = bgid"
  using assms by (auto simp: slip_bufring_of_def find_Some_iff)

lemma bufring_of_cong:
  assumes "\<And>i. i < SLIP_BUFRINGS_MAX \<Longrightarrow> br_in_use (r_bufrings r' ! i) = br_in_use (r_bufrings r ! i) \<and>
    br_bgid (r_bufrings r' ! i) = br_bgid (r_bufrings r ! i)"
  shows "slip_bufring_of r' = slip_bufring_of r"
  unfolding slip_bufring_of_def fun_eq_iff
  by (intro allI find_cong) (use assms in auto)

lemma upd_bufring_nth:
  "r_bufrings (upd_bufring i f r) ! j =
     (if j = i \<and> i < length (r_bufrings r) then f (r_bufrings r ! i) else r_bufrings r ! j)"
  by (cases "i < length (r_bufrings r)") (auto simp: upd_bufring_def list_update_beyond nth_list_update)

lemma upd_head_bufring_of [simp]:
  "slip_bufring_of (upd_bufring i (\<lambda>b. b\<lparr>br_head := g b\<rparr>) r) = slip_bufring_of r"
  by (rule bufring_of_cong) (simp add: upd_bufring_nth)

lemma upd_head_wf [simp]:
  assumes "bufrings_wf r"
  shows "bufrings_wf (upd_bufring i (\<lambda>b. b\<lparr>br_head := g b\<rparr>) r)"
  unfolding bufrings_wf_def
proof
  show "length (r_bufrings (upd_bufring i (\<lambda>b. b\<lparr>br_head := g b\<rparr>) r)) = SLIP_BUFRINGS_MAX"
    using assms by (simp add: bufrings_wf_def upd_bufring_def)
  show "\<forall>b\<in>set (r_bufrings (upd_bufring i (\<lambda>b. b\<lparr>br_head := g b\<rparr>) r)). bufring_wf b"
    using assms by (cases "i < length (r_bufrings r)")
      (auto simp: bufrings_wf_def upd_bufring_def bufring_wf_def list_update_beyond
        dest!: set_update_subset_insert [THEN subsetD])
qed

lemma take_wf [simp]: "bufrings_wf r \<Longrightarrow> bufrings_wf (snd (bufring_take m r bgid))"
  by (auto simp: bufring_take_def Let_def split: option.split)

lemma unget_wf [simp]: "bufrings_wf r \<Longrightarrow> bufrings_wf (bufring_unget r bgid)"
  by (auto simp: bufring_unget_def split: option.split)

lemma take_cases:
  obtains (none) "bufring_take m r bgid = (Inl (- ENOBUFS), r)" "bufs_left m r bgid = 0"
    | (some) i where "slip_bufring_of r bgid = Some i"
        "bufring_take m r bgid = (Inr (um_buf m (br_bufs (r_bufrings r ! i)) (buf_index (r_bufrings r ! i))),
           upd_bufring i (\<lambda>b. b\<lparr>br_head := br_head b + 1\<rparr>) r)"
        "bufs_left m r bgid \<noteq> 0"
proof (cases "slip_bufring_of r bgid")
  case None
  then show ?thesis by (intro none) (simp_all add: bufring_take_def bufs_left_def)
next
  case (Some i)
  show ?thesis
  proof (cases "um_tail m (br_bufs (r_bufrings r ! i)) = br_head (r_bufrings r ! i)")
    case True
    with Some show ?thesis by (intro none) (simp_all add: bufring_take_def bufs_left_def)
  next
    case False
    with Some show ?thesis
      by (intro some) (simp_all add: bufring_take_def bufs_left_def Let_def unat_eq_0)
  qed
qed

lemma upd_bufring_id: "f (r_bufrings r ! i) = r_bufrings r ! i \<Longrightarrow> upd_bufring i f r = r"
  by (simp add: upd_bufring_def)

lemma upd_bufring_twice:
  assumes "i < length (r_bufrings r)"
  shows "upd_bufring i f (upd_bufring i g r) = upd_bufring i (f \<circ> g) r"
  using assms by (simp add: upd_bufring_def)

lemma unget_take:
  assumes wf: "bufrings_wf r" and t: "bufring_take m r bgid = (Inr b, r')"
  shows "bufring_unget r' bgid = r"
proof (cases rule: take_cases [of m r bgid])
  case none
  with t show ?thesis by simp
next
  case (some i)
  have i: "i < length (r_bufrings r)"
    using bufring_of_Some(1) [OF some(1)] wf by (simp add: bufrings_wf_def)
  have "r' = upd_bufring i (\<lambda>b. b\<lparr>br_head := br_head b + 1\<rparr>) r" using t some(2) by simp
  then have "bufring_unget r' bgid = upd_bufring i (\<lambda>b. b\<lparr>br_head := br_head b - 1\<rparr>)
      (upd_bufring i (\<lambda>b. b\<lparr>br_head := br_head b + 1\<rparr>) r)"
    by (simp add: bufring_unget_def some(1))
  also have "\<dots> = r"
    by (subst upd_bufring_twice [OF i], rule upd_bufring_id) simp
  finally show ?thesis .
qed

lemma take_left:
  assumes wf: "bufrings_wf r" and t: "bufring_take m r bgid = (Inr b, r')"
  shows "bufs_left m r bgid = Suc (bufs_left m r' bgid)"
proof (cases rule: take_cases [of m r bgid])
  case none
  with t show ?thesis by simp
next
  case (some i)
  have i: "i < length (r_bufrings r)"
    using bufring_of_Some(1) [OF some(1)] wf by (simp add: bufrings_wf_def)
  have r': "r' = upd_bufring i (\<lambda>b. b\<lparr>br_head := br_head b + 1\<rparr>) r" using t some(2) by simp
  define d where "d = um_tail m (br_bufs (r_bufrings r ! i)) - br_head (r_bufrings r ! i)"
  have d: "bufs_left m r bgid = unat d" by (simp add: bufs_left_def some(1) d_def)
  have "bufs_left m r' bgid = unat (d - 1)"
    using i by (simp add: bufs_left_def r' some(1)) (simp add: upd_bufring_def d_def algebra_simps)
  moreover have "d \<noteq> 0" using some(3) d by auto
  ultimately show ?thesis
    using d by (simp add: unat_minus_one unat_gt_0)
qed

lemma buf_index_less:
  assumes "bufring_wf b" "br_in_use b"
  shows "buf_index b < unat (br_entries b)"
proof -
  from assms obtain k where k: "k \<le> 15" "unat (br_entries b) = 2 ^ k"
    by (auto simp: bufring_wf_def)
  then show ?thesis
    using and_mask_unat [of "br_entries b" k "ucast (br_head b)"] by (simp add: buf_index_def)
qed

lemma buf_index_mod:
  assumes "bufring_wf b" "br_in_use b"
  shows "buf_index b = unat (br_head b) mod unat (br_entries b)"
proof -
  from assms obtain k where k: "k \<le> 15" "unat (br_entries b) = 2 ^ k"
    by (auto simp: bufring_wf_def)
  have "unat (ucast (br_head b) :: u32) = unat (br_head b)"
    using unsigned_less [of "br_head b", where ?'a = nat]
    by (simp add: unsigned_ucast_eq take_bit_nat_eq_self)
  then show ?thesis
    using k and_mask_unat [of "br_entries b" k "ucast (br_head b)"] by (simp add: buf_index_def)
qed

end
