(* ===== verification/Posix_Try.thy ===== *)
theory Posix_Try
  imports Completions FixedFiles BufRings
begin

text \<open>
  One attempt at one op (\<open>slip_posix_try\<close> and what it calls, \<open>src/src/engine_posix.c\<close>, in
  its Linux build).  The operating system is a parameter: \<open>os\<close> is a record of the system
  calls the code makes, each a function of its arguments and of a world \<open>'w\<close>, answering
  what the call returned and the world after it.  A call returns either a value or an errno.
  The two loops of a multishot op can go on for as long as the system has events for them,
  so an attempt is \<open>None\<close> where its loop does not end.
\<close>

subsection \<open>The system underneath\<close>

datatype sysret = SysOk int | SysErr i32

datatype fkind = F_REG | F_BLK | F_DIR | F_OTHER

record msghdr =
  msg_namelen :: u32
  msg_controllen :: u64

text \<open>The header and the vector a recvmsg is called with.\<close>

record recv_mh =
  mh_name :: u64
  mh_namelen :: u32
  mh_control :: u64
  mh_controllen :: u64
  mh_iov_base :: u64
  mh_iov_len :: u64

record recvmsg_out =
  ro_namelen :: u32
  ro_controllen :: u32
  ro_payloadlen :: u32
  ro_flags :: u32

record 'w os =
  os_mem :: "'w \<Rightarrow> umem"
  os_ld_msghdr :: "u64 \<Rightarrow> 'w \<Rightarrow> msghdr"
  os_st_recvmsg_out :: "u64 \<Rightarrow> recvmsg_out \<Rightarrow> 'w \<Rightarrow> 'w"
  os_close :: "i32 \<Rightarrow> 'w \<Rightarrow> sysret \<times> 'w"
  os_getfl :: "i32 \<Rightarrow> 'w \<Rightarrow> sysret \<times> 'w"
  os_setfl :: "i32 \<Rightarrow> int \<Rightarrow> 'w \<Rightarrow> 'w"
  os_fstat :: "i32 \<Rightarrow> 'w \<Rightarrow> fkind option"
  os_accept4 :: "i32 \<Rightarrow> u64 \<Rightarrow> u64 \<Rightarrow> u32 \<Rightarrow> 'w \<Rightarrow> sysret \<times> 'w"
  os_recv :: "i32 \<Rightarrow> u64 \<Rightarrow> u32 \<Rightarrow> u32 \<Rightarrow> 'w \<Rightarrow> sysret \<times> 'w"
  os_send :: "i32 \<Rightarrow> u64 \<Rightarrow> u32 \<Rightarrow> u32 \<Rightarrow> 'w \<Rightarrow> sysret \<times> 'w"
  os_recvmsg :: "i32 \<Rightarrow> u64 \<Rightarrow> u32 \<Rightarrow> 'w \<Rightarrow> sysret \<times> 'w"
  os_recvmsg_at :: "i32 \<Rightarrow> recv_mh \<Rightarrow> u32 \<Rightarrow> 'w \<Rightarrow> (sysret \<times> u32 \<times> u32 \<times> u32) \<times> 'w"
  os_sendmsg :: "i32 \<Rightarrow> u64 \<Rightarrow> u32 \<Rightarrow> 'w \<Rightarrow> sysret \<times> 'w"
  os_read :: "i32 \<Rightarrow> u64 \<Rightarrow> u32 \<Rightarrow> 'w \<Rightarrow> sysret \<times> 'w"
  os_pread :: "i32 \<Rightarrow> u64 \<Rightarrow> u32 \<Rightarrow> u64 \<Rightarrow> 'w \<Rightarrow> sysret \<times> 'w"
  os_write :: "i32 \<Rightarrow> u64 \<Rightarrow> u32 \<Rightarrow> 'w \<Rightarrow> sysret \<times> 'w"
  os_pwrite :: "i32 \<Rightarrow> u64 \<Rightarrow> u32 \<Rightarrow> u64 \<Rightarrow> 'w \<Rightarrow> sysret \<times> 'w"
  os_preadv2_nowait :: "i32 \<Rightarrow> u64 \<Rightarrow> u32 \<Rightarrow> u64 \<Rightarrow> 'w \<Rightarrow> sysret \<times> 'w"
  os_pwritev2_nowait :: "i32 \<Rightarrow> u64 \<Rightarrow> u32 \<Rightarrow> u64 \<Rightarrow> 'w \<Rightarrow> sysret \<times> 'w"
  os_socket :: "i32 \<Rightarrow> u32 \<Rightarrow> u32 \<Rightarrow> 'w \<Rightarrow> sysret \<times> 'w"
  os_bind :: "i32 \<Rightarrow> u64 \<Rightarrow> u32 \<Rightarrow> 'w \<Rightarrow> sysret \<times> 'w"
  os_listen :: "i32 \<Rightarrow> u32 \<Rightarrow> 'w \<Rightarrow> sysret \<times> 'w"
  os_shutdown :: "i32 \<Rightarrow> u32 \<Rightarrow> 'w \<Rightarrow> sysret \<times> 'w"
  os_poll :: "i32 \<Rightarrow> 16 word \<Rightarrow> 'w \<Rightarrow> (16 word) option \<times> 'w"
  os_statx :: "i32 \<Rightarrow> u64 \<Rightarrow> u32 \<Rightarrow> u32 \<Rightarrow> u64 \<Rightarrow> 'w \<Rightarrow> sysret \<times> 'w"
  os_unlinkat :: "i32 \<Rightarrow> u64 \<Rightarrow> u32 \<Rightarrow> 'w \<Rightarrow> sysret \<times> 'w"
  os_setsockopt :: "i32 \<Rightarrow> u32 \<Rightarrow> u32 \<Rightarrow> u64 \<Rightarrow> u32 \<Rightarrow> 'w \<Rightarrow> sysret \<times> 'w"
  os_getsockopt :: "i32 \<Rightarrow> u32 \<Rightarrow> u32 \<Rightarrow> u64 \<Rightarrow> u32 \<Rightarrow> 'w \<Rightarrow> (sysret \<times> u32) \<times> 'w"
  os_getpeername :: "i32 \<Rightarrow> u64 \<Rightarrow> u64 \<Rightarrow> 'w \<Rightarrow> sysret \<times> 'w"
  os_getsockname :: "i32 \<Rightarrow> u64 \<Rightarrow> u64 \<Rightarrow> 'w \<Rightarrow> sysret \<times> 'w"
  os_so_error :: "i32 \<Rightarrow> 'w \<Rightarrow> (i32 + i32) \<times> 'w"  \<comment> \<open>failed with an errno, or read \<open>SO_ERROR\<close>\<close>
  os_peer_known :: "i32 \<Rightarrow> 'w \<Rightarrow> sysret \<times> 'w"
  os_connect :: "i32 \<Rightarrow> u64 \<Rightarrow> u32 \<Rightarrow> 'w \<Rightarrow> sysret \<times> 'w"
  os_openat :: "i32 \<Rightarrow> u64 \<Rightarrow> u32 \<Rightarrow> u32 \<Rightarrow> 'w \<Rightarrow> sysret \<times> 'w"
  os_thrd_create :: "'w \<Rightarrow> bool \<times> 'w"
  os_openat2 :: "i32 \<Rightarrow> u64 \<Rightarrow> u64 \<Rightarrow> u32 \<Rightarrow> 'w \<Rightarrow> sysret \<times> 'w"

text \<open>\<open>n < 0 ? -errno : (int) n\<close>, and \<open>n < 0 ? -errno : 0\<close>.\<close>

fun res_of :: "sysret \<Rightarrow> i32" where
  "res_of (SysOk n) = word_of_int n"
| "res_of (SysErr e) = - e"

fun res0_of :: "sysret \<Rightarrow> i32" where
  "res0_of (SysOk n) = 0"
| "res0_of (SysErr e) = - e"

text \<open>EWOULDBLOCK is EAGAIN on Linux.\<close>

definition would_block :: "i32 \<Rightarrow> bool" where
  "would_block e \<longleftrightarrow> e = EAGAIN"

datatype eng_verdict = ENG_RAN i32 | ENG_PARK | ENG_FILE

type_synonym ('b, 'w) attempt = "eng_verdict \<times> 'b slip_ring \<times> 'w"

definition set_wait :: "16 word \<Rightarrow> eng_op \<Rightarrow> eng_op" where
  "set_wait ev op = op\<lparr>op_wait_events := ev\<rparr>"

subsection \<open>Small helpers of the file\<close>

definition off_is_current :: "u64 \<Rightarrow> bool" where
  "off_is_current x \<longleftrightarrow> x = - 1"

text \<open>1 readiness, 0 a file, -1 a broken descriptor.\<close>

definition fd_is_pollable :: "'w os \<Rightarrow> i32 \<Rightarrow> 'w \<Rightarrow> int" where
  "fd_is_pollable os f w = (case os_fstat os f w of
      None \<Rightarrow> - 1
    | Some k \<Rightarrow> if k = F_REG \<or> k = F_BLK \<or> k = F_DIR then 0 else 1)"

definition set_nonblock :: "'w os \<Rightarrow> i32 \<Rightarrow> 'w \<Rightarrow> 'w" where
  "set_nonblock os f w = (case os_getfl os f w of
      (SysOk fl, w) \<Rightarrow> if \<not> bit fl O_NONBLOCK_BIT then os_setfl os f (set_bit O_NONBLOCK_BIT fl) w else w
    | (SysErr e, w) \<Rightarrow> w)"

definition file_try_nowait :: "'w os \<Rightarrow> sqe \<Rightarrow> bool \<Rightarrow> 'w \<Rightarrow> sysret \<times> 'w" where
  "file_try_nowait os s writing w =
     (if writing then os_pwritev2_nowait os (sqe_fd s) (sqe_addr s) (sqe_len s) (sqe_off s) w
      else os_preadv2_nowait os (sqe_fd s) (sqe_addr s) (sqe_len s) (sqe_off s) w)"

definition nowait_missed :: "i32 \<Rightarrow> bool" where
  "nowait_missed e \<longleftrightarrow> e = EAGAIN \<or> e = EOPNOTSUPP \<or> e = ENOSYS \<or> e = EINVAL"

definition accept_one :: "'w os \<Rightarrow> sqe \<Rightarrow> 'w \<Rightarrow> sysret \<times> 'w" where
  "accept_one os s w = os_accept4 os (sqe_fd s) (sqe_addr s) (sqe_off s) (sqe_op_flags s) w"

definition install_direct :: "'w os \<Rightarrow> 'b slip_ring \<Rightarrow> sqe \<Rightarrow> i32 \<Rightarrow> 'w \<Rightarrow> i32 \<times> 'b slip_ring \<times> 'w" where
  "install_direct os r s newfd w =
     (case slip_fixed_install r (sqe_file_index s) newfd of
        (slot, r) \<Rightarrow>
          if neg32 slot then (slot, r, snd (os_close os newfd w))
          else (if sqe_file_index s = FILE_INDEX_ALLOC then slot else 0, r, w))"

definition revents_now :: "'w os \<Rightarrow> i32 \<Rightarrow> 16 word \<Rightarrow> 'w \<Rightarrow> 16 word \<times> 'w" where
  "revents_now os f events w = (case os_poll os f events w of
      (None, w) \<Rightarrow> (POLLNVAL, w)
    | (Some re, w) \<Rightarrow> (re, w))"

subsection \<open>Multishot\<close>

partial_function (option) run_accept_multishot ::
    "'w os \<Rightarrow> opid \<Rightarrow> 'b slip_ring \<Rightarrow> 'w \<Rightarrow> ('b, 'w) attempt option" where
  "run_accept_multishot os i r w =
     (let s = sqe_of r i in
      case accept_one os s (set_nonblock os (sqe_fd s) w) of
        (SysErr e, w) \<Rightarrow>
          if would_block e then Some (ENG_PARK, upd_op i (set_wait POLLIN) r, w)
          else Some (ENG_RAN (- e), r, w)
      | (SysOk n, w) \<Rightarrow>
          (case (if sqe_file_index s \<noteq> 0 then install_direct os r s (word_of_int n) w
                 else (word_of_int n, r, w)) of
             (answer, r, w) \<Rightarrow>
               if neg32 answer then Some (ENG_RAN answer, r, w)
               else run_accept_multishot os i (slip_engine_emit (sqe_user_data s) answer CQE_F_MORE r) w))"

partial_function (option) run_recv_multishot ::
    "'w os \<Rightarrow> opid \<Rightarrow> 'b slip_ring \<Rightarrow> 'w \<Rightarrow> ('b, 'w) attempt option" where
  "run_recv_multishot os i r w =
     (let s = sqe_of r i in
      case (if buffer_select s then bufring_take (os_mem os w) r (sqe_buf_group s)
            else (Inr \<lparr>buf_addr = sqe_addr s, buf_len = sqe_len s, buf_bid = 0\<rparr>, r)) of
        (Inl rc, r) \<Rightarrow> Some (ENG_RAN rc, r, w)
      | (Inr b, r) \<Rightarrow>
          let cflags = (if buffer_select s then cqe_buffer_flags (buf_bid b) else 0) in
          case os_recv os (sqe_fd s) (buf_addr b) (buf_len b) (sqe_op_flags s OR MSG_DONTWAIT) w of
            (n, w) \<Rightarrow>
              if (case n of SysOk k \<Rightarrow> 0 < k | SysErr e \<Rightarrow> False) then
                run_recv_multishot os i
                  (slip_engine_emit (sqe_user_data s) (res_of n) (cflags OR CQE_F_MORE) r) w
              else
                let r = (if buffer_select s then bufring_unget r (sqe_buf_group s) else r) in
                case n of
                  SysErr e \<Rightarrow>
                    if would_block e then Some (ENG_PARK, upd_op i (set_wait POLLIN) r, w)
                    else Some (ENG_RAN (- e), r, w)
                | SysOk k \<Rightarrow> Some (ENG_RAN 0, r, w))"

definition SIZEOF_RECVMSG_OUT :: u64 where "SIZEOF_RECVMSG_OUT = 16"

definition zero_recvmsg_out :: recvmsg_out where
  "zero_recvmsg_out = \<lparr>ro_namelen = 0, ro_controllen = 0, ro_payloadlen = 0, ro_flags = 0\<rparr>"

text \<open>Where the parts of the layout lie in the buffer \<open>b\<close>.\<close>

definition recvmsg_layout :: "io_uring_buf \<Rightarrow> msghdr \<Rightarrow> u64 \<Rightarrow> recv_mh" where
  "recvmsg_layout b asked header =
     \<lparr>mh_name = (if msg_namelen asked \<noteq> 0 then buf_addr b + SIZEOF_RECVMSG_OUT else 0),
      mh_namelen = msg_namelen asked,
      mh_control = (if msg_controllen asked \<noteq> 0
                    then buf_addr b + SIZEOF_RECVMSG_OUT + ucast (msg_namelen asked) else 0),
      mh_controllen = msg_controllen asked,
      mh_iov_base = buf_addr b + header,
      mh_iov_len = ucast (buf_len b) - header\<rparr>"

text \<open>The part of the multishot recvmsg before its loop is \<open>run_recvmsg_multishot\<close>; the
  loop is \<open>recvmsg_loop\<close>, with the message header it was asked for and the layout's
  size.\<close>

partial_function (option) recvmsg_loop ::
    "'w os \<Rightarrow> opid \<Rightarrow> msghdr \<Rightarrow> u64 \<Rightarrow> 'b slip_ring \<Rightarrow> 'w \<Rightarrow> ('b, 'w) attempt option" where
  "recvmsg_loop os i asked header r w =
     (let s = sqe_of r i in
      case bufring_take (os_mem os w) r (sqe_buf_group s) of
        (Inl rc, r) \<Rightarrow> Some (ENG_RAN rc, r, w)
      | (Inr b, r) \<Rightarrow>
          let cflags = cqe_buffer_flags (buf_bid b) in
          if (ucast (buf_len b) :: u64) < header then
            Some (ENG_RAN (- EFAULT), bufring_unget r (sqe_buf_group s), w)
          else
            let w = os_st_recvmsg_out os (buf_addr b) zero_recvmsg_out w in
            case os_recvmsg_at os (sqe_fd s) (recvmsg_layout b asked header)
                   (sqe_op_flags s OR MSG_DONTWAIT) w of
              ((n, namelen, controllen, flags), w) \<Rightarrow>
                if (case n of SysOk k \<Rightarrow> 0 < k | SysErr e \<Rightarrow> False) then
                  recvmsg_loop os i asked header
                    (slip_engine_emit (sqe_user_data s) (ucast header + res_of n)
                       (cflags OR CQE_F_MORE) r)
                    (os_st_recvmsg_out os (buf_addr b)
                       \<lparr>ro_namelen = namelen, ro_controllen = controllen, ro_payloadlen = res_of n,
                        ro_flags = flags\<rparr> w)
                else (case n of
                    SysErr e \<Rightarrow>
                      let r = bufring_unget r (sqe_buf_group s) in
                      if would_block e then Some (ENG_PARK, upd_op i (set_wait POLLIN) r, w)
                      else Some (ENG_RAN (- e), r, w)
                  | SysOk k \<Rightarrow>
                      Some (ENG_RAN (ucast header), upd_op i (\<lambda>op. op\<lparr>op_cqe_flags := cflags\<rparr>) r, w)))"

definition run_recvmsg_multishot ::
    "'w os \<Rightarrow> opid \<Rightarrow> 'b slip_ring \<Rightarrow> 'w \<Rightarrow> ('b, 'w) attempt option" where
  "run_recvmsg_multishot os i r w =
     (let s = sqe_of r i in
      if sqe_addr s = 0 then Some (ENG_RAN (- EFAULT), r, w)
      else if \<not> buffer_select s then Some (ENG_RAN (- EOPNOTSUPP), r, w)
      else
        let asked = os_ld_msghdr os (sqe_addr s) w in
        recvmsg_loop os i asked
          (SIZEOF_RECVMSG_OUT + ucast (msg_namelen asked) + msg_controllen asked) r w)"

subsection \<open>The ops, one by one\<close>

text \<open>Try it, and park on \<open>ev\<close> what would block; \<open>asked_nowait\<close> is a caller that said
  MSG_DONTWAIT itself.\<close>

definition or_park ::
    "16 word \<Rightarrow> bool \<Rightarrow> opid \<Rightarrow> 'b slip_ring \<Rightarrow> sysret \<times> 'w \<Rightarrow> ('b, 'w) attempt" where
  "or_park ev asked_nowait i r nw = (case nw of (n, w) \<Rightarrow>
     if (case n of SysErr e \<Rightarrow> would_block e | SysOk k \<Rightarrow> False) \<and> \<not> asked_nowait
     then (ENG_PARK, upd_op i (set_wait ev) r, w)
     else (ENG_RAN (res_of n), r, w))"

definition msg_dontwait :: "sqe \<Rightarrow> bool" where
  "msg_dontwait s \<longleftrightarrow> sqe_op_flags s AND MSG_DONTWAIT \<noteq> 0"

text \<open>Telling the backend that a descriptor goes.\<close>

definition tell_forget :: "(i32 \<Rightarrow> 'b slip_ring \<Rightarrow> 'b slip_ring) option \<Rightarrow> i32 \<Rightarrow> 'b slip_ring \<Rightarrow> 'b slip_ring" where
  "tell_forget forget f r = (case forget of None \<Rightarrow> r | Some g \<Rightarrow> g f r)"

definition try_close ::
    "'w os \<Rightarrow> (i32 \<Rightarrow> 'b slip_ring \<Rightarrow> 'b slip_ring) option \<Rightarrow> opid \<Rightarrow> 'b slip_ring \<Rightarrow> 'w \<Rightarrow> ('b, 'w) attempt" where
  "try_close os forget i r w =
     (let s = sqe_of r i in
      if sqe_file_index s \<noteq> 0 then
        let slot = sqe_file_index s - 1;
            real = slip_fixed_lookup r slot
        in if neg32 real then (ENG_RAN real, r, w)
           else
             let r = tell_forget forget real (snd (slip_fixed_clear r slot)) in
             (case os_close os real w of (n, w) \<Rightarrow> (ENG_RAN (res0_of n), r, w))
      else
        let r = tell_forget forget (sqe_fd s) r in
        (case os_close os (sqe_fd s) w of (n, w) \<Rightarrow> (ENG_RAN (res0_of n), r, w)))"

definition try_recv :: "'w os \<Rightarrow> opid \<Rightarrow> 'b slip_ring \<Rightarrow> 'w \<Rightarrow> ('b, 'w) attempt option" where
  "try_recv os i r w =
     (let s = sqe_of r i in
      if recvsend_bundle s then Some (ENG_RAN (- EOPNOTSUPP), r, w)
      else if recv_multishot s then run_recv_multishot os i r w
      else case (if buffer_select s then bufring_take (os_mem os w) r (sqe_buf_group s)
                 else (Inr \<lparr>buf_addr = sqe_addr s, buf_len = sqe_len s, buf_bid = 0\<rparr>, r)) of
        (Inl rc, r) \<Rightarrow> Some (ENG_RAN rc, r, w)
      | (Inr b, r) \<Rightarrow>
          let cflags = (if buffer_select s then cqe_buffer_flags (buf_bid b) else 0) in
          case os_recv os (sqe_fd s) (buf_addr b) (buf_len b) (sqe_op_flags s OR MSG_DONTWAIT) w of
            (n, w) \<Rightarrow>
              let got = (case n of SysOk k \<Rightarrow> 0 < k | SysErr e \<Rightarrow> False);
                  r = (if \<not> got \<and> buffer_select s then bufring_unget r (sqe_buf_group s) else r);
                  r = (if got then upd_op i (\<lambda>op. op\<lparr>op_cqe_flags := cflags\<rparr>) r else r)
              in Some (or_park POLLIN (msg_dontwait s) i r (n, w)))"

definition try_send :: "'w os \<Rightarrow> opid \<Rightarrow> 'b slip_ring \<Rightarrow> 'w \<Rightarrow> ('b, 'w) attempt" where
  "try_send os i r w =
     (let s = sqe_of r i in
      or_park POLLOUT (msg_dontwait s) i r
        (os_send os (sqe_fd s) (sqe_addr s) (sqe_len s) (sqe_op_flags s OR MSG_DONTWAIT) w))"

definition try_rw :: "bool \<Rightarrow> 'w os \<Rightarrow> opid \<Rightarrow> 'b slip_ring \<Rightarrow> 'w \<Rightarrow> ('b, 'w) attempt" where
  "try_rw writing os i r w =
     (let s = sqe_of r i;
          pollable = fd_is_pollable os (sqe_fd s) w
      in if pollable = 0 then
           (case file_try_nowait os s writing w of
              (SysOk n, w) \<Rightarrow> (ENG_RAN (word_of_int n), r, w)
            | (SysErr e, w) \<Rightarrow> if \<not> nowait_missed e then (ENG_RAN (- e), r, w) else (ENG_FILE, r, w))
         else
           let w = (if 0 < pollable then set_nonblock os (sqe_fd s) w else w) in
           or_park (if writing then POLLOUT else POLLIN) False i r
             (if writing
              then if off_is_current (sqe_off s) then os_write os (sqe_fd s) (sqe_addr s) (sqe_len s) w
                   else os_pwrite os (sqe_fd s) (sqe_addr s) (sqe_len s) (sqe_off s) w
              else if off_is_current (sqe_off s) then os_read os (sqe_fd s) (sqe_addr s) (sqe_len s) w
                   else os_pread os (sqe_fd s) (sqe_addr s) (sqe_len s) (sqe_off s) w))"

definition try_socket :: "'w os \<Rightarrow> opid \<Rightarrow> 'b slip_ring \<Rightarrow> 'w \<Rightarrow> ('b, 'w) attempt" where
  "try_socket os i r w =
     (let s = sqe_of r i in
      if sqe_op_flags s \<noteq> 0 then (ENG_RAN (- EINVAL), r, w)
      else case os_socket os (sqe_fd s) (ucast (sqe_off s)) (sqe_len s) w of
        (SysErr e, w) \<Rightarrow> (ENG_RAN (- e), r, w)
      | (SysOk n, w) \<Rightarrow>
          if sqe_file_index s \<noteq> 0 then
            (case install_direct os r s (word_of_int n) w of (a, r, w) \<Rightarrow> (ENG_RAN a, r, w))
          else (ENG_RAN (word_of_int n), r, w))"

definition try_accept :: "'w os \<Rightarrow> opid \<Rightarrow> 'b slip_ring \<Rightarrow> 'w \<Rightarrow> ('b, 'w) attempt option" where
  "try_accept os i r w =
     (let s = sqe_of r i in
      if accept_multishot s then run_accept_multishot os i r w
      else case accept_one os s (set_nonblock os (sqe_fd s) w) of
        (SysErr e, w) \<Rightarrow>
          if would_block e then Some (ENG_PARK, upd_op i (set_wait POLLIN) r, w)
          else Some (ENG_RAN (- e), r, w)
      | (SysOk n, w) \<Rightarrow>
          if sqe_file_index s \<noteq> 0 then
            (case install_direct os r s (word_of_int n) w of (a, r, w) \<Rightarrow> Some (ENG_RAN a, r, w))
          else Some (ENG_RAN (word_of_int n), r, w))"

definition try_recvmsg :: "'w os \<Rightarrow> opid \<Rightarrow> 'b slip_ring \<Rightarrow> 'w \<Rightarrow> ('b, 'w) attempt option" where
  "try_recvmsg os i r w =
     (let s = sqe_of r i in
      if recv_multishot s then run_recvmsg_multishot os i r w
      else Some (or_park POLLIN (msg_dontwait s) i r
        (os_recvmsg os (sqe_fd s) (sqe_addr s) (sqe_op_flags s OR MSG_DONTWAIT) w)))"

definition try_sendmsg :: "'w os \<Rightarrow> opid \<Rightarrow> 'b slip_ring \<Rightarrow> 'w \<Rightarrow> ('b, 'w) attempt" where
  "try_sendmsg os i r w =
     (let s = sqe_of r i in
      or_park POLLOUT (msg_dontwait s) i r
        (os_sendmsg os (sqe_fd s) (sqe_addr s) (sqe_op_flags s OR MSG_DONTWAIT) w))"

definition try_poll_add :: "'w os \<Rightarrow> opid \<Rightarrow> 'b slip_ring \<Rightarrow> 'w \<Rightarrow> ('b, 'w) attempt" where
  "try_poll_add os i r w =
     (let s = sqe_of r i;
          want = (ucast (sqe_op_flags s) :: 16 word)
      in case revents_now os (sqe_fd s) want w of
        (have, w) \<Rightarrow>
          if poll_add_multi s then
            let r = (if have \<noteq> 0 then slip_engine_emit (sqe_user_data s) (ucast have) CQE_F_MORE r else r)
            in (ENG_PARK, upd_op i (set_wait want) r, w)
          else if have \<noteq> 0 then (ENG_RAN (ucast have), r, w)
          else (ENG_PARK, upd_op i (set_wait want) r, w))"

definition slip_posix_cmd_sock :: "'w os \<Rightarrow> sqe \<Rightarrow> 'w \<Rightarrow> i32 \<times> 'w" where
  "slip_posix_cmd_sock os s w =
     (let level = (ucast (sqe_addr s) :: u32);
          optname = (ucast (drop_bit 32 (sqe_addr s)) :: u32);
          optval = sqe_addr3 s;
          optlen = sqe_file_index s
      in case sqe_cmd_op s of
        SOCK_SETSOCKOPT \<Rightarrow>
          (case os_setsockopt os (sqe_fd s) level optname optval optlen w of (n, w) \<Rightarrow> (res0_of n, w))
      | SOCK_GETSOCKOPT \<Rightarrow>
          (case os_getsockopt os (sqe_fd s) level optname optval optlen w of
             ((SysOk _, len), w) \<Rightarrow> (len, w)
           | ((SysErr e, _), w) \<Rightarrow> (- e, w))
      | SOCK_GETSOCKNAME \<Rightarrow>
          if sqe_addr s = 0 \<or> sqe_addr3 s = 0 then (- EFAULT, w)
          else (case (if optlen \<noteq> 0 then os_getpeername os (sqe_fd s) (sqe_addr s) (sqe_addr3 s) w
                      else os_getsockname os (sqe_fd s) (sqe_addr s) (sqe_addr3 s) w) of
                  (n, w) \<Rightarrow> (res0_of n, w))
      | SOCK_OTHER _ \<Rightarrow> (- EOPNOTSUPP, w))"

definition try_connect :: "'w os \<Rightarrow> opid \<Rightarrow> 'b slip_ring \<Rightarrow> 'w \<Rightarrow> ('b, 'w) attempt" where
  "try_connect os i r w =
     (let s = sqe_of r i in
      if op_connect_in_progress (the_op r i) then
        if op_socket_error (the_op r i) \<noteq> 0 then (ENG_RAN (- op_socket_error (the_op r i)), r, w)
        else case os_so_error os (sqe_fd s) w of
          (Inl e, w) \<Rightarrow> (ENG_RAN (- e), r, w)
        | (Inr err, w) \<Rightarrow>
            if err \<noteq> 0 then (ENG_RAN (- err), r, w)
            else case os_peer_known os (sqe_fd s) w of
              (SysOk _, w) \<Rightarrow> (ENG_RAN 0, r, w)
            | (SysErr e, w) \<Rightarrow>
                if e \<noteq> ENOTCONN then (ENG_RAN (- e), r, w)
                else (ENG_PARK, upd_op i (set_wait POLLOUT) r, w)
      else case os_getfl os (sqe_fd s) w of
        (SysErr e, w) \<Rightarrow> (ENG_RAN (- e), r, w)
      | (SysOk fl, w) \<Rightarrow>
          let blocking = \<not> bit fl O_NONBLOCK_BIT;
              w = (if blocking then os_setfl os (sqe_fd s) (set_bit O_NONBLOCK_BIT fl) w else w)
          in case os_connect os (sqe_fd s) (sqe_addr s) (ucast (sqe_off s)) w of
            (n, w) \<Rightarrow>
              let w = (if blocking then os_setfl os (sqe_fd s) fl w else w) in
              case n of
                SysOk _ \<Rightarrow> (ENG_RAN 0, r, w)
              | SysErr e \<Rightarrow>
                  if e = EINPROGRESS then
                    (ENG_PARK, upd_op i (\<lambda>op. op\<lparr>op_connect_in_progress := True, op_wait_events := POLLOUT\<rparr>) r, w)
                  else if e = EAGAIN then (ENG_FILE, r, w)
                  else (ENG_RAN (- e), r, w))"

definition ran0 :: "'b slip_ring \<Rightarrow> sysret \<times> 'w \<Rightarrow> ('b, 'w) attempt" where
  "ran0 r nw = (case nw of (n, w) \<Rightarrow> (ENG_RAN (res0_of n), r, w))"

definition slip_posix_try ::
    "'w os \<Rightarrow> (i32 \<Rightarrow> 'b slip_ring \<Rightarrow> 'b slip_ring) option \<Rightarrow> opid \<Rightarrow> 'b slip_ring \<Rightarrow> 'w
     \<Rightarrow> ('b, 'w) attempt option" where
  "slip_posix_try os forget i r w =
     (let s = sqe_of r i in
      case sqe_opcode s of
        OP_NOP \<Rightarrow> Some (ENG_RAN 0, r, w)
      | OP_CLOSE \<Rightarrow> Some (try_close os forget i r w)
      | OP_RECV \<Rightarrow> try_recv os i r w
      | OP_SEND \<Rightarrow> Some (try_send os i r w)
      | OP_READ \<Rightarrow> Some (try_rw False os i r w)
      | OP_WRITE \<Rightarrow> Some (try_rw True os i r w)
      | OP_SOCKET \<Rightarrow> Some (try_socket os i r w)
      | OP_BIND \<Rightarrow> Some (ran0 r (os_bind os (sqe_fd s) (sqe_addr s) (ucast (sqe_off s)) w))
      | OP_LISTEN \<Rightarrow> Some (ran0 r (os_listen os (sqe_fd s) (sqe_len s) w))
      | OP_SHUTDOWN \<Rightarrow> Some (ran0 r (os_shutdown os (sqe_fd s) (sqe_len s) w))
      | OP_ACCEPT \<Rightarrow> try_accept os i r w
      | OP_RECVMSG \<Rightarrow> try_recvmsg os i r w
      | OP_SENDMSG \<Rightarrow> Some (try_sendmsg os i r w)
      | OP_POLL_ADD \<Rightarrow> Some (try_poll_add os i r w)
      | OP_STATX \<Rightarrow> Some (ran0 r (os_statx os (sqe_fd s) (sqe_addr s) (sqe_op_flags s) (sqe_len s) (sqe_off s) w))
      | OP_UNLINKAT \<Rightarrow> Some (ran0 r (os_unlinkat os (sqe_fd s) (sqe_addr s) (sqe_op_flags s) w))
      | OP_URING_CMD \<Rightarrow> Some (case slip_posix_cmd_sock os s w of (res, w) \<Rightarrow> (ENG_RAN res, r, w))
      | OP_CONNECT \<Rightarrow> Some (try_connect os i r w)
      | OP_OPENAT \<Rightarrow> Some (ENG_FILE, r, w)
      | OP_OPENAT2 \<Rightarrow> Some (ENG_FILE, r, w)
      | _ \<Rightarrow> Some (ENG_RAN (- EOPNOTSUPP), r, w))"

text \<open>The blocking spelling of one op, for the worker.  \<open>SIZEOF_OPEN_HOW\<close> is three 64-bit
  words.\<close>

definition SIZEOF_OPEN_HOW :: u32 where "SIZEOF_OPEN_HOW = 24"

definition slip_posix_run_blocking :: "'w os \<Rightarrow> sqe \<Rightarrow> 'w \<Rightarrow> i32 \<times> 'w" where
  "slip_posix_run_blocking os s w =
     (case sqe_opcode s of
        OP_READ \<Rightarrow> apfst res_of
          (if off_is_current (sqe_off s) then os_read os (sqe_fd s) (sqe_addr s) (sqe_len s) w
           else os_pread os (sqe_fd s) (sqe_addr s) (sqe_len s) (sqe_off s) w)
      | OP_WRITE \<Rightarrow> apfst res_of
          (if off_is_current (sqe_off s) then os_write os (sqe_fd s) (sqe_addr s) (sqe_len s) w
           else os_pwrite os (sqe_fd s) (sqe_addr s) (sqe_len s) (sqe_off s) w)
      | OP_RECV \<Rightarrow> apfst res_of (os_recv os (sqe_fd s) (sqe_addr s) (sqe_len s) (sqe_op_flags s) w)
      | OP_SEND \<Rightarrow> apfst res_of (os_send os (sqe_fd s) (sqe_addr s) (sqe_len s) (sqe_op_flags s) w)
      | OP_CONNECT \<Rightarrow> apfst res_of (os_connect os (sqe_fd s) (sqe_addr s) (ucast (sqe_off s)) w)
      | OP_OPENAT \<Rightarrow> apfst res_of (os_openat os (sqe_fd s) (sqe_addr s) (sqe_op_flags s) (sqe_len s) w)
      | OP_OPENAT2 \<Rightarrow>
          if sqe_len s < SIZEOF_OPEN_HOW then (- EINVAL, w)
          else apfst res_of (os_openat2 os (sqe_fd s) (sqe_addr s) (sqe_off s) (sqe_len s) w)
      | _ \<Rightarrow> (- EOPNOTSUPP, w))"

end
