(* ===== verification/Posix_Frame.thy ===== *)
theory Posix_Frame
  imports Posix_Try
begin

text \<open>
  What one attempt at an op can change.  The queue, the parked set, the worker's queue and
  the chain's standing are untouched; ops only move between the free list and the backlog
  (an emission the completion ring had no room for borrows one); and the ops that wait
  anywhere keep their contents.
\<close>

subsection \<open>The relation\<close>

definition ring_wf :: "'b slip_ring \<Rightarrow> bool" where
  "ring_wf r \<longleftrightarrow> cq_wf r \<and> fixed_wf r \<and> bufrings_wf r"

text \<open>The ops that wait somewhere: queued, parked, or at the worker's queue.\<close>

definition waiters :: "'b slip_ring \<Rightarrow> opid set" where
  "waiters r = set (r_queue r) \<union> set (r_waiting r) \<union> set (r_wq r)"

definition same_lists :: "'b slip_ring \<Rightarrow> 'b slip_ring \<Rightarrow> bool" where
  "same_lists r r' \<longleftrightarrow>
     r_in_use r' = r_in_use r \<and> r_sq_entries r' = r_sq_entries r \<and> r_cq_entries r' = r_cq_entries r \<and>
     r_op_pool_n r' = r_op_pool_n r \<and> r_sq r' = r_sq r \<and> r_sqes r' = r_sqes r \<and> r_wq r' = r_wq r \<and>
     r_blocked_done r' = r_blocked_done r \<and> r_blocked_failed r' = r_blocked_failed r \<and>
     r_queue r' = r_queue r \<and> r_waiting r' = r_waiting r \<and> r_chain_failed r' = r_chain_failed r \<and>
     r_blocking r' = r_blocking r \<and> r_ctl r' = r_ctl r \<and> r_worker_live r' = r_worker_live r \<and>
     r_stopping r' = r_stopping r \<and> r_be_state r' = r_be_state r \<and>
     cq_head (r_cq r') = cq_head (r_cq r)"

definition keeps :: "opid \<Rightarrow> 'b slip_ring \<Rightarrow> 'b slip_ring \<Rightarrow> bool" where
  "keeps i r r' \<longleftrightarrow> same_lists r r' \<and> acct r' = acct r \<and>
     (\<forall>j \<in> waiters r. the_op r' j = the_op r j) \<and> sqe_of r' i = sqe_of r i \<and>
     (ring_wf r \<longrightarrow> ring_wf r')"

lemma same_lists_refl [simp]: "same_lists r r"
  by (simp add: same_lists_def)

lemma same_lists_trans: "same_lists r s \<Longrightarrow> same_lists s t \<Longrightarrow> same_lists r t"
  by (simp add: same_lists_def)

lemma same_core_lists: "same_core r' r \<Longrightarrow> same_lists r r'"
  by (simp add: same_core_def same_lists_def)

lemma same_lists_waiters: "same_lists r s \<Longrightarrow> waiters s = waiters r"
  by (simp add: same_lists_def waiters_def)

lemma keeps_refl [simp]: "keeps i r r"
  by (simp add: keeps_def)

lemma keeps_trans [trans]: "keeps i r s \<Longrightarrow> keeps i s t \<Longrightarrow> keeps i r t"
  by (auto simp: keeps_def same_lists_waiters intro: same_lists_trans)

lemma keeps_lists: "keeps i r s \<Longrightarrow> same_lists r s"
  by (simp add: keeps_def)

lemma keeps_pool_ok: "keeps i r s \<Longrightarrow> pool_ok s H = pool_ok r H"
  by (simp add: keeps_def same_lists_def pool_ok_def)

lemma keeps_wf: "keeps i r s \<Longrightarrow> ring_wf r \<Longrightarrow> ring_wf s"
  by (simp add: keeps_def)

lemma keeps_sqe: "keeps i r s \<Longrightarrow> sqe_of s i = sqe_of r i"
  by (simp add: keeps_def)

subsection \<open>The primitives\<close>

lemma pool_ok_waiters:
  assumes "pool_ok r H" "j \<in> waiters r"
  shows "j \<notin> set (r_op_free r)" "j \<notin> set (r_backlog r)"
proof -
  have count: "j \<in> set xs \<longleftrightarrow> 0 < count (mset xs) j" for xs :: "opid list" by simp
  show "j \<notin> set (r_op_free r)" "j \<notin> set (r_backlog r)"
    using assms(2) pool_ok_count_le [OF assms(1), of j]
    unfolding waiters_def Un_iff count acct_def count_union by linarith+
qed

lemma emit_the_op:
  assumes "j \<notin> set (r_op_free r)" "j \<notin> set (r_backlog r)"
  shows "the_op (slip_engine_emit ud res fl r) j = the_op r j"
proof -
  have free: "set (r_op_free (drain_backlog_locked r)) \<subseteq> set (r_op_free r) \<union> set (r_backlog r)"
    by (induction r rule: drain_induct) (auto simp: op_release_def post_locked_def Let_def)
  show ?thesis
  proof (cases rule: emit_cases [of r ud res fl])
    case (carried i r')
    then have "i \<noteq> j" using alloc_Some(6) [OF carried(2)] free assms by blast
    then show ?thesis
      using alloc_Some(5) [OF carried(2)]
      by (simp add: carried(3) backlog_locked_def Let_def the_op_def overflow_inc_def upd_op_def
          fun_eq_iff)
  qed (simp_all add: the_op_def overflow_inc_def)
qed

lemma same_core_wf:
  assumes "same_core r' r"
  shows "fixed_wf r' = fixed_wf r" "bufrings_wf r' = bufrings_wf r"
proof -
  show "fixed_wf r' = fixed_wf r"
    by (rule fixed_wf_cong) (use assms in \<open>simp_all add: same_core_def\<close>)
  show "bufrings_wf r' = bufrings_wf r"
    by (rule bufrings_wf_cong) (use assms in \<open>simp add: same_core_def\<close>)
qed

lemma emit_other_wf [simp]:
  "fixed_wf (slip_engine_emit ud res fl r) = fixed_wf r"
  "bufrings_wf (slip_engine_emit ud res fl r) = bufrings_wf r"
  by (rule same_core_wf; simp)+

lemma keeps_emit:
  assumes "pool_ok r (add_mset i H)"
  shows "keeps i r (slip_engine_emit ud res fl r)"
proof -
  have "same_lists r (slip_engine_emit ud res fl r)" by (rule same_core_lists) simp
  moreover have "the_op (slip_engine_emit ud res fl r) j = the_op r j" if "j \<in> waiters r \<or> j = i" for j
    using that pool_ok_hand [OF assms] pool_ok_waiters [OF assms] by (auto intro!: emit_the_op)
  ultimately show ?thesis
    by (auto simp: keeps_def ring_wf_def sqe_of_def)
qed

lemma keeps_upd_op:
  assumes "pool_ok r (add_mset i H)" "\<And>op. op_sqe (f op) = op_sqe op"
  shows "keeps i r (upd_op i f r)"
proof -
  have "i \<notin> waiters r" using pool_ok_hand [OF assms(1)] by (auto simp: waiters_def)
  moreover have "fixed_wf (upd_op i f r) = fixed_wf r" "bufrings_wf (upd_op i f r) = bufrings_wf r"
    by (rule fixed_wf_cong bufrings_wf_cong; simp add: upd_op_def)+
  ultimately show ?thesis
    by (auto simp: keeps_def same_lists_def sqe_of_def assms(2) ring_wf_def) (auto simp: upd_op_def)
qed

lemma keeps_set_wait: "pool_ok r (add_mset i H) \<Longrightarrow> keeps i r (upd_op i (set_wait ev) r)"
  by (rule keeps_upd_op) (auto simp: set_wait_def)

lemma keeps_bufrings:
  assumes "bufrings_wf r \<longrightarrow> bufrings_wf (r\<lparr>r_bufrings := bs\<rparr>)"
  shows "keeps i r (r\<lparr>r_bufrings := bs\<rparr>)"
proof -
  have "fixed_wf (r\<lparr>r_bufrings := bs\<rparr>) = fixed_wf r" by (rule fixed_wf_cong) simp_all
  moreover have "cq_wf (r\<lparr>r_bufrings := bs\<rparr>) = cq_wf r" by (rule cq_wf_cong) simp_all
  ultimately show ?thesis
    using assms by (simp add: keeps_def same_lists_def acct_def the_op_def sqe_of_def ring_wf_def)
qed

lemma keeps_upd_bufring: "keeps i r (upd_bufring k (\<lambda>b. b\<lparr>br_head := g b\<rparr>) r)"
  using upd_head_wf [of r k g] by (auto simp: upd_bufring_def intro: keeps_bufrings)

lemma keeps_take: "keeps i r (snd (bufring_take m r bgid))"
  by (auto simp: bufring_take_def Let_def intro: keeps_upd_bufring split: option.split)

lemma keeps_unget: "keeps i r (bufring_unget r bgid)"
  by (auto simp: bufring_unget_def intro: keeps_upd_bufring split: option.split)

lemma keeps_fixed:
  assumes "r' = r\<lparr>r_fixed := t, r_alloc_hint := h\<rparr>" "fixed_wf r \<Longrightarrow> fixed_wf r'"
  shows "keeps i r r'"
proof -
  have "bufrings_wf r' = bufrings_wf r" unfolding assms(1) by (rule bufrings_wf_cong) simp
  moreover have "cq_wf r' = cq_wf r" unfolding assms(1) by (rule cq_wf_cong) simp_all
  moreover have "same_lists r r'" "acct r' = acct r" "the_op r' = the_op r" "sqe_of r' = sqe_of r"
    unfolding assms(1) by (simp_all add: same_lists_def acct_def the_op_def sqe_of_def fun_eq_iff)
  ultimately show ?thesis
    using assms(2) by (simp add: keeps_def ring_wf_def)
qed

lemma install_shape:
  "snd (slip_fixed_install r x fd) = r\<lparr>r_fixed := r_fixed (snd (slip_fixed_install r x fd)),
     r_alloc_hint := r_alloc_hint (snd (slip_fixed_install r x fd))\<rparr>"
  by (auto simp: slip_fixed_install_def Let_def split: option.split)

lemma clear_shape:
  "snd (slip_fixed_clear r slot) = r\<lparr>r_fixed := r_fixed (snd (slip_fixed_clear r slot)),
     r_alloc_hint := r_alloc_hint (snd (slip_fixed_clear r slot))\<rparr>"
  by (auto simp: slip_fixed_clear_def split: option.split)

lemma keeps_install: "keeps i r (snd (slip_fixed_install r x fd))"
  by (rule keeps_fixed [OF install_shape fixed_wf_install])

lemma keeps_clear: "keeps i r (snd (slip_fixed_clear r slot))"
  by (rule keeps_fixed [OF clear_shape fixed_wf_clear])

end
