(* ===== verification/Posix_Exec.thy ===== *)
theory Posix_Exec
  imports Posix_Try
begin

text \<open>
  What the POSIX machinery does with an attempt's verdict (\<open>park\<close>, \<open>unpark\<close>, the cancels,
  \<open>slip_posix_execute\<close>, \<open>slip_posix_finish_ready\<close>, the hand-over to the worker;
  \<open>src/src/engine_posix.c\<close>).  The array \<open>waiting[]\<close> with its count is the list
  \<open>r_waiting\<close>.
\<close>

subsection \<open>What a readiness backend brings\<close>

record ('b, 'w) readiness =
  be_arm :: "opid \<Rightarrow> 'b slip_ring \<Rightarrow> 'w \<Rightarrow> bool \<times> 'b slip_ring \<times> 'w"
  be_disarm :: "opid \<Rightarrow> 'b slip_ring \<Rightarrow> 'w \<Rightarrow> 'b slip_ring \<times> 'w"
  be_submit_blocking :: "(opid \<Rightarrow> 'b slip_ring \<Rightarrow> 'w \<Rightarrow> 'b slip_ring \<times> 'w) option"
  be_forget :: "(i32 \<Rightarrow> 'b slip_ring \<Rightarrow> 'b slip_ring) option"

subsection \<open>The poke pipe\<close>

definition slip_posix_poke :: "'b slip_ring \<Rightarrow> 'b slip_ring" where
  "slip_posix_poke r = r\<lparr>r_ctl := True\<rparr>"

definition slip_posix_ctl_drain :: "'b slip_ring \<Rightarrow> 'b slip_ring" where
  "slip_posix_ctl_drain r = r\<lparr>r_ctl := False\<rparr>"

text \<open>Opening the pipe may fail; \<open>pipe\<close> is the system call.\<close>

definition slip_posix_ctl_open :: "('w \<Rightarrow> bool \<times> 'w) \<Rightarrow> 'b slip_ring \<Rightarrow> 'w \<Rightarrow> 'b slip_ring option \<times> 'w" where
  "slip_posix_ctl_open pipe r w = (case pipe w of (ok, w) \<Rightarrow>
     (if ok then Some (r\<lparr>r_ctl := False\<rparr>) else None, w))"

definition slip_posix_ctl_close :: "'b slip_ring \<Rightarrow> 'b slip_ring" where
  "slip_posix_ctl_close r = r\<lparr>r_ctl := False\<rparr>"

definition slip_posix_carried_ops :: "opcode list" where
  "slip_posix_carried_ops =
     [OP_NOP, OP_READ, OP_WRITE, OP_RECV, OP_SEND, OP_RECVMSG, OP_SENDMSG, OP_ACCEPT, OP_CONNECT,
      OP_SOCKET, OP_BIND, OP_LISTEN, OP_SHUTDOWN, OP_CLOSE, OP_POLL_ADD, OP_POLL_REMOVE,
      OP_ASYNC_CANCEL, OP_STATX, OP_UNLINKAT, OP_OPENAT, OP_OPENAT2, OP_URING_CMD]"

subsection \<open>Parking\<close>

text \<open>Joining \<open>waiting[]\<close> at its end, and leaving it by a swap with the last.\<close>

definition wait_join :: "opid \<Rightarrow> 'b slip_ring \<Rightarrow> 'b slip_ring" where
  "wait_join i r = (upd_op i (\<lambda>op. op\<lparr>op_wait_slot := length (r_waiting r)\<rparr>) r)
     \<lparr>r_waiting := r_waiting r @ [i]\<rparr>"

definition wait_leave :: "nat \<Rightarrow> 'b slip_ring \<Rightarrow> 'b slip_ring" where
  "wait_leave k r =
     (let moved = last (r_waiting r) in
      upd_op moved (\<lambda>op. op\<lparr>op_wait_slot := k\<rparr>)
        (r\<lparr>r_waiting := butlast ((r_waiting r)[k := moved])\<rparr>))"

definition park :: "('b, 'w) readiness \<Rightarrow> opid \<Rightarrow> 'b slip_ring \<Rightarrow> 'w \<Rightarrow> bool \<times> 'b slip_ring \<times> 'w" where
  "park be i r w =
     (if unat (r_op_pool_n r) \<le> length (r_waiting r) then (False, r, w)
      else case be_arm be i r w of (ok, r, w) \<Rightarrow>
        if \<not> ok then (False, r, w) else (True, wait_join i r, w))"

definition unpark :: "('b, 'w) readiness \<Rightarrow> opid \<Rightarrow> 'b slip_ring \<Rightarrow> 'w \<Rightarrow> 'b slip_ring \<times> 'w" where
  "unpark be i r w =
     (let k = op_wait_slot (the_op r i) in
      if length (r_waiting r) \<le> k \<or> r_waiting r ! k \<noteq> i then (r, w)
      else be_disarm be i (wait_leave k r) w)"

subsection \<open>The worker's queue\<close>

definition worker_start_once :: "'w os \<Rightarrow> 'b slip_ring \<Rightarrow> 'w \<Rightarrow> 'b slip_ring \<times> 'w" where
  "worker_start_once os r w =
     (if r_worker_live r then (r, w)
      else case os_thrd_create os w of (ok, w) \<Rightarrow> (if ok then r\<lparr>r_worker_live := True\<rparr> else r, w))"

definition slip_posix_hand_to_worker :: "'w os \<Rightarrow> opid \<Rightarrow> 'b slip_ring \<Rightarrow> 'w \<Rightarrow> 'b slip_ring \<times> 'w" where
  "slip_posix_hand_to_worker os i r w =
     (let r = (if io_link (sqe_of r i) then upd_op i (\<lambda>op. op\<lparr>op_stalls_queue := True\<rparr>) r else r)
      in worker_start_once os (r\<lparr>r_wq := r_wq r @ [i]\<rparr>) w)"

subsection \<open>Cancelling\<close>

definition cancel_names :: "sqe \<Rightarrow> sqe \<Rightarrow> bool" where
  "cancel_names cancel target =
     (if sqe_opcode cancel = OP_POLL_REMOVE then
        sqe_opcode target = OP_POLL_ADD \<and> sqe_user_data target = sqe_addr cancel
      else if cancel_fd cancel then sqe_fd target = sqe_fd cancel
      else sqe_user_data target = sqe_addr cancel)"

definition cancel_target :: "opid \<Rightarrow> 'b slip_ring \<Rightarrow> 'b slip_ring" where
  "cancel_target t r =
     (let failure = slip_chain_failure_of (the_op r t);
          r = (if r_blocking r = Some t then r\<lparr>r_blocking := None, r_chain_failed := failure\<rparr>
               else if io_link (sqe_of r t) then r\<lparr>r_chain_failed := failure\<rparr> else r)
      in slip_engine_post t (- ECANCELED) r)"

text \<open>The three loops of \<open>cancel_matching\<close>.  Each answers whether it returned early, how many
  ops it has cancelled, and the state.  The first re-reads slot \<open>k\<close> after a removal, so it
  ends only if the removal took place.\<close>

partial_function (option) cancel_waiting ::
    "('b, 'w) readiness \<Rightarrow> sqe \<Rightarrow> bool \<Rightarrow> nat \<Rightarrow> nat \<Rightarrow> 'b slip_ring \<Rightarrow> 'w
     \<Rightarrow> (bool \<times> nat \<times> 'b slip_ring \<times> 'w) option" where
  "cancel_waiting be c all k n r w =
     (if k < length (r_waiting r) then
        let t = r_waiting r ! k in
        if cancel_names c (sqe_of r t) then
          case unpark be t r w of (r, w) \<Rightarrow>
            let r = cancel_target t r in
            if \<not> all then Some (True, Suc n, r, w) else cancel_waiting be c all k (Suc n) r w
        else cancel_waiting be c all (Suc k) n r w
      else Some (False, n, r, w))"

fun cancel_queue :: "sqe \<Rightarrow> bool \<Rightarrow> opid list \<Rightarrow> opid list \<Rightarrow> nat \<Rightarrow> 'b slip_ring \<Rightarrow> bool \<times> nat \<times> 'b slip_ring" where
  "cancel_queue c all passed [] n r = (False, n, r)"
| "cancel_queue c all passed (t # rest) n r =
     (if cancel_names c (sqe_of r t) then
        let r = cancel_target t (r\<lparr>r_queue := passed @ rest\<rparr>) in
        if \<not> all then (True, Suc n, r) else cancel_queue c all passed rest (Suc n) r
      else cancel_queue c all (passed @ [t]) rest n r)"

fun cancel_wq :: "sqe \<Rightarrow> bool \<Rightarrow> opid list \<Rightarrow> opid list \<Rightarrow> nat \<Rightarrow> 'b slip_ring \<Rightarrow> bool \<times> nat \<times> 'b slip_ring" where
  "cancel_wq c all passed [] n r = (False, n, r)"
| "cancel_wq c all passed (t # rest) n r =
     (if cancel_names c (sqe_of r t) then
        let r = cancel_target t (r\<lparr>r_wq := passed @ rest\<rparr>) in
        if \<not> all then (True, Suc n, r) else cancel_wq c all passed rest (Suc n) r
      else cancel_wq c all (passed @ [t]) rest n r)"

definition cancel_matching ::
    "('b, 'w) readiness \<Rightarrow> opid \<Rightarrow> 'b slip_ring \<Rightarrow> 'w \<Rightarrow> (i32 \<times> 'b slip_ring \<times> 'w) option" where
  "cancel_matching be i r w =
     (let c = sqe_of r i;
          all = (sqe_opcode c = OP_ASYNC_CANCEL \<and> cancel_all c)
      in case cancel_waiting be c all 0 0 r w of
        None \<Rightarrow> None
      | Some (True, n, r, w) \<Rightarrow> Some (0, r, w)
      | Some (False, n, r, w) \<Rightarrow>
          (case cancel_queue c all [] (r_queue r) n r of
             (True, n, r) \<Rightarrow> Some (0, r, w)
           | (False, n, r) \<Rightarrow>
               (case cancel_wq c all [] (r_wq r) n r of
                  (True, n, r) \<Rightarrow> Some (0, r, w)
                | (False, n, r) \<Rightarrow>
                    if 0 < n then Some (if all then of_nat n else 0, r, w)
                    else if r_blocking r \<noteq> None \<and> r_blocked_done r = None
                    then Some (- EALREADY, r, w)
                    else Some (- ENOENT, r, w))))"

subsection \<open>One op, and the ops that became ready\<close>

datatype eng_exec = EXEC_DONE i32 | EXEC_PENDING

definition slip_posix_execute ::
    "('b, 'w) readiness \<Rightarrow> 'w os \<Rightarrow> opid \<Rightarrow> 'b slip_ring \<Rightarrow> 'w \<Rightarrow> (eng_exec \<times> 'b slip_ring \<times> 'w) option" where
  "slip_posix_execute be os i r w =
     (if sqe_opcode (sqe_of r i) = OP_ASYNC_CANCEL \<or> sqe_opcode (sqe_of r i) = OP_POLL_REMOVE then
        case cancel_matching be i r w of
          None \<Rightarrow> None
        | Some (res, r, w) \<Rightarrow> Some (EXEC_DONE res, r, w)
      else case slip_posix_try os (be_forget be) i r w of
        None \<Rightarrow> None
      | Some (ENG_RAN res, r, w) \<Rightarrow> Some (EXEC_DONE res, r, w)
      | Some (ENG_PARK, r, w) \<Rightarrow>
          (case park be i r w of (ok, r, w) \<Rightarrow>
             Some (if ok then EXEC_PENDING else EXEC_DONE (- EBUSY), r, w))
      | Some (ENG_FILE, r, w) \<Rightarrow>
          (case (case be_submit_blocking be of
                   Some submit \<Rightarrow> submit i r w
                 | None \<Rightarrow> slip_posix_hand_to_worker os i r w) of
             (r, w) \<Rightarrow> Some (EXEC_PENDING, r, w)))"

type_synonym eng_done = "opid \<times> i32"

fun slip_posix_finish_ready ::
    "('b, 'w) readiness \<Rightarrow> 'w os \<Rightarrow> opid list \<Rightarrow> nat \<Rightarrow> eng_done list \<Rightarrow> 'b slip_ring \<Rightarrow> 'w
     \<Rightarrow> (eng_done list \<times> 'b slip_ring \<times> 'w) option" where
  "slip_posix_finish_ready be os [] cap out r w = Some (out, r, w)"
| "slip_posix_finish_ready be os (i # ready) cap out r w =
     (if length out < cap then
        case unpark be i r w of (r, w) \<Rightarrow>
        case slip_posix_try os (be_forget be) i r w of
          None \<Rightarrow> None
        | Some (ENG_RAN res, r, w) \<Rightarrow> slip_posix_finish_ready be os ready cap (out @ [(i, res)]) r w
        | Some (ENG_FILE, r, w) \<Rightarrow>
            slip_posix_finish_ready be os ready cap (out @ [(i, - EOPNOTSUPP)]) r w
        | Some (ENG_PARK, r, w) \<Rightarrow>
            (case park be i r w of (ok, r, w) \<Rightarrow>
               slip_posix_finish_ready be os ready cap (if ok then out else out @ [(i, - EBUSY)]) r w)
      else Some (out, r, w))"

end
