(* ===== verification/Readiness.thy ===== *)
theory Readiness
  imports Posix_Frame Posix_Exec
begin

text \<open>
  What a readiness backend is to the shared machinery: how it is told that an op waits
  (\<open>arm\<close>) or stops waiting (\<open>disarm\<close>), that a descriptor goes (\<open>forget\<close>), and whether it
  brings its own place to block.  The locale states what the machinery relies on: these
  doors touch the backend's own state and nothing else of the ring.  Everything proved of
  one attempt at an op is proved here once, for all backends.
\<close>

definition be_only :: "'b slip_ring \<Rightarrow> 'b slip_ring \<Rightarrow> bool" where
  "be_only r r' \<longleftrightarrow> r' = r\<lparr>r_be_state := r_be_state r'\<rparr>"

lemma be_only_refl [simp]: "be_only r r"
  by (simp add: be_only_def)

lemma be_only_set [simp]: "be_only r (r\<lparr>r_be_state := s\<rparr>)"
  by (simp add: be_only_def)

lemma be_onlyE:
  assumes "be_only r r'"
  obtains b where "r' = r\<lparr>r_be_state := b\<rparr>"
  using assms unfolding be_only_def by blast

text \<open>
  What a backend may rely on between two of its doors: its own state, the set of parked ops,
  and of each parked op the entry it was submitted with, the events it waits for and its
  slot.  A backend's invariant speaks of nothing else.
\<close>

definition parked_same :: "'b slip_ring \<Rightarrow> 'b slip_ring \<Rightarrow> bool" where
  "parked_same r s \<longleftrightarrow> r_be_state s = r_be_state r \<and> r_waiting s = r_waiting r \<and>
     (\<forall>j \<in> set (r_waiting r). sqe_of s j = sqe_of r j \<and>
        op_wait_events (the_op s j) = op_wait_events (the_op r j) \<and>
        op_wait_slot (the_op s j) = op_wait_slot (the_op r j))"

lemma parked_same_trans: "parked_same r s \<Longrightarrow> parked_same s t \<Longrightarrow> parked_same r t"
  by (simp add: parked_same_def)

lemma parked_same_ops:
  assumes "r_be_state s = r_be_state r" "r_waiting s = r_waiting r"
    "\<And>j. j \<in> set (r_waiting r) \<Longrightarrow> the_op s j = the_op r j"
  shows "parked_same r s"
  using assms by (simp add: parked_same_def sqe_of_def)

lemma keeps_parked: "keeps i r s \<Longrightarrow> parked_same r s"
  by (rule parked_same_ops) (auto simp: keeps_def same_lists_def waiters_def)

text \<open>What an attempt may do: as \<open>keeps\<close>, and tell the backend that a descriptor goes.\<close>

definition keeps_be :: "opid \<Rightarrow> 'b slip_ring \<Rightarrow> 'b slip_ring \<Rightarrow> bool" where
  "keeps_be i r r' \<longleftrightarrow> (\<exists>s. keeps i r s \<and> be_only s r')"

lemma keeps_keeps_be: "keeps i r s \<Longrightarrow> keeps_be i r s"
  using be_only_refl unfolding keeps_be_def by blast

lemma keeps_then_be: "keeps i r s \<Longrightarrow> be_only s t \<Longrightarrow> keeps_be i r t"
  unfolding keeps_be_def by blast

locale wait_invariant =
  fixes I :: "'b slip_ring \<Rightarrow> bool"
  assumes I_cong: "parked_same r s \<Longrightarrow> I r \<Longrightarrow> I s"

locale readiness_backend = wait_invariant I
  for I :: "'b slip_ring \<Rightarrow> bool" +
  fixes be :: "('b, 'w) readiness"
  assumes arm_only: "be_arm be i r w = (ok, r', w') \<Longrightarrow> be_only r r'"
    and arm_inv: "be_arm be i r w = (ok, r', w') \<Longrightarrow> I r \<Longrightarrow> i \<notin> set (r_waiting r) \<Longrightarrow>
      I (if ok then wait_join i r' else r')"
    and disarm_only: "be_disarm be i r w = (r', w') \<Longrightarrow> be_only r r'"
    and disarm_inv: "be_disarm be (r_waiting r ! k) (wait_leave k r) w = (r', w') \<Longrightarrow> I r \<Longrightarrow>
      distinct (r_waiting r) \<Longrightarrow> k < length (r_waiting r) \<Longrightarrow> I r'"
    and forget_only: "be_forget be = Some g \<Longrightarrow> be_only r (g f r)"
    and forget_inv: "be_forget be = Some g \<Longrightarrow> I r \<Longrightarrow> I (g f r)"

subsection \<open>Multishot loops\<close>

definition att_ring :: "('b, 'w) attempt \<Rightarrow> 'b slip_ring" where
  "att_ring a = fst (snd a)"

lemma att_ring_simp [simp]: "att_ring (v, r, w) = r"
  by (simp add: att_ring_def)

lemma install_direct_keeps: "install_direct os r s fd w = (a, r', w') \<Longrightarrow> keeps i r r'"
  using keeps_install [of i r "sqe_file_index s" fd]
  by (auto simp: install_direct_def split: prod.splits if_splits)

text \<open>What a multishot loop shows of each of its calls, and how one more emission extends it.\<close>

definition att_keeps :: "opid multiset \<Rightarrow> opid \<Rightarrow> 'b slip_ring \<Rightarrow> ('b, 'w) attempt \<Rightarrow> bool" where
  "att_keeps H i r a \<longleftrightarrow> (pool_ok r (add_mset i H) \<longrightarrow> keeps i r (att_ring a))"

lemma att_keeps_ret: "(pool_ok r (add_mset i H) \<Longrightarrow> keeps i r r') \<Longrightarrow> att_keeps H i r (v, r', w)"
  by (simp add: att_keeps_def)

lemma att_keeps_after: "keeps i r r' \<Longrightarrow> att_keeps H i r' a \<Longrightarrow> att_keeps H i r a"
  by (auto simp: att_keeps_def keeps_pool_ok intro: keeps_trans)

lemma att_keeps_emit:
  assumes "att_keeps H i (slip_engine_emit ud res fl r') a" "keeps i r r'"
  shows "att_keeps H i r a"
proof -
  have "att_keeps H i r' a"
    using assms(1) keeps_emit [of r' i H ud res fl]
      att_keeps_after [of i r' "slip_engine_emit ud res fl r'" H a]
    unfolding att_keeps_def by blast
  with assms(2) show ?thesis by (rule att_keeps_after)
qed

lemma keeps_after_set_wait:
  "keeps i r r' \<Longrightarrow> pool_ok r (add_mset i H) \<Longrightarrow> keeps i r (upd_op i (set_wait ev) r')"
  by (metis keeps_pool_ok keeps_set_wait keeps_trans)

lemma keeps_after_flags:
  assumes "keeps i r r'" "pool_ok r (add_mset i H)"
  shows "keeps i r (upd_op i (\<lambda>op. op\<lparr>op_cqe_flags := cf\<rparr>) r')"
proof -
  have "pool_ok r' (add_mset i H)" using assms keeps_pool_ok by blast
  then have "keeps i r' (upd_op i (\<lambda>op. op\<lparr>op_cqe_flags := cf\<rparr>) r')"
    by (rule keeps_upd_op) simp
  with assms(1) show ?thesis by (rule keeps_trans)
qed

lemma keeps_after_unget: "keeps i r r' \<Longrightarrow> keeps i r (bufring_unget r' g)"
  by (rule keeps_trans [OF _ keeps_unget])

lemma take_keeps: "bufring_take m r g = (b, r') \<Longrightarrow> keeps i r r'"
  by (metis keeps_take snd_conv)

lemma run_accept_multishot_keeps:
  assumes "run_accept_multishot os i r w = Some a"
  shows "att_keeps H i r a"
  apply (rule run_accept_multishot.raw_induct [where P = "\<lambda>os i r w a. att_keeps H i r a", OF _ assms])
  subgoal premises p for run os i r w a
    using p(2) by (auto simp: Let_def split: prod.splits sysret.splits if_splits
      intro: att_keeps_ret keeps_set_wait keeps_refl install_direct_keeps att_keeps_emit [OF p(1)])
  done

lemma run_recv_multishot_keeps:
  assumes "run_recv_multishot os i r w = Some a"
  shows "att_keeps H i r a"
  apply (rule run_recv_multishot.raw_induct [where P = "\<lambda>os i r w a. att_keeps H i r a", OF _ assms])
  subgoal premises p for run os i r w a
    using p(2) by (auto simp: Let_def split: prod.splits sysret.splits if_splits sum.splits
      intro: att_keeps_ret keeps_set_wait keeps_after_set_wait keeps_after_unget keeps_refl take_keeps att_keeps_emit [OF p(1)])
  done

lemma recvmsg_loop_keeps:
  assumes "recvmsg_loop os i asked header r w = Some a"
  shows "att_keeps H i r a"
  apply (rule recvmsg_loop.raw_induct [where P = "\<lambda>os i asked header r w a. att_keeps H i r a", OF _ assms])
  subgoal premises p for run os i asked header r w a
    using p(2) by (auto simp: Let_def split: prod.splits sysret.splits if_splits sum.splits
      intro: att_keeps_ret keeps_after_set_wait keeps_after_flags keeps_after_unget keeps_refl take_keeps att_keeps_emit [OF p(1)])
  done

subsection \<open>One attempt\<close>

text \<open>An attempt at an op that ends, ends with a ring that differs from the one it began
  with only as \<open>keeps\<close> says.\<close>

lemma or_park_keeps:
  assumes "pool_ok r (add_mset i H) \<Longrightarrow> keeps i r r'"
  shows "att_keeps H i r (or_park ev n i r' nw)"
  using assms keeps_after_set_wait [OF assms, of H ev]
  by (auto simp: or_park_def att_keeps_def split: prod.splits)

lemma keeps_connect:
  "pool_ok r (add_mset i H) \<Longrightarrow>
    keeps i r (upd_op i (\<lambda>op. op\<lparr>op_connect_in_progress := True, op_wait_events := ev\<rparr>) r)"
  by (rule keeps_upd_op) auto

lemma att_simps [simp]:
  "att_keeps H i r (v, r, w)"
  "att_keeps H i r (v, upd_op i (set_wait ev) r, w)"
  "att_keeps H i r (v, upd_op i (set_wait ev) (slip_engine_emit ud res fl r), w)"
  "att_keeps H i r (v, upd_op i (\<lambda>op. op\<lparr>op_connect_in_progress := True, op_wait_events := ev\<rparr>) r, w)"
  "att_keeps H i r (or_park ev n i r nw)"
  by (auto intro: att_keeps_ret keeps_set_wait keeps_connect or_park_keeps keeps_emit
      keeps_after_set_wait)

lemma install_direct_att:
  "install_direct os r s fd w = (a, r', w') \<Longrightarrow> att_keeps H i r (v, r', w'')"
  by (simp add: att_keeps_def install_direct_keeps)

lemma try_recv_keeps: "try_recv os i r w = Some a \<Longrightarrow> att_keeps H i r a"
  by (auto simp: try_recv_def Let_def run_recv_multishot_keeps
      split: prod.splits sum.splits if_splits sysret.splits
      intro!: or_park_keeps att_keeps_ret keeps_after_unget keeps_after_flags
      intro: take_keeps att_keeps_after)

lemma try_rw_keeps: "att_keeps H i r (try_rw wr os i r w)"
  by (simp add: try_rw_def Let_def split: prod.split sysret.split)

lemma try_socket_keeps: "att_keeps H i r (try_socket os i r w)"
  by (simp add: try_socket_def Let_def install_direct_att split: prod.split sysret.split)

lemma try_accept_keeps: "try_accept os i r w = Some a \<Longrightarrow> att_keeps H i r a"
  by (auto simp: try_accept_def Let_def run_accept_multishot_keeps install_direct_att
      split: prod.splits if_splits sysret.splits)

lemma try_recvmsg_keeps: "try_recvmsg os i r w = Some a \<Longrightarrow> att_keeps H i r a"
  by (auto simp: try_recvmsg_def run_recvmsg_multishot_def Let_def recvmsg_loop_keeps
      split: if_splits)

lemma try_poll_add_keeps: "att_keeps H i r (try_poll_add os i r w)"
  by (simp add: try_poll_add_def Let_def split: prod.split)

lemma try_connect_keeps: "att_keeps H i r (try_connect os i r w)"
  by (simp add: try_connect_def Let_def split: prod.split sysret.split sum.split)

lemmas try_keeps = try_recv_keeps try_rw_keeps try_socket_keeps try_accept_keeps
  try_recvmsg_keeps try_poll_add_keeps try_connect_keeps

lemma slip_posix_try_not_close:
  assumes "slip_posix_try os forget i r w = Some a" "sqe_opcode (sqe_of r i) \<noteq> OP_CLOSE"
  shows "att_keeps H i r a"
  using assms
  by (cases "sqe_opcode (sqe_of r i)")
    (auto simp: slip_posix_try_def Let_def try_send_def try_sendmsg_def ran0_def try_keeps
      split: prod.splits)

lemma slip_posix_try_close:
  assumes "slip_posix_try os forget i r w = Some a" "sqe_opcode (sqe_of r i) = OP_CLOSE"
  obtains f s where "keeps i r s" "att_ring a = s \<or> att_ring a = tell_forget forget f s"
proof -
  have a: "a = try_close os forget i r w" using assms by (simp add: slip_posix_try_def Let_def)
  have "\<exists>f s. keeps i r s \<and> (att_ring a = s \<or> att_ring a = tell_forget forget f s)"
  proof -
    let ?Q = "\<lambda>t. \<exists>f s. keeps i r s \<and> (t = s \<or> t = tell_forget forget f s)"
    have "?Q r" "\<And>g. ?Q (tell_forget forget g r)"
      "\<And>g k. ?Q (tell_forget forget g (snd (slip_fixed_clear r k)))"
      using keeps_refl [of i r] keeps_clear [of i r] by blast+
    then show ?thesis unfolding a try_close_def Let_def by (simp split: prod.split)
  qed
  with that show thesis by blast
qed

context readiness_backend
begin

text \<open>An attempt that ends leaves a ring that differs from the one it began with only as
  \<open>keeps_be\<close> says, and the backend's invariant in place.\<close>

lemma slip_posix_try_keeps:
  assumes "slip_posix_try os (be_forget be) i r w = Some a" "pool_ok r (add_mset i H)"
  shows "keeps_be i r (att_ring a)" "I r \<Longrightarrow> I (att_ring a)"
proof -
  have "keeps_be i r (att_ring a) \<and> (I r \<longrightarrow> I (att_ring a))"
  proof (cases "sqe_opcode (sqe_of r i) = OP_CLOSE")
    case False
    have "keeps i r (att_ring a)"
      using slip_posix_try_not_close [OF assms(1) False, of H] assms(2) by (simp add: att_keeps_def)
    then show ?thesis using I_cong keeps_parked keeps_keeps_be by blast
  next
    case True
    obtain f s where s: "keeps i r s"
      "att_ring a = s \<or> att_ring a = tell_forget (be_forget be) f s"
      by (rule slip_posix_try_close [OF assms(1) True])
    have Is: "I r \<Longrightarrow> I s" using I_cong keeps_parked [OF s(1)] by blast
    show ?thesis
    proof (cases "be_forget be")
      case None
      with s Is show ?thesis by (auto simp: tell_forget_def intro: keeps_keeps_be)
    next
      case (Some g)
      with s Is forget_only [OF Some] forget_inv [OF Some] show ?thesis
        by (auto simp: tell_forget_def intro: keeps_keeps_be keeps_then_be)
    qed
  qed
  then show "keeps_be i r (att_ring a)" "I r \<Longrightarrow> I (att_ring a)" by auto
qed

end

end
