(* ===== verification/Posix_Inv.thy ===== *)
theory Posix_Inv
  imports Readiness
begin

text \<open>
  The invariant of the POSIX machinery and that every one of its operations keeps it: each
  op of the pool is in one place (\<open>pool_ok\<close>), the completion ring, the descriptor table and
  the buffer rings are well formed, and each parked op knows its own slot of \<open>waiting[]\<close>.
\<close>

subsection \<open>The invariant\<close>

definition slots_ok :: "'b slip_ring \<Rightarrow> bool" where
  "slots_ok r \<longleftrightarrow> (\<forall>k < length (r_waiting r). op_wait_slot (the_op r (r_waiting r ! k)) = k)"

text \<open>The invariant of one ring whose backend keeps \<open>I\<close>, with the ops \<open>H\<close> in somebody's
  hands.\<close>

definition ring_inv :: "('b slip_ring \<Rightarrow> bool) \<Rightarrow> opid multiset \<Rightarrow> 'b slip_ring \<Rightarrow> bool" where
  "ring_inv I H r \<longleftrightarrow> pool_ok r H \<and> ring_wf r \<and> slots_ok r \<and> I r"

text \<open>What running one op leaves alone, whatever the op: the submission side, the ticket,
  the sizes; and the queue can only get shorter (by cancels).\<close>

definition runs :: "'b slip_ring \<Rightarrow> 'b slip_ring \<Rightarrow> bool" where
  "runs r r' \<longleftrightarrow>
     r_in_use r' = r_in_use r \<and> r_sq_entries r' = r_sq_entries r \<and> r_cq_entries r' = r_cq_entries r \<and>
     r_op_pool_n r' = r_op_pool_n r \<and> r_sq r' = r_sq r \<and> r_sqes r' = r_sqes r \<and>
     r_blocked_done r' = r_blocked_done r \<and> r_blocked_failed r' = r_blocked_failed r \<and>
     r_stopping r' = r_stopping r \<and> cq_head (r_cq r') = cq_head (r_cq r) \<and>
     length (r_queue r') \<le> length (r_queue r)"

lemma runs_refl [simp]: "runs r r"
  by (simp add: runs_def)

lemma runs_trans [trans]: "runs r s \<Longrightarrow> runs s t \<Longrightarrow> runs r t"
  by (simp add: runs_def)

lemma same_lists_runs: "same_lists r s \<Longrightarrow> runs r s"
  by (simp add: same_lists_def runs_def)

lemma keeps_runs: "keeps i r s \<Longrightarrow> runs r s"
  by (simp add: keeps_lists same_lists_runs)

lemma slots_okD: "slots_ok r \<Longrightarrow> k < length (r_waiting r) \<Longrightarrow> op_wait_slot (the_op r (r_waiting r ! k)) = k"
  by (simp add: slots_ok_def)

lemma ring_wf_cong:
  assumes "r_cq s = r_cq r" "r_cq_entries s = r_cq_entries r" "r_fixed s = r_fixed r"
    "r_alloc_off s = r_alloc_off r" "r_alloc_len s = r_alloc_len r" "r_alloc_hint s = r_alloc_hint r"
    "r_bufrings s = r_bufrings r"
  shows "ring_wf s = ring_wf r"
proof -
  have "cq_wf s = cq_wf r" "fixed_wf s = fixed_wf r" "bufrings_wf s = bufrings_wf r"
    by (rule cq_wf_cong fixed_wf_cong bufrings_wf_cong; simp add: assms)+
  then show ?thesis by (simp add: ring_wf_def)
qed

lemma ring_inv_pool: "ring_inv I H r \<Longrightarrow> pool_ok r H"
  by (simp add: ring_inv_def)

lemma ring_inv_hand:
  assumes "ring_inv I (add_mset i H) r"
  shows "i \<notin> set (r_waiting r)" "i \<notin> set (r_queue r)" "i \<notin> set (r_wq r)"
  using assms pool_ok_hand [of r i H] by (auto simp: ring_inv_def)

lemma parked_same_slots: "parked_same r s \<Longrightarrow> slots_ok s = slots_ok r"
  by (simp add: parked_same_def slots_ok_def)

lemma parked_same_sym: "parked_same r s \<Longrightarrow> parked_same s r"
  by (auto simp: parked_same_def)

lemma parked_same_plain:
  "r_be_state s = r_be_state r \<Longrightarrow> r_waiting s = r_waiting r \<Longrightarrow> r_op_pool s = r_op_pool r \<Longrightarrow>
    parked_same r s"
  by (rule parked_same_ops) (simp_all add: the_op_def)

lemma parked_same_upd_op:
  "r_be_state s = r_be_state r \<Longrightarrow> i \<notin> set (r_waiting r) \<Longrightarrow> parked_same r s \<Longrightarrow>
    parked_same r (upd_op i f s)"
  by (auto simp: parked_same_def sqe_of_def) (auto simp: upd_op_def)

lemma keeps_be_frame:
  assumes "keeps_be i r s"
  shows "pool_ok s H = pool_ok r H" "ring_wf r \<Longrightarrow> ring_wf s" "slots_ok s = slots_ok r" "runs r s"
    "r_waiting s = r_waiting r" "r_queue s = r_queue r" "r_wq s = r_wq r" "sqe_of s i = sqe_of r i"
proof -
  obtain t b where t: "keeps i r t" and s: "s = t\<lparr>r_be_state := b\<rparr>"
    using assms unfolding keeps_be_def by (metis be_only_def)
  have "ring_wf s = ring_wf t" by (rule ring_wf_cong) (simp_all add: s)
  then show "ring_wf r \<Longrightarrow> ring_wf s" using keeps_wf [OF t] by simp
  show "pool_ok s H = pool_ok r H" "slots_ok s = slots_ok r" "runs r s"
    "r_waiting s = r_waiting r" "r_queue s = r_queue r" "r_wq s = r_wq r" "sqe_of s i = sqe_of r i"
    using keeps_pool_ok [OF t, of H] parked_same_slots [OF keeps_parked [OF t]] keeps_runs [OF t]
      keeps_lists [OF t] keeps_sqe [OF t]
    by (simp_all add: s pool_ok_def acct_def slots_ok_def the_op_def runs_def same_lists_def sqe_of_def)
qed

lemma keeps_be_inv: "keeps_be i r s \<Longrightarrow> ring_inv I H r \<Longrightarrow> I s \<Longrightarrow> ring_inv I H s"
  by (simp add: ring_inv_def keeps_be_frame)

lemma be_only_keeps: "be_only r s \<Longrightarrow> keeps_be i r s"
  by (rule keeps_then_be [OF keeps_refl])

context wait_invariant
begin

lemma I_same: "parked_same r s \<Longrightarrow> I s = I r"
  using I_cong parked_same_sym by blast

end

text \<open>
  All the core knows of a ring: \<open>R H r\<close> says that \<open>r\<close> is as it should be with the ops \<open>H\<close> in
  somebody's hands.  A step that leaves the backend and what it waits for alone, and the ring
  well formed, may move ops between the lists of the ring and those hands.  A backend may
  itself hold more ops, the \<open>X\<close> of the second law.
\<close>

locale ring_contract =
  fixes R :: "opid multiset \<Rightarrow> 'b slip_ring \<Rightarrow> bool"
  assumes R_move: "R H r \<Longrightarrow> parked_same r s \<Longrightarrow> acct s + H' = acct r + H \<Longrightarrow>
      r_op_pool_n s = r_op_pool_n r \<Longrightarrow> ring_wf s \<Longrightarrow> R H' s"
    and R_pool_all: "R H r \<Longrightarrow> \<exists>X. pool_ok r (X + H)"
    and R_wf: "R H r \<Longrightarrow> ring_wf r"
begin

lemma R_pool:
  assumes "R H r"
  obtains X where "pool_ok r (X + H)"
  using R_pool_all [OF assms] by blast

lemma R_hand:
  assumes "R (add_mset i H) r"
  shows "i \<notin> set (r_waiting r)" "i \<notin> set (r_queue r)" "i \<notin> set (r_wq r)" "i \<notin> set (r_backlog r)"
proof -
  obtain X where "pool_ok r (X + add_mset i H)" by (rule R_pool [OF assms])
  then have "pool_ok r (add_mset i (X + H))" by simp
  then show "i \<notin> set (r_waiting r)" "i \<notin> set (r_queue r)" "i \<notin> set (r_wq r)" "i \<notin> set (r_backlog r)"
    by (rule pool_ok_hand)+
qed

lemma R_same:
  assumes "parked_same r s" "acct s = acct r" "r_op_pool_n s = r_op_pool_n r" "ring_wf s = ring_wf r"
  shows "R H s = R H r"
  using R_move [OF _ assms(1), of H H] R_move [OF _ parked_same_sym [OF assms(1)], of H H] assms(2-4)
    R_wf [of H r] R_wf [of H s] by auto

lemma keeps_inv: "keeps i r s \<Longrightarrow> R H r \<Longrightarrow> R H s"
  by (rule R_move [OF _ keeps_parked]) (auto simp: keeps_def same_lists_def dest: R_wf)

end

sublocale wait_invariant \<subseteq> ring_contract "ring_inv I"
proof
  show "ring_inv I H' s" if "ring_inv I H r" "parked_same r s" "acct s + H' = acct r + H"
    "r_op_pool_n s = r_op_pool_n r" "ring_wf s" for H H' r s
    using that by (simp add: ring_inv_def pool_ok_def parked_same_slots I_same)
  show "\<exists>X. pool_ok r (X + H)" if "ring_inv I H r" for H r
    using ring_inv_pool [OF that] by (intro exI [of _ "{#}"]) simp
  show "ring_wf r" if "ring_inv I H r" for H r using that by (simp add: ring_inv_def)
qed

context wait_invariant
begin

lemma contract: "ring_contract (ring_inv I)"
  by unfold_locales

end

subsection \<open>A completion\<close>

lemma post_the_op: "j \<noteq> i \<Longrightarrow> the_op (slip_engine_post i res r) j = the_op r j"
  by (simp add: slip_engine_post_def Let_def backlog_locked_def)
    (simp add: the_op_def op_release_def post_locked_def overflow_inc_def Let_def upd_op_def)

lemma post_fields [simp]:
  "r_waiting (slip_engine_post i res r) = r_waiting r"
  "r_queue (slip_engine_post i res r) = r_queue r" "r_wq (slip_engine_post i res r) = r_wq r"
  "r_blocking (slip_engine_post i res r) = r_blocking r"
  "r_chain_failed (slip_engine_post i res r) = r_chain_failed r"
  "r_op_pool_n (slip_engine_post i res r) = r_op_pool_n r"
  "r_fixed (slip_engine_post i res r) = r_fixed r"
  "r_be_state (slip_engine_post i res r) = r_be_state r"
  "r_ctl (slip_engine_post i res r) = r_ctl r"
proof -
  have "same_core (slip_engine_post i res r) r" by simp
  then show "r_waiting (slip_engine_post i res r) = r_waiting r"
    "r_queue (slip_engine_post i res r) = r_queue r" "r_wq (slip_engine_post i res r) = r_wq r"
    "r_blocking (slip_engine_post i res r) = r_blocking r"
    "r_chain_failed (slip_engine_post i res r) = r_chain_failed r"
    "r_op_pool_n (slip_engine_post i res r) = r_op_pool_n r"
    "r_fixed (slip_engine_post i res r) = r_fixed r"
    "r_be_state (slip_engine_post i res r) = r_be_state r"
    "r_ctl (slip_engine_post i res r) = r_ctl r"
    unfolding same_core_def by - (elim conjE; assumption)+
qed

lemma post_parked: "i \<notin> set (r_waiting r) \<Longrightarrow> parked_same r (slip_engine_post i res r)"
  by (rule parked_same_ops) (simp_all, metis post_the_op)

lemma post_runs: "runs r (slip_engine_post i res r)"
  by (intro same_lists_runs same_core_lists) simp

context ring_contract
begin

lemma post_inv:
  assumes "R (add_mset i H) r"
  shows "R H (slip_engine_post i res r)"
proof (rule R_move [OF assms post_parked])
  show "ring_wf (slip_engine_post i res r)"
    using R_wf [OF assms] same_core_wf [of "slip_engine_post i res r" r] by (simp add: ring_wf_def)
qed (use R_hand [OF assms] in simp_all)

lemma set_chain_inv [simp]:
  "R H (r\<lparr>r_blocking := b, r_chain_failed := c\<rparr>) = R H r"
  "R H (r\<lparr>r_chain_failed := c\<rparr>) = R H r"
  "R H (r\<lparr>r_blocking := b\<rparr>) = R H r"
  by (rule R_same; (rule parked_same_plain ring_wf_cong)?; simp add: acct_def)+

end

lemma set_chain_runs [simp]:
  "runs s (r\<lparr>r_blocking := b, r_chain_failed := c\<rparr>) = runs s r"
  "runs s (r\<lparr>r_chain_failed := c\<rparr>) = runs s r" "runs s (r\<lparr>r_blocking := b\<rparr>) = runs s r"
  by (simp_all add: runs_def)

subsection \<open>Cancelling a target\<close>

context ring_contract
begin

lemma cancel_target_inv:
  assumes "R (add_mset t H) r"
  shows "R H (cancel_target t r)" "runs r (cancel_target t r)"
proof -
  define s where "s = (if r_blocking r = Some t
      then r\<lparr>r_blocking := None, r_chain_failed := slip_chain_failure_of (the_op r t)\<rparr>
      else if io_link (sqe_of r t) then r\<lparr>r_chain_failed := slip_chain_failure_of (the_op r t)\<rparr> else r)"
  have s: "R (add_mset t H) s" "runs r s"
    using assms by (simp_all add: s_def)
  have eq: "cancel_target t r = slip_engine_post t (- ECANCELED) s"
    by (simp add: cancel_target_def s_def Let_def)
  show "R H (cancel_target t r)" unfolding eq by (rule post_inv [OF s(1)])
  show "runs r (cancel_target t r)" unfolding eq by (rule runs_trans [OF s(2) post_runs])
qed

end

lemma cancel_target_lists [simp]:
  "r_waiting (cancel_target t r) = r_waiting r" "r_queue (cancel_target t r) = r_queue r"
  "r_wq (cancel_target t r) = r_wq r"
  by (simp_all add: cancel_target_def Let_def)

subsection \<open>Parking\<close>

lemma mset_swap_remove:
  assumes "k < length xs"
  shows "add_mset (xs ! k) (mset (butlast (xs[k := last xs]))) = mset xs"
proof -
  obtain ys z where xs: "xs = ys @ [z]" using assms by (cases xs rule: rev_cases) auto
  show ?thesis
  proof (cases "k = length ys")
    case False
    with assms xs have "k < length ys" by simp
    then show ?thesis by (simp add: xs nth_append list_update_append mset_update)
  qed (simp add: xs)
qed

lemma nth_swap_remove:
  assumes "k < length xs" "j < length xs - 1"
  shows "butlast (xs[k := last xs]) ! j = (if j = k then last xs else xs ! j)"
  using assms by (simp add: nth_butlast)

lemma wait_join_inv:
  assumes "pool_ok r (add_mset i H)" "ring_wf r" "slots_ok r" "I (wait_join i r)"
  shows "ring_inv I H (wait_join i r)"
proof -
  have i: "i \<notin> set (r_waiting r)" by (rule pool_ok_hand [OF assms(1)])
  have "ring_wf (wait_join i r) = ring_wf r"
    by (rule ring_wf_cong) (simp_all add: wait_join_def upd_op_def)
  moreover have "slots_ok (wait_join i r)"
    using assms(3) i by (auto simp: ring_inv_def slots_ok_def wait_join_def the_op_def upd_op_def
        nth_append less_Suc_eq dest: nth_mem)
  moreover have "pool_ok (wait_join i r) H"
    using assms(1) by (simp add: ring_inv_def pool_ok_def wait_join_def acct_def upd_op_def)
  ultimately show ?thesis using assms by (simp add: ring_inv_def)
qed

lemma wait_join_fields [simp]:
  "r_queue (wait_join i r) = r_queue r" "r_wq (wait_join i r) = r_wq r"
  "r_waiting (wait_join i r) = r_waiting r @ [i]" "runs s (wait_join i r) = runs s r"
  "sqe_of (wait_join i r) = sqe_of r" "r_be_state (wait_join i r) = r_be_state r"
  by (simp_all add: wait_join_def upd_op_def runs_def sqe_of_def the_op_def fun_eq_iff)

text \<open>Leaving by the swap: the op at \<open>k\<close> is out, every other keeps its slot right.\<close>

lemma wait_leave_frame:
  assumes "k < length (r_waiting r)"
  shows "pool_ok r H \<Longrightarrow> pool_ok (wait_leave k r) (add_mset (r_waiting r ! k) H)"
    "ring_wf (wait_leave k r) = ring_wf r"
    "distinct (r_waiting r) \<Longrightarrow> slots_ok r \<Longrightarrow> slots_ok (wait_leave k r)"
    "runs s (wait_leave k r) = runs s r" "r_queue (wait_leave k r) = r_queue r"
    "r_wq (wait_leave k r) = r_wq r" "sqe_of (wait_leave k r) = sqe_of r"
    "op_wait_events (the_op (wait_leave k r) j) = op_wait_events (the_op r j)"
    "r_be_state (wait_leave k r) = r_be_state r"
    "length (r_waiting (wait_leave k r)) < length (r_waiting r)"
    "distinct (r_waiting r) \<Longrightarrow> set (r_waiting (wait_leave k r)) = set (r_waiting r) - {r_waiting r ! k}"
proof -
  let ?W = "r_waiting r" and ?s = "wait_leave k r"
  have w: "r_waiting ?s = butlast (?W[k := last ?W])" by (simp add: wait_leave_def Let_def upd_op_def)
  have m: "add_mset (?W ! k) (mset (r_waiting ?s)) = mset ?W"
    using mset_swap_remove [OF assms] by (simp add: w)
  have acct: "acct ?s = mset (r_op_free r) + mset (r_backlog r) + mset (r_wq r) + mset (r_queue r)
      + mset (r_waiting ?s)"
  proof -
    have "r_op_free ?s = r_op_free r" "r_backlog ?s = r_backlog r" "r_wq ?s = r_wq r"
      "r_queue ?s = r_queue r" by (simp_all add: wait_leave_def Let_def upd_op_def)
    then show ?thesis by (simp add: acct_def)
  qed
  have e: "acct ?s + add_mset (?W ! k) H = acct r + H"
  proof -
    have "acct r = mset (r_op_free r) + mset (r_backlog r) + mset (r_wq r) + mset (r_queue r)
        + add_mset (?W ! k) (mset (r_waiting ?s))" by (simp add: acct_def m)
    then show ?thesis by (simp add: acct)
  qed
  have n: "r_op_pool_n ?s = r_op_pool_n r" by (simp add: wait_leave_def Let_def upd_op_def)
  show "pool_ok ?s (add_mset (?W ! k) H)" if "pool_ok r H"
    using that by (simp only: pool_ok_def e n)
  show "ring_wf ?s = ring_wf r" by (rule ring_wf_cong) (simp_all add: wait_leave_def Let_def upd_op_def)
  show "runs s ?s = runs s r" "r_queue ?s = r_queue r" "r_wq ?s = r_wq r" "r_be_state ?s = r_be_state r"
    "sqe_of ?s = sqe_of r" "op_wait_events (the_op ?s j) = op_wait_events (the_op r j)"
    by (simp_all add: wait_leave_def Let_def upd_op_def runs_def sqe_of_def the_op_def fun_eq_iff)
  show "length (r_waiting ?s) < length ?W" using assms by (simp add: w)
  show "slots_ok ?s" if dist: "distinct ?W" and ok: "slots_ok r" unfolding slots_ok_def
  proof (intro allI impI)
    fix j assume "j < length (r_waiting ?s)"
    then have j: "j < length ?W - 1" by (simp add: w)
    have ne: "?W ! j \<noteq> last ?W"
    proof -
      have "?W \<noteq> []" using assms by auto
      then show ?thesis using dist j assms by (simp add: last_conv_nth nth_eq_iff_index_eq)
    qed
    have "the_op ?s x = (if x = last ?W then (the_op r x)\<lparr>op_wait_slot := k\<rparr> else the_op r x)" for x
      by (simp add: wait_leave_def Let_def the_op_def upd_op_def)
    moreover have "op_wait_slot (the_op r (?W ! j)) = j"
      using ok j by (simp add: slots_ok_def)
    ultimately show "op_wait_slot (the_op ?s (r_waiting ?s ! j)) = j"
      using ne by (simp add: w nth_swap_remove [OF assms j])
  qed
  show "set (r_waiting ?s) = set ?W - {?W ! k}" if dist: "distinct ?W"
  proof -
    have "?W ! k \<notin> set (r_waiting ?s)" using m dist distinct_count_atmost_1 [of ?W] assms
      by (metis nth_mem count_add_mset count_eq_zero_iff nat.inject One_nat_def set_mset_mset)
    then show ?thesis using arg_cong [OF m, of set_mset] by auto
  qed
qed

context readiness_backend
begin

lemma park_inv:
  assumes "park be i r w = (ok, r', w')" "ring_inv I (add_mset i H) r"
  shows "ring_inv I (if ok then H else add_mset i H) r'" "runs r r'"
    "r_queue r' = r_queue r" "r_wq r' = r_wq r"
    "r_waiting r' = (if ok then r_waiting r @ [i] else r_waiting r)"
proof -
  obtain ok1 r1 w1 where arm: "be_arm be i r w = (ok1, r1, w1)" by (cases "be_arm be i r w")
  have k: "keeps_be i r r1" by (rule be_only_keeps [OF arm_only [OF arm]])
  have I1: "I (if ok1 then wait_join i r1 else r1)"
    using arm_inv [OF arm] assms(2) ring_inv_hand [OF assms(2)] by (simp add: ring_inv_def)
  have r1: "pool_ok r1 (add_mset i H)" "ring_wf r1" "slots_ok r1"
    using assms(2) by (simp_all add: ring_inv_def keeps_be_frame [OF k])
  have joined: "ring_inv I H (wait_join i r1)" if ok1
    using wait_join_inv [of r1 i H I] r1 I1 that by simp
  have "(ok, r') = (False, r) \<or> (\<not> ok1 \<and> (ok, r') = (False, r1)) \<or> (ok1 \<and> (ok, r') = (True, wait_join i r1))"
    using assms(1) by (auto simp: park_def arm split: if_splits)
  then show "ring_inv I (if ok then H else add_mset i H) r'" "runs r r'"
    "r_queue r' = r_queue r" "r_wq r' = r_wq r"
    "r_waiting r' = (if ok then r_waiting r @ [i] else r_waiting r)"
    using assms(2) r1 I1 joined keeps_be_frame(4-7) [OF k] by (auto simp: ring_inv_def)
qed

text \<open>\<open>unpark\<close> of a parked op takes exactly that op out of the set: the slot it recorded is
  its own, and the op moved into it records the new one.\<close>

lemma unpark_inv:
  assumes "unpark be i r w = (r', w')" "ring_inv I H r" "i \<in> set (r_waiting r)"
  shows "ring_inv I (add_mset i H) r'" "runs r r'" "r_queue r' = r_queue r" "r_wq r' = r_wq r"
    "length (r_waiting r') < length (r_waiting r)" "sqe_of r' i = sqe_of r i"
    "set (r_waiting r') = set (r_waiting r) - {i}"
proof -
  define k where "k = op_wait_slot (the_op r i)"
  have dist: "distinct (r_waiting r)" using assms(2) by (auto simp: ring_inv_def dest: pool_ok_distinct)
  from assms(2,3) have k: "k < length (r_waiting r)" "r_waiting r ! k = i"
    by (auto simp: k_def ring_inv_def slots_ok_def in_set_conv_nth)
  note lv = wait_leave_frame [OF k(1)]
  have eq: "be_disarm be (r_waiting r ! k) (wait_leave k r) w = (r', w')"
    using assms(1) k by (simp add: unpark_def Let_def k_def [symmetric])
  have I': "I r'" by (rule disarm_inv [OF eq _ dist k(1)]) (use assms(2) in \<open>simp add: ring_inv_def\<close>)
  have kp: "keeps_be i (wait_leave k r) r'" by (rule be_only_keeps [OF disarm_only [OF eq]])
  have "pool_ok (wait_leave k r) (add_mset i H)" "ring_wf (wait_leave k r)" "slots_ok (wait_leave k r)"
    using lv dist assms(2) k(2) by (simp_all add: ring_inv_def)
  then show "ring_inv I (add_mset i H) r'" using I' by (simp add: ring_inv_def keeps_be_frame [OF kp])
  show "runs r r'" "r_queue r' = r_queue r" "r_wq r' = r_wq r"
    "length (r_waiting r') < length (r_waiting r)" "sqe_of r' i = sqe_of r i"
    "set (r_waiting r') = set (r_waiting r) - {i}"
    using lv k dist assms(2) runs_trans [OF _ keeps_be_frame(4) [OF kp]]
    by (simp_all add: keeps_be_frame(5-8) [OF kp] ring_inv_def)
qed

text \<open>The three cancel loops: each ends, and keeps the invariant with the same hands.\<close>

lemma cancel_waiting_inv:
  assumes "ring_inv I H r"
  shows "\<exists>e n' r' w'. cancel_waiting be c all k n r w = Some (e, n', r', w') \<and> ring_inv I H r' \<and> runs r r'"
  using assms
proof (induction "length (r_waiting r) - k" arbitrary: k n r w rule: less_induct)
  case less
  show ?case
  proof (cases "k < length (r_waiting r)")
    case True
    let ?t = "r_waiting r ! k"
    obtain r1 w1 where u: "unpark be ?t r w = (r1, w1)" by (cases "unpark be ?t r w")
    note un = unpark_inv [OF u less.prems nth_mem [OF True]]
    let ?r2 = "cancel_target ?t r1"
    have inv2: "ring_inv I H ?r2" "runs r ?r2"
      using cancel_target_inv [OF un(1)] un(2) by (auto intro: runs_trans)
    have "length (r_waiting ?r2) - k < length (r_waiting r) - k"
      using un(5) True by simp
    from less.hyps [OF this inv2(1)] obtain e n' r' w' where
      rec: "cancel_waiting be c all k (Suc n) ?r2 w1 = Some (e, n', r', w')" "ring_inv I H r'" "runs r r'"
      using inv2(2) runs_trans by blast
    have "length (r_waiting r) - Suc k < length (r_waiting r) - k" using True by simp
    from less.hyps [OF this less.prems] obtain e2 n2 r2 w2 where
      skip: "cancel_waiting be c all (Suc k) n r w = Some (e2, n2, r2, w2)" "ring_inv I H r2" "runs r r2"
      by blast
    have step: "cancel_waiting be c all k n r w =
        (if cancel_names c (sqe_of r ?t)
         then if \<not> all then Some (True, Suc n, ?r2, w1) else cancel_waiting be c all k (Suc n) ?r2 w1
         else cancel_waiting be c all (Suc k) n r w)"
      by (subst cancel_waiting.simps) (simp add: True Let_def u)
    show ?thesis
      unfolding step using rec skip inv2 by (auto split del: if_split split: if_split)
  next
    case False
    then show ?thesis using less.prems by (subst cancel_waiting.simps) (simp, blast)
  qed
qed

end

text \<open>Taking an op out of a list it waits in puts it into the hands of the code.\<close>

context ring_contract
begin

lemma take_queue_inv:
  assumes "R H r" "r_queue r = passed @ t # rest"
  shows "R (add_mset t H) (r\<lparr>r_queue := passed @ rest\<rparr>)" "runs r (r\<lparr>r_queue := passed @ rest\<rparr>)"
proof -
  let ?s = "r\<lparr>r_queue := passed @ rest\<rparr>"
  have "ring_wf ?s = ring_wf r" by (rule ring_wf_cong) simp_all
  then have "ring_wf ?s" using R_wf [OF assms(1)] by simp
  then show "R (add_mset t H) ?s"
    by (rule R_move [OF assms(1) parked_same_plain, rotated -1]) (simp_all add: acct_def assms(2))
  show "runs r ?s" by (simp add: runs_def assms(2))
qed

lemma take_wq_inv:
  assumes "R H r" "r_wq r = passed @ t # rest"
  shows "R (add_mset t H) (r\<lparr>r_wq := passed @ rest\<rparr>)" "runs r (r\<lparr>r_wq := passed @ rest\<rparr>)"
proof -
  let ?s = "r\<lparr>r_wq := passed @ rest\<rparr>"
  have "ring_wf ?s = ring_wf r" by (rule ring_wf_cong) simp_all
  then have "ring_wf ?s" using R_wf [OF assms(1)] by simp
  then show "R (add_mset t H) ?s"
    by (rule R_move [OF assms(1) parked_same_plain, rotated -1]) (simp_all add: acct_def assms(2))
  show "runs r ?s" by (simp add: runs_def)
qed

lemma cancel_queue_inv:
  assumes "cancel_queue c all passed rest n r = (e, n', r')" "R H r" "r_queue r = passed @ rest"
  shows "R H r' \<and> runs r r'"
  using assms
proof (induction c all passed rest n r rule: cancel_queue.induct)
  case (2 c all passed t rest n r)
  let ?s = "cancel_target t (r\<lparr>r_queue := passed @ rest\<rparr>)"
  have s: "R H ?s" "runs r ?s"
    using take_queue_inv [OF 2(4,5)] cancel_target_inv runs_trans by blast+
  show ?case
    using 2 s by (auto simp: Let_def split: if_splits intro: runs_trans)
qed simp

lemma cancel_wq_inv:
  assumes "cancel_wq c all passed rest n r = (e, n', r')" "R H r" "r_wq r = passed @ rest"
  shows "R H r' \<and> runs r r'"
  using assms
proof (induction c all passed rest n r rule: cancel_wq.induct)
  case (2 c all passed t rest n r)
  let ?s = "cancel_target t (r\<lparr>r_wq := passed @ rest\<rparr>)"
  have s: "R H ?s" "runs r ?s"
    using take_wq_inv [OF 2(4,5)] cancel_target_inv runs_trans by blast+
  show ?case
    using 2 s by (auto simp: Let_def split: if_splits intro: runs_trans)
qed simp

end

context readiness_backend
begin

lemma cancel_matching_inv:
  assumes "ring_inv I H r"
  obtains res r' w' where "cancel_matching be i r w = Some (res, r', w')" "ring_inv I H r'" "runs r r'"
proof -
  let ?c = "sqe_of r i"
  let ?all = "sqe_opcode ?c = OP_ASYNC_CANCEL \<and> cancel_all ?c"
  obtain e1 n1 r1 w1 where l1: "cancel_waiting be ?c ?all 0 0 r w = Some (e1, n1, r1, w1)"
    "ring_inv I H r1" "runs r r1"
    using cancel_waiting_inv [OF assms] by blast
  obtain e2 n2 r2 where l2: "cancel_queue ?c ?all [] (r_queue r1) n1 r1 = (e2, n2, r2)"
    by (cases "cancel_queue ?c ?all [] (r_queue r1) n1 r1")
  have i2: "ring_inv I H r2" "runs r r2"
    using cancel_queue_inv [OF l2 l1(2)] l1(3) by (auto intro: runs_trans)
  obtain e3 n3 r3 where l3: "cancel_wq ?c ?all [] (r_wq r2) n2 r2 = (e3, n3, r3)"
    by (cases "cancel_wq ?c ?all [] (r_wq r2) n2 r2")
  have i3: "ring_inv I H r3" "runs r r3"
    using cancel_wq_inv [OF l3 i2(1)] i2(2) by (auto intro: runs_trans)
  have "\<exists>res r' w'. cancel_matching be i r w = Some (res, r', w') \<and> ring_inv I H r' \<and> runs r r'"
    by (simp add: cancel_matching_def Let_def l1 l2 l3 i2 i3 split: bool.split)
  with that show thesis by blast
qed

end

subsection \<open>Handing over, running, finishing\<close>

lemma worker_start_shape:
  assumes "worker_start_once os r w = (r', w')"
  shows "r' = r \<or> r' = r\<lparr>r_worker_live := True\<rparr>"
  using assms by (auto simp: worker_start_once_def split: if_splits prod.splits)

context ring_contract
begin

lemma worker_start_inv:
  assumes "worker_start_once os r w = (r', w')"
  shows "R H r' = R H r" "runs s r' = runs s r" "r_queue r' = r_queue r"
    "r_wq r' = r_wq r" "r_waiting r' = r_waiting r"
proof -
  have "R H (r\<lparr>r_worker_live := True\<rparr>) = R H r"
    by (rule R_same; (rule parked_same_plain ring_wf_cong)?; simp add: acct_def)
  with worker_start_shape [OF assms]
  show "R H r' = R H r" "runs s r' = runs s r" "r_queue r' = r_queue r"
    "r_wq r' = r_wq r" "r_waiting r' = r_waiting r"
    by (auto simp: runs_def)
qed

lemma hand_to_worker_inv:
  assumes "slip_posix_hand_to_worker os i r w = (r', w')" "R (add_mset i H) r"
  shows "R H r'" "runs r r'" "r_queue r' = r_queue r" "r_waiting r' = r_waiting r"
    "r_wq r' = r_wq r @ [i]"
proof -
  define r1 where "r1 = (if io_link (sqe_of r i) then upd_op i (\<lambda>op. op\<lparr>op_stalls_queue := True\<rparr>) r else r)"
  define r2 where "r2 = r1\<lparr>r_wq := r_wq r1 @ [i]\<rparr>"
  obtain X where "pool_ok r (X + add_mset i H)" by (rule R_pool [OF assms(2)])
  then have k: "keeps i r r1" using keeps_upd_op [of r i "X + H"] by (simp add: r1_def)
  have r1: "R (add_mset i H) r1" by (rule keeps_inv [OF k assms(2)])
  have "ring_wf r2 = ring_wf r1" by (rule ring_wf_cong) (simp_all add: r2_def)
  then have "ring_wf r2" using R_wf [OF r1] by simp
  then have r2: "R H r2"
    by (rule R_move [OF r1 parked_same_plain, rotated -1]) (simp_all add: acct_def r2_def)
  have start: "worker_start_once os r2 w = (r', w')"
    using assms(1) by (simp add: slip_posix_hand_to_worker_def Let_def r2_def r1_def)
  note ws = worker_start_inv [OF start]
  have "runs r1 r2" "runs r r1" using k by (simp_all add: r2_def runs_def keeps_runs [unfolded runs_def])
  then show "R H r'" "runs r r'" using r2 by (auto simp: ws intro: runs_trans)
  show "r_queue r' = r_queue r" "r_waiting r' = r_waiting r" "r_wq r' = r_wq r @ [i]"
    using keeps_lists [OF k] by (simp_all add: ws r2_def same_lists_def)
qed

end

text \<open>Who holds the op after it ran.\<close>

fun exec_hands :: "opid \<Rightarrow> eng_exec \<Rightarrow> opid multiset \<Rightarrow> opid multiset" where
  "exec_hands i (EXEC_DONE res) H = add_mset i H"
| "exec_hands i EXEC_PENDING H = H"

context readiness_backend
begin

text \<open>An executed op is done or waits, or it has to block, and then it is in the hands of the one
  who passes it on.\<close>

lemma slip_posix_execute_cases:
  assumes "slip_posix_execute be os i r w = Some (x, r', w')" "ring_inv I (add_mset i H) r"
  obtains (ran) "ring_inv I (exec_hands i x H) r'" "runs r r'"
    | (blocks) r1 w1 where "ring_inv I (add_mset i H) r1" "runs r r1" "x = EXEC_PENDING"
        "(case be_submit_blocking be of Some submit \<Rightarrow> submit i r1 w1
          | None \<Rightarrow> slip_posix_hand_to_worker os i r1 w1) = (r', w')"
proof (cases "sqe_opcode (sqe_of r i) = OP_ASYNC_CANCEL \<or> sqe_opcode (sqe_of r i) = OP_POLL_REMOVE")
  case True
  obtain res r1 w1 where "cancel_matching be i r w = Some (res, r1, w1)"
    "ring_inv I (add_mset i H) r1" "runs r r1"
    by (rule cancel_matching_inv [OF assms(2)])
  with True assms(1) ran show ?thesis by (auto simp: slip_posix_execute_def)
next
  case False
  then obtain v r1 w1 where att: "slip_posix_try os (be_forget be) i r w = Some (v, r1, w1)"
    using assms(1) by (auto simp: slip_posix_execute_def split: option.splits)
  note tk = slip_posix_try_keeps [OF att ring_inv_pool [OF assms(2)], unfolded att_ring_simp]
  have r1: "ring_inv I (add_mset i H) r1" "runs r r1"
    using keeps_be_inv [OF tk(1) assms(2) tk(2)] assms(2) keeps_be_frame(4) [OF tk(1)]
    by (auto simp: ring_inv_def)
  show ?thesis
  proof (cases v)
    case (ENG_RAN res)
    then show ?thesis using False att r1 assms(1) ran by (auto simp: slip_posix_execute_def)
  next
    case ENG_PARK
    obtain ok r2 w2 where p: "park be i r1 w1 = (ok, r2, w2)" by (cases "park be i r1 w1")
    have "ring_inv I (exec_hands i x H) r' \<and> runs r r'"
      using ENG_PARK False att r1 assms(1) park_inv [OF p r1(1)]
      by (auto simp: slip_posix_execute_def p intro: runs_trans split: if_splits)
    with ran show ?thesis by blast
  next
    case ENG_FILE
    then show ?thesis using False att assms(1)
      by (intro blocks [OF r1]) (auto simp: slip_posix_execute_def split: prod.splits option.splits)
  qed
qed

end

text \<open>A backend without a place of its own to block: its file ops go to the worker.\<close>

locale worker_backend = readiness_backend I be
  for I :: "'b slip_ring \<Rightarrow> bool" and be :: "('b, 'w) readiness" +
  assumes no_submit: "be_submit_blocking be = None"
begin

lemma slip_posix_execute_inv:
  assumes "slip_posix_execute be os i r w = Some (x, r', w')" "ring_inv I (add_mset i H) r"
  shows "ring_inv I (exec_hands i x H) r' \<and> runs r r'"
  using assms
proof (cases rule: slip_posix_execute_cases)
  case (blocks r1 w1)
  then have "slip_posix_hand_to_worker os i r1 w1 = (r', w')" by (simp add: no_submit)
  from hand_to_worker_inv [OF this blocks(1)] blocks show ?thesis by (auto intro: runs_trans)
qed simp

end

context readiness_backend
begin

text \<open>The ready ops that finish go to the hands of the caller, the others stay parked; \<open>D\<close>
  are those that finished before.\<close>

lemma slip_posix_finish_ready_inv:
  assumes "slip_posix_finish_ready be os ready cap out r w = Some (done, r', w')"
    "ring_inv I (mset (map fst out) + H) r" "set ready \<subseteq> set (r_waiting r)" "distinct ready"
  shows "ring_inv I (mset (map fst done) + H) r' \<and> runs r r'"
  using assms
proof (induction ready arbitrary: out r w)
  case (Cons i ready)
  show ?case
  proof (cases "length out < cap")
    case True
    let ?H = "mset (map fst out) + H"
    obtain r1 w1 where u: "unpark be i r w = (r1, w1)" by (cases "unpark be i r w")
    have "i \<in> set (r_waiting r)" using Cons.prems(3) by simp
    note un = unpark_inv [OF u Cons.prems(2) this]
    obtain v r2 w2 where att: "slip_posix_try os (be_forget be) i r1 w1 = Some (v, r2, w2)"
      using Cons.prems(1) True by (auto simp: u split: option.splits)
    note tk = slip_posix_try_keeps [OF att ring_inv_pool [OF un(1)], unfolded att_ring_simp]
    have r2: "ring_inv I (add_mset i ?H) r2" "runs r r2"
      using keeps_be_inv [OF tk(1) un(1) tk(2)] un(1) runs_trans [OF un(2) keeps_be_frame(4) [OF tk(1)]]
      by (auto simp: ring_inv_def)
    have rest: "set ready \<subseteq> set (r_waiting r2)"
      using Cons.prems(3,4) un(7) keeps_be_frame(5) [OF tk(1)] by auto
    have fin: "ring_inv I (mset (map fst done) + H) r' \<and> runs r r'"
      if "slip_posix_finish_ready be os ready cap (out @ [(i, res)]) s w3 = Some (done, r', w')"
        "ring_inv I (add_mset i ?H) s" "runs r s" "set ready \<subseteq> set (r_waiting s)" for res s w3
      using Cons.IH [OF that(1)] that(2-4) Cons.prems(4) by (auto intro: runs_trans)
    show ?thesis
    proof (cases v)
      case (ENG_RAN res)
      then have "slip_posix_finish_ready be os ready cap (out @ [(i, res)]) r2 w2 = Some (done, r', w')"
        using Cons.prems(1) True by (simp add: u att)
      then show ?thesis using r2 rest by (rule fin)
    next
      case ENG_FILE
      then have "slip_posix_finish_ready be os ready cap (out @ [(i, - EOPNOTSUPP)]) r2 w2
          = Some (done, r', w')"
        using Cons.prems(1) True by (simp add: u att)
      then show ?thesis using r2 rest by (rule fin)
    next
      case ENG_PARK
      obtain ok r3 w3 where p: "park be i r2 w2 = (ok, r3, w3)" by (cases "park be i r2 w2")
      note pk = park_inv [OF p r2(1)]
      have rest3: "set ready \<subseteq> set (r_waiting r3)" using rest pk(5) by auto
      have runs3: "runs r r3" using r2(2) pk(2) by (rule runs_trans)
      show ?thesis
      proof (cases ok)
        case True
        then have "slip_posix_finish_ready be os ready cap out r3 w3 = Some (done, r', w')"
          using Cons.prems(1) \<open>length out < cap\<close> ENG_PARK by (simp add: u att p)
        from Cons.IH [OF this] pk(1) rest3 Cons.prems(4) runs3 True show ?thesis
          by (auto intro: runs_trans)
      next
        case False
        then have "slip_posix_finish_ready be os ready cap (out @ [(i, - EBUSY)]) r3 w3
            = Some (done, r', w')"
          using Cons.prems(1) \<open>length out < cap\<close> ENG_PARK by (simp add: u att p)
        then show ?thesis using pk(1) False runs3 rest3 by (intro fin) auto
      qed
    qed
  next
    case False
    then show ?thesis using Cons.prems by auto
  qed
qed auto

end

end
