(* ===== verification/Engine.thy ===== *)
theory Engine
  imports Posix_Inv
begin

text \<open>
  The core (\<open>src/src/slipstream_engine.c\<close>): the table of rings, the queue and its chains,
  messages between rings, the worker's ticket and \<open>io_uring_enter\<close>.  A backend is a record
  of its doors, as in C; an op that may not end, and a wait that may block for ever, are
  \<open>None\<close>.  The table \<open>g_rings[]\<close> is a list, and a ring is its index in it.
\<close>

subsection \<open>A backend, and the ring table\<close>

record ('b, 'w) eng_backend =
  eb_open_ring :: "'b slip_ring \<Rightarrow> 'w \<Rightarrow> 'b slip_ring option \<times> 'w"
  eb_close_ring :: "'b slip_ring \<Rightarrow> 'w \<Rightarrow> 'b slip_ring \<times> 'w"
  eb_poke :: "('b slip_ring \<Rightarrow> 'b slip_ring) option"
  eb_execute :: "opid \<Rightarrow> 'b slip_ring \<Rightarrow> 'w \<Rightarrow> (eng_exec \<times> 'b slip_ring \<times> 'w) option"
  eb_wait :: "'b slip_ring \<Rightarrow> nat \<Rightarrow> int \<Rightarrow> 'w \<Rightarrow> (eng_done list option \<times> 'b slip_ring \<times> 'w) option"
  eb_carried_ops :: "opcode list"

definition RING_TOKEN_BIT :: nat where "RING_TOKEN_BIT = 30"

definition ring_of :: "'b slip_ring list \<Rightarrow> i32 \<Rightarrow> nat option" where
  "ring_of rs fd =
     (if \<not> bit fd RING_TOKEN_BIT then None
      else
        let i = unset_bit RING_TOKEN_BIT fd in
        if neg32 i \<or> int SLIP_RINGS_MAX \<le> sint i \<or> length rs \<le> unat i \<or> \<not> r_in_use (rs ! unat i)
        then None else Some (unat i))"

definition ring_token :: "nat \<Rightarrow> i32" where
  "ring_token idx = set_bit RING_TOKEN_BIT (of_nat idx)"

subsection \<open>Chains\<close>

definition complete :: "opid \<Rightarrow> i32 \<Rightarrow> 'b slip_ring \<Rightarrow> 'b slip_ring" where
  "complete i res r =
     (let failure = slip_chain_failure_of (the_op r i);
          r = (if r_blocking r = Some i then
                 if neg32 res then r\<lparr>r_blocking := None, r_chain_failed := failure\<rparr>
                 else r\<lparr>r_blocking := None\<rparr>
               else if neg32 res \<and> io_link (sqe_of r i) then r\<lparr>r_chain_failed := failure\<rparr>
               else r)
      in slip_engine_post i res r)"

definition settle_worker_ticket :: "'b slip_ring \<Rightarrow> 'b slip_ring" where
  "settle_worker_ticket r =
     drain_backlog_locked
       (if r_blocked_done r \<noteq> None \<and> r_blocked_done r = r_blocking r then
          let r = r\<lparr>r_blocking := None, r_blocked_done := None\<rparr> in
          if r_blocked_failed r \<noteq> SLIP_CHAIN_HOLDS
          then r\<lparr>r_chain_failed := r_blocked_failed r, r_blocked_failed := SLIP_CHAIN_HOLDS\<rparr>
          else r
        else r)"

text \<open>The command word of a MSG_RING that carries data.\<close>

definition MSG_DATA :: u64 where "MSG_DATA = 0"

definition msg_ring ::
    "('b, 'w) eng_backend \<Rightarrow> nat \<Rightarrow> sqe \<Rightarrow> 'b slip_ring list \<Rightarrow> i32 \<times> 'b slip_ring list" where
  "msg_ring be from s rs =
     (if sqe_addr s \<noteq> MSG_DATA then (- EOPNOTSUPP, rs)
      else case ring_of rs (sqe_fd s) of
        None \<Rightarrow> (- EBADF, rs)
      | Some to \<Rightarrow>
          let t = slip_engine_emit (sqe_off s) (sqe_len s) 0 (rs ! to);
              t = (if to \<noteq> from then (case eb_poke be of Some poke \<Rightarrow> poke t | None \<Rightarrow> t) else t)
          in (0, rs[to := t]))"

definition set_real_fd :: "i32 \<Rightarrow> eng_op \<Rightarrow> eng_op" where
  "set_real_fd f op =
     op\<lparr>op_sqe := (op_sqe op)\<lparr>sqe_fd := f, sqe_flags := unset_bit 0 (sqe_flags (op_sqe op))\<rparr>\<rparr>"

text \<open>The body of the loop of \<open>process_queue\<close> for an op taken off the queue of a chain that
  holds, after its descriptor is the real one.\<close>

definition run_one ::
    "('b, 'w) eng_backend \<Rightarrow> nat \<Rightarrow> opid \<Rightarrow> bool \<Rightarrow> 'b slip_ring list \<Rightarrow> 'w
     \<Rightarrow> ('b slip_ring list \<times> 'w) option" where
  "run_one be me i linked rs w =
     (if sqe_opcode (sqe_of (rs ! me) i) = OP_MSG_RING then
        case msg_ring be me (sqe_of (rs ! me) i) rs of
          (res, rs) \<Rightarrow> Some (rs[me := slip_engine_post i res (rs ! me)], w)
      else case eb_execute be i (rs ! me) w of
        None \<Rightarrow> None
      | Some (EXEC_DONE res, r, w) \<Rightarrow>
          let r = (if neg32 res \<and> linked
                   then r\<lparr>r_chain_failed := slip_chain_failure_of (the_op r i)\<rparr> else r)
          in Some (rs[me := slip_engine_post i res r], w)
      | Some (EXEC_PENDING, r, w) \<Rightarrow>
          Some (rs[me := (if linked then r\<lparr>r_blocking := Some i\<rparr> else r)], w))"

definition process_one ::
    "('b, 'w) eng_backend \<Rightarrow> nat \<Rightarrow> opid \<Rightarrow> 'b slip_ring list \<Rightarrow> 'w
     \<Rightarrow> ('b slip_ring list \<times> 'w) option" where
  "process_one be me i rs w =
     (let r = rs ! me;
          s = sqe_of r i;
          linked = io_link s
      in if r_chain_failed r \<noteq> SLIP_CHAIN_HOLDS then
           let r = (if r_chain_failed r = SLIP_CHAIN_CANCELS_QUIETLY then op_release i r
                    else slip_engine_post i (- ECANCELED) r);
               r = (if \<not> linked then r\<lparr>r_chain_failed := SLIP_CHAIN_HOLDS\<rparr> else r)
           in Some (rs[me := r], w)
         else if fixed_file s \<and> sqe_opcode s \<noteq> OP_SOCKET \<and> sqe_opcode s \<noteq> OP_NOP then
           let realfd = slip_fixed_lookup r (sqe_fd s) in
           if neg32 realfd then
             let r = (if linked then r\<lparr>r_chain_failed := slip_chain_failure_of (the_op r i)\<rparr> else r)
             in Some (rs[me := slip_engine_post i (- EBADF) r], w)
           else run_one be me i linked (rs[me := upd_op i (set_real_fd realfd) r]) w
         else run_one be me i linked rs w)"

partial_function (option) process_queue ::
    "('b, 'w) eng_backend \<Rightarrow> nat \<Rightarrow> 'b slip_ring list \<Rightarrow> 'w \<Rightarrow> ('b slip_ring list \<times> 'w) option" where
  "process_queue be me rs w =
     (case r_queue (rs ! me) of
        [] \<Rightarrow> Some (rs, w)
      | i # q \<Rightarrow>
          if r_blocking (rs ! me) \<noteq> None then Some (rs, w)
          else Option.bind (process_one be me i (rs[me := (rs ! me)\<lparr>r_queue := q\<rparr>]) w)
                 (\<lambda>(rs, w). process_queue be me rs w))"

subsection \<open>Enter\<close>

text \<open>Taking the submitted entries off the ring: a bad index is counted as dropped, an empty
  pool stops it.  The first argument is what \<open>to_submit\<close> leaves.\<close>

definition sq_head_inc :: "'b slip_ring \<Rightarrow> 'b slip_ring" where
  "sq_head_inc r = r\<lparr>r_sq := (r_sq r)\<lparr>sq_head := sq_head (r_sq r) + 1\<rparr>\<rparr>"

fun take_sqes ::
    "nat \<Rightarrow> u32 \<Rightarrow> opid list \<Rightarrow> u32 \<Rightarrow> 'b slip_ring \<Rightarrow> opid list \<times> u32 \<times> 'b slip_ring" where
  "take_sqes 0 tail batch n r = (batch, n, r)"
| "take_sqes (Suc left) tail batch n r =
     (if sq_head (r_sq r) = tail then (batch, n, r)
      else
        let k = sq_array (r_sq r) (unat (sq_head (r_sq r) AND sq_ring_mask (r_sq r))) in
        if k < r_sq_entries r then
          case op_alloc_locked r of
            (None, r) \<Rightarrow> (batch, n, r)
          | (Some i, r) \<Rightarrow>
              take_sqes left tail (batch @ [i]) (n + 1)
                (sq_head_inc (upd_op i (\<lambda>op. op\<lparr>op_sqe := r_sqes r (unat k)\<rparr>) r))
        else take_sqes left tail batch (n + 1)
               (sq_head_inc (r\<lparr>r_sq := (r_sq r)\<lparr>sq_dropped := sq_dropped (r_sq r) + 1\<rparr>\<rparr>)))"

text \<open>A time is seconds and nanoseconds; the argument of EXT_ARG is a pointer to a structure
  that holds a pointer to one.\<close>

type_synonym timespec = "int \<times> int"

definition NSEC :: int where "NSEC = 1000000000"
definition GETEVENTS_BIT :: nat where "GETEVENTS_BIT = 0"
definition EXT_ARG_BIT :: nat where "EXT_ARG_BIT = 3"
definition SIZEOF_GETEVENTS_ARG :: nat where "SIZEOF_GETEVENTS_ARG = 24"

definition deadline_of ::
    "('w \<Rightarrow> timespec \<times> 'w) \<Rightarrow> u32 \<Rightarrow> timespec option option \<Rightarrow> nat \<Rightarrow> 'w
     \<Rightarrow> (i32 + timespec option) \<times> 'w" where
  "deadline_of clock flags arg sz w =
     (if \<not> bit flags EXT_ARG_BIT then (Inr None, w)
      else case arg of
        None \<Rightarrow> (Inl (- EINVAL), w)
      | Some ts \<Rightarrow>
          if sz \<noteq> SIZEOF_GETEVENTS_ARG then (Inl (- EINVAL), w)
          else case ts of
            None \<Rightarrow> (Inr None, w)
          | Some (s, n) \<Rightarrow>
              case clock w of ((s0, n0), w) \<Rightarrow>
                let s1 = s0 + s; n1 = n0 + n in
                (Inr (Some (if NSEC \<le> n1 then (s1 + 1, n1 - NSEC) else (s1, n1))), w))"

text \<open>The milliseconds a deadline leaves; C's division truncates towards zero.\<close>

definition ms_left :: "timespec \<Rightarrow> timespec \<Rightarrow> int" where
  "ms_left deadline now =
     (let d = snd deadline - snd now in
      (fst deadline - fst now) * 1000 + sgn d * (\<bar>d\<bar> div 1000000))"

text \<open>One round of the wait loop: \<open>Inl\<close> is what \<open>enter\<close> answers at once.\<close>

definition wait_round ::
    "('b, 'w) eng_backend \<Rightarrow> ('w \<Rightarrow> timespec \<times> 'w) \<Rightarrow> nat \<Rightarrow> timespec option \<Rightarrow> u32
     \<Rightarrow> 'b slip_ring list \<Rightarrow> 'w \<Rightarrow> ((i32 + unit) \<times> 'b slip_ring list \<times> 'w) option" where
  "wait_round be clock me deadline min_complete rs w =
     (case (case deadline of
              None \<Rightarrow> (Inr (- 1), w)
            | Some d \<Rightarrow>
                (case clock w of (now, w) \<Rightarrow>
                   let left = ms_left d now in
                   (if left \<le> 0 then Inl (- ETIME) else Inr (min left 2147483647), w))) of
        (Inl e, w) \<Rightarrow> Some (Inl e, rs, w)
      | (Inr timeout_ms, w) \<Rightarrow>
          (case eb_wait be (rs ! me) (unat (r_op_pool_n (rs ! me))) timeout_ms w of
             None \<Rightarrow> None
           | Some (None, r, w) \<Rightarrow> Some (Inl (- EBADF), rs[me := r], w)
           | Some (Some finished, r, w) \<Rightarrow>
               (case process_queue be me (rs[me := fold (\<lambda>(i, res). complete i res) finished r]) w of
                  None \<Rightarrow> None
                | Some (rs, w) \<Rightarrow>
                    let rs = rs[me := settle_worker_ticket (rs ! me)] in
                    Some (if cq_avail (rs ! me) < min_complete \<and> deadline \<noteq> None
                          then Inl (- ETIME) else Inr (), rs, w))))"

partial_function (option) wait_loop ::
    "('b, 'w) eng_backend \<Rightarrow> ('w \<Rightarrow> timespec \<times> 'w) \<Rightarrow> nat \<Rightarrow> timespec option \<Rightarrow> u32
     \<Rightarrow> 'b slip_ring list \<Rightarrow> 'w \<Rightarrow> ((i32 + unit) \<times> 'b slip_ring list \<times> 'w) option" where
  "wait_loop be clock me deadline min_complete rs w =
     (if cq_avail (rs ! me) < min_complete then
        Option.bind (wait_round be clock me deadline min_complete rs w)
          (\<lambda>(a, rs, w). case a of
               Inl e \<Rightarrow> Some (Inl e, rs, w)
             | Inr _ \<Rightarrow> wait_loop be clock me deadline min_complete rs w)
      else Some (Inr (), rs, w))"

definition slipstream_engine_enter ::
    "('b, 'w) eng_backend \<Rightarrow> ('w \<Rightarrow> timespec \<times> 'w) \<Rightarrow> i32 \<Rightarrow> u32 \<Rightarrow> u32 \<Rightarrow> u32
     \<Rightarrow> timespec option option \<Rightarrow> nat \<Rightarrow> 'b slip_ring list \<Rightarrow> 'w
     \<Rightarrow> (i32 \<times> 'b slip_ring list \<times> 'w) option" where
  "slipstream_engine_enter be clock fd to_submit min_complete flags arg argsz rs w =
     (case ring_of rs fd of
        None \<Rightarrow> Some (- EBADF, rs, w)
      | Some me \<Rightarrow>
          (case deadline_of clock flags arg argsz w of
             (Inl e, w) \<Rightarrow> Some (e, rs, w)
           | (Inr deadline, w) \<Rightarrow>
               (case take_sqes (unat to_submit) (sq_tail (r_sq (rs ! me))) [] 0 (rs ! me) of
                  (batch, submitted, r) \<Rightarrow>
                    Option.bind
                      (if batch \<noteq> [] then process_queue be me (rs[me := r\<lparr>r_queue := r_queue r @ batch\<rparr>]) w
                       else Some (rs[me := r], w))
                      (\<lambda>(rs, w).
                        if bit flags GETEVENTS_BIT \<and> 0 < min_complete then
                          (case wait_loop be clock me deadline min_complete
                                  (rs[me := settle_worker_ticket (rs ! me)]) w of
                             None \<Rightarrow> None
                           | Some (Inl e, rs, w) \<Rightarrow> Some (e, rs, w)
                           | Some (Inr _, rs, w) \<Rightarrow> Some (submitted, rs, w))
                        else Some (submitted, rs, w)))))"

end
