(* ===== verification/Engine_Inv.thy ===== *)
theory Engine_Inv
  imports Engine
begin

text \<open>
  What the core relies on in a backend (the locale \<open>backend_contract\<close>), and what it
  promises on top of any backend that keeps it: ops are conserved in every ring, the queue
  is run to its end or to the op it stalls on, a failed chain is cancelled to its last
  member and no further, and \<open>enter\<close> keeps the invariant of every ring.
\<close>

subsection \<open>The invariant of all rings\<close>

text \<open>\<open>Hs j\<close> are the ops of ring \<open>j\<close> that are in somebody's hands.\<close>

definition others_inv :: "(opid multiset \<Rightarrow> 'b slip_ring \<Rightarrow> bool) \<Rightarrow> nat \<Rightarrow> (nat \<Rightarrow> opid multiset) \<Rightarrow> 'b slip_ring list \<Rightarrow> bool" where
  "others_inv R me Hs rs \<longleftrightarrow> (\<forall>j < length rs. j \<noteq> me \<longrightarrow> r_in_use (rs ! j) \<longrightarrow> R (Hs j) (rs ! j))"

definition rings_inv :: "(opid multiset \<Rightarrow> 'b slip_ring \<Rightarrow> bool) \<Rightarrow> (nat \<Rightarrow> opid multiset) \<Rightarrow> 'b slip_ring list \<Rightarrow> bool" where
  "rings_inv R Hs rs \<longleftrightarrow> (\<forall>j < length rs. r_in_use (rs ! j) \<longrightarrow> R (Hs j) (rs ! j))"

definition all_run :: "'b slip_ring list \<Rightarrow> 'b slip_ring list \<Rightarrow> bool" where
  "all_run rs rs' \<longleftrightarrow> length rs' = length rs \<and> (\<forall>j < length rs. runs (rs ! j) (rs' ! j))"

lemma rings_inv_split:
  "me < length rs \<Longrightarrow> r_in_use (rs ! me) \<Longrightarrow>
     rings_inv R Hs rs \<longleftrightarrow> others_inv R me Hs rs \<and> R (Hs me) (rs ! me)"
  by (auto simp: rings_inv_def others_inv_def)

lemma others_inv_set [simp]: "others_inv R me Hs (rs[me := r]) = others_inv R me Hs rs"
  by (auto simp: others_inv_def nth_list_update)

lemma all_run_refl [simp]: "all_run rs rs"
  by (simp add: all_run_def)

lemma all_run_trans: "all_run rs ss \<Longrightarrow> all_run ss ts \<Longrightarrow> all_run rs ts"
  by (auto simp: all_run_def intro: runs_trans)

lemma all_run_set: "runs (rs ! me) r \<Longrightarrow> all_run rs (rs[me := r])"
  by (auto simp: all_run_def) (metis nth_list_update_eq nth_list_update_neq runs_refl)

lemma all_run_at: "all_run rs ss \<Longrightarrow> me < length rs \<Longrightarrow> runs (rs ! me) (ss ! me) \<and> me < length ss"
  by (simp add: all_run_def)

lemma runs_in_use: "runs r s \<Longrightarrow> r_in_use s = r_in_use r"
  by (simp add: runs_def)

lemma runs_queue: "runs r s \<Longrightarrow> length (r_queue s) \<le> length (r_queue r)"
  by (simp add: runs_def)

subsection \<open>Emission, the poke and the ticket\<close>

lemma emit_fields [simp]:
  "r_waiting (slip_engine_emit ud res fl r) = r_waiting r"
  "r_op_pool_n (slip_engine_emit ud res fl r) = r_op_pool_n r"
  "r_be_state (slip_engine_emit ud res fl r) = r_be_state r"
  "r_queue (slip_engine_emit ud res fl r) = r_queue r"
  "r_in_use (slip_engine_emit ud res fl r) = r_in_use r"
proof -
  have "same_core (slip_engine_emit ud res fl r) r" by simp
  then show "r_waiting (slip_engine_emit ud res fl r) = r_waiting r"
    "r_op_pool_n (slip_engine_emit ud res fl r) = r_op_pool_n r"
    "r_be_state (slip_engine_emit ud res fl r) = r_be_state r"
    "r_queue (slip_engine_emit ud res fl r) = r_queue r"
    "r_in_use (slip_engine_emit ud res fl r) = r_in_use r"
    unfolding same_core_def by - (elim conjE; assumption)+
qed

lemma drain_fields [simp]:
  "r_waiting (drain_backlog_locked r) = r_waiting r"
  "r_op_pool_n (drain_backlog_locked r) = r_op_pool_n r"
  "r_be_state (drain_backlog_locked r) = r_be_state r"
  "r_queue (drain_backlog_locked r) = r_queue r"
  "r_in_use (drain_backlog_locked r) = r_in_use r"
proof -
  have "same_core (drain_backlog_locked r) r" by simp
  then show "r_waiting (drain_backlog_locked r) = r_waiting r"
    "r_op_pool_n (drain_backlog_locked r) = r_op_pool_n r"
    "r_be_state (drain_backlog_locked r) = r_be_state r"
    "r_queue (drain_backlog_locked r) = r_queue r"
    "r_in_use (drain_backlog_locked r) = r_in_use r"
    unfolding same_core_def by - (elim conjE; assumption)+
qed

context ring_contract
begin

lemma emit_inv:
  assumes "R H r"
  shows "R H (slip_engine_emit ud res fl r)" "runs r (slip_engine_emit ud res fl r)"
proof -
  show "runs r (slip_engine_emit ud res fl r)" by (intro same_lists_runs same_core_lists) simp
  show "R H (slip_engine_emit ud res fl r)"
  proof (rule R_move [OF assms parked_same_ops])
    show "the_op (slip_engine_emit ud res fl r) j = the_op r j" if "j \<in> set (r_waiting r)" for j
    proof -
      obtain X where "pool_ok r (X + H)" by (rule R_pool [OF assms])
      then show ?thesis using that by (intro emit_the_op pool_ok_waiters) (auto simp: waiters_def)
    qed
  qed (use R_wf [OF assms] in \<open>simp_all add: ring_wf_def\<close>)
qed

lemma drain_inv:
  assumes "R H r"
  shows "R H (drain_backlog_locked r)" "runs r (drain_backlog_locked r)"
proof -
  show "runs r (drain_backlog_locked r)" by (intro same_lists_runs same_core_lists) simp
  show "R H (drain_backlog_locked r)"
    by (rule R_move [OF assms parked_same_ops])
      (use R_wf [OF assms] same_core_wf [of "drain_backlog_locked r" r] in \<open>simp_all add: ring_wf_def\<close>)
qed

lemma release_inv:
  assumes "R (add_mset i H) r"
  shows "R H (op_release i r)" "runs r (op_release i r)"
proof -
  have "ring_wf (op_release i r) = ring_wf r" by (rule ring_wf_cong) (simp_all add: op_release_def)
  then have "ring_wf (op_release i r)" using R_wf [OF assms] by simp
  then show "R H (op_release i r)"
    by (rule R_move [OF assms parked_same_plain, rotated -1]) (simp_all, simp_all add: op_release_def)
  show "runs r (op_release i r)" by (simp add: op_release_def runs_def)
qed

lemma set_ctl_inv [simp]: "R H (r\<lparr>r_ctl := c\<rparr>) = R H r"
  by (rule R_same; (rule parked_same_plain ring_wf_cong)?; simp add: acct_def)

lemma set_sq_inv [simp]: "R H (r\<lparr>r_sq := q\<rparr>) = R H r"
  by (rule R_same; (rule parked_same_plain ring_wf_cong)?; simp add: acct_def)

lemma upd_op_inv:
  assumes "R (add_mset i H) r"
  shows "R (add_mset i H) (upd_op i f r)" "runs r (upd_op i f r)"
proof -
  have eq: "r_be_state (upd_op i f r) = r_be_state r" "r_waiting (upd_op i f r) = r_waiting r"
    "r_op_pool_n (upd_op i f r) = r_op_pool_n r" by (simp_all add: upd_op_def)
  have "ring_wf (upd_op i f r) = ring_wf r" by (rule ring_wf_cong) (simp_all add: upd_op_def)
  then show "R (add_mset i H) (upd_op i f r)"
    using R_wf [OF assms] R_hand [OF assms]
    by (intro R_move [OF assms parked_same_ops]) (auto simp: eq)
  show "runs r (upd_op i f r)" by (simp add: runs_def upd_op_def)
qed

lemma append_queue_inv:
  assumes "R (mset batch + H) r"
  shows "R H (r\<lparr>r_queue := r_queue r @ batch\<rparr>)"
proof -
  have "ring_wf (r\<lparr>r_queue := r_queue r @ batch\<rparr>) = ring_wf r" by (rule ring_wf_cong) simp_all
  then have "ring_wf (r\<lparr>r_queue := r_queue r @ batch\<rparr>)" using R_wf [OF assms] by simp
  then show ?thesis
    by (rule R_move [OF assms parked_same_plain, rotated -1]) (simp_all add: acct_def ac_simps)
qed

lemma pop_queue_inv:
  assumes "R H r" "r_queue r = i # q"
  shows "R (add_mset i H) (r\<lparr>r_queue := q\<rparr>)" "runs r (r\<lparr>r_queue := q\<rparr>)"
  using take_queue_inv [OF assms(1), of "[]" i q] assms(2) by simp_all

lemma complete_inv:
  assumes "R (add_mset i H) r"
  shows "R H (complete i res r)" "runs r (complete i res r)"
proof -
  obtain s where s: "complete i res r = slip_engine_post i res s"
    "R (add_mset i H) s" "runs r s"
    using assms
    by (cases "r_blocking r = Some i"; cases "neg32 res"; cases "io_link (sqe_of r i)")
      (simp_all add: complete_def Let_def)
  then show "R H (complete i res r)" "runs r (complete i res r)"
    using post_inv [OF s(2)] runs_trans [OF s(3) post_runs] by simp_all
qed

lemma complete_all_inv:
  assumes "R (mset (map fst fin) + H) r"
  shows "R H (fold (\<lambda>(i, res). complete i res) fin r) \<and>
    runs r (fold (\<lambda>(i, res). complete i res) fin r)"
  using assms
proof (induction fin arbitrary: r)
  case (Cons d fin)
  obtain i res where d: "d = (i, res)" by (cases d)
  with Cons.prems have "R (add_mset i (mset (map fst fin) + H)) r" by simp
  from complete_inv [OF this] Cons.IH show ?case by (auto simp: d intro: runs_trans)
qed simp

lemma settle_inv:
  assumes "R H r"
  shows "R H (settle_worker_ticket r)"
    "r_op_pool_n (settle_worker_ticket r) = r_op_pool_n r"
    "r_in_use (settle_worker_ticket r) = r_in_use r"
    "r_queue (settle_worker_ticket r) = r_queue r"
proof -
  define s where "s = (if r_blocked_done r \<noteq> None \<and> r_blocked_done r = r_blocking r then
          let r = r\<lparr>r_blocking := None, r_blocked_done := None\<rparr> in
          if r_blocked_failed r \<noteq> SLIP_CHAIN_HOLDS
          then r\<lparr>r_chain_failed := r_blocked_failed r, r_blocked_failed := SLIP_CHAIN_HOLDS\<rparr>
          else r
        else r)"
  have eq: "settle_worker_ticket r = drain_backlog_locked s"
    by (simp add: settle_worker_ticket_def s_def)
  have f: "r_op_pool_n s = r_op_pool_n r" "r_in_use s = r_in_use r" "r_queue s = r_queue r"
    "r_be_state s = r_be_state r" "r_waiting s = r_waiting r" "r_op_pool s = r_op_pool r"
    by (simp_all add: s_def Let_def)
  have "ring_wf s = ring_wf r" by (rule ring_wf_cong) (simp_all add: s_def Let_def)
  then have "ring_wf s" using R_wf [OF assms] by simp
  then have "R H s"
    by (rule R_move [OF assms parked_same_plain, rotated -1]) (simp_all add: f, simp add: s_def Let_def acct_def)
  then show "R H (settle_worker_ticket r)" by (simp add: eq drain_inv)
  show "r_op_pool_n (settle_worker_ticket r) = r_op_pool_n r"
    "r_in_use (settle_worker_ticket r) = r_in_use r" "r_queue (settle_worker_ticket r) = r_queue r"
    by (simp_all add: eq f)
qed

end

lemma set_ctl_runs [simp]: "runs s (r\<lparr>r_ctl := c\<rparr>) = runs s r"
  by (simp add: runs_def)

lemma msg_ring_token:
  assumes "ring_of rs fd = Some j"
  shows "j < length rs" "r_in_use (rs ! j)"
  using assms by (auto simp: ring_of_def Let_def split: if_splits)

subsection \<open>The contract, and the queue\<close>

locale backend_contract = ring_contract R
  for R :: "opid multiset \<Rightarrow> 'b slip_ring \<Rightarrow> bool" +
  fixes be :: "('b, 'w) eng_backend"
  assumes execute_inv: "eb_execute be i r w = Some (x, r', w') \<Longrightarrow> R (add_mset i H) r \<Longrightarrow>
      R (exec_hands i x H) r' \<and> runs r r'"
    and wait_inv: "eb_wait be r cap t w = Some (fin, r', w') \<Longrightarrow> R H r \<Longrightarrow>
      R (mset (map fst (case fin of None \<Rightarrow> [] | Some ds \<Rightarrow> ds)) + H) r' \<and> runs r r'"
    and poke_inv: "eb_poke be = Some poke \<Longrightarrow> R H r \<Longrightarrow> R H (poke r) \<and> runs r (poke r)"
begin

lemma msg_ring_inv:
  assumes "msg_ring be me s rs = (res, rs')" "me < length rs"
    "others_inv R me Hs rs" "R H (rs ! me)"
  shows "others_inv R me Hs rs' \<and> R H (rs' ! me) \<and> all_run rs rs'"
proof (cases "sqe_addr s \<noteq> MSG_DATA \<or> ring_of rs (sqe_fd s) = None")
  case True
  with assms show ?thesis by (auto simp: msg_ring_def split: if_splits)
next
  case False
  then obtain j where j: "ring_of rs (sqe_fd s) = Some j" and a: "sqe_addr s = MSG_DATA" by auto
  define e where "e = slip_engine_emit (sqe_off s) (sqe_len s) 0 (rs ! j)"
  define t where "t = (if j \<noteq> me then (case eb_poke be of Some poke \<Rightarrow> poke e | None \<Rightarrow> e) else e)"
  have rs': "rs' = rs[j := t]" using assms(1) unfolding t_def e_def by (auto simp: msg_ring_def a j Let_def)
  have t_e: "R H' t \<and> runs (rs ! j) t" if "R H' e" "runs (rs ! j) e" for H'
    using poke_inv [of _ H' e] that by (auto simp: t_def intro: runs_trans split: option.splits)
  have jl: "j < length rs" "r_in_use (rs ! j)" by (rule msg_ring_token [OF j])+
  show ?thesis
  proof (cases "j = me")
    case True
    then have "R H t" "runs (rs ! me) t"
      using t_e emit_inv [OF assms(4)] by (auto simp: e_def)
    with True assms(2,3) show ?thesis by (auto simp: rs' intro: all_run_set)
  next
    case False
    then have inv: "R (Hs j) (rs ! j)" using assms(3) jl by (simp add: others_inv_def)
    then have t: "R (Hs j) t" "runs (rs ! j) t"
      using t_e emit_inv [OF inv] by (auto simp: e_def)
    then have "others_inv R me Hs rs'"
      using assms(3) jl False by (auto simp: rs' others_inv_def nth_list_update)
    with t False assms(4) show ?thesis by (auto simp: rs' intro: all_run_set)
  qed
qed

lemma run_one_inv:
  assumes "run_one be me i linked rs w = Some (rs', w')" "me < length rs"
    "others_inv R me Hs rs" "R (add_mset i H) (rs ! me)"
  shows "others_inv R me Hs rs' \<and> R H (rs' ! me) \<and> all_run rs rs'"
proof (cases "sqe_opcode (sqe_of (rs ! me) i) = OP_MSG_RING")
  case True
  obtain res ss where m: "msg_ring be me (sqe_of (rs ! me) i) rs = (res, ss)"
    by (cases "msg_ring be me (sqe_of (rs ! me) i) rs")
  have rs': "rs' = ss[me := slip_engine_post i res (ss ! me)]"
    using True assms(1) by (simp add: run_one_def m)
  from msg_ring_inv [OF m assms(2-4)] have ss: "others_inv R me Hs ss"
    "R (add_mset i H) (ss ! me)" "all_run rs ss" by auto
  with assms(2) have "me < length ss" by (simp add: all_run_def)
  with ss post_inv [OF ss(2), of res] show ?thesis
    using all_run_trans [OF ss(3) all_run_set [OF post_runs]] by (auto simp: rs')
next
  case False
  then obtain x r1 where ex: "eb_execute be i (rs ! me) w = Some (x, r1, w')"
    and rs': "rs' = rs[me := (case x of
        EXEC_DONE res \<Rightarrow> slip_engine_post i res (if neg32 res \<and> linked
          then r1\<lparr>r_chain_failed := slip_chain_failure_of (the_op r1 i)\<rparr> else r1)
      | EXEC_PENDING \<Rightarrow> if linked then r1\<lparr>r_blocking := Some i\<rparr> else r1)]"
    using assms(1) by (auto simp: run_one_def Let_def split: option.splits eng_exec.splits)
  from execute_inv [OF ex assms(4)] have r1: "R (exec_hands i x H) r1" "runs (rs ! me) r1"
    by auto
  show ?thesis
  proof (cases x)
    case EXEC_PENDING
    with r1 assms(2,3) show ?thesis
      by (auto simp: rs' set_chain_inv intro!: all_run_set)
  next
    case (EXEC_DONE res)
    let ?r2 = "if neg32 res \<and> linked
      then r1\<lparr>r_chain_failed := slip_chain_failure_of (the_op r1 i)\<rparr> else r1"
    from r1 EXEC_DONE have r2: "R (add_mset i H) ?r2" "runs (rs ! me) ?r2" by simp_all
    have "R H (slip_engine_post i res ?r2)" by (rule post_inv [OF r2(1)])
    moreover have "runs (rs ! me) (slip_engine_post i res ?r2)" by (rule runs_trans [OF r2(2) post_runs])
    ultimately show ?thesis using assms(2,3) by (simp add: rs' EXEC_DONE all_run_set)
  qed
qed

lemma process_one_inv:
  assumes "process_one be me i rs w = Some (rs', w')" "me < length rs"
    "others_inv R me Hs rs" "R (add_mset i H) (rs ! me)"
  shows "others_inv R me Hs rs' \<and> R H (rs' ! me) \<and> all_run rs rs'"
proof -
  let ?r = "rs ! me"
  let ?s = "sqe_of ?r i"
  let ?fx = "fixed_file ?s \<and> sqe_opcode ?s \<noteq> OP_SOCKET \<and> sqe_opcode ?s \<noteq> OP_NOP"
  let ?real = "slip_fixed_lookup ?r (sqe_fd ?s)"
  consider (fails) "r_chain_failed ?r \<noteq> SLIP_CHAIN_HOLDS"
    | (bad) "r_chain_failed ?r = SLIP_CHAIN_HOLDS" "?fx" "neg32 ?real"
    | (real) "r_chain_failed ?r = SLIP_CHAIN_HOLDS" "?fx" "\<not> neg32 ?real"
    | (plain) "r_chain_failed ?r = SLIP_CHAIN_HOLDS" "\<not> ?fx" by blast
  then show ?thesis
  proof cases
    case fails
    define r1 where "r1 = (if r_chain_failed ?r = SLIP_CHAIN_CANCELS_QUIETLY then op_release i ?r
                    else slip_engine_post i (- ECANCELED) ?r)"
    have r1: "R H r1" "runs ?r r1"
      using post_inv [OF assms(4)] release_inv [OF assms(4)] by (simp_all add: r1_def post_runs)
    have "rs' = rs[me := (if \<not> io_link ?s then r1\<lparr>r_chain_failed := SLIP_CHAIN_HOLDS\<rparr> else r1)]"
      using fails assms(1) unfolding r1_def by (auto simp: process_one_def Let_def)
    with r1 assms(2,3) show ?thesis by (auto simp: set_chain_inv intro!: all_run_set)
  next
    case bad
    define r1 where "r1 = (if io_link ?s
      then ?r\<lparr>r_chain_failed := slip_chain_failure_of (the_op ?r i)\<rparr> else ?r)"
    have r1: "R (add_mset i H) r1" "runs ?r r1"
      using assms(4) by (simp_all add: r1_def)
    have "rs' = rs[me := slip_engine_post i (- EBADF) r1]"
      using bad assms(1) by (simp add: process_one_def Let_def r1_def)
    with post_inv [OF r1(1), of "- EBADF"] runs_trans [OF r1(2) post_runs] assms(2,3) show ?thesis
      by (auto intro!: all_run_set)
  next
    case real
    let ?rs1 = "rs[me := upd_op i (set_real_fd ?real) ?r]"
    have r1: "R (add_mset i H) (?rs1 ! me)" "all_run rs ?rs1"
      using upd_op_inv [OF assms(4)] assms(2) by (auto intro!: all_run_set)
    have "run_one be me i (io_link ?s) ?rs1 w = Some (rs', w')"
      using real assms(1) by (simp add: process_one_def Let_def)
    from run_one_inv [OF this] assms(2,3) r1 show ?thesis by (auto intro: all_run_trans)
  next
    case plain
    have "process_one be me i rs w = run_one be me i (io_link ?s) rs w"
      unfolding process_one_def Let_def if_not_P [OF plain(2)] using plain(1) by simp
    with assms(1) have "run_one be me i (io_link ?s) rs w = Some (rs', w')" by simp
    from run_one_inv [OF this assms(2-4)] show ?thesis .
  qed
qed

lemma process_queue_inv:
  assumes "process_queue be me rs w = Some (rs', w')" "me < length rs"
    "others_inv R me Hs rs" "R H (rs ! me)"
  shows "others_inv R me Hs rs' \<and> R H (rs' ! me) \<and> all_run rs rs' \<and>
    (r_queue (rs' ! me) = [] \<or> r_blocking (rs' ! me) \<noteq> None)"
  using assms
proof (induction "length (r_queue (rs ! me))" arbitrary: rs w rule: less_induct)
  case less
  show ?case
  proof (cases "r_queue (rs ! me) = [] \<or> r_blocking (rs ! me) \<noteq> None")
    case True
    then have "rs' = rs"
      using less.prems(1) by (subst (asm) process_queue.simps) (auto split: list.splits)
    with True less.prems show ?thesis by auto
  next
    case False
    then obtain i q where q: "r_queue (rs ! me) = i # q" by (cases "r_queue (rs ! me)") auto
    let ?rs1 = "rs[me := (rs ! me)\<lparr>r_queue := q\<rparr>]"
    obtain ss w1 where one: "process_one be me i ?rs1 w = Some (ss, w1)"
      and rest: "process_queue be me ss w1 = Some (rs', w')"
      using less.prems(1) False q
      by (subst (asm) process_queue.simps) (auto simp: bind_eq_Some_conv)
    have i1: "R (add_mset i H) (?rs1 ! me)" "all_run rs ?rs1"
      using pop_queue_inv [OF less.prems(4) q] less.prems(2) by (auto intro!: all_run_set)
    from process_one_inv [OF one _ _ i1(1)] less.prems(2,3)
    have ss: "others_inv R me Hs ss" "R H (ss ! me)" "all_run ?rs1 ss" by auto
    have me: "me < length ss" using ss(3) less.prems(2) by (simp add: all_run_def)
    have "length (r_queue (ss ! me)) \<le> length q"
      using ss(3) less.prems(2) by (auto simp: all_run_def runs_def)
    then have "length (r_queue (ss ! me)) < length (r_queue (rs ! me))" by (simp add: q)
    from less.hyps [OF this rest me ss(1,2)] ss(3) i1(2) show ?thesis by (auto intro: all_run_trans)
  qed
qed

text \<open>The loop ends as long as each op it runs does.\<close>

lemma process_queue_returns:
  assumes "\<And>i r w H. R (add_mset i H) r \<Longrightarrow> eb_execute be i r w \<noteq> None" "me < length rs"
    "others_inv R me Hs rs" "R H (rs ! me)"
  shows "process_queue be me rs w \<noteq> None"
  using assms(2-)
proof (induction "length (r_queue (rs ! me))" arbitrary: rs w rule: less_induct)
  case less
  show ?case
  proof (cases "r_queue (rs ! me) = [] \<or> r_blocking (rs ! me) \<noteq> None")
    case True
    then show ?thesis by (subst process_queue.simps) (auto split: list.splits)
  next
    case False
    then obtain i q where q: "r_queue (rs ! me) = i # q" by (cases "r_queue (rs ! me)") auto
    let ?rs1 = "rs[me := (rs ! me)\<lparr>r_queue := q\<rparr>]"
    have i1: "R (add_mset i H) (?rs1 ! me)"
      using pop_queue_inv [OF less.prems(3) q] less.prems(1) by simp
    have run: "run_one be me i l ss w \<noteq> None" if "R (add_mset i H) (ss ! me)" for l ss
      using assms(1) [OF that, of w]
      by (auto simp: run_one_def Let_def split: prod.split option.split eng_exec.split)
    have "run_one be me i l (?rs1[me := upd_op i f (?rs1 ! me)]) w \<noteq> None" for l f
      using upd_op_inv(1) [OF i1] less.prems(1) by (intro run) simp
    with run [OF i1] have "process_one be me i ?rs1 w \<noteq> None"
      unfolding process_one_def Let_def by (simp del: not_None_eq)
    then obtain ss w1 where one: "process_one be me i ?rs1 w = Some (ss, w1)" by fastforce
    from process_one_inv [OF one _ _ i1] less.prems(1,2)
    have ss: "others_inv R me Hs ss" "R H (ss ! me)" "all_run ?rs1 ss" by auto
    have "length (r_queue (ss ! me)) \<le> length q" "me < length ss"
      using ss(3) less.prems(1) by (auto simp: all_run_def runs_def)
    then have "process_queue be me ss w1 \<noteq> None"
      using less.hyps [of ss w1] ss q by simp
    with one q False show ?thesis by (subst process_queue.simps) simp
  qed
qed

end

end
