(* ===== verification/Engine_Chain.thy ===== *)
theory Engine_Chain
  imports Engine_Inv
begin

text \<open>
  What a failed chain does, and what \<open>enter\<close> does with the submission ring.
\<close>

subsection \<open>A failed chain is cancelled to its last member\<close>

definition canceled_cqe :: "'b slip_ring \<Rightarrow> opid \<Rightarrow> cqe" where
  "canceled_cqe r i = \<lparr>cqe_user_data = sqe_user_data (sqe_of r i), cqe_res = - ECANCELED,
     cqe_flags = op_cqe_flags (the_op r i)\<rparr>"

text \<open>What the cancellation of \<open>is\<close> adds to the stream of completions.\<close>

definition cancel_stream :: "'b slip_ring \<Rightarrow> opid list \<Rightarrow> cqe list" where
  "cancel_stream r is =
     (if r_chain_failed r = SLIP_CHAIN_CANCELS_QUIETLY then [] else map (canceled_cqe r) is)"

definition cancel_front :: "opid \<Rightarrow> 'b slip_ring \<Rightarrow> 'b slip_ring" where
  "cancel_front i r =
     (let s = (if r_chain_failed r = SLIP_CHAIN_CANCELS_QUIETLY
               then op_release i (r\<lparr>r_queue := tl (r_queue r)\<rparr>)
               else slip_engine_post i (- ECANCELED) (r\<lparr>r_queue := tl (r_queue r)\<rparr>))
      in if io_link (sqe_of r i) then s else s\<lparr>r_chain_failed := SLIP_CHAIN_HOLDS\<rparr>)"

lemma set_queue_view [simp]:
  "cq_stream (r\<lparr>r_queue := q\<rparr>) = cq_stream r" "sqe_of (r\<lparr>r_queue := q\<rparr>) = sqe_of r"
  "the_op (r\<lparr>r_queue := q\<rparr>) = the_op r" "cq_wf (r\<lparr>r_queue := q\<rparr>) = cq_wf r"
  by (simp_all add: cq_stream_def unread_def cq_avail_def cq_slot_def backlog_cqe_def sqe_of_def
      the_op_def fun_eq_iff cq_wf_def)

lemma set_chain_view [simp]:
  "cq_stream (r\<lparr>r_chain_failed := c\<rparr>) = cq_stream r" "sqe_of (r\<lparr>r_chain_failed := c\<rparr>) = sqe_of r"
  "the_op (r\<lparr>r_chain_failed := c\<rparr>) = the_op r"
  by (simp_all add: cq_stream_def unread_def cq_avail_def cq_slot_def backlog_cqe_def sqe_of_def
      the_op_def fun_eq_iff)

lemma release_the_op [simp]: "the_op (op_release i r) = the_op r" "sqe_of (op_release i r) = sqe_of r"
  by (simp_all add: the_op_def sqe_of_def op_release_def fun_eq_iff)

lemma process_queue_cancels_one:
  assumes "me < length rs" "r_queue (rs ! me) = i # q" "r_blocking (rs ! me) = None"
    "r_chain_failed (rs ! me) \<noteq> SLIP_CHAIN_HOLDS"
  shows "process_queue be me rs w = process_queue be me (rs[me := cancel_front i (rs ! me)]) w"
proof -
  have "process_one be me i (rs[me := (rs ! me)\<lparr>r_queue := q\<rparr>]) w =
      Some (rs[me := cancel_front i (rs ! me)], w)"
    using assms by (simp add: process_one_def cancel_front_def Let_def)
  then show ?thesis
    by (subst process_queue.simps) (simp add: assms)
qed

context ring_contract
begin

lemma cancel_front_view:
  assumes "R H r" "r_queue r = i # q" "r_chain_failed r \<noteq> SLIP_CHAIN_HOLDS"
  shows "R H (cancel_front i r)" "r_queue (cancel_front i r) = q"
    "r_blocking (cancel_front i r) = r_blocking r"
    "r_chain_failed (cancel_front i r) =
       (if io_link (sqe_of r i) then r_chain_failed r else SLIP_CHAIN_HOLDS)"
    "cq_stream (cancel_front i r) = cq_stream r @ cancel_stream r [i]"
    "\<And>j. j \<in> set q \<Longrightarrow> the_op (cancel_front i r) j = the_op r j"
proof -
  let ?p = "r\<lparr>r_queue := q\<rparr>"
  have wf: "cq_wf r" using R_wf [OF assms(1)] by (simp add: ring_wf_def)
  obtain X where "pool_ok r (X + H)" by (rule R_pool [OF assms(1)])
  then have dist: "i \<notin> set q" using pool_ok_distinct(4) assms(2) by fastforce
  have p: "R (add_mset i H) ?p" using take_queue_inv [OF assms(1), of "[]" i q] assms(2) by simp
  then have "i \<notin> set (r_backlog ?p)" by (rule R_hand)
  then have post: "cq_stream (slip_engine_post i (- ECANCELED) ?p) = cq_stream r @ [canceled_cqe r i]"
    using wf by (subst post_stream) (simp_all add: completion_of_def canceled_cqe_def)
  define s where "s = (if r_chain_failed r = SLIP_CHAIN_CANCELS_QUIETLY then op_release i ?p
    else slip_engine_post i (- ECANCELED) ?p)"
  have cf: "cancel_front i r = (if io_link (sqe_of r i) then s else s\<lparr>r_chain_failed := SLIP_CHAIN_HOLDS\<rparr>)"
    by (simp add: cancel_front_def Let_def s_def assms(2))
  have s: "R H s" "r_queue s = q" "r_blocking s = r_blocking r" "r_chain_failed s = r_chain_failed r"
    using post_inv(1) [OF p] release_inv(1) [OF p] by (simp_all add: s_def) (simp_all add: op_release_def)
  then show "R H (cancel_front i r)" "r_queue (cancel_front i r) = q"
    "r_blocking (cancel_front i r) = r_blocking r"
    "r_chain_failed (cancel_front i r) =
       (if io_link (sqe_of r i) then r_chain_failed r else SLIP_CHAIN_HOLDS)"
    by (simp_all add: cf)
  show "cq_stream (cancel_front i r) = cq_stream r @ cancel_stream r [i]"
    by (simp add: cf) (simp add: s_def post cancel_stream_def)
  show "the_op (cancel_front i r) j = the_op r j" if "j \<in> set q" for j
  proof -
    have "j \<noteq> i" using that dist by blast
    then show ?thesis by (simp add: cf s_def post_the_op)
  qed
qed

text \<open>From the state of a failed chain, the loop goes through the members up to and with the
  first that carries no link bit, and runs none of them.\<close>

lemma process_queue_cancels_chain:
  assumes "me < length rs" "R H (rs ! me)" "r_queue (rs ! me) = ls @ e # rest"
    "\<And>l. l \<in> set ls \<Longrightarrow> io_link (sqe_of (rs ! me) l)" "\<not> io_link (sqe_of (rs ! me) e)"
    "r_blocking (rs ! me) = None" "r_chain_failed (rs ! me) \<noteq> SLIP_CHAIN_HOLDS"
  shows "\<exists>r'. process_queue be me rs w = process_queue be me (rs[me := r']) w \<and>
    R H r' \<and> r_queue r' = rest \<and> r_blocking r' = None \<and> r_chain_failed r' = SLIP_CHAIN_HOLDS \<and>
    cq_stream r' = cq_stream (rs ! me) @ cancel_stream (rs ! me) (ls @ [e]) \<and>
    (\<forall>j \<in> set rest. the_op r' j = the_op (rs ! me) j)"
  using assms
proof (induction ls arbitrary: rs)
  case Nil
  let ?r' = "cancel_front e (rs ! me)"
  have q: "r_queue (rs ! me) = e # rest" using Nil.prems(3) by simp
  note v = cancel_front_view [OF Nil.prems(2) q Nil.prems(7)]
  have "process_queue be me rs w = process_queue be me (rs[me := ?r']) w"
    by (rule process_queue_cancels_one [OF Nil.prems(1) q Nil.prems(6,7)])
  with v Nil.prems(5,6) show ?case by (intro exI [of _ ?r']) simp
next
  case (Cons l ls)
  let ?r1 = "cancel_front l (rs ! me)"
  let ?rs1 = "rs[me := ?r1]"
  have q: "r_queue (rs ! me) = l # (ls @ e # rest)" using Cons.prems(3) by simp
  note v = cancel_front_view [OF Cons.prems(2) q Cons.prems(7)]
  have ops: "the_op ?r1 j = the_op (rs ! me) j" if "j \<in> set (ls @ e # rest)" for j by (rule v(6) [OF that])
  then have sqes: "sqe_of ?r1 j = sqe_of (rs ! me) j" if "j \<in> set (ls @ e # rest)" for j
    using that by (simp add: sqe_of_def)
  have step: "process_queue be me rs w = process_queue be me ?rs1 w"
    by (rule process_queue_cancels_one [OF Cons.prems(1) q Cons.prems(6,7)])
  have linked: "io_link (sqe_of (rs ! me) l)" using Cons.prems(4) by simp
  have "\<exists>r'. process_queue be me ?rs1 w = process_queue be me (?rs1[me := r']) w \<and>
    R H r' \<and> r_queue r' = rest \<and> r_blocking r' = None \<and> r_chain_failed r' = SLIP_CHAIN_HOLDS \<and>
    cq_stream r' = cq_stream (?rs1 ! me) @ cancel_stream (?rs1 ! me) (ls @ [e]) \<and>
    (\<forall>j \<in> set rest. the_op r' j = the_op (?rs1 ! me) j)"
    using Cons.prems v linked sqes by (intro Cons.IH) (simp_all del: list_update_overwrite)
  then obtain r' where r': "process_queue be me ?rs1 w = process_queue be me (?rs1[me := r']) w"
    "R H r'" "r_queue r' = rest" "r_blocking r' = None" "r_chain_failed r' = SLIP_CHAIN_HOLDS"
    "cq_stream r' = cq_stream (?rs1 ! me) @ cancel_stream (?rs1 ! me) (ls @ [e])"
    "\<forall>j \<in> set rest. the_op r' j = the_op (?rs1 ! me) j" by blast
  have "map (canceled_cqe ?r1) (ls @ [e]) = map (canceled_cqe (rs ! me)) (ls @ [e])"
    using ops sqes by (simp add: canceled_cqe_def)
  then have "cancel_stream ?r1 (ls @ [e]) = cancel_stream (rs ! me) (ls @ [e])"
    using v(4) linked by (simp add: cancel_stream_def)
  then have "cq_stream r' = cq_stream (rs ! me) @ cancel_stream (rs ! me) ((l # ls) @ [e])"
    using r'(6) Cons.prems(1) v(5) by (simp add: cancel_stream_def)
  with r' ops Cons.prems(1) step show ?case by (intro exI [of _ r']) simp
qed

subsection \<open>Taking submissions\<close>

lemma alloc_inv:
  assumes "op_alloc_locked r = (Some i, r')" "R H r"
  shows "R (add_mset i H) r'" "r_queue r' = r_queue r" "r_sq r' = r_sq r"
    "r_blocking r' = r_blocking r" "r_in_use r' = r_in_use r" "r_op_pool_n r' = r_op_pool_n r"
proof -
  note al = alloc_Some [OF assms(1)]
  have "same_core r' r" using alloc_same_core [OF assms(1), of r] by simp
  then have core: "r_waiting r' = r_waiting r" "r_op_pool_n r' = r_op_pool_n r" "r_queue r' = r_queue r"
    "r_sq r' = r_sq r" "r_blocking r' = r_blocking r" "r_in_use r' = r_in_use r"
    "r_be_state r' = r_be_state r"
    unfolding same_core_def by - (elim conjE; assumption)+
  note wf = same_core_wf [OF \<open>same_core r' r\<close>]
  obtain X where "pool_ok r (X + H)" by (rule R_pool [OF assms(2)])
  then have "i \<notin> waiters r" using al(6) pool_ok_waiters(1) by blast
  then have "parked_same r r'"
    by (intro parked_same_ops) (auto simp: core al(5) waiters_def)
  then show "R (add_mset i H) r'"
    using al(1,2) wf R_wf [OF assms(2)]
    by (intro R_move [OF assms(2)]) (simp_all add: core ring_wf_def)
  show "r_queue r' = r_queue r" "r_sq r' = r_sq r" "r_blocking r' = r_blocking r"
    "r_in_use r' = r_in_use r" "r_op_pool_n r' = r_op_pool_n r"
    by (simp_all add: core)
qed

text \<open>What \<open>enter\<close> takes: it answers the number of entries it consumed, never more than it
  was asked for nor more than stand in the ring, and every op it filled is in its batch.\<close>

lemma take_sqes_inv:
  assumes "take_sqes k tail batch n r = (batch', n', r')" "R (mset batch + H) r"
  shows "R (mset batch' + H) r' \<and> r_queue r' = r_queue r \<and> r_blocking r' = r_blocking r \<and>
    r_in_use r' = r_in_use r \<and> r_op_pool_n r' = r_op_pool_n r \<and>
    n' - n = sq_head (r_sq r') - sq_head (r_sq r)"
  using assms
proof (induction k tail batch n r rule: take_sqes.induct)
  case (2 k tail batch n r)
  show ?case
  proof (cases "sq_head (r_sq r) = tail")
    case False
    let ?k = "sq_array (r_sq r) (unat (sq_head (r_sq r) AND sq_ring_mask (r_sq r)))"
    show ?thesis
    proof (cases "?k < r_sq_entries r")
      case True
      obtain x r1 where al: "op_alloc_locked r = (x, r1)" by (cases "op_alloc_locked r")
      show ?thesis
      proof (cases x)
        case None
        then show ?thesis using 2(3,4) False True al alloc_None by (auto simp: Let_def)
      next
        case (Some i)
        note ai = alloc_inv [OF al [unfolded Some] 2(4)]
        let ?r2 = "sq_head_inc (upd_op i (\<lambda>op. op\<lparr>op_sqe := r_sqes r1 (unat ?k)\<rparr>) r1)"
        have r2: "R (mset (batch @ [i]) + H) ?r2"
          using upd_op_inv(1) [OF ai(1)] by (simp add: sq_head_inc_def)
        have f: "r_queue ?r2 = r_queue r" "r_blocking ?r2 = r_blocking r" "r_in_use ?r2 = r_in_use r"
          "r_op_pool_n ?r2 = r_op_pool_n r" "sq_head (r_sq ?r2) = sq_head (r_sq r) + 1"
          using ai by (simp_all add: sq_head_inc_def upd_op_def)
        have call: "take_sqes k tail (batch @ [i]) (n + 1) ?r2 = (batch', n', r')"
          using 2(3) False True Some by (simp add: Let_def al)
        have IH: "R (mset batch' + H) r' \<and> r_queue r' = r_queue ?r2 \<and>
            r_blocking r' = r_blocking ?r2 \<and> r_in_use r' = r_in_use ?r2 \<and>
            r_op_pool_n r' = r_op_pool_n ?r2 \<and>
            n' - (n + 1) = sq_head (r_sq r') - sq_head (r_sq ?r2)"
          using 2(1) [OF False refl True al [symmetric] Some call r2] .
        then have "n' - (n + 1) = sq_head (r_sq r') - (sq_head (r_sq r) + 1)" using f(5) by simp
        then have "n' - n = sq_head (r_sq r') - sq_head (r_sq r)" by (simp add: algebra_simps)
        with IH f show ?thesis by simp
      qed
    next
      case False
      note nk = False
      let ?r2 = "sq_head_inc (r\<lparr>r_sq := (r_sq r)\<lparr>sq_dropped := sq_dropped (r_sq r) + 1\<rparr>\<rparr>)"
      have r2: "R (mset batch + H) ?r2" using 2(4) by (simp add: sq_head_inc_def)
      have f: "r_queue ?r2 = r_queue r" "r_blocking ?r2 = r_blocking r" "r_in_use ?r2 = r_in_use r"
        "r_op_pool_n ?r2 = r_op_pool_n r" "sq_head (r_sq ?r2) = sq_head (r_sq r) + 1"
        by (simp_all add: sq_head_inc_def)
      have call: "take_sqes k tail batch (n + 1) ?r2 = (batch', n', r')"
        using 2(3) \<open>sq_head (r_sq r) \<noteq> tail\<close> nk by (simp add: Let_def)
      have IH: "R (mset batch' + H) r' \<and> r_queue r' = r_queue ?r2 \<and>
            r_blocking r' = r_blocking ?r2 \<and> r_in_use r' = r_in_use ?r2 \<and>
            r_op_pool_n r' = r_op_pool_n ?r2 \<and>
            n' - (n + 1) = sq_head (r_sq r') - sq_head (r_sq ?r2)"
        using 2(2) [OF \<open>sq_head (r_sq r) \<noteq> tail\<close> refl nk call r2] .
      then have "n' - (n + 1) = sq_head (r_sq r') - (sq_head (r_sq r) + 1)" using f(5) by simp
      then have "n' - n = sq_head (r_sq r') - sq_head (r_sq r)" by (simp add: algebra_simps)
      with IH f show ?thesis by simp
    qed
  qed (use 2(3,4) in auto)
qed simp

end

lemma take_sqes_bounds:
  assumes "take_sqes k tail batch n r = (batch', n', r')"
  shows "\<exists>m \<le> k. n' = n + of_nat m \<and> length batch' \<le> length batch + m"
  using assms
proof (induction k tail batch n r rule: take_sqes.induct)
  case (2 k tail batch n r)
  have "\<exists>m \<le> Suc k. n' = n + of_nat m \<and> length batch' \<le> length batch + m"
    if "\<exists>m \<le> k. n' = n + 1 + of_nat m \<and> length batch' \<le> Suc (length batch) + m"
  proof -
    from that obtain m where "m \<le> k" "n' = n + 1 + of_nat m" "length batch' \<le> Suc (length batch) + m"
      by blast
    then show ?thesis by (intro exI [of _ "Suc m"]) simp
  qed
  note more = this
  have none: "\<exists>m \<le> Suc k. n = n + of_nat m \<and> length batch \<le> length batch + m"
    by (intro exI [of _ 0]) simp
  show ?case
    using 2(3) none
    by (auto simp: Let_def split: if_splits prod.splits option.splits
        intro!: more dest!: 2(1) [rotated -1] 2(2) [rotated -1])
qed auto

subsection \<open>Enter keeps the invariant\<close>

context backend_contract
begin

lemma wait_round_inv:
  assumes "wait_round be clock me deadline m rs w = Some (a, rs', w')" "me < length rs"
    "others_inv R me Hs rs" "R H (rs ! me)"
  shows "others_inv R me Hs rs' \<and> R H (rs' ! me) \<and> length rs' = length rs \<and>
    (\<forall>j < length rs. r_in_use (rs' ! j) = r_in_use (rs ! j))"
proof -
  define dl where "dl = (case deadline of
              None \<Rightarrow> (Inr (- 1), w)
            | Some d \<Rightarrow>
                (case clock w of (now, w) \<Rightarrow>
                   let left = ms_left d now in
                   (if left \<le> 0 then Inl (- ETIME :: i32) else Inr (min left 2147483647), w)))"
  obtain w1 t where dl_cases: "(\<exists>e. dl = (Inl e, w1)) \<or> dl = (Inr t, w1)"
    by (cases dl; cases "fst dl") auto
  show ?thesis
  proof (cases "\<exists>e. dl = (Inl e, w1)")
    case True
    then have "rs' = rs" using assms(1) by (auto simp: wait_round_def dl_def [symmetric])
    with assms show ?thesis by simp
  next
    case False
    with dl_cases have dl: "dl = (Inr t, w1)" by blast
    obtain fin r1 w2 where wt: "eb_wait be (rs ! me) (unat (r_op_pool_n (rs ! me))) t w1 = Some (fin, r1, w2)"
      using assms(1) by (auto simp: wait_round_def dl_def [symmetric] dl split: option.splits)
    note wi = wait_inv [OF wt assms(4)]
    have use1: "r_in_use r1 = r_in_use (rs ! me)" using wi runs_in_use by blast
    show ?thesis
    proof (cases fin)
      case None
      then have "rs' = rs[me := r1]"
        using assms(1) by (auto simp: wait_round_def dl_def [symmetric] dl wt)
      with wi None assms(2,3) use1 show ?thesis by (auto simp: nth_list_update)
    next
      case (Some fs)
      define r2 where "r2 = fold (\<lambda>(i, res). complete i res) fs r1"
      have r2: "R H r2" "runs r1 r2"
        using complete_all_inv [of fs H r1] wi Some by (simp_all add: r2_def)
      obtain ss w3 where pq: "process_queue be me (rs[me := r2]) w2 = Some (ss, w3)"
        and rs': "rs' = ss[me := settle_worker_ticket (ss ! me)]"
        using assms(1)
        by (auto simp: wait_round_def dl_def [symmetric] dl wt Some r2_def Let_def split: option.splits)
      have ss: "others_inv R me Hs ss" "R H (ss ! me)" "all_run (rs[me := r2]) ss"
        using process_queue_inv [OF pq, of Hs H] assms(2,3) r2(1) by simp_all
      have use: "r_in_use (ss ! j) = r_in_use (rs ! j)" if "j < length rs" for j
      proof -
        have "runs ((rs[me := r2]) ! j) (ss ! j)" using ss(3) that by (simp add: all_run_def)
        then have "r_in_use (ss ! j) = r_in_use ((rs[me := r2]) ! j)" by (rule runs_in_use)
        then show ?thesis
          using that use1 runs_in_use [OF r2(2)] by (cases "j = me") simp_all
      qed
      have "length ss = length rs" using ss(3) by (simp add: all_run_def)
      with ss use settle_inv [OF ss(2)] assms(2) show ?thesis
        by (auto simp: rs' nth_list_update)
    qed
  qed
qed

lemma wait_loop_inv:
  assumes "wait_loop be clock me deadline m rs w = Some (a, rs', w')" "me < length rs"
    "others_inv R me Hs rs" "R H (rs ! me)"
  shows "others_inv R me Hs rs' \<and> R H (rs' ! me) \<and> length rs' = length rs \<and>
    (\<forall>j < length rs. r_in_use (rs' ! j) = r_in_use (rs ! j)) \<and>
    (a = Inr () \<longrightarrow> m \<le> cq_avail (rs' ! me))"
proof -
  define ok where "ok = (\<lambda>me rs (y :: (i32 + unit) \<times> 'b slip_ring list \<times> 'w) m.
    others_inv R me Hs (fst (snd y)) \<and> R H (fst (snd y) ! me) \<and>
    length (fst (snd y)) = length rs \<and>
    (\<forall>j < length rs. r_in_use (fst (snd y) ! j) = r_in_use (rs ! j :: 'b slip_ring)) \<and>
    (fst y = Inr () \<longrightarrow> m \<le> cq_avail (fst (snd y) ! me)))"
  have "be = be \<longrightarrow> me < length rs \<longrightarrow> others_inv R me Hs rs \<longrightarrow> R H (rs ! me) \<longrightarrow>
      ok me rs (a, rs', w') m"
  proof (rule wait_loop.raw_induct [where P = "\<lambda>be' clock me deadline m rs w y.
      be' = be \<longrightarrow> me < length rs \<longrightarrow> others_inv R me Hs rs \<longrightarrow> R H (rs ! me) \<longrightarrow> ok me rs y m",
      OF _ assms(1)], intro impI)
    fix loop be' clock me deadline m rs w y
    assume IH: "\<And>be' clock me deadline m rs w y.
        loop be' clock me deadline m rs w = Some y \<Longrightarrow> be' = be \<longrightarrow> me < length rs \<longrightarrow>
        others_inv R me Hs rs \<longrightarrow> R H (rs ! me) \<longrightarrow> ok me rs y m"
      and eq: "(if cq_avail (rs ! me) < m then
        Option.bind (wait_round be' clock me deadline m rs w)
          (\<lambda>(a, rs, w). case a of Inl e \<Rightarrow> Some (Inl e, rs, w)
             | Inr _ \<Rightarrow> loop be' clock me deadline m rs w)
      else Some (Inr (), rs, w)) = Some y"
      and as: "be' = be" "me < length rs" "others_inv R me Hs rs" "R H (rs ! me)"
    show "ok me rs y m"
    proof (cases "cq_avail (rs ! me) < m")
      case False
      with eq as show ?thesis by (auto simp: ok_def)
    next
      case True
      then obtain b ss w1 where one: "wait_round be clock me deadline m rs w = Some (b, ss, w1)"
        and rest: "(case b of Inl e \<Rightarrow> Some (Inl e, ss, w1)
             | Inr _ \<Rightarrow> loop be' clock me deadline m ss w1) = Some y"
        using eq by (auto simp: bind_eq_Some_conv as(1))
      from wait_round_inv [OF one as(2-4)]
      have s: "others_inv R me Hs ss" "R H (ss ! me)" "length ss = length rs"
        "\<forall>j < length rs. r_in_use (ss ! j) = r_in_use (rs ! j)" by auto
      show ?thesis
      proof (cases b)
        case (Inl e)
        with rest s show ?thesis by (auto simp: ok_def)
      next
        case (Inr u)
        with rest have "loop be' clock me deadline m ss w1 = Some y" by simp
        from IH [OF this] as s have "ok me ss y m" by simp
        with s show ?thesis by (simp add: ok_def)
      qed
    qed
  qed
  with assms(2-4) show ?thesis by (simp add: ok_def)
qed

lemma slipstream_engine_enter_inv:
  assumes "slipstream_engine_enter be clock fd n m flags arg sz rs w = Some (res, rs', w')"
    "rings_inv R Hs rs"
  shows "rings_inv R Hs rs'"
proof (cases "ring_of rs fd")
  case None
  with assms show ?thesis by (simp add: slipstream_engine_enter_def)
next
  case (Some me)
  then have me: "me < length rs" "r_in_use (rs ! me)" by (rule msg_ring_token)+
  then have inv: "others_inv R me Hs rs" "R (Hs me) (rs ! me)"
    using assms(2) by (simp_all add: rings_inv_split)
  obtain d w1 where dl: "deadline_of clock flags arg sz w = (d, w1)" by (cases "deadline_of clock flags arg sz w")
  show ?thesis
  proof (cases d)
    case (Inl e)
    with assms Some dl show ?thesis by (simp add: slipstream_engine_enter_def)
  next
    case (Inr deadline)
    obtain batch sub r where tk: "take_sqes (unat n) (sq_tail (r_sq (rs ! me))) [] 0 (rs ! me) = (batch, sub, r)"
      by (metis prod_cases3)
    have r: "R (mset batch + Hs me) r" "r_in_use r"
      using take_sqes_inv [OF tk, of "Hs me"] inv(2) me(2) by simp_all
    define q where "q = (if batch \<noteq> [] then process_queue be me (rs[me := r\<lparr>r_queue := r_queue r @ batch\<rparr>]) w1
                       else Some (rs[me := r], w1))"
    obtain ss w2 where q: "q = Some (ss, w2)"
      and rest: "(if bit flags GETEVENTS_BIT \<and> 0 < m then
                          (case wait_loop be clock me deadline m
                                  (ss[me := settle_worker_ticket (ss ! me)]) w2 of
                             None \<Rightarrow> None
                           | Some (Inl e, rs, w) \<Rightarrow> Some (e, rs, w)
                           | Some (Inr _, rs, w) \<Rightarrow> Some (sub, rs, w))
                        else Some (sub, ss, w2)) = Some (res, rs', w')"
      using assms(1) Some dl Inr tk by (auto simp: slipstream_engine_enter_def bind_eq_Some_conv q_def [symmetric])
    have ss: "others_inv R me Hs ss \<and> R (Hs me) (ss ! me) \<and> length ss = length rs \<and> r_in_use (ss ! me)"
    proof (cases "batch = []")
      case True
      with q have "ss = rs[me := r]" by (simp add: q_def)
      with True r me inv(1) show ?thesis by simp
    next
      case False
      with q have "process_queue be me (rs[me := r\<lparr>r_queue := r_queue r @ batch\<rparr>]) w1 = Some (ss, w2)"
        by (simp add: q_def)
      from process_queue_inv [OF this, of Hs "Hs me"] append_queue_inv [OF r(1)] me inv(1)
      have p: "others_inv R me Hs ss" "R (Hs me) (ss ! me)"
        "all_run (rs[me := r\<lparr>r_queue := r_queue r @ batch\<rparr>]) ss" by simp_all
      from all_run_at [OF p(3), of me] me have "r_in_use (ss ! me) = r_in_use r"
        by (auto dest: runs_in_use)
      with p r(2) show ?thesis by (simp add: all_run_def)
    qed
    show ?thesis
    proof (cases "bit flags GETEVENTS_BIT \<and> 0 < m")
      case False
      with rest ss me show ?thesis by (auto simp: rings_inv_split)
    next
      case True
      then obtain a w3 where wl: "wait_loop be clock me deadline m (ss[me := settle_worker_ticket (ss ! me)]) w2
          = Some (a, rs', w3)"
        using rest by (auto split: option.splits sum.splits)
      from wait_loop_inv [OF wl, of Hs "Hs me"] ss me settle_inv [of "Hs me" "ss ! me"]
      show ?thesis by (auto simp: rings_inv_split)
    qed
  qed
qed

end

end
