(* ===== verification/Cancel.thy ===== *)
theory Cancel
  imports Engine_Chain
begin

text \<open>
  What a cancel does to the ops it names (\<open>cancel_matching\<close>, \<open>src/src/engine_posix.c\<close>): each
  leaves the list it waits in and gets its \<open>-ECANCELED\<close> completion, in one sequence, and
  nothing else that waits is touched.
\<close>

subsection \<open>Ops cancelled in sequence\<close>

text \<open>What a completion reads of an op.\<close>

definition same_entry :: "'b slip_ring \<Rightarrow> 'b slip_ring \<Rightarrow> opid \<Rightarrow> bool" where
  "same_entry r s j \<longleftrightarrow> sqe_of s j = sqe_of r j \<and> op_cqe_flags (the_op s j) = op_cqe_flags (the_op r j)"

lemma same_entry_refl [simp]: "same_entry r r j"
  by (simp add: same_entry_def)

lemma same_entry_trans: "same_entry r s j \<Longrightarrow> same_entry s t j \<Longrightarrow> same_entry r t j"
  by (simp add: same_entry_def)

lemma same_entry_canceled: "same_entry r s j \<Longrightarrow> canceled_cqe s j = canceled_cqe r j"
  by (simp add: same_entry_def canceled_cqe_def)

definition cancels :: "opid list \<Rightarrow> 'b slip_ring \<Rightarrow> 'b slip_ring \<Rightarrow> bool" where
  "cancels M r s \<longleftrightarrow> cq_stream s = cq_stream r @ map (canceled_cqe r) M \<and>
     waiters s = waiters r - set M \<and> set M \<subseteq> waiters r \<and> distinct M \<and>
     (\<forall>j \<in> waiters s. same_entry r s j) \<and> (r_blocking s = None \<or> r_blocking s = r_blocking r)"

lemma cancels_nil [simp]: "cancels [] r r"
  by (simp add: cancels_def)

lemma cancels_trans:
  assumes "cancels M r s" "cancels N s t"
  shows "cancels (M @ N) r t"
proof -
  have "same_entry r s j" if "j \<in> set N" for j
    using assms that by (auto simp: cancels_def)
  then have "map (canceled_cqe s) N = map (canceled_cqe r) N"
    by (simp add: same_entry_canceled)
  moreover have "same_entry r t j" if "j \<in> waiters t" for j
    using assms that by (auto simp: cancels_def intro: same_entry_trans [of r s])
  ultimately show ?thesis
    using assms by (auto simp: cancels_def)
qed

lemma cancels_entry: "cancels M r s \<Longrightarrow> j \<in> waiters s \<Longrightarrow> sqe_of s j = sqe_of r j"
  by (simp add: cancels_def same_entry_def)

lemma waiters_disjoint:
  assumes "pool_ok r H" "i \<in> set (r_queue r)"
  shows "i \<notin> set (r_waiting r)" "i \<notin> set (r_wq r)"
proof -
  have "count (mset (r_queue r)) i + count (mset (r_waiting r)) i + count (mset (r_wq r)) i \<le> 1"
    using pool_ok_count_le [OF assms(1), of i] by (simp add: acct_def)
  moreover have "0 < count (mset (r_queue r)) i" using assms(2) by simp
  ultimately have "count (mset (r_waiting r)) i = 0" "count (mset (r_wq r)) i = 0" by linarith+
  then show "i \<notin> set (r_waiting r)" "i \<notin> set (r_wq r)" by (simp_all add: count_eq_zero_iff)
qed

context ring_contract
begin

lemma R_disjoint:
  assumes "R H r" "i \<in> set (r_queue r)"
  shows "i \<notin> set (r_waiting r)" "i \<notin> set (r_wq r)"
proof -
  obtain X where "pool_ok r (X + H)" by (rule R_pool [OF assms(1)])
  then show "i \<notin> set (r_waiting r)" "i \<notin> set (r_wq r)" by (rule waiters_disjoint [OF _ assms(2)])+
qed

lemma cancel_step:
  assumes "R (add_mset t H) s" "cq_stream s = cq_stream r" "t \<in> waiters r"
    "waiters s = waiters r - {t}" "\<And>j. same_entry r s j" "r_blocking s = r_blocking r"
  shows "cancels [t] r (cancel_target t s)"
proof -
  define u where "u = (if r_blocking s = Some t
      then s\<lparr>r_blocking := None, r_chain_failed := slip_chain_failure_of (the_op s t)\<rparr>
      else if io_link (sqe_of s t) then s\<lparr>r_chain_failed := slip_chain_failure_of (the_op s t)\<rparr> else s)"
  have eq: "cancel_target t s = slip_engine_post t (- ECANCELED) u"
    by (simp add: cancel_target_def u_def Let_def)
  have u: "cq_stream u = cq_stream s" "the_op u = the_op s" "r_backlog u = r_backlog s"
    "cq_wf u = cq_wf s" "waiters u = waiters s"
    by (simp_all add: u_def cq_stream_def unread_def cq_avail_def cq_slot_def backlog_cqe_def sqe_of_def
        the_op_def fun_eq_iff cq_wf_def waiters_def)
  have "cq_wf u" using R_wf [OF assms(1)] by (simp add: u ring_wf_def)
  moreover have "t \<notin> set (r_backlog u)"
    using R_hand(4) [OF assms(1)] by (simp add: u)
  ultimately have "cq_stream (cancel_target t s) = cq_stream r @ [canceled_cqe u t]"
    unfolding eq by (simp add: post_stream completion_of_def canceled_cqe_def u assms(2))
  also have "canceled_cqe u t = canceled_cqe r t"
    using assms(5) [of t] by (simp add: canceled_cqe_def same_entry_def u sqe_of_def)
  finally have st: "cq_stream (cancel_target t s) = cq_stream r @ [canceled_cqe r t]" .
  have w: "waiters (cancel_target t s) = waiters r - {t}"
    using assms(4) by (simp add: waiters_def)
  have "same_entry r (cancel_target t s) j" if "j \<in> waiters r - {t}" for j
    using that assms(5) [of j] by (simp add: eq same_entry_def sqe_of_def post_the_op u)
  moreover have "r_blocking (cancel_target t s) = None \<or> r_blocking (cancel_target t s) = r_blocking r"
    by (simp add: eq) (simp add: u_def assms(6))
  ultimately show ?thesis using st w assms(3) by (simp add: cancels_def)
qed

subsection \<open>The queue and the worker's queue\<close>

lemma cancel_queue_all:
  assumes "cancel_queue c True passed rest n r = (e, n', r')" "R H r"
    "r_queue r = passed @ rest"
  shows "\<not> e \<and> R H r' \<and> r_wq r' = r_wq r \<and> r_waiting r' = r_waiting r \<and>
    r_queue r' = passed @ filter (\<lambda>t. \<not> cancel_names c (sqe_of r t)) rest \<and>
    n' = n + length (filter (\<lambda>t. cancel_names c (sqe_of r t)) rest) \<and>
    cancels (filter (\<lambda>t. cancel_names c (sqe_of r t)) rest) r r'"
  using assms
proof (induction rest arbitrary: passed n r)
  case Nil
  then show ?case by auto
next
  case (Cons t rest)
  show ?case
  proof (cases "cancel_names c (sqe_of r t)")
    case False
    with Cons.prems have "cancel_queue c True (passed @ [t]) rest n r = (e, n', r')" by simp
    from Cons.IH [OF this Cons.prems(2)] Cons.prems(3) False show ?thesis by simp
  next
    case True
    let ?p = "r\<lparr>r_queue := passed @ rest\<rparr>" and ?s = "cancel_target t (r\<lparr>r_queue := passed @ rest\<rparr>)"
    have p: "R (add_mset t H) ?p" by (rule take_queue_inv [OF Cons.prems(2,3)])
    have out: "t \<notin> set passed" "t \<notin> set rest"
      using R_hand(2) [OF p] by simp_all
    have "t \<in> set (r_queue r)" using Cons.prems(3) by simp
    note dis = R_disjoint [OF Cons.prems(2) this]
    have one: "cancels [t] r ?s"
      by (rule cancel_step [OF p])
        (use Cons.prems(3) out dis in \<open>auto simp: waiters_def same_entry_def\<close>)
    have call: "cancel_queue c True passed rest (Suc n) ?s = (e, n', r')"
      using Cons.prems(1) True by simp
    have sq: "sqe_of ?s j = sqe_of r j" if "j \<in> set rest" for j
      by (rule cancels_entry [OF one]) (use that in \<open>simp add: waiters_def\<close>)
    then have fl: "filter (\<lambda>t. cancel_names c (sqe_of ?s t)) rest = filter (\<lambda>t. cancel_names c (sqe_of r t)) rest"
      "filter (\<lambda>t. \<not> cancel_names c (sqe_of ?s t)) rest = filter (\<lambda>t. \<not> cancel_names c (sqe_of r t)) rest"
      by (auto intro: filter_cong)
    from Cons.IH [OF call cancel_target_inv(1) [OF p]] fl True cancels_trans [OF one]
    show ?thesis by auto
  qed
qed

lemma cancel_wq_all:
  assumes "cancel_wq c True passed rest n r = (e, n', r')" "R H r" "r_wq r = passed @ rest"
  shows "\<not> e \<and> R H r' \<and> r_queue r' = r_queue r \<and> r_waiting r' = r_waiting r \<and>
    r_wq r' = passed @ filter (\<lambda>t. \<not> cancel_names c (sqe_of r t)) rest \<and>
    n' = n + length (filter (\<lambda>t. cancel_names c (sqe_of r t)) rest) \<and>
    cancels (filter (\<lambda>t. cancel_names c (sqe_of r t)) rest) r r'"
  using assms
proof (induction rest arbitrary: passed n r)
  case Nil
  then show ?case by auto
next
  case (Cons t rest)
  show ?case
  proof (cases "cancel_names c (sqe_of r t)")
    case False
    with Cons.prems have "cancel_wq c True (passed @ [t]) rest n r = (e, n', r')" by simp
    from Cons.IH [OF this Cons.prems(2)] Cons.prems(3) False show ?thesis by simp
  next
    case True
    let ?p = "r\<lparr>r_wq := passed @ rest\<rparr>" and ?s = "cancel_target t (r\<lparr>r_wq := passed @ rest\<rparr>)"
    have p: "R (add_mset t H) ?p" by (rule take_wq_inv [OF Cons.prems(2,3)])
    have out: "t \<notin> set passed" "t \<notin> set rest"
      using R_hand(3) [OF p] by simp_all
    have dis: "t \<notin> set (r_queue r)" "t \<notin> set (r_waiting r)"
      using R_hand [OF p] by simp_all
    have same: "cq_stream ?p = cq_stream r" "same_entry r ?p j" for j
      by (simp_all add: same_entry_def sqe_of_def the_op_def cq_stream_def unread_def cq_avail_def
          cq_slot_def backlog_cqe_def fun_eq_iff)
    have one: "cancels [t] r ?s"
      by (rule cancel_step [OF p same(1) _ _ same(2)])
        (use Cons.prems(3) out dis in \<open>auto simp: waiters_def\<close>)
    have call: "cancel_wq c True passed rest (Suc n) ?s = (e, n', r')"
      using Cons.prems(1) True by simp
    have sq: "sqe_of ?s j = sqe_of r j" if "j \<in> set rest" for j
      by (rule cancels_entry [OF one]) (use that in \<open>simp add: waiters_def\<close>)
    then have fl: "filter (\<lambda>t. cancel_names c (sqe_of ?s t)) rest = filter (\<lambda>t. cancel_names c (sqe_of r t)) rest"
      "filter (\<lambda>t. \<not> cancel_names c (sqe_of ?s t)) rest = filter (\<lambda>t. \<not> cancel_names c (sqe_of r t)) rest"
      by (auto intro: filter_cong)
    from Cons.IH [OF call cancel_target_inv(1) [OF p]] fl True cancels_trans [OF one]
    show ?thesis by auto
  qed
qed

end

subsection \<open>The parked ops\<close>

lemma wait_leave_view:
  "cq_stream (wait_leave k r) = cq_stream r" "same_entry r (wait_leave k r) j"
  "r_waiting (wait_leave k r) = butlast ((r_waiting r)[k := last (r_waiting r)])"
  by (simp_all add: wait_leave_def Let_def same_entry_def cq_stream_def unread_def cq_avail_def
      cq_slot_def backlog_cqe_def sqe_of_def the_op_def upd_op_def fun_eq_iff)

context readiness_backend
begin

lemma unpark_view:
  assumes "unpark be (r_waiting r ! k) r w = (r', w')" "ring_inv I H r" "k < length (r_waiting r)"
  shows "cq_stream r' = cq_stream r" "same_entry r r' j"
    "r_waiting r' = butlast ((r_waiting r)[k := last (r_waiting r)])" "r_blocking r' = r_blocking r"
proof -
  have "op_wait_slot (the_op r (r_waiting r ! k)) = k"
    using assms(2,3) by (simp add: ring_inv_def slots_ok_def)
  then have "be_disarm be (r_waiting r ! k) (wait_leave k r) w = (r', w')"
    using assms(1,3) by (simp add: unpark_def Let_def)
  from disarm_only [OF this] obtain b where r': "r' = (wait_leave k r)\<lparr>r_be_state := b\<rparr>"
    by (rule be_onlyE)
  have "cq_stream r' = cq_stream (wait_leave k r)" "same_entry (wait_leave k r) r' j"
    by (simp_all add: r' same_entry_def cq_stream_def unread_def cq_avail_def
      cq_slot_def backlog_cqe_def sqe_of_def the_op_def fun_eq_iff)
  then show "cq_stream r' = cq_stream r" "same_entry r r' j"
    using same_entry_trans [OF wait_leave_view(2)] by (simp_all add: wait_leave_view)
  show "r_waiting r' = butlast ((r_waiting r)[k := last (r_waiting r)])" "r_blocking r' = r_blocking r"
    by (simp_all add: r' wait_leave_view) (simp add: wait_leave_def Let_def upd_op_def)
qed

text \<open>Taking the parked op at \<open>k\<close> out and cancelling it.\<close>

lemma cancel_parked:
  assumes "unpark be (r_waiting r ! k) r w = (r1, w1)" "ring_inv I H r" "k < length (r_waiting r)"
  defines "s \<equiv> cancel_target (r_waiting r ! k) r1"
  shows "cancels [r_waiting r ! k] r s" "ring_inv I H s" "r_queue s = r_queue r" "r_wq s = r_wq r"
    "r_waiting s = butlast ((r_waiting r)[k := last (r_waiting r)])"
    "set (r_waiting s) = set (r_waiting r) - {r_waiting r ! k}"
proof -
  let ?t = "r_waiting r ! k"
  have t: "?t \<in> set (r_waiting r)" using assms(3) by simp
  note un = unpark_inv [OF assms(1,2) t]
  note vw = unpark_view [OF assms(1-3)]
  have out: "?t \<notin> set (r_queue r)" "?t \<notin> set (r_wq r)"
    using ring_inv_hand [OF un(1)] by (simp_all add: un)
  have "waiters r1 = waiters r - {?t}" using out by (auto simp: waiters_def un)
  then show "cancels [?t] r s" unfolding s_def
    by (intro cancel_step [OF un(1) vw(1)]) (use t vw(2,4) in \<open>auto simp: waiters_def\<close>)
  show "ring_inv I H s" unfolding s_def by (rule cancel_target_inv(1) [OF un(1)])
  show "r_queue s = r_queue r" "r_wq s = r_wq r"
    "set (r_waiting s) = set (r_waiting r) - {?t}"
    by (simp_all add: s_def un)
  show "r_waiting s = butlast ((r_waiting r)[k := last (r_waiting r)])" by (simp add: s_def vw)
qed

lemma cancel_waiting_all:
  assumes "ring_inv I H r" "\<And>m. m < k \<Longrightarrow> m < length (r_waiting r) \<Longrightarrow>
      \<not> cancel_names c (sqe_of r (r_waiting r ! m))"
  shows "\<exists>n' r' w' M. cancel_waiting be c True k n r w = Some (False, n', r', w') \<and> ring_inv I H r' \<and>
    r_queue r' = r_queue r \<and> r_wq r' = r_wq r \<and> cancels M r r' \<and> n' = n + length M \<and>
    set M = {j \<in> set (r_waiting r). cancel_names c (sqe_of r j)} \<and>
    set (r_waiting r') = set (r_waiting r) - set M"
  using assms
proof (induction "length (r_waiting r) - k" arbitrary: k n r w rule: less_induct)
  case less
  let ?names = "\<lambda>r j. cancel_names c (sqe_of r j)"
  show ?case
  proof (cases "k < length (r_waiting r)")
    case False
    have "\<not> ?names r j" if "j \<in> set (r_waiting r)" for j
      using that False less.prems(2) by (force simp: in_set_conv_nth)
    then have "cancel_waiting be c True k n r w = Some (False, n, r, w)" "set [] = {j \<in> set (r_waiting r). ?names r j}"
      using False by (subst cancel_waiting.simps, auto)
    with less.prems(1) show ?thesis
      by (intro exI [of _ n] exI [of _ r] exI [of _ w] exI [of _ "[]"]) simp
  next
    case True
    let ?t = "r_waiting r ! k"
    show ?thesis
    proof (cases "?names r ?t")
      case False
      have step: "cancel_waiting be c True k n r w = cancel_waiting be c True (Suc k) n r w"
        by (subst cancel_waiting.simps) (simp add: True Let_def False)
      show ?thesis unfolding step
        by (rule less.hyps [OF _ less.prems(1)]) (use True False less.prems(2) in \<open>auto simp: less_Suc_eq\<close>)
    next
      case hit: True
      obtain r1 w1 where u: "unpark be ?t r w = (r1, w1)" by (cases "unpark be ?t r w")
      obtain s where s: "s = cancel_target ?t r1" by blast
      note cp = cancel_parked [OF u less.prems(1) True, folded s]
      have step: "cancel_waiting be c True k n r w = cancel_waiting be c True k (Suc n) s w1"
        by (subst cancel_waiting.simps) (simp add: True Let_def hit u s)
      have len: "length (r_waiting s) - k < length (r_waiting r) - k" using True by (simp add: cp(5))
      have sq: "sqe_of s j = sqe_of r j" if "j \<in> set (r_waiting s)" for j
        by (rule cancels_entry [OF cp(1)]) (use that in \<open>simp add: waiters_def\<close>)
      have front: "\<not> ?names s (r_waiting s ! m)" if m: "m < k" "m < length (r_waiting s)" for m
      proof -
        have "r_waiting s ! m = r_waiting r ! m" using m True by (simp add: cp(5) nth_butlast)
        then show ?thesis using sq [OF nth_mem [OF m(2)]] less.prems(2) m True by simp
      qed
      obtain n' r' w' M where rec: "cancel_waiting be c True k (Suc n) s w1 = Some (False, n', r', w')"
        "ring_inv I H r'" "r_queue r' = r_queue s" "r_wq r' = r_wq s" "cancels M s r'"
        "n' = Suc n + length M" "set M = {j \<in> set (r_waiting s). ?names s j}"
        "set (r_waiting r') = set (r_waiting s) - set M"
        using less.hyps [OF len cp(2) front] by blast
      have "set (?t # M) = {j \<in> set (r_waiting r). ?names r j}"
        using rec(7) sq hit True by (auto simp: cp(6))
      moreover have "cancels (?t # M) r r'" using cancels_trans [OF cp(1) rec(5)] by simp
      moreover have "set (r_waiting r') = set (r_waiting r) - set (?t # M)" using rec(8) cp(6) by auto
      ultimately show ?thesis unfolding step using rec cp(3,4)
        by (intro exI [of _ n'] exI [of _ r'] exI [of _ w'] exI [of _ "?t # M"]) simp
    qed
  qed
qed

text \<open>A cancel of one op takes the first that it names, in the order parked, queued, at the
  worker.\<close>

lemma cancel_waiting_one:
  assumes "ring_inv I H r" "\<And>m. m < k \<Longrightarrow> m < length (r_waiting r) \<Longrightarrow>
      \<not> cancel_names c (sqe_of r (r_waiting r ! m))"
  shows "cancel_waiting be c False k n r w = Some (False, n, r, w) \<and>
      (\<forall>j \<in> set (r_waiting r). \<not> cancel_names c (sqe_of r j)) \<or>
    (\<exists>t r' w'. cancel_waiting be c False k n r w = Some (True, Suc n, r', w') \<and> t \<in> set (r_waiting r) \<and>
      cancel_names c (sqe_of r t) \<and> cancels [t] r r' \<and> ring_inv I H r')"
  using assms(2)
proof (induction "length (r_waiting r) - k" arbitrary: k rule: less_induct)
  case less
  show ?case
  proof (cases "k < length (r_waiting r)")
    case False
    have "\<not> cancel_names c (sqe_of r j)" if "j \<in> set (r_waiting r)" for j
      using that False less.prems by (force simp: in_set_conv_nth)
    then show ?thesis using False by (subst cancel_waiting.simps, auto)
  next
    case True
    let ?t = "r_waiting r ! k"
    show ?thesis
    proof (cases "cancel_names c (sqe_of r ?t)")
      case False
      have step: "cancel_waiting be c False k n r w = cancel_waiting be c False (Suc k) n r w"
        by (subst cancel_waiting.simps) (simp add: True Let_def False)
      show ?thesis unfolding step
        by (rule less.hyps) (use True False less.prems in \<open>auto simp: less_Suc_eq\<close>)
    next
      case hit: True
      obtain r1 w1 where u: "unpark be ?t r w = (r1, w1)" by (cases "unpark be ?t r w")
      have "cancel_waiting be c False k n r w = Some (True, Suc n, cancel_target ?t r1, w1)"
        by (subst cancel_waiting.simps) (simp add: True Let_def hit u)
      with hit True cancel_parked(1,2) [OF u assms(1) True] show ?thesis
        by (intro disjI2 exI [of _ ?t] exI [of _ "cancel_target ?t r1"] exI [of _ w1]) simp
    qed
  qed
qed

end

context ring_contract
begin

lemma cancel_queue_one:
  assumes "R H r" "r_queue r = passed @ rest"
  shows "cancel_queue c False passed rest n r = (False, n, r) \<and> (\<forall>j \<in> set rest. \<not> cancel_names c (sqe_of r j)) \<or>
    (\<exists>t front behind. rest = front @ t # behind \<and> (\<forall>j \<in> set front. \<not> cancel_names c (sqe_of r j)) \<and>
      cancel_names c (sqe_of r t) \<and>
      cancel_queue c False passed rest n r =
        (True, Suc n, cancel_target t (r\<lparr>r_queue := passed @ front @ behind\<rparr>)) \<and>
      cancels [t] r (cancel_target t (r\<lparr>r_queue := passed @ front @ behind\<rparr>)) \<and>
      R H (cancel_target t (r\<lparr>r_queue := passed @ front @ behind\<rparr>)))"
  using assms(2)
proof (induction rest arbitrary: passed)
  case (Cons t rest)
  show ?case
  proof (cases "cancel_names c (sqe_of r t)")
    case False
    from Cons.prems have "r_queue r = (passed @ [t]) @ rest" by simp
    from Cons.IH [OF this] show ?thesis
    proof (elim disjE exE conjE)
      fix u front behind
      assume "rest = front @ u # behind" "\<forall>j \<in> set front. \<not> cancel_names c (sqe_of r j)"
        "cancel_names c (sqe_of r u)"
        "cancel_queue c False (passed @ [t]) rest n r =
          (True, Suc n, cancel_target u (r\<lparr>r_queue := (passed @ [t]) @ front @ behind\<rparr>))"
        "cancels [u] r (cancel_target u (r\<lparr>r_queue := (passed @ [t]) @ front @ behind\<rparr>))"
        "R H (cancel_target u (r\<lparr>r_queue := (passed @ [t]) @ front @ behind\<rparr>))"
      with False show ?thesis
        by (intro disjI2 exI [of _ u] exI [of _ "t # front"] exI [of _ behind]) simp
    qed (use False in simp)
  next
    case True
    let ?p = "r\<lparr>r_queue := passed @ rest\<rparr>"
    have p: "R (add_mset t H) ?p" by (rule take_queue_inv [OF assms(1) Cons.prems])
    have out: "t \<notin> set passed" "t \<notin> set rest" using R_hand(2) [OF p] by simp_all
    have "t \<in> set (r_queue r)" using Cons.prems by simp
    note dis = R_disjoint [OF assms(1) this]
    have "cancels [t] r (cancel_target t ?p)"
      by (rule cancel_step [OF p]) (use Cons.prems out dis in \<open>auto simp: waiters_def same_entry_def\<close>)
    then show ?thesis using True cancel_target_inv(1) [OF p]
      by (intro disjI2 exI [of _ t] exI [of _ "[]"] exI [of _ rest]) simp
  qed
qed simp

lemma cancel_wq_one:
  assumes "R H r" "r_wq r = passed @ rest"
  shows "cancel_wq c False passed rest n r = (False, n, r) \<and> (\<forall>j \<in> set rest. \<not> cancel_names c (sqe_of r j)) \<or>
    (\<exists>t r'. t \<in> set rest \<and> cancel_names c (sqe_of r t) \<and> cancel_wq c False passed rest n r = (True, Suc n, r') \<and>
      cancels [t] r r' \<and> R H r')"
  using assms(2)
proof (induction rest arbitrary: passed)
  case (Cons t rest)
  show ?case
  proof (cases "cancel_names c (sqe_of r t)")
    case False
    from Cons.prems have "r_wq r = (passed @ [t]) @ rest" by simp
    from Cons.IH [OF this] False show ?thesis by auto
  next
    case True
    let ?p = "r\<lparr>r_wq := passed @ rest\<rparr>"
    have p: "R (add_mset t H) ?p" by (rule take_wq_inv [OF assms(1) Cons.prems])
    have out: "t \<notin> set passed" "t \<notin> set rest" using R_hand(3) [OF p] by simp_all
    have dis: "t \<notin> set (r_queue r)" "t \<notin> set (r_waiting r)" using R_hand [OF p] by simp_all
    have same: "cq_stream ?p = cq_stream r" "same_entry r ?p j" for j
      by (simp_all add: same_entry_def sqe_of_def the_op_def cq_stream_def unread_def cq_avail_def
          cq_slot_def backlog_cqe_def fun_eq_iff)
    have "cancels [t] r (cancel_target t ?p)"
      by (rule cancel_step [OF p same(1) _ _ same(2)]) (use Cons.prems out dis in \<open>auto simp: waiters_def\<close>)
    then show ?thesis using True cancel_target_inv(1) [OF p]
      by (intro disjI2 exI [of _ t] exI [of _ "cancel_target t ?p"]) simp
  qed
qed simp

end

subsection \<open>The whole cancel\<close>

definition named :: "sqe \<Rightarrow> 'b slip_ring \<Rightarrow> opid set" where
  "named c r = {j \<in> waiters r. cancel_names c (sqe_of r j)}"

definition cancels_every :: "sqe \<Rightarrow> bool" where
  "cancels_every c \<longleftrightarrow> sqe_opcode c = OP_ASYNC_CANCEL \<and> cancel_all c"

text \<open>What a cancel that took the ops \<open>M\<close> answers.\<close>

definition cancel_answer :: "bool \<Rightarrow> opid list \<Rightarrow> 'b slip_ring \<Rightarrow> i32" where
  "cancel_answer all M r =
     (if M \<noteq> [] then if all then of_nat (length M) else 0
      else if r_blocking r \<noteq> None \<and> r_blocked_done r = None then - EALREADY else - ENOENT)"

lemma cancels_named: "cancels M r s \<Longrightarrow> named c s = named c r - set M"
  by (auto simp: named_def cancels_def same_entry_def)

context readiness_backend
begin

lemma cancel_matching_eq:
  "cancel_matching be i r w =
     (let c = sqe_of r i; all = cancels_every c in
      case cancel_waiting be c all 0 0 r w of
        None \<Rightarrow> None
      | Some (True, n, r, w) \<Rightarrow> Some (0, r, w)
      | Some (False, n, r, w) \<Rightarrow>
          (case cancel_queue c all [] (r_queue r) n r of
             (True, n, r) \<Rightarrow> Some (0, r, w)
           | (False, n, r) \<Rightarrow>
               (case cancel_wq c all [] (r_wq r) n r of
                  (True, n, r) \<Rightarrow> Some (0, r, w)
                | (False, n, r) \<Rightarrow>
                    if 0 < n then Some (if all then of_nat n else 0, r, w)
                    else if r_blocking r \<noteq> None \<and> r_blocked_done r = None
                    then Some (- EALREADY, r, w)
                    else Some (- ENOENT, r, w))))"
  by (simp only: cancel_matching_def cancels_every_def Let_def)

lemma cancel_matching_all:
  assumes "ring_inv I H r" "cancels_every (sqe_of r i)"
  shows "\<exists>M r' w'. cancel_matching be i r w = Some (cancel_answer True M r', r', w') \<and>
    ring_inv I H r' \<and> cancels M r r' \<and> set M = named (sqe_of r i) r"
proof -
  let ?c = "sqe_of r i"
  obtain n1 r1 w1 M1 where c1: "cancel_waiting be ?c True 0 0 r w = Some (False, n1, r1, w1)"
    "ring_inv I H r1" "r_queue r1 = r_queue r" "r_wq r1 = r_wq r" "cancels M1 r r1" "n1 = length M1"
    "set M1 = {j \<in> set (r_waiting r). cancel_names ?c (sqe_of r j)}"
    using cancel_waiting_all [OF assms(1), of 0 ?c 0 w] by auto
  obtain e2 n2 r2 where q2: "cancel_queue ?c True [] (r_queue r1) n1 r1 = (e2, n2, r2)"
    by (cases "cancel_queue ?c True [] (r_queue r1) n1 r1")
  define M2 where "M2 = filter (\<lambda>t. cancel_names ?c (sqe_of r1 t)) (r_queue r1)"
  have c2: "\<not> e2" "ring_inv I H r2" "r_wq r2 = r_wq r1" "n2 = n1 + length M2" "cancels M2 r1 r2"
    using cancel_queue_all [OF q2 c1(2)] by (auto simp: M2_def)
  obtain e3 n3 r3 where q3: "cancel_wq ?c True [] (r_wq r2) n2 r2 = (e3, n3, r3)"
    by (cases "cancel_wq ?c True [] (r_wq r2) n2 r2")
  define M3 where "M3 = filter (\<lambda>t. cancel_names ?c (sqe_of r2 t)) (r_wq r2)"
  have c3: "\<not> e3" "ring_inv I H r3" "n3 = n2 + length M3" "cancels M3 r2 r3"
    using cancel_wq_all [OF q3 c2(2)] by (auto simp: M3_def)
  let ?M = "M1 @ M2 @ M3"
  have M: "cancels ?M r r3" using cancels_trans [OF c1(5) cancels_trans [OF c2(5) c3(4)]] .
  have "set M2 \<subseteq> named ?c r1" "set M3 \<subseteq> named ?c r2"
    by (auto simp: M2_def M3_def named_def waiters_def)
  moreover have "set M1 \<subseteq> named ?c r" by (auto simp: c1(7) named_def waiters_def)
  ultimately have sub: "set ?M \<subseteq> named ?c r"
    by (auto simp: cancels_named [OF c1(5)] cancels_named [OF c2(5)])
  have "j \<in> set ?M" if j: "j \<in> named ?c r" for j
  proof (rule ccontr)
    assume no: "j \<notin> set ?M"
    have j1: "j \<in> named ?c r1" using j no by (simp add: cancels_named [OF c1(5)])
    have j2: "j \<in> named ?c r2" using j1 no by (simp add: cancels_named [OF c2(5)])
    have "j \<notin> set (r_waiting r)" using j no c1(7) by (auto simp: named_def)
    moreover have "j \<notin> set (r_queue r1)" using j1 no by (auto simp: M2_def named_def)
    moreover have "j \<notin> set (r_wq r2)" using j2 no by (auto simp: M3_def named_def)
    ultimately show False using j c1(3,4) c2(3) by (auto simp: named_def waiters_def)
  qed
  with sub have "set ?M = named ?c r" by blast
  moreover have "cancel_matching be i r w = Some (cancel_answer True ?M r3, r3, w1)"
  proof -
    have e: "e2 = False" "e3 = False" and n: "n3 = length ?M" using c1(6) c2(1,4) c3(1,3) by auto
    have "cancel_matching be i r w = Some (if 0 < n3 then of_nat n3
        else if r_blocking r3 \<noteq> None \<and> r_blocked_done r3 = None then - EALREADY else - ENOENT, r3, w1)"
      by (simp add: cancel_matching_eq Let_def assms(2) c1(1) q2 q3 e)
    then show ?thesis by (auto simp: n cancel_answer_def)
  qed
  ultimately show ?thesis using c3(2) M by blast
qed

lemma cancel_matching_one:
  assumes "ring_inv I H r" "\<not> cancels_every (sqe_of r i)"
  shows "\<exists>M r' w'. cancel_matching be i r w = Some (cancel_answer False M r', r', w') \<and>
    ring_inv I H r' \<and> cancels M r r' \<and>
    (M = [] \<and> named (sqe_of r i) r = {} \<or> (\<exists>t \<in> named (sqe_of r i) r. M = [t]))"
proof -
  let ?c = "sqe_of r i"
  have all: "cancels_every ?c = False" using assms(2) by simp
  have took: ?thesis if "cancel_matching be i r w = Some (0, r', w')" "cancels [t] r r'" "ring_inv I H r'"
    "t \<in> waiters r" "cancel_names ?c (sqe_of r t)" for t r' w'
    using that by (intro exI [of _ "[t]"] exI [of _ r'] exI [of _ w']) (auto simp: cancel_answer_def named_def)
  have "cancel_waiting be ?c False 0 0 r w = Some (False, 0, r, w) \<and>
      (\<forall>j \<in> set (r_waiting r). \<not> cancel_names ?c (sqe_of r j)) \<or>
    (\<exists>t r' w'. cancel_waiting be ?c False 0 0 r w = Some (True, Suc 0, r', w') \<and> t \<in> set (r_waiting r) \<and>
      cancel_names ?c (sqe_of r t) \<and> cancels [t] r r' \<and> ring_inv I H r')"
    by (rule cancel_waiting_one [OF assms(1)]) simp
  then show ?thesis
  proof (elim disjE exE conjE)
    fix t r' w'
    assume "cancel_waiting be ?c False 0 0 r w = Some (True, Suc 0, r', w')" "t \<in> set (r_waiting r)"
      "cancel_names ?c (sqe_of r t)" "cancels [t] r r'" "ring_inv I H r'"
    then show ?thesis
      by (intro took [of r' w' t]) (auto simp: cancel_matching_eq Let_def all waiters_def)
  next
    assume w: "cancel_waiting be ?c False 0 0 r w = Some (False, 0, r, w)"
      "\<forall>j \<in> set (r_waiting r). \<not> cancel_names ?c (sqe_of r j)"
    have "r_queue r = [] @ r_queue r" by simp
    from cancel_queue_one [OF assms(1) this, of ?c 0] show ?thesis
    proof (elim disjE exE conjE)
      fix t front behind
      assume "r_queue r = front @ t # behind" "cancel_names ?c (sqe_of r t)"
        "cancel_queue ?c False [] (r_queue r) 0 r =
          (True, Suc 0, cancel_target t (r\<lparr>r_queue := [] @ front @ behind\<rparr>))"
        "cancels [t] r (cancel_target t (r\<lparr>r_queue := [] @ front @ behind\<rparr>))"
        "ring_inv I H (cancel_target t (r\<lparr>r_queue := [] @ front @ behind\<rparr>))"
      then show ?thesis
        by (intro took [of "cancel_target t (r\<lparr>r_queue := [] @ front @ behind\<rparr>)" w t])
          (auto simp: cancel_matching_eq Let_def all waiters_def w)
    next
      assume q: "cancel_queue ?c False [] (r_queue r) 0 r = (False, 0, r)"
        "\<forall>j \<in> set (r_queue r). \<not> cancel_names ?c (sqe_of r j)"
      have "r_wq r = [] @ r_wq r" by simp
      from cancel_wq_one [OF assms(1) this, of ?c 0] show ?thesis
      proof (elim disjE exE conjE)
        fix t r'
        assume "t \<in> set (r_wq r)" "cancel_names ?c (sqe_of r t)"
          "cancel_wq ?c False [] (r_wq r) 0 r = (True, Suc 0, r')" "cancels [t] r r'" "ring_inv I H r'"
        then show ?thesis
          by (intro took [of r' w t]) (auto simp: cancel_matching_eq Let_def all waiters_def w q)
      next
        assume k: "cancel_wq ?c False [] (r_wq r) 0 r = (False, 0, r)"
          "\<forall>j \<in> set (r_wq r). \<not> cancel_names ?c (sqe_of r j)"
        have "named ?c r = {}" using w(2) q(2) k(2) by (auto simp: named_def waiters_def)
        then show ?thesis using assms(1)
          by (intro exI [of _ "[]"] exI [of _ r] exI [of _ w])
            (simp add: cancel_matching_eq Let_def all w q k cancel_answer_def)
      qed
    qed
  qed
qed

end

end
