(* ===== verification/Multishot.thy ===== *)
theory Multishot
  imports Cancel
begin

text \<open>
  Where the multishot loops end (\<open>run_accept_multishot\<close>, \<open>run_recv_multishot\<close>,
  \<open>run_recvmsg_multishot\<close>, \<open>src/src/engine_posix.c\<close>).  Each goes round once per connection or
  message that the system has at hand, so it ends where those run out: \<open>drains\<close> says that a
  measure of the world goes down whenever one of the three calls answers something.  A receive
  into provided buffers ends for another reason too: each round takes a buffer.
\<close>

definition drains :: "'w os \<Rightarrow> ('w \<Rightarrow> nat) \<Rightarrow> bool" where
  "drains os m \<longleftrightarrow>
     (\<forall>f a b fl w n w'. os_accept4 os f a b fl w = (SysOk n, w') \<longrightarrow> m w' < m w) \<and>
     (\<forall>f a l fl w n w'. os_recv os f a l fl w = (SysOk n, w') \<longrightarrow> 0 < n \<longrightarrow> m w' < m w) \<and>
     (\<forall>f h fl w n x w'. os_recvmsg_at os f h fl w = ((SysOk n, x), w') \<longrightarrow> 0 < n \<longrightarrow> m w' < m w) \<and>
     (\<forall>f w. m (set_nonblock os f w) \<le> m w) \<and>
     (\<forall>a ro w. m (os_st_recvmsg_out os a ro w) \<le> m w)"

lemma run_accept_multishot_ends:
  assumes "drains os m"
  shows "run_accept_multishot os i r w \<noteq> None"
proof (induction "m w" arbitrary: r w rule: less_induct)
  case less
  let ?s = "sqe_of r i" and ?w = "set_nonblock os (sqe_fd (sqe_of r i)) w"
  obtain n w1 where a: "accept_one os ?s ?w = (n, w1)" by fastforce
  show ?case
  proof (cases n)
    case (SysErr e)
    then show ?thesis by (subst run_accept_multishot.simps) (simp add: Let_def a)
  next
    case (SysOk k)
    have "m w1 < m ?w" using assms a SysOk by (auto simp: drains_def accept_one_def)
    moreover have "m ?w \<le> m w" using assms by (simp add: drains_def)
    ultimately have dn: "m w1 < m w" by simp
    obtain ans r1 w2 where x: "(if sqe_file_index ?s \<noteq> 0 then install_direct os r ?s (word_of_int k) w1
        else (word_of_int k, r, w1)) = (ans, r1, w2)" by (metis prod_cases3)
    have "neg32 ans \<or> w2 = w1"
      using x by (auto simp: install_direct_def split: if_splits prod.splits)
    then show ?thesis
      using less [of w1] dn by (subst run_accept_multishot.simps) (auto simp: Let_def a SysOk x)
  qed
qed

lemma run_recv_multishot_ends:
  assumes "drains os m"
  shows "run_recv_multishot os i r w \<noteq> None"
proof (induction "m w" arbitrary: r w rule: less_induct)
  case less
  let ?s = "sqe_of r i"
  obtain x r1 where t: "(if buffer_select ?s then bufring_take (os_mem os w) r (sqe_buf_group ?s)
            else (Inr \<lparr>buf_addr = sqe_addr ?s, buf_len = sqe_len ?s, buf_bid = 0\<rparr>, r)) = (x, r1)" by fastforce
  show ?case
  proof (cases x)
    case (Inl rc)
    then show ?thesis by (subst run_recv_multishot.simps) (simp add: Let_def t)
  next
    case (Inr b)
    obtain n w1 where a: "os_recv os (sqe_fd ?s) (buf_addr b) (buf_len b) (sqe_op_flags ?s OR MSG_DONTWAIT) w = (n, w1)"
      by fastforce
    have "m w1 < m w" if "n = SysOk k" "0 < k" for k
      using assms a that unfolding drains_def by blast
    then show ?thesis
      using less [of w1] by (subst run_recv_multishot.simps) (auto simp: Let_def t Inr a split: sysret.splits)
  qed
qed

lemma recvmsg_loop_ends:
  assumes "drains os m"
  shows "recvmsg_loop os i asked header r w \<noteq> None"
proof (induction "m w" arbitrary: r w rule: less_induct)
  case less
  let ?s = "sqe_of r i"
  obtain x r1 where t: "bufring_take (os_mem os w) r (sqe_buf_group ?s) = (x, r1)" by fastforce
  show ?case
  proof (cases x)
    case (Inl rc)
    then show ?thesis by (subst recvmsg_loop.simps) (simp add: Let_def t)
  next
    case (Inr b)
    let ?w = "os_st_recvmsg_out os (buf_addr b) zero_recvmsg_out w"
    obtain n nl cl fl w1 where a: "os_recvmsg_at os (sqe_fd ?s) (recvmsg_layout b asked header)
        (sqe_op_flags ?s OR MSG_DONTWAIT) ?w = ((n, nl, cl, fl), w1)" by (metis prod.exhaust)
    have "m (os_st_recvmsg_out os (buf_addr b) ro w1) < m w" if "n = SysOk k" "0 < k" for k ro
    proof -
      have "m w1 < m ?w" using assms a that unfolding drains_def by blast
      moreover have "m ?w \<le> m w" "m (os_st_recvmsg_out os (buf_addr b) ro w1) \<le> m w1"
        using assms unfolding drains_def by blast+
      ultimately show ?thesis by simp
    qed
    then show ?thesis
      using less by (subst recvmsg_loop.simps) (auto simp: Let_def t Inr a split: sysret.splits)
  qed
qed

text \<open>So every attempt at every op ends.\<close>

lemma slip_posix_try_ends:
  assumes "drains os m"
  shows "slip_posix_try os forget i r w \<noteq> None"
proof -
  have "try_recv os i r w \<noteq> None" using run_recv_multishot_ends [OF assms, of i r w]
    by (simp add: try_recv_def Let_def split: prod.split sum.split del: not_None_eq)
  moreover have "try_accept os i r w \<noteq> None" using run_accept_multishot_ends [OF assms, of i r w]
    by (simp add: try_accept_def Let_def split: prod.split sysret.split del: not_None_eq)
  moreover have "try_recvmsg os i r w \<noteq> None" 
    by (simp add: try_recvmsg_def run_recvmsg_multishot_def Let_def recvmsg_loop_ends [OF assms] del: not_None_eq)
  ultimately show ?thesis
    by (cases "sqe_opcode (sqe_of r i)") (simp_all add: slip_posix_try_def Let_def del: not_None_eq)
qed

context worker_backend
begin

lemma slip_posix_execute_ends:
  assumes "drains os m" "ring_inv I H r"
  shows "slip_posix_execute be os i r w \<noteq> None"
proof (cases "sqe_opcode (sqe_of r i) = OP_ASYNC_CANCEL \<or> sqe_opcode (sqe_of r i) = OP_POLL_REMOVE")
  case True
  obtain res r1 w1 where "cancel_matching be i r w = Some (res, r1, w1)"
    by (rule cancel_matching_inv [OF assms(2)])
  with True show ?thesis by (auto simp: slip_posix_execute_def)
next
  case False
  then show ?thesis using slip_posix_try_ends [OF assms(1), of "be_forget be" i r w]
    by (auto simp: slip_posix_execute_def split: option.split eng_verdict.split prod.split)
qed

end

subsection \<open>Receiving into provided buffers\<close>

text \<open>With the tail of the caller's ring where it is, a multishot receive goes round at most
  once per published buffer; here the system may have data for ever.\<close>

lemma emit_bufs_left [simp]: "bufs_left m (slip_engine_emit ud res fl r) g = bufs_left m r g"
  and emit_bufrings [simp]: "r_bufrings (slip_engine_emit ud res fl r) = r_bufrings r"
proof -
  have "same_core (slip_engine_emit ud res fl r) r" by simp
  then show e: "r_bufrings (slip_engine_emit ud res fl r) = r_bufrings r" by (simp add: same_core_def)
  show "bufs_left m (slip_engine_emit ud res fl r) g = bufs_left m r g"
    by (simp only: bufs_left_def slip_bufring_of_def e)
qed

definition steady_tails :: "'w os \<Rightarrow> bool" where
  "steady_tails os \<longleftrightarrow> (\<forall>f a l fl w. um_tail (os_mem os (snd (os_recv os f a l fl w))) = um_tail (os_mem os w))"

lemma bufs_left_cong: "um_tail m' = um_tail m \<Longrightarrow> bufs_left m' r g = bufs_left m r g"
  by (simp add: bufs_left_def split: option.split)

lemma emit_sqe_of:
  assumes "pool_ok r (add_mset i H)"
  shows "sqe_of (slip_engine_emit ud res fl r) i = sqe_of r i"
    "pool_ok (slip_engine_emit ud res fl r) (add_mset i H)"
  using keeps_emit [OF assms, of ud res fl] assms
  by (simp_all add: keeps_sqe keeps_pool_ok)

lemma run_recv_multishot_buffers:
  assumes "steady_tails os" "bufrings_wf r" "pool_ok r (add_mset i H)" "buffer_select (sqe_of r i)"
  shows "run_recv_multishot os i r w \<noteq> None"
  using assms(2-)
proof (induction "bufs_left (os_mem os w) r (sqe_buf_group (sqe_of r i))" arbitrary: r w rule: less_induct)
  case less
  let ?s = "sqe_of r i"
  let ?g = "sqe_buf_group ?s"
  obtain x r1 where t: "bufring_take (os_mem os w) r ?g = (x, r1)" by fastforce
  show ?case
  proof (cases x)
    case (Inl rc)
    then show ?thesis using less.prems(3) by (subst run_recv_multishot.simps) (simp add: Let_def t)
  next
    case (Inr b)
    obtain n w1 where a: "os_recv os (sqe_fd ?s) (buf_addr b) (buf_len b) (sqe_op_flags ?s OR MSG_DONTWAIT) w = (n, w1)"
      by fastforce
    note left = take_left [OF less.prems(1) t [unfolded Inr]]
    have k: "keeps i r r1" by (rule take_keeps [OF t])
    then have r1: "pool_ok r1 (add_mset i H)" "sqe_of r1 i = ?s"
      using less.prems(2) by (simp_all add: keeps_pool_ok keeps_sqe)
    have wf1: "bufrings_wf r1" using take_wf [OF less.prems(1), of "os_mem os w" ?g] by (simp add: t)
    have tail: "um_tail (os_mem os w1) = um_tail (os_mem os w)"
      using assms(1) a unfolding steady_tails_def by (metis snd_conv)
    have "run_recv_multishot os i (slip_engine_emit ud res fl r1) w1 \<noteq> None" for ud res fl
    proof (rule less.hyps)
      show "bufs_left (os_mem os w1) (slip_engine_emit ud res fl r1)
          (sqe_buf_group (sqe_of (slip_engine_emit ud res fl r1) i)) < bufs_left (os_mem os w) r ?g"
        using left by (simp add: emit_sqe_of [OF r1(1)] r1(2) bufs_left_cong [OF tail])
      show "bufrings_wf (slip_engine_emit ud res fl r1)" using wf1 by simp
      show "pool_ok (slip_engine_emit ud res fl r1) (add_mset i H)" by (rule emit_sqe_of [OF r1(1)])
      show "buffer_select (sqe_of (slip_engine_emit ud res fl r1) i)"
        using less.prems(3) by (simp add: emit_sqe_of [OF r1(1)] r1(2))
    qed
    then show ?thesis using less.prems(3)
      by (subst run_recv_multishot.simps) (auto simp: Let_def t Inr a split: sysret.splits)
  qed
qed

end
