(* ===== verification/Worker.thy ===== *)
theory Worker
  imports Multishot
begin

text \<open>
  The worker thread (\<open>worker_main\<close>, \<open>src/src/engine_posix.c\<close>) and its interleaving with the
  engine.  The worker is one program counter; its steps are the sections between a lock and
  an unlock of the ring's mutex, and the blocking call between two of them, which holds no
  lock.  The engine's steps are the pieces of \<open>enter\<close> between which the worker can run, and
  the caller's are what it does to the shared memory.
\<close>

subsection \<open>The worker\<close>

datatype worker_pc =
    W_WAIT              \<comment> \<open>at the top of the loop, holding the lock\<close>
  | W_RUN opid          \<comment> \<open>took an op, about to block in the call\<close>
  | W_RAN opid i32      \<comment> \<open>the call answered\<close>
  | W_POST opid i32     \<comment> \<open>the ticket is up, if one is owed\<close>
  | W_POKE              \<comment> \<open>posted, about to poke\<close>
  | W_GONE

fun worker_hand :: "worker_pc \<Rightarrow> opid multiset" where
  "worker_hand (W_RUN i) = {#i#}"
| "worker_hand (W_RAN i res) = {#i#}"
| "worker_hand (W_POST i res) = {#i#}"
| "worker_hand _ = {#}"

text \<open>\<open>None\<close> where the worker sleeps on its condition variable, or has left.\<close>

definition raise_ticket :: "opid \<Rightarrow> i32 \<Rightarrow> 'b slip_ring \<Rightarrow> 'b slip_ring" where
  "raise_ticket i res r = r\<lparr>r_blocked_done := Some i,
     r_blocked_failed := (if neg32 res then slip_chain_failure_of (the_op r i) else SLIP_CHAIN_HOLDS)\<rparr>"

fun worker_main :: "'w os \<Rightarrow> worker_pc \<Rightarrow> 'b slip_ring \<Rightarrow> 'w \<Rightarrow> (worker_pc \<times> 'b slip_ring \<times> 'w) option" where
  "worker_main os W_WAIT r w =
     (if r_stopping r then Some (W_GONE, r, w)
      else case r_wq r of [] \<Rightarrow> None | i # q \<Rightarrow> Some (W_RUN i, r\<lparr>r_wq := q\<rparr>, w))"
| "worker_main os (W_RUN i) r w =
     (case slip_posix_run_blocking os (sqe_of r i) w of (res, w) \<Rightarrow> Some (W_RAN i res, r, w))"
| "worker_main os (W_RAN i res) r w =
     Some (W_POST i res, if op_stalls_queue (the_op r i) then raise_ticket i res r else r, w)"
| "worker_main os (W_POST i res) r w = Some (W_POKE, slip_engine_post i res r, w)"
| "worker_main os W_POKE r w = Some (W_WAIT, slip_posix_poke r, w)"
| "worker_main os W_GONE r w = None"

subsection \<open>Interleaving\<close>

text \<open>The caller of ring \<open>me\<close> reads completions and writes submissions.\<close>

definition reap :: "u32 \<Rightarrow> 'b slip_ring \<Rightarrow> 'b slip_ring" where
  "reap k r = r\<lparr>r_cq := (r_cq r)\<lparr>cq_head := cq_head (r_cq r) + k\<rparr>\<rparr>"

definition fill :: "u32 \<Rightarrow> (nat \<Rightarrow> u32) \<Rightarrow> (nat \<Rightarrow> sqe) \<Rightarrow> 'b slip_ring \<Rightarrow> 'b slip_ring" where
  "fill tail arr es r = r\<lparr>r_sq := (r_sq r)\<lparr>sq_tail := tail, sq_array := arr\<rparr>, r_sqes := es\<rparr>"

type_synonym ('b, 'w) sys = "worker_pc \<times> 'b slip_ring list \<times> 'w"

inductive sys_step :: "'w os \<Rightarrow> ('b, 'w) eng_backend \<Rightarrow> nat \<Rightarrow> ('b, 'w) sys \<Rightarrow> ('b, 'w) sys \<Rightarrow> bool"
  for os be me where
  worker: "worker_main os pc (rs ! me) w = Some (pc', r', w') \<Longrightarrow>
    sys_step os be me (pc, rs, w) (pc', rs[me := r'], w')"
| submit: "take_sqes k tail [] 0 (rs ! me) = (batch, n, r) \<Longrightarrow>
    sys_step os be me (pc, rs, w) (pc, rs[me := r\<lparr>r_queue := r_queue r @ batch\<rparr>], w)"
| run: "r_queue (rs ! me) = i # q \<Longrightarrow> r_blocking (rs ! me) = None \<Longrightarrow>
    process_one be me i (rs[me := (rs ! me)\<lparr>r_queue := q\<rparr>]) w = Some (rs', w') \<Longrightarrow>
    sys_step os be me (pc, rs, w) (pc, rs', w')"
| deliver: "eb_wait be (rs ! me) cap t w = Some (Some fin, r', w') \<Longrightarrow>
    sys_step os be me (pc, rs, w) (pc, rs[me := fold (\<lambda>(i, res). complete i res) fin r'], w')"
| settle: "sys_step os be me (pc, rs, w) (pc, rs[me := settle_worker_ticket (rs ! me)], w)"
| read: "k \<le> cq_avail (rs ! me) \<Longrightarrow> sys_step os be me (pc, rs, w) (pc, rs[me := reap k (rs ! me)], w)"
| publish: "sys_step os be me (pc, rs, w) (pc, rs[me := fill tail arr es (rs ! me)], w)"

inductive_cases sys_stepE: "sys_step os be me (pc, rs, w) s"

inductive sys_reach :: "'w os \<Rightarrow> ('b, 'w) eng_backend \<Rightarrow> nat \<Rightarrow> ('b, 'w) sys \<Rightarrow> ('b, 'w) sys \<Rightarrow> bool"
  for os be me where
  here: "sys_reach os be me s s"
| there: "sys_reach os be me s t \<Longrightarrow> sys_step os be me t u \<Longrightarrow> sys_reach os be me s u"

subsection \<open>The worker keeps the invariant\<close>

context ring_contract
begin

lemma worker_main_inv:
  assumes "worker_main os pc r w = Some (pc', r', w')" "R (worker_hand pc + H) r"
  shows "R (worker_hand pc' + H) r'" "r_in_use r' = r_in_use r"
proof -
  have "R (worker_hand pc' + H) r' \<and> r_in_use r' = r_in_use r"
  proof (cases pc)
    case W_WAIT
    show ?thesis
    proof (cases "r_stopping r")
      case True
      with W_WAIT assms show ?thesis by simp
    next
      case False
      then obtain i q where q: "r_wq r = [] @ i # q" "pc' = W_RUN i" "r' = r\<lparr>r_wq := q\<rparr>"
        using assms(1) W_WAIT by (auto split: list.splits)
      have "R H r" using assms(2) W_WAIT by simp
      from take_wq_inv(1) [OF this q(1)] show ?thesis by (simp add: q)
    qed
  next
    case (W_RUN i)
    with assms show ?thesis by (auto split: prod.splits)
  next
    case (W_RAN i res)
    have eq: "R J (raise_ticket i res r) = R J r" for J
      by (rule R_same; (rule parked_same_plain ring_wf_cong)?; simp add: raise_ticket_def acct_def)
    have "pc' = W_POST i res" "r' = (if op_stalls_queue (the_op r i) then raise_ticket i res r else r)"
      using W_RAN assms(1) by simp_all
    moreover have "R (add_mset i H) r" using W_RAN assms(2) by simp
    moreover have "r_in_use (raise_ticket i res r) = r_in_use r" by (simp add: raise_ticket_def)
    ultimately show ?thesis by (simp only: eq worker_hand.simps add_mset_add_single [symmetric] if_cancel split: if_split) (simp add: eq)
  next
    case (W_POST i res)
    with assms have "R (add_mset i H) r" by simp
    from post_inv [OF this] W_POST assms(1) show ?thesis
      using runs_in_use [OF post_runs] by auto
  next
    case W_POKE
    with assms show ?thesis by (auto simp: slip_posix_poke_def)
  qed (use assms in simp)
  then show "R (worker_hand pc' + H) r'" "r_in_use r' = r_in_use r" by auto
qed

lemma reap_inv:
  assumes "R H r" "k \<le> cq_avail r"
  shows "R H (reap k r)" "r_in_use (reap k r) = r_in_use r"
proof -
  have "cq_avail (reap k r) = cq_avail r - k" by (simp add: cq_avail_def reap_def)
  moreover have "cq_avail r - k \<le> cq_avail r" using assms(2) by (rule word_sub_le)
  ultimately have "cq_wf (reap k r)"
    using R_wf [OF assms(1)] by (auto simp: ring_wf_def cq_wf_def reap_def intro: order_trans)
  moreover have "fixed_wf (reap k r) = fixed_wf r" "bufrings_wf (reap k r) = bufrings_wf r"
    by (rule fixed_wf_cong bufrings_wf_cong; simp add: reap_def)+
  ultimately have "ring_wf (reap k r)" using R_wf [OF assms(1)] by (simp add: ring_wf_def)
  then show "R H (reap k r)"
    by (rule R_move [OF assms(1) parked_same_plain, rotated -1]) (simp_all add: reap_def acct_def)
  show "r_in_use (reap k r) = r_in_use r" by (simp add: reap_def)
qed

lemma fill_inv: "R H (fill tail arr es r) = R H r" "r_in_use (fill tail arr es r) = r_in_use r"
  by (rule R_same; (rule parked_same_plain ring_wf_cong)?; simp add: fill_def acct_def)
    (simp add: fill_def)

end

subsection \<open>Every interleaving keeps the invariant\<close>

definition sys_inv :: "(opid multiset \<Rightarrow> 'b slip_ring \<Rightarrow> bool) \<Rightarrow> nat \<Rightarrow> (nat \<Rightarrow> opid multiset) \<Rightarrow> ('b, 'w) sys \<Rightarrow> bool" where
  "sys_inv R me Hs s = (case s of (pc, rs, w) \<Rightarrow>
     me < length rs \<and> r_in_use (rs ! me) \<and> others_inv R me Hs rs \<and> R (worker_hand pc) (rs ! me))"

context backend_contract
begin

lemma sys_step_inv:
  assumes "sys_step os be me s t" "sys_inv R me Hs s"
  shows "sys_inv R me Hs t"
  using assms
proof (induction rule: sys_step.induct)
  case (worker pc rs w pc' r' w')
  with worker_main_inv [OF worker(1), of "{#}"] show ?case by (simp add: sys_inv_def)
next
  case (submit k tail rs batch n r pc w)
  then have "R (mset batch + worker_hand pc) r" "r_in_use r"
    using take_sqes_inv [OF submit(1), of "worker_hand pc"] by (simp_all add: sys_inv_def)
  with submit(2) append_queue_inv show ?case by (simp add: sys_inv_def)
next
  case (run rs i q w rs' w' pc)
  let ?r = "rs ! me"
  have me: "me < length rs" and inv: "R (worker_hand pc) ?r" and o: "others_inv R me Hs rs"
    and u: "r_in_use ?r" using run(4) by (simp_all add: sys_inv_def)
  have "others_inv R me Hs rs' \<and> R (worker_hand pc) (rs' ! me) \<and>
      all_run (rs[me := ?r\<lparr>r_queue := q\<rparr>]) rs'"
    using pop_queue_inv(1) [OF inv run(1)] me o by (intro process_one_inv [OF run(3)]) simp_all
  then show ?case using me u all_run_at [of "rs[me := ?r\<lparr>r_queue := q\<rparr>]" rs' me]
    by (auto simp: sys_inv_def dest: runs_in_use)
next
  case (deliver rs cap t w fin r' w' pc)
  then have r': "R (mset (map fst fin) + worker_hand pc) r'" "runs (rs ! me) r'"
    using wait_inv [OF deliver(1), of "worker_hand pc"] by (simp_all add: sys_inv_def)
  from complete_all_inv [OF r'(1)] runs_in_use [OF r'(2)] deliver(2) show ?case
    by (auto simp: sys_inv_def dest: runs_in_use)
next
  case (settle pc rs w)
  then show ?case by (auto simp: sys_inv_def settle_inv)
next
  case (read k rs pc w)
  then show ?case by (auto simp: sys_inv_def reap_inv)
next
  case (publish pc rs w tail arr es)
  then show ?case by (auto simp: sys_inv_def fill_inv)
qed

lemma sys_reach_inv:
  assumes "sys_reach os be me s t" "sys_inv R me Hs s"
  shows "sys_inv R me Hs t"
  using assms by (induction rule: sys_reach.induct) (auto intro: sys_step_inv)

end

subsection \<open>A settled ticket and the next wait\<close>

text \<open>The worker has finished the op a chain waits for, and its poke ends the wait.  The loop
  of \<open>enter\<close> runs the queue before it settles the ticket, so the round ends with the chain
  released and its next member still queued.\<close>

lemma wait_round_after_poke:
  assumes "me < length rs" "r_blocking (rs ! me) = Some i" "r_blocked_done (rs ! me) = Some i"
    "r_blocked_failed (rs ! me) = SLIP_CHAIN_HOLDS" "r_backlog (rs ! me) = []"
    "eb_wait be (rs ! me) (unat (r_op_pool_n (rs ! me))) (- 1) w =
       Some (Some [], (rs ! me)\<lparr>r_ctl := False\<rparr>, w')"
  shows "wait_round be clock me None m rs w = Some (Inr (), rs[me := (rs ! me)\<lparr>r_ctl := False,
    r_blocking := None, r_blocked_done := None\<rparr>], w')"
proof -
  let ?r = "(rs ! me)\<lparr>r_ctl := False\<rparr>"
  have pq: "process_queue be me (rs[me := ?r]) w' = Some (rs[me := ?r], w')"
    using assms(1,2) by (subst process_queue.simps) (simp split: list.split)
  have st: "settle_worker_ticket ?r = ?r\<lparr>r_blocking := None, r_blocked_done := None\<rparr>"
    using assms(2-5) by (simp add: settle_worker_ticket_def Let_def drain_empty)
  show ?thesis
    using assms(1,6) pq st by (simp add: wait_round_def Let_def)
qed

end
