(* ===== verification/Setup.thy ===== *)
theory Setup
  imports Worker
begin

text \<open>
  The life of a ring (\<open>src/src/slipstream_engine.c\<close>): the choice of backend, setup with its
  one-block layout, the register family, mmap, munmap and close.  What the platform answers
  (is there memory, do the thread primitives initialise) is the record \<open>plat_ok\<close>; the sizes
  of the engine's own structs are the record \<open>sizes\<close>.
\<close>

subsection \<open>Which backend\<close>

datatype backend_id = BE_SELECT | BE_EPOLL | BE_KQUEUE | BE_DISPATCH | BE_IOCP

record build =
  b_windows :: bool
  b_linux :: bool
  b_apple :: bool
  b_bsd :: bool
  b_libkqueue :: bool
  b_libdispatch :: bool

definition backend_default :: "build \<Rightarrow> backend_id" where
  "backend_default b =
     (if b_windows b then BE_IOCP else if b_apple b then BE_DISPATCH
      else if b_linux b then BE_EPOLL else if b_bsd b then BE_KQUEUE else BE_SELECT)"

fun backend_label :: "backend_id \<Rightarrow> string" where
  "backend_label BE_SELECT = ''select''"
| "backend_label BE_EPOLL = ''epoll''"
| "backend_label BE_KQUEUE = ''kqueue''"
| "backend_label BE_DISPATCH = ''dispatch''"
| "backend_label BE_IOCP = ''iocp''"

definition backend_by_name :: "build \<Rightarrow> string \<Rightarrow> backend_id option" where
  "backend_by_name b name =
     (if \<not> b_windows b \<and> name = backend_label BE_SELECT then Some BE_SELECT
      else if b_linux b \<and> name = backend_label BE_EPOLL then Some BE_EPOLL
      else if (b_bsd b \<or> b_apple b \<or> b_libkqueue b) \<and> name = backend_label BE_KQUEUE then Some BE_KQUEUE
      else if (b_apple b \<or> b_libdispatch b) \<and> name = backend_label BE_DISPATCH then Some BE_DISPATCH
      else if b_windows b \<and> name = backend_label BE_IOCP then Some BE_IOCP
      else None)"

definition slipstream_engine_backend_set ::
    "build \<Rightarrow> 'b slip_ring list \<Rightarrow> string \<Rightarrow> backend_id option \<Rightarrow> i32 \<times> backend_id option" where
  "slipstream_engine_backend_set b rs name g =
     (case backend_by_name b name of
        None \<Rightarrow> (- EINVAL, g)
      | Some be \<Rightarrow> if list_ex r_in_use rs then (- EBUSY, g) else (0, Some be))"

definition slipstream_engine_backend_name :: "build \<Rightarrow> backend_id option \<Rightarrow> string" where
  "slipstream_engine_backend_name b g =
     backend_label (case g of Some be \<Rightarrow> be | None \<Rightarrow> backend_default b)"

subsection \<open>Sizes and the one block\<close>

text \<open>The loop doubles a 32-bit word; it is \<open>None\<close> where it does not end.\<close>

partial_function (option) round_loop :: "u32 \<Rightarrow> u32 \<Rightarrow> u32 option" where
  "round_loop v n = (if n < v then round_loop v (push_bit 1 n) else Some n)"

definition round_up_pow2 :: "u32 \<Rightarrow> u32 option" where
  "round_up_pow2 v = round_loop v 1"

record sizes =
  sz_eng_op :: nat
  sz_ptr :: nat
  sz_eng_done :: nat

definition SIZEOF_SQ_RING :: nat where "SIZEOF_SQ_RING = 24"
definition SIZEOF_CQ_RING :: nat where "SIZEOF_CQ_RING = 24"
definition SIZEOF_SQE :: nat where "SIZEOF_SQE = 64"
definition SIZEOF_CQE :: nat where "SIZEOF_CQE = 16"

definition block_align :: "nat \<Rightarrow> nat" where
  "block_align n = (n + 63) div 64 * 64"

definition sq_size :: "u32 \<Rightarrow> nat" where "sq_size n = SIZEOF_SQ_RING + unat n * 4"
definition cq_size :: "u32 \<Rightarrow> nat" where "cq_size n = SIZEOF_CQ_RING + unat n * SIZEOF_CQE"
definition sqes_size :: "u32 \<Rightarrow> nat" where "sqes_size n = unat n * SIZEOF_SQE"

text \<open>The bytes each slice of the block is used for, in the order of the block: the two rings,
  the SQEs, the ops, \<open>waiting\<close>, \<open>ready\<close> and \<open>done\<close>.\<close>

definition slice_uses :: "sizes \<Rightarrow> u32 \<Rightarrow> u32 \<Rightarrow> nat list" where
  "slice_uses sz sq_n cq_n =
     [sq_size sq_n, cq_size cq_n, sqes_size sq_n, unat cq_n * sz_eng_op sz,
      unat cq_n * sz_ptr sz, unat cq_n * sz_ptr sz, unat cq_n * sz_eng_done sz]"

fun place :: "nat \<Rightarrow> nat list \<Rightarrow> nat list" where
  "place at [] = []"
| "place at (n # ns) = at # place (at + block_align n) ns"

definition slice_offsets :: "sizes \<Rightarrow> u32 \<Rightarrow> u32 \<Rightarrow> nat list" where
  "slice_offsets sz sq_n cq_n = place 0 (slice_uses sz sq_n cq_n)"

definition block_size :: "sizes \<Rightarrow> u32 \<Rightarrow> u32 \<Rightarrow> nat" where
  "block_size sz sq_n cq_n = sum_list (map block_align (slice_uses sz sq_n cq_n))"

subsection \<open>Setup\<close>

record io_uring_params =
  p_flags :: u32
  p_sq_entries :: u32
  p_cq_entries :: u32
  p_features :: u32
  p_sq_off :: "nat list"   \<comment> \<open>head, tail, ring_mask, ring_entries, flags, dropped, array\<close>
  p_cq_off :: "nat list"   \<comment> \<open>head, tail, ring_mask, ring_entries, overflow, cqes, flags\<close>

definition FEAT_EXT_ARG :: u32 where "FEAT_EXT_ARG = push_bit 8 1"

text \<open>IOPOLL, SQPOLL, SQE128, CQE32, NO_MMAP and NO_SQARRAY.\<close>

definition refused_setup :: "u32 \<Rightarrow> bool" where
  "refused_setup fl \<longleftrightarrow> bit fl 0 \<or> bit fl 1 \<or> bit fl 10 \<or> bit fl 11 \<or> bit fl 14 \<or> bit fl 16"

record plat_ok =
  ok_calloc :: "nat \<Rightarrow> bool"
  ok_mtx :: bool
  ok_cnd :: bool

definition zero_ring :: "'b \<Rightarrow> 'b slip_ring" where
  "zero_ring nul = \<lparr>r_in_use = False, r_sq_entries = 0, r_cq_entries = 0,
     r_op_pool = (\<lambda>_. zero_op), r_op_pool_n = 0, r_op_free = [],
     r_sq = \<lparr>sq_head = 0, sq_tail = 0, sq_ring_mask = 0, sq_ring_entries = 0, sq_dropped = 0,
             sq_array = (\<lambda>_. 0)\<rparr>,
     r_cq = \<lparr>cq_head = 0, cq_tail = 0, cq_ring_mask = 0, cq_ring_entries = 0, cq_overflow = 0,
             cq_cqes = (\<lambda>_. zero_cqe)\<rparr>,
     r_sqes = (\<lambda>_. zero_sqe), r_backlog = [], r_wq = [], r_blocked_done = None,
     r_blocked_failed = SLIP_CHAIN_HOLDS, r_queue = [], r_waiting = [],
     r_chain_failed = SLIP_CHAIN_HOLDS, r_blocking = None, r_fixed = None,
     r_alloc_off = 0, r_alloc_len = 0, r_alloc_hint = 0,
     r_bufrings = replicate SLIP_BUFRINGS_MAX zero_bufring, r_be_state = nul, r_ctl = False,
     r_worker_live = False, r_stopping = False\<rparr>"

text \<open>The ring before the backend opens it: sized, with every op free in pool order.\<close>

definition sized_ring :: "'b \<Rightarrow> u32 \<Rightarrow> u32 \<Rightarrow> 'b slip_ring" where
  "sized_ring nul sq_n cq_n = (zero_ring nul)
     \<lparr>r_sq_entries := sq_n, r_cq_entries := cq_n, r_op_pool_n := cq_n,
      r_op_free := [0..<unat cq_n]\<rparr>"

definition ring_ready :: "'b slip_ring \<Rightarrow> 'b slip_ring" where
  "ring_ready r = r
     \<lparr>r_sq := (r_sq r)\<lparr>sq_ring_mask := r_sq_entries r - 1, sq_ring_entries := r_sq_entries r\<rparr>,
      r_cq := (r_cq r)\<lparr>cq_ring_mask := r_cq_entries r - 1, cq_ring_entries := r_cq_entries r\<rparr>,
      r_in_use := True\<rparr>"

definition report_params :: "u32 \<Rightarrow> u32 \<Rightarrow> io_uring_params \<Rightarrow> io_uring_params" where
  "report_params sq_n cq_n p = p\<lparr>p_sq_entries := sq_n, p_cq_entries := cq_n,
     p_features := FEAT_EXT_ARG,
     p_sq_off := [0, 4, 8, 12, 16, 20, SIZEOF_SQ_RING],
     p_cq_off := [0, 4, 8, 12, 16, SIZEOF_CQ_RING, 20]\<rparr>"

definition free_ring_index :: "'b slip_ring list \<Rightarrow> nat option" where
  "free_ring_index rs = List.find (\<lambda>i. \<not> r_in_use (rs ! i)) [0..<SLIP_RINGS_MAX]"

definition slipstream_engine_setup ::
    "('b, 'w) eng_backend \<Rightarrow> 'b \<Rightarrow> sizes \<Rightarrow> plat_ok \<Rightarrow> u32 \<Rightarrow> io_uring_params option
     \<Rightarrow> 'b slip_ring list \<Rightarrow> 'w \<Rightarrow> (i32 \<times> io_uring_params option \<times> 'b slip_ring list \<times> 'w) option" where
  "slipstream_engine_setup be nul sz pl entries params rs w =
     (case params of
        None \<Rightarrow> Some (- EINVAL, params, rs, w)
      | Some p \<Rightarrow>
          if entries = 0 \<or> refused_setup (p_flags p) then Some (- EINVAL, params, rs, w)
          else case free_ring_index rs of
            None \<Rightarrow> Some (- EMFILE, params, rs, w)
          | Some idx \<Rightarrow>
              Option.bind (round_up_pow2 entries) (\<lambda>sq_n.
              Option.bind (if p_cq_entries p \<noteq> 0 then round_up_pow2 (p_cq_entries p) else Some (sq_n * 2))
                (\<lambda>cq_n.
                  if \<not> ok_calloc pl (block_size sz sq_n cq_n) \<or> \<not> ok_mtx pl \<or> \<not> ok_cnd pl then
                    Some (- ENOMEM, params, rs[idx := zero_ring nul], w)
                  else case eb_open_ring be (sized_ring nul sq_n cq_n) w of
                    (None, w) \<Rightarrow> Some (- ENOMEM, params, rs[idx := zero_ring nul], w)
                  | (Some r, w) \<Rightarrow>
                      Some (ring_token idx, Some (report_params sq_n cq_n p),
                            rs[idx := ring_ready r], w))))"

subsection \<open>The register family\<close>

record probe =
  pr_last_op :: u8
  pr_ops_len :: u8
  pr_ops :: "(u8 \<times> bool) list"   \<comment> \<open>number, and whether it is supported\<close>

record rsrc_register =
  rr_sparse :: bool
  rr_data :: u64
  rr_tags :: u64
  rr_nr :: u32

record index_range =
  ir_off :: u32
  ir_len :: u32
  ir_resv :: u64

record buf_reg =
  bg_flags :: u16
  bg_ring_addr :: u64
  bg_ring_entries :: u32
  bg_bgid :: u16

text \<open>The register opcodes with their arguments; \<open>None\<close> is a null pointer.\<close>

datatype reg_op =
    REG_PROBE bool
  | REG_FILES2 "rsrc_register option"
  | UNREG_FILES
  | REG_FILE_ALLOC_RANGE "index_range option"
  | REG_RING_FDS bool
  | UNREG_RING_FDS
  | REG_PBUF_RING "buf_reg option"
  | UNREG_PBUF_RING "buf_reg option"
  | REG_OTHER u32

text \<open>What a register call writes through its pointer.\<close>

datatype reg_out = OUT_NONE | OUT_PROBE probe | OUT_OFFSETS "u32 list"

definition register_probe :: "(opcode \<Rightarrow> u8) \<Rightarrow> opcode list \<Rightarrow> u32 \<Rightarrow> probe" where
  "register_probe num carried nr_args =
     \<lparr>pr_last_op = fold (\<lambda>c last. if last < num c then num c else last) carried 0,
      pr_ops_len = (if nr_args < 256 then ucast nr_args else 255),
      pr_ops = map (\<lambda>i. (of_nat i, list_ex (\<lambda>c. unat (num c) = i) carried)) [0..<unat nr_args]\<rparr>"

definition register_files2 :: "(nat \<Rightarrow> bool) \<Rightarrow> rsrc_register \<Rightarrow> 'b slip_ring \<Rightarrow> i32 \<times> 'b slip_ring" where
  "register_files2 malloc_ok rr r =
     (if \<not> rr_sparse rr \<or> rr_data rr \<noteq> 0 \<or> rr_tags rr \<noteq> 0 then (- EINVAL, r)
      else if rr_nr rr = 0 \<or> push_bit 20 1 < rr_nr rr then (- EINVAL, r)
      else if r_fixed r \<noteq> None then (- EBUSY, r)
      else if \<not> malloc_ok (unat (rr_nr rr) * 4) then (- ENOMEM, r)
      else (0, r\<lparr>r_fixed := Some (replicate (unat (rr_nr rr)) (- 1)), r_alloc_off := 0,
                 r_alloc_len := rr_nr rr, r_alloc_hint := 0\<rparr>))"

definition close_fixed :: "'w os \<Rightarrow> i32 list \<Rightarrow> 'w \<Rightarrow> 'w" where
  "close_fixed os t w = fold (\<lambda>f w. if \<not> neg32 f then snd (os_close os f w) else w) t w"

definition unregister_files :: "'w os \<Rightarrow> 'b slip_ring \<Rightarrow> 'w \<Rightarrow> i32 \<times> 'b slip_ring \<times> 'w" where
  "unregister_files os r w =
     (case r_fixed r of
        None \<Rightarrow> (- ENXIO, r, w)
      | Some t \<Rightarrow> (0, r\<lparr>r_fixed := None, r_alloc_off := 0, r_alloc_len := 0, r_alloc_hint := 0\<rparr>,
                    close_fixed os t w))"

definition register_alloc_range :: "index_range \<Rightarrow> 'b slip_ring \<Rightarrow> i32 \<times> 'b slip_ring" where
  "register_alloc_range g r =
     (if r_fixed r = None then (- ENXIO, r)
      else if ir_resv g \<noteq> 0 \<or> fixed_n r < ir_off g \<or> fixed_n r - ir_off g < ir_len g then (- EINVAL, r)
      else (0, r\<lparr>r_alloc_off := ir_off g, r_alloc_len := ir_len g, r_alloc_hint := ir_off g\<rparr>))"

definition register_pbuf_ring :: "buf_reg \<Rightarrow> 'b slip_ring \<Rightarrow> i32 \<times> 'b slip_ring" where
  "register_pbuf_ring g r =
     (if bg_flags g \<noteq> 0 \<or> bg_ring_addr g = 0 then (- EINVAL, r)
      else if bg_ring_entries g = 0 \<or> bg_ring_entries g AND (bg_ring_entries g - 1) \<noteq> 0 \<or>
              push_bit 15 1 < bg_ring_entries g then (- EINVAL, r)
      else if slip_bufring_of r (bg_bgid g) \<noteq> None then (- EEXIST, r)
      else case List.find (\<lambda>i. \<not> br_in_use (r_bufrings r ! i)) [0..<SLIP_BUFRINGS_MAX] of
        None \<Rightarrow> (- ENOMEM, r)
      | Some i \<Rightarrow>
          (0, r\<lparr>r_bufrings := (r_bufrings r)[i := \<lparr>br_bufs = bg_ring_addr g,
             br_entries = bg_ring_entries g, br_bgid = bg_bgid g, br_head = 0, br_in_use = True\<rparr>]\<rparr>))"

definition unregister_pbuf_ring :: "buf_reg \<Rightarrow> 'b slip_ring \<Rightarrow> i32 \<times> 'b slip_ring" where
  "unregister_pbuf_ring g r =
     (case slip_bufring_of r (bg_bgid g) of
        None \<Rightarrow> (- ENOENT, r)
      | Some i \<Rightarrow> (0, r\<lparr>r_bufrings := (r_bufrings r)[i := zero_bufring]\<rparr>))"

text \<open>\<open>USE_REGISTERED_RING\<close> comes off the opcode before it is read; here it is the flag
  \<open>by_index\<close> beside the opcode, and nothing looks at it.\<close>

definition slipstream_engine_register ::
    "('b, 'w) eng_backend \<Rightarrow> 'w os \<Rightarrow> (opcode \<Rightarrow> u8) \<Rightarrow> (nat \<Rightarrow> bool) \<Rightarrow> i32 \<Rightarrow> bool \<Rightarrow> reg_op \<Rightarrow> u32
     \<Rightarrow> 'b slip_ring list \<Rightarrow> 'w \<Rightarrow> i32 \<times> reg_out \<times> 'b slip_ring list \<times> 'w" where
  "slipstream_engine_register be os num malloc_ok fd by_index opc nr_args rs w =
     (case ring_of rs fd of
        None \<Rightarrow> (- EBADF, OUT_NONE, rs, w)
      | Some me \<Rightarrow>
          let r = rs ! me;
              put = (\<lambda>a. case a of (res, r) \<Rightarrow> (res, OUT_NONE, rs[me := r], w))
          in case opc of
            REG_PROBE null \<Rightarrow>
              if null then (- EFAULT, OUT_NONE, rs, w)
              else (0, OUT_PROBE (register_probe num (eb_carried_ops be) nr_args), rs, w)
          | REG_FILES2 a \<Rightarrow>
              (case a of None \<Rightarrow> (- EFAULT, OUT_NONE, rs, w) | Some rr \<Rightarrow> put (register_files2 malloc_ok rr r))
          | UNREG_FILES \<Rightarrow>
              (case unregister_files os r w of (res, r, w) \<Rightarrow> (res, OUT_NONE, rs[me := r], w))
          | REG_FILE_ALLOC_RANGE a \<Rightarrow>
              (case a of None \<Rightarrow> (- EFAULT, OUT_NONE, rs, w) | Some g \<Rightarrow> put (register_alloc_range g r))
          | REG_RING_FDS null \<Rightarrow>
              if null then (- EFAULT, OUT_NONE, rs, w)
              else (nr_args, OUT_OFFSETS (replicate (unat nr_args) fd), rs, w)
          | UNREG_RING_FDS \<Rightarrow> (nr_args, OUT_NONE, rs, w)
          | REG_PBUF_RING a \<Rightarrow>
              (case a of None \<Rightarrow> (- EFAULT, OUT_NONE, rs, w) | Some g \<Rightarrow> put (register_pbuf_ring g r))
          | UNREG_PBUF_RING a \<Rightarrow>
              (case a of None \<Rightarrow> (- EFAULT, OUT_NONE, rs, w) | Some g \<Rightarrow> put (unregister_pbuf_ring g r))
          | REG_OTHER _ \<Rightarrow> (- EINVAL, OUT_NONE, rs, w))"

subsection \<open>Mapping and closing\<close>

datatype block_part = SQ_BLOCK | CQ_BLOCK | SQES_BLOCK

definition OFF_SQ_RING :: u64 where "OFF_SQ_RING = 0"
definition OFF_CQ_RING :: u64 where "OFF_CQ_RING = 134217728"
definition OFF_SQES :: u64 where "OFF_SQES = 268435456"

definition slipstream_engine_mmap :: "'b slip_ring list \<Rightarrow> nat \<Rightarrow> i32 \<Rightarrow> u64 \<Rightarrow> (nat \<times> block_part) option" where
  "slipstream_engine_mmap rs len fd offset =
     (case ring_of rs fd of
        None \<Rightarrow> None
      | Some me \<Rightarrow>
          if offset = OFF_SQ_RING then
            (if len \<le> sq_size (r_sq_entries (rs ! me)) then Some (me, SQ_BLOCK) else None)
          else if offset = OFF_CQ_RING then
            (if len \<le> cq_size (r_cq_entries (rs ! me)) then Some (me, CQ_BLOCK) else None)
          else if offset = OFF_SQES then
            (if len \<le> sqes_size (r_sq_entries (rs ! me)) then Some (me, SQES_BLOCK) else None)
          else None)"

text \<open>\<open>addr_of me part\<close> is where a ring's block part lies.\<close>

definition slipstream_engine_munmap ::
    "(nat \<Rightarrow> block_part \<Rightarrow> u64) \<Rightarrow> 'b slip_ring list \<Rightarrow> u64 \<Rightarrow> i32" where
  "slipstream_engine_munmap addr_of rs addr =
     (if list_ex (\<lambda>i. i < length rs \<and> r_in_use (rs ! i) \<and>
           (addr = addr_of i SQ_BLOCK \<or> addr = addr_of i CQ_BLOCK \<or> addr = addr_of i SQES_BLOCK))
         [0..<SLIP_RINGS_MAX]
      then 0 else - ENOENT)"

definition free_op_list :: "opid list \<Rightarrow> 'b slip_ring \<Rightarrow> 'b slip_ring" where
  "free_op_list is r = fold op_release is r"

text \<open>\<open>join\<close> waits for the worker, if there is one, to leave its loop.\<close>

definition slipstream_engine_close ::
    "('b, 'w) eng_backend \<Rightarrow> 'w os \<Rightarrow> 'b \<Rightarrow> ('b slip_ring \<Rightarrow> 'w \<Rightarrow> 'b slip_ring \<times> 'w) \<Rightarrow> i32
     \<Rightarrow> 'b slip_ring list \<Rightarrow> 'w \<Rightarrow> i32 \<times> 'b slip_ring list \<times> 'w" where
  "slipstream_engine_close be os nul join fd rs w =
     (case ring_of rs fd of
        None \<Rightarrow> (- EBADF, rs, w)
      | Some me \<Rightarrow>
          let r = (rs ! me)\<lparr>r_stopping := True\<rparr> in
          case (if r_worker_live r then join r w else (r, w)) of
            (r, w) \<Rightarrow>
              (case eb_close_ring be r w of
                 (r, w) \<Rightarrow>
                   let r = free_op_list (r_backlog r) r;
                       r = free_op_list (r_wq r) r;
                       r = free_op_list (r_queue r) r;
                       r = free_op_list (r_waiting r) r;
                       w = (case r_fixed r of None \<Rightarrow> w | Some t \<Rightarrow> close_fixed os t w)
                   in (0, rs[me := zero_ring nul], w)))"

end
