(* ===== verification/Setup_Facts.thy ===== *)
theory Setup_Facts
  imports Setup
begin

text \<open>
  That a new ring is well formed, that the register calls keep it so, that the slices of the
  block neither overlap nor share a cache line, and where the doubling loop ends.
\<close>

subsection \<open>Rounding up\<close>

lemma round_loop_step: "n < v \<Longrightarrow> round_loop v n = round_loop v (push_bit 1 n)"
  by (subst round_loop.simps) simp

lemma round_loop_stop: "\<not> n < v \<Longrightarrow> round_loop v n = Some n"
  by (subst round_loop.simps) simp

lemma unat_push_1:
  fixes n :: u32
  assumes "unat n < 2 ^ 31"
  shows "unat (push_bit 1 n) = 2 * unat n"
proof -
  have "push_bit 1 n = 2 * n" by (simp add: push_bit_eq_mult)
  then show ?thesis using assms by (simp add: unat_word_ariths)
qed

lemma unat_push_pow2:
  fixes n :: u32
  assumes "unat n = 2 ^ k" "k < 31"
  shows "unat (push_bit 1 n) = 2 ^ Suc k"
proof -
  have "(2 :: nat) ^ k < 2 ^ 31" using assms(2) by (rule power_strict_increasing) simp
  then show ?thesis using assms(1) unat_push_1 [of n] by simp
qed

lemma round_loop_correct:
  assumes "unat v \<le> 2 ^ 31" "unat n = 2 ^ k" "k \<le> 31" "\<And>j. j < k \<Longrightarrow> 2 ^ j < unat v"
  shows "\<exists>m w. round_loop v n = Some w \<and> unat w = 2 ^ m \<and> m \<le> 31 \<and> unat v \<le> 2 ^ m \<and>
    (\<forall>j < m. 2 ^ j < unat v)"
  using assms(2-)
proof (induction "31 - k" arbitrary: n k rule: less_induct)
  case less
  show ?case
  proof (cases "n < v")
    case False
    then have "round_loop v n = Some n" "unat v \<le> 2 ^ k"
      using less.prems(1) by (simp_all add: round_loop_stop word_less_nat_alt)
    with less.prems show ?thesis by blast
  next
    case True
    then have lt: "2 ^ k < unat v" using less.prems(1) by (simp add: word_less_nat_alt)
    then have "(2::nat) ^ k < 2 ^ 31" using assms(1) by (rule less_le_trans)
    then have k: "k < 31" by (rule power_less_imp_less_exp [rotated]) simp
    have n2: "unat (push_bit 1 n) = 2 ^ Suc k"
      by (rule unat_push_pow2 [OF less.prems(1) k])
    have below: "2 ^ j < unat v" if "j < Suc k" for j
      using less.prems(3) lt that by (auto simp: less_Suc_eq)
    have "31 - Suc k < 31 - k" using k by simp
    from less.hyps [OF this n2 _ below] k show ?thesis by (simp add: round_loop_step [OF True])
  qed
qed

lemma round_up_pow2_correct:
  assumes "unat v \<le> 2 ^ 31"
  obtains m w where "round_up_pow2 v = Some w" "unat w = 2 ^ m" "m \<le> 31" "unat v \<le> 2 ^ m"
    "\<forall>j < m. 2 ^ j < unat v"
  using round_loop_correct [OF assms, of 1 0] unfolding round_up_pow2_def by auto

text \<open>Above the last power of two a word can hold the doubling goes through zero for ever.\<close>

lemma round_loop_value:
  assumes "round_loop v n = Some y"
  shows "n = 0 \<or> (\<exists>k \<le> 31. unat n = 2 ^ k) \<Longrightarrow> \<not> y < v \<and> (y = 0 \<or> (\<exists>k \<le> 31. unat y = 2 ^ k))"
proof -
  have "(n = 0 \<or> (\<exists>k \<le> 31. unat n = 2 ^ k)) \<longrightarrow> \<not> y < v \<and> (y = 0 \<or> (\<exists>k \<le> 31. unat y = 2 ^ k))"
    apply (rule round_loop.raw_induct [where P = "\<lambda>v n y. (n = 0 \<or> (\<exists>k \<le> 31. unat n = 2 ^ k)) \<longrightarrow>
        \<not> y < v \<and> (y = 0 \<or> (\<exists>k \<le> 31. unat y = 2 ^ k))", OF _ assms])
    subgoal premises p for loop v n y
    proof
      assume n: "n = 0 \<or> (\<exists>k \<le> 31. unat n = 2 ^ k)"
      show "\<not> y < v \<and> (y = 0 \<or> (\<exists>k \<le> 31. unat y = 2 ^ k))"
      proof (cases "n < v")
        case False
        with p(2) n show ?thesis by auto
      next
        case True
        with p(2) have run: "loop v (push_bit 1 n) = Some y" by simp
        have "push_bit 1 n = 0 \<or> (\<exists>k \<le> 31. unat (push_bit 1 n) = 2 ^ k)"
        proof -
          consider "n = 0" | k where "k < 31" "unat n = 2 ^ k" | "unat n = 2 ^ 31"
            using n by (metis le_neq_implies_less)
          then show ?thesis
          proof cases
            case (2 k)
            then have "unat (push_bit 1 n) = 2 ^ Suc k" using unat_push_pow2 by blast
            with 2 show ?thesis by (intro disjI2 exI [of _ "Suc k"]) simp
          next
            case 3
            have "unat (push_bit 1 n) = (2 * unat n) mod 2 ^ 32"
              by (simp add: push_bit_eq_mult unat_word_ariths mult.commute)
            with 3 show ?thesis by (simp add: unat_eq_0)
          qed simp
        qed
        with p(1) [OF run] show ?thesis by blast
      qed
    qed
    done
  then show "n = 0 \<or> (\<exists>k \<le> 31. unat n = 2 ^ k) \<Longrightarrow> \<not> y < v \<and> (y = 0 \<or> (\<exists>k \<le> 31. unat y = 2 ^ k))" by blast
qed

lemma round_up_pow2_diverges:
  assumes "2 ^ 31 < unat v"
  shows "round_up_pow2 v = None"
proof (rule ccontr)
  assume "round_up_pow2 v \<noteq> None"
  then obtain y where y: "round_loop v 1 = Some y" by (auto simp: round_up_pow2_def)
  have "(1 :: u32) = 0 \<or> (\<exists>k \<le> 31. unat (1 :: u32) = 2 ^ k)" by (intro disjI2 exI [of _ 0]) simp
  from round_loop_value [OF y this] have "\<not> y < v" "y = 0 \<or> (\<exists>k \<le> 31. unat y = 2 ^ k)" by auto
  moreover have "unat y \<le> 2 ^ 31"
    using calculation(2) power_increasing [of _ 31 "2 :: nat"] by auto
  ultimately show False using assms by (simp add: word_less_nat_alt)
qed

subsection \<open>The block\<close>

lemma block_align_le: "n \<le> block_align n" "block_align n < n + 64" "64 dvd block_align n"
proof -
  show "64 dvd block_align n" by (simp add: block_align_def)
  have "(n + 63) mod 64 < 64" by simp
  moreover have "block_align n + (n + 63) mod 64 = n + 63"
    unfolding block_align_def by (rule div_mult_mod_eq)
  ultimately show "n \<le> block_align n" "block_align n < n + 64" by linarith+
qed

lemma length_place [simp]: "length (place at ns) = length ns"
  by (induction at ns rule: place.induct) auto

lemma place_nth:
  "i < length ns \<Longrightarrow> place at ns ! i = at + sum_list (map block_align (take i ns))"
proof (induction at ns arbitrary: i rule: place.induct)
  case (2 at n ns)
  then show ?case by (cases i) auto
qed simp

lemma place_slices:
  assumes "i < length ns"
  shows "place at ns ! i + ns ! i \<le> place at ns ! i + block_align (ns ! i)"
    "place at ns ! i + block_align (ns ! i) \<le> at + sum_list (map block_align ns)"
    "i < j \<Longrightarrow> j < length ns \<Longrightarrow> place at ns ! i + block_align (ns ! i) \<le> place at ns ! j"
    "64 dvd at \<Longrightarrow> 64 dvd place at ns ! i"
proof -
  have upto: "place at ns ! i + block_align (ns ! i) = at + sum_list (map block_align (take (Suc i) ns))"
    using assms by (simp add: place_nth take_Suc_conv_app_nth)
  have mono: "sum_list (map block_align (take a ns)) \<le> sum_list (map block_align (take b ns))" if "a \<le> b" for a b
  proof -
    have "take b ns = take a ns @ take (b - a) (drop a ns)"
      using that by (metis le_add_diff_inverse take_add)
    then show ?thesis by simp
  qed
  show "place at ns ! i + ns ! i \<le> place at ns ! i + block_align (ns ! i)"
    using block_align_le(1) by simp
  show "place at ns ! i + block_align (ns ! i) \<le> at + sum_list (map block_align ns)"
    using mono [of "Suc i" "length ns"] assms by (simp add: upto)
  show "place at ns ! i + block_align (ns ! i) \<le> place at ns ! j" if "i < j" "j < length ns"
    unfolding upto place_nth [OF that(2)] using mono [of "Suc i" j] that by simp
  show "64 dvd place at ns ! i" if "64 dvd at"
  proof -
    have "64 dvd sum_list (map block_align ms)" for ms
      by (induction ms) (auto intro: dvd_add block_align_le(3))
    then show ?thesis using that assms by (simp add: place_nth)
  qed
qed

subsection \<open>A new ring\<close>

lemma ring_token_of:
  assumes "idx < SLIP_RINGS_MAX" "idx < length rs" "r_in_use (rs ! idx)"
  shows "ring_of rs (ring_token idx) = Some idx"
proof -
  have idx: "idx < 64" using assms(1) by (simp add: SLIP_RINGS_MAX_def)
  have u: "unat (of_nat idx :: u32) = idx" using idx by (simp add: unat_of_nat)
  have nb: "\<not> bit (of_nat idx :: u32) RING_TOKEN_BIT"
  proof -
    have "bit (of_nat idx :: u32) 30 \<longleftrightarrow> odd (unat (of_nat idx :: u32) div 2 ^ 30)"
      by (metis bit_iff_odd bit_unsigned_iff possible_bit_nat)
    also have "\<dots> = False" using idx by (simp add: u)
    finally show ?thesis by (simp add: RING_TOKEN_BIT_def)
  qed
  have b: "bit (ring_token idx) RING_TOKEN_BIT"
    by (simp add: ring_token_def bit_set_bit_iff RING_TOKEN_BIT_def)
  have clear: "unset_bit RING_TOKEN_BIT (ring_token idx) = of_nat idx"
    using nb by (intro bit_word_eqI) (auto simp: ring_token_def bit_set_bit_iff bit_unset_bit_iff)
  have "\<not> neg32 (of_nat idx :: i32)" using idx by (intro neg32_small) (simp add: u)
  moreover have "sint (of_nat idx :: i32) = int idx"
    using idx by (simp add: signed_of_nat signed_take_bit_int_eq_self)
  ultimately show ?thesis
    using assms b by (simp add: ring_of_def clear Let_def u)
qed

lemma sized_ring_inv:
  assumes "unat cq_n = 2 ^ k" "k < 32" "I (ring_ready (sized_ring nul sq_n cq_n))"
  shows "ring_inv I {#} (ring_ready (sized_ring nul sq_n cq_n))"
proof -
  let ?r = "ring_ready (sized_ring nul sq_n cq_n)"
  note defs = ring_ready_def sized_ring_def zero_ring_def
  have "pool_ok ?r {#}" by (simp add: pool_ok_def acct_def defs)
  moreover have "cq_wf ?r" using assms(1,2) by (auto simp: cq_wf_def cq_avail_def defs)
  moreover have "fixed_wf ?r" by (simp add: fixed_wf_def defs)
  moreover have "bufrings_wf ?r"
    by (auto simp: bufrings_wf_def bufring_wf_def defs zero_bufring_def)
  moreover have "slots_ok ?r" by (simp add: slots_ok_def defs)
  ultimately show ?thesis using assms(3) by (simp add: ring_inv_def ring_wf_def)
qed

lemma zero_ring_inv: "\<not> r_in_use (zero_ring nul)"
  by (simp add: zero_ring_def)

context wait_invariant
begin

lemma opened_ring_inv:
  assumes "r = (sized_ring nul sq_n cq_n)\<lparr>r_be_state := b, r_ctl := c\<rparr>" "I r" "unat cq_n = 2 ^ k" "k < 32"
  shows "ring_inv I {#} (ring_ready r)"
proof -
  have eq: "ring_ready r = (ring_ready (sized_ring b sq_n cq_n))\<lparr>r_ctl := c\<rparr>"
    by (simp add: assms(1) ring_ready_def sized_ring_def zero_ring_def)
  have "I (ring_ready (sized_ring b sq_n cq_n))"
    by (rule I_cong [OF _ assms(2)])
      (simp add: parked_same_def assms(1) ring_ready_def sized_ring_def zero_ring_def)
  with sized_ring_inv [OF assms(3,4), of I b sq_n] show ?thesis by (simp add: eq)
qed

end

text \<open>What a backend owes setup: the fresh ring it was given, as it should be, with no op in
  anybody's hands.  A backend that holds no op itself puts its state and the poke pipe into
  place.\<close>

locale ring_opening = ring_contract R
  for R :: "opid multiset \<Rightarrow> 'b slip_ring \<Rightarrow> bool" +
  fixes be :: "('b, 'w) eng_backend"
  assumes open_ring: "eb_open_ring be (sized_ring nul sq_n cq_n) w = (Some r, w') \<Longrightarrow>
    unat cq_n = 2 ^ k \<Longrightarrow> k < 32 \<Longrightarrow> R {#} (ring_ready r)"
begin

lemma setup_inv:
  assumes "slipstream_engine_setup be nul sz pl entries params rs w = Some (res, params', rs', w')"
    "length rs = SLIP_RINGS_MAX" "rings_inv R Hs rs" "\<not> neg32 res"
    "unat entries \<le> 2 ^ 30" "\<And>p. params = Some p \<Longrightarrow> unat (p_cq_entries p) \<le> 2 ^ 31"
  obtains idx where "ring_of rs' res = Some idx" "\<not> r_in_use (rs ! idx)" "R {#} (rs' ! idx)"
    "\<And>j. j \<noteq> idx \<Longrightarrow> rs' ! j = rs ! j" "rings_inv R (Hs(idx := {#})) rs'"
proof -
  obtain p idx where p: "params = Some p" and idx: "free_ring_index rs = Some idx"
    and nz: "entries \<noteq> 0" and nr: "\<not> refused_setup (p_flags p)"
    using assms(1,4) by (auto simp: slipstream_engine_setup_def split: option.splits if_splits)
  obtain k sq_n where sq: "round_up_pow2 entries = Some sq_n" "unat sq_n = 2 ^ k" "unat entries \<le> 2 ^ k"
    "\<forall>j < k. 2 ^ j < unat entries"
    by (rule round_up_pow2_correct [of entries]) (use assms(5) in auto)
  have k30: "k \<le> 30"
  proof (rule ccontr)
    assume "\<not> k \<le> 30"
    then have "2 ^ 30 < unat entries" using sq(4) [rule_format, of 30] by linarith
    with assms(5) show False by simp
  qed
  then have sq2: "unat (sq_n * 2) = 2 ^ Suc k"
    using power_increasing [of k 30 "2 :: nat"] by (simp add: unat_word_ariths sq(2))
  obtain k2 cq2 where cq2: "round_up_pow2 (p_cq_entries p) = Some cq2" "unat cq2 = 2 ^ k2" "k2 \<le> 31"
    by (rule round_up_pow2_correct [of "p_cq_entries p"]) (use assms(6) [OF p] in auto)
  obtain cq_n m where cq: "(if p_cq_entries p \<noteq> 0 then round_up_pow2 (p_cq_entries p)
      else Some (sq_n * 2)) = Some cq_n" "unat cq_n = 2 ^ m" "m < 32"
  proof (cases "p_cq_entries p = 0")
    case True
    then show thesis using k30 sq2 that [of "sq_n * 2" "Suc k"] by simp
  next
    case False
    then show thesis using cq2 that [of cq2 k2] by simp
  qed
  let ?r0 = "sized_ring nul sq_n cq_n"
  have "\<exists>r. eb_open_ring be ?r0 w = (Some r, w') \<and> res = ring_token idx \<and> rs' = rs[idx := ring_ready r]"
    using assms(1,4) p idx nz nr sq(1) cq(1)
    by (auto simp: slipstream_engine_setup_def split: if_splits prod.splits option.splits)
  then obtain r where op: "eb_open_ring be ?r0 w = (Some r, w')"
    and res: "res = ring_token idx" and rs': "rs' = rs[idx := ring_ready r]" by blast
  have idxl: "idx < SLIP_RINGS_MAX" "\<not> r_in_use (rs ! idx)"
    using idx by (auto simp: free_ring_index_def find_Some_iff)
  have new: "R {#} (ring_ready r)" by (rule open_ring [OF op cq(2,3)])
  have use: "r_in_use (ring_ready r)" by (simp add: ring_ready_def)
  have at: "rs' ! idx = ring_ready r" using idxl(1) assms(2) by (simp add: rs')
  show thesis
  proof (rule that [of idx])
    show "ring_of rs' res = Some idx"
      unfolding res by (rule ring_token_of) (use idxl(1) assms(2) use at in \<open>auto simp: rs'\<close>)
    show "\<not> r_in_use (rs ! idx)" by (rule idxl)
    show "R {#} (rs' ! idx)" using new at by simp
    show "\<And>j. j \<noteq> idx \<Longrightarrow> rs' ! j = rs ! j" by (simp add: rs')
    show "rings_inv R (Hs(idx := {#})) rs'"
      unfolding rings_inv_def
    proof (intro allI impI)
      fix j assume "j < length rs'" "r_in_use (rs' ! j)"
      then show "R ((Hs(idx := {#})) j) (rs' ! j)"
        using assms(3) new at by (cases "j = idx") (auto simp: rings_inv_def rs')
    qed
  qed
qed

end

subsection \<open>Registering keeps the ring well formed\<close>

lemma ring_wf_parts:
  assumes "ring_wf r" "r_cq s = r_cq r" "r_cq_entries s = r_cq_entries r"
    "fixed_wf r \<Longrightarrow> fixed_wf s" "bufrings_wf r \<Longrightarrow> bufrings_wf s"
  shows "ring_wf s"
proof -
  have "cq_wf s = cq_wf r" by (rule cq_wf_cong) (simp_all add: assms)
  then show ?thesis using assms by (simp add: ring_wf_def)
qed

lemma register_files2_cases:
  obtains (refused) "snd (register_files2 m rr r) = r"
    | (table) "rr_nr rr \<noteq> 0" "\<not> push_bit 20 1 < rr_nr rr"
        "snd (register_files2 m rr r) = r\<lparr>r_fixed := Some (replicate (unat (rr_nr rr)) (- 1)),
           r_alloc_off := 0, r_alloc_len := rr_nr rr, r_alloc_hint := 0\<rparr>"
proof (cases "rr_nr rr = 0 \<or> push_bit 20 1 < rr_nr rr")
  case True
  show thesis by (rule refused) (simp only: register_files2_def True if_True if_cancel snd_conv split: if_split)
next
  case False
  show thesis
  proof (cases "\<not> rr_sparse rr \<or> rr_data rr \<noteq> 0 \<or> rr_tags rr \<noteq> 0 \<or> r_fixed r \<noteq> None \<or>
      \<not> m (unat (rr_nr rr) * 4)")
    case True
    then show thesis by (intro refused) (auto simp: register_files2_def)
  next
    case noref: False
    then have "snd (register_files2 m rr r) = r\<lparr>r_fixed := Some (replicate (unat (rr_nr rr)) (- 1)),
           r_alloc_off := 0, r_alloc_len := rr_nr rr, r_alloc_hint := 0\<rparr>"
      using False by (simp add: register_files2_def)
    with False table show thesis by blast
  qed
qed

lemma register_files2_wf: "fixed_wf r \<Longrightarrow> fixed_wf (snd (register_files2 m rr r))"
proof (cases rule: register_files2_cases [of m rr r])
  case table
  have "unat (push_bit 20 1 :: u32) = 2 ^ 20" by (simp add: push_bit_eq_mult)
  then have "unat (rr_nr rr) \<le> 2 ^ 20" using table(2) by (simp only: word_less_nat_alt not_less)
  then show ?thesis unfolding table(3) using table(1) by (simp add: fixed_wf_def unat_gt_0)
qed simp

lemma register_alloc_range_cases:
  obtains (refused) "snd (register_alloc_range g r) = r"
    | (range) t where "r_fixed r = Some t" "ir_off g \<le> fixed_n r" "ir_len g \<le> fixed_n r - ir_off g"
        "snd (register_alloc_range g r) = r\<lparr>r_alloc_off := ir_off g, r_alloc_len := ir_len g,
           r_alloc_hint := ir_off g\<rparr>"
proof (cases "r_fixed r = None \<or> ir_resv g \<noteq> 0 \<or> fixed_n r < ir_off g \<or> fixed_n r - ir_off g < ir_len g")
  case True
  then show thesis by (intro refused) (auto simp: register_alloc_range_def)
next
  case False
  then have "snd (register_alloc_range g r) = r\<lparr>r_alloc_off := ir_off g, r_alloc_len := ir_len g,
           r_alloc_hint := ir_off g\<rparr>" by (auto simp: register_alloc_range_def)
  with False range show thesis by (auto simp: not_less)
qed

lemma register_alloc_range_wf: "fixed_wf r \<Longrightarrow> fixed_wf (snd (register_alloc_range g r))"
proof (cases rule: register_alloc_range_cases [of g r])
  case (range t)
  assume wf: "fixed_wf r"
  note tb = fixed_wf_table [OF wf range(1)]
  have off: "unat (ir_off g) \<le> length t" using range(2) tb(1) by (simp add: word_le_nat_alt)
  have "unat (fixed_n r - ir_off g) = length t - unat (ir_off g)"
    using range(2) tb(1) by (simp add: unat_sub)
  then have "unat (ir_off g) + unat (ir_len g) \<le> length t"
    using range(3) off by (simp add: word_le_nat_alt)
  then show ?thesis unfolding range(4) using tb(2,3) range(1) off by (simp add: fixed_wf_def)
qed simp

lemma bufrings_wf_set:
  assumes "bufrings_wf r" "bufring_wf b"
  shows "bufrings_wf (r\<lparr>r_bufrings := (r_bufrings r)[i := b]\<rparr>)"
  using assms set_update_subset_insert [of "r_bufrings r" i b] by (auto simp: bufrings_wf_def)

lemma pbuf_entries_pow2:
  fixes e :: u32
  assumes "e \<noteq> 0" "e AND (e - 1) = 0" "\<not> push_bit 15 1 < e"
  shows "\<exists>k \<le> 15. unat e = 2 ^ k"
proof -
  obtain k where k: "unat e = 2 ^ k" using and_pred_0_word [OF assms(2,1)] by blast
  have "unat (push_bit 15 1 :: u32) = 2 ^ 15" by (simp add: push_bit_eq_mult)
  then have "(2 :: nat) ^ k \<le> 2 ^ 15" using assms(3) k by (simp add: word_less_nat_alt)
  then have "k \<le> 15" by (rule power_le_imp_le_exp [rotated]) simp
  with k show ?thesis by blast
qed

lemma register_pbuf_ring_wf: "bufrings_wf r \<Longrightarrow> bufrings_wf (snd (register_pbuf_ring g r))"
proof -
  assume wf: "bufrings_wf r"
  show ?thesis
  proof (cases "bg_ring_entries g = 0 \<or> bg_ring_entries g AND (bg_ring_entries g - 1) \<noteq> 0 \<or>
      push_bit 15 1 < bg_ring_entries g")
    case True
    with wf show ?thesis by (simp add: register_pbuf_ring_def del: push_bit_numeral_minus_1)
  next
    case False
    then have "bufring_wf \<lparr>br_bufs = bg_ring_addr g, br_entries = bg_ring_entries g,
        br_bgid = bg_bgid g, br_head = 0, br_in_use = True\<rparr>"
      using pbuf_entries_pow2 by (simp add: bufring_wf_def)
    with wf show ?thesis
      by (auto simp: register_pbuf_ring_def bufrings_wf_set split: option.split)
  qed
qed

lemma unregister_pbuf_ring_wf: "bufrings_wf r \<Longrightarrow> bufrings_wf (snd (unregister_pbuf_ring g r))"
  by (auto simp: unregister_pbuf_ring_def bufring_wf_def zero_bufring_def intro: bufrings_wf_set
      split: option.split)

lemma pbuf_shape:
  fixes r :: "'b slip_ring"
  assumes "register_pbuf_ring g r = (0, r')"
  obtains i where "slip_bufring_of r (bg_bgid g) = None" "i < SLIP_BUFRINGS_MAX" "\<not> br_in_use (r_bufrings r ! i)"
    "r' = r\<lparr>r_bufrings := (r_bufrings r)[i := \<lparr>br_bufs = bg_ring_addr g,
       br_entries = bg_ring_entries g, br_bgid = bg_bgid g, br_head = 0, br_in_use = True\<rparr>]\<rparr>"
    "\<And>s :: 'b slip_ring. slip_bufring_of s (bg_bgid g) \<noteq> None \<Longrightarrow> register_pbuf_ring g s = (- EEXIST, s)"
proof -
  have e: "- EINVAL \<noteq> 0" "- EEXIST \<noteq> 0" "- ENOMEM \<noteq> 0" by (simp_all add: errno_defs)
  have ok: "\<not> (bg_flags g \<noteq> 0 \<or> bg_ring_addr g = 0)"
    "\<not> (bg_ring_entries g = 0 \<or> bg_ring_entries g AND (bg_ring_entries g - 1) \<noteq> 0 \<or>
              push_bit 15 1 < bg_ring_entries g)" "slip_bufring_of r (bg_bgid g) = None"
    using assms e unfolding register_pbuf_ring_def by (metis prod.inject)+
  then have eq: "register_pbuf_ring g s = (if slip_bufring_of s (bg_bgid g) \<noteq> None then (- EEXIST, s)
      else case List.find (\<lambda>i. \<not> br_in_use (r_bufrings s ! i)) [0..<SLIP_BUFRINGS_MAX] of
        None \<Rightarrow> (- ENOMEM, s)
      | Some i \<Rightarrow>
          (0, s\<lparr>r_bufrings := (r_bufrings s)[i := \<lparr>br_bufs = bg_ring_addr g,
             br_entries = bg_ring_entries g, br_bgid = bg_bgid g, br_head = 0, br_in_use = True\<rparr>]\<rparr>))" for s :: "'b slip_ring"
    unfolding register_pbuf_ring_def by (simp only: if_False)
  with assms ok(3) obtain i where i: "List.find (\<lambda>i. \<not> br_in_use (r_bufrings r ! i)) [0..<SLIP_BUFRINGS_MAX] = Some i"
    "r' = r\<lparr>r_bufrings := (r_bufrings r)[i := \<lparr>br_bufs = bg_ring_addr g,
             br_entries = bg_ring_entries g, br_bgid = bg_bgid g, br_head = 0, br_in_use = True\<rparr>]\<rparr>"
    using e by (auto split: option.splits)
  show thesis
    by (rule that [OF ok(3) _ _ i(2)]) (use i(1) eq in \<open>auto simp: find_Some_iff\<close>)
qed

lemma bufring_of_None_iff:
  "slip_bufring_of r g = None \<longleftrightarrow>
     (\<forall>i < SLIP_BUFRINGS_MAX. br_in_use (r_bufrings r ! i) \<longrightarrow> br_bgid (r_bufrings r ! i) \<noteq> g)"
  by (auto simp: slip_bufring_of_def find_None_iff)

lemma pbuf_life:
  fixes r :: "'b slip_ring"
  assumes "bufrings_wf r" "register_pbuf_ring g r = (0, r')" "unregister_pbuf_ring g r' = (res, r'')"
  shows "slip_bufring_of r (bg_bgid g) = None \<and> slip_bufring_of r' (bg_bgid g) \<noteq> None \<and>
    register_pbuf_ring g r' = (- EEXIST, r') \<and> res = 0 \<and> slip_bufring_of r'' (bg_bgid g) = None"
proof -
  obtain i where i: "slip_bufring_of r (bg_bgid g) = None" "i < SLIP_BUFRINGS_MAX"
    "r' = r\<lparr>r_bufrings := (r_bufrings r)[i := \<lparr>br_bufs = bg_ring_addr g,
       br_entries = bg_ring_entries g, br_bgid = bg_bgid g, br_head = 0, br_in_use = True\<rparr>]\<rparr>"
    and dup: "\<And>s :: 'b slip_ring. slip_bufring_of s (bg_bgid g) \<noteq> None \<Longrightarrow> register_pbuf_ring g s = (- EEXIST, s)"
    by (rule pbuf_shape [OF assms(2)]) blast
  have len: "length (r_bufrings r) = SLIP_BUFRINGS_MAX" using assms(1) by (simp add: bufrings_wf_def)
  have at: "r_bufrings r' ! j = (if j = i then \<lparr>br_bufs = bg_ring_addr g, br_entries = bg_ring_entries g,
      br_bgid = bg_bgid g, br_head = 0, br_in_use = True\<rparr> else r_bufrings r ! j)" for j
    using i(2) len by (auto simp: i(3) nth_list_update)
  have found: "slip_bufring_of r' (bg_bgid g) \<noteq> None"
    unfolding bufring_of_None_iff using i(2) by (auto simp: at intro!: exI [of _ i])
  then obtain j where j: "slip_bufring_of r' (bg_bgid g) = Some j" by blast
  have old: "br_bgid (r_bufrings r ! k) \<noteq> bg_bgid g" if "k < SLIP_BUFRINGS_MAX" "br_in_use (r_bufrings r ! k)" for k
    using i(1) that by (simp add: bufring_of_None_iff)
  have "j = i" using bufring_of_Some [OF j] old [of j] by (auto simp: at split: if_splits)
  then have r'': "res = 0" "r'' = r'\<lparr>r_bufrings := (r_bufrings r')[i := zero_bufring]\<rparr>"
    using assms(3) j by (auto simp: unregister_pbuf_ring_def)
  have "slip_bufring_of r'' (bg_bgid g) = None"
    unfolding bufring_of_None_iff
  proof (intro allI impI)
    fix k assume "k < SLIP_BUFRINGS_MAX" "br_in_use (r_bufrings r'' ! k)"
    then show "br_bgid (r_bufrings r'' ! k) \<noteq> bg_bgid g"
      using old len by (cases "k = i") (simp_all add: r''(2) i(3) zero_bufring_def)
  qed
  with i(1) found dup [OF found] r''(1) show ?thesis by blast
qed

text \<open>What a register call may change of a ring.\<close>

definition registers :: "'b slip_ring \<Rightarrow> 'b slip_ring \<Rightarrow> bool" where
  "registers r s \<longleftrightarrow> (\<exists>a b c d e. s = r\<lparr>r_fixed := a, r_alloc_off := b, r_alloc_len := c,
     r_alloc_hint := d, r_bufrings := e\<rparr>) \<and> (fixed_wf r \<longrightarrow> fixed_wf s) \<and> (bufrings_wf r \<longrightarrow> bufrings_wf s)"

lemma registers_refl [simp]: "registers r r"
  unfolding registers_def by (intro conjI exI [of _ "r_fixed r"] exI [of _ "r_alloc_off r"]
    exI [of _ "r_alloc_len r"] exI [of _ "r_alloc_hint r"] exI [of _ "r_bufrings r"]) simp_all

lemma registers_fixed:
  assumes "s = r\<lparr>r_fixed := a, r_alloc_off := b, r_alloc_len := c, r_alloc_hint := d\<rparr>"
    "fixed_wf r \<Longrightarrow> fixed_wf s"
  shows "registers r s"
proof -
  have "bufrings_wf s = bufrings_wf r" by (rule bufrings_wf_cong) (simp add: assms(1))
  then show ?thesis
    unfolding registers_def using assms by (intro conjI exI [of _ a] exI [of _ b] exI [of _ c] exI [of _ d]
      exI [of _ "r_bufrings r"]) simp_all
qed

lemma registers_bufrings:
  assumes "s = r\<lparr>r_bufrings := e\<rparr>" "bufrings_wf r \<Longrightarrow> bufrings_wf s"
  shows "registers r s"
proof -
  have "fixed_wf s = fixed_wf r" by (rule fixed_wf_cong) (simp_all add: assms(1))
  then show ?thesis
    unfolding registers_def using assms
    by (intro conjI exI [of _ "r_fixed r"] exI [of _ "r_alloc_off r"] exI [of _ "r_alloc_len r"]
      exI [of _ "r_alloc_hint r"] exI [of _ e]) simp_all
qed

lemma registers_files2: "registers r (snd (register_files2 m rr r))"
proof (cases rule: register_files2_cases [of m rr r])
  case table
  show ?thesis by (rule registers_fixed [OF table(3) register_files2_wf])
qed simp

lemma registers_alloc_range: "registers r (snd (register_alloc_range g r))"
proof (cases rule: register_alloc_range_cases [of g r])
  case (range t)
  show ?thesis
    by (rule registers_fixed [where a = "r_fixed r" and b = "ir_off g" and c = "ir_len g"
          and d = "ir_off g", OF _ register_alloc_range_wf]) (simp add: range(4))
qed simp

lemma registers_pbuf: "registers r (snd (register_pbuf_ring g r))"
proof (rule registers_bufrings [OF _ register_pbuf_ring_wf])
  show "snd (register_pbuf_ring g r) = r\<lparr>r_bufrings := r_bufrings (snd (register_pbuf_ring g r))\<rparr>"
    by (simp add: register_pbuf_ring_def split: option.split)
qed

lemma registers_unpbuf: "registers r (snd (unregister_pbuf_ring g r))"
proof (rule registers_bufrings [OF _ unregister_pbuf_ring_wf])
  show "snd (unregister_pbuf_ring g r) = r\<lparr>r_bufrings := r_bufrings (snd (unregister_pbuf_ring g r))\<rparr>"
    by (simp add: unregister_pbuf_ring_def split: option.split)
qed

lemma registers_unfiles: "registers r (fst (snd (unregister_files os r w)))"
proof (cases "r_fixed r")
  case (Some t)
  then show ?thesis
    by (intro registers_fixed [where a = None and b = 0 and c = 0 and d = 0]) (simp_all add: unregister_files_def fixed_wf_def)
qed (simp add: unregister_files_def)

lemma register_changes:
  assumes "slipstream_engine_register be os num mok fd ix opc n rs w = (res, out, rs', w')"
  shows "rs' = rs \<or> (\<exists>me r. ring_of rs fd = Some me \<and> registers (rs ! me) r \<and> rs' = rs[me := r])"
proof (cases "ring_of rs fd")
  case None
  with assms show ?thesis by (simp add: slipstream_engine_register_def)
next
  case (Some me)
  let ?r = "rs ! me"
  have f2: "register_files2 mok rr ?r = (a, r) \<Longrightarrow> registers ?r r" for rr a r
    using registers_files2 [of ?r mok rr] by simp
  have ar: "register_alloc_range g ?r = (a, r) \<Longrightarrow> registers ?r r" for g a r
    using registers_alloc_range [of ?r g] by simp
  have pb: "register_pbuf_ring g ?r = (a, r) \<Longrightarrow> registers ?r r" for g a r
    using registers_pbuf [of ?r g] by simp
  have up: "unregister_pbuf_ring g ?r = (a, r) \<Longrightarrow> registers ?r r" for g a r
    using registers_unpbuf [of ?r g] by simp
  have uf: "unregister_files os ?r w = (a, r, w2) \<Longrightarrow> registers ?r r" for a r w2
    using registers_unfiles [of ?r os w] by simp
  show ?thesis
    using assms Some
    by (cases opc) (auto simp: slipstream_engine_register_def Let_def split: option.splits prod.splits
        if_splits dest: f2 ar pb up uf)
qed

context ring_contract
begin

lemma registers_inv:
  assumes "registers r s" "R H r"
  shows "R H s" "r_in_use s = r_in_use r"
proof -
  obtain a b c d e where s: "s = r\<lparr>r_fixed := a, r_alloc_off := b, r_alloc_len := c, r_alloc_hint := d, r_bufrings := e\<rparr>"
    and wf: "fixed_wf r \<Longrightarrow> fixed_wf s" "bufrings_wf r \<Longrightarrow> bufrings_wf s"
    using assms(1) unfolding registers_def by blast
  have "ring_wf s" using R_wf [OF assms(2)] wf by (intro ring_wf_parts [of r s]) (simp_all add: s)
  then show "R H s"
    by (rule R_move [OF assms(2) parked_same_plain, rotated -1]) (simp_all add: s acct_def)
  show "r_in_use s = r_in_use r" by (simp add: s)
qed

lemma register_inv:
  assumes "slipstream_engine_register be os num mok fd ix opc n rs w = (res, out, rs', w')" "rings_inv R Hs rs"
  shows "rings_inv R Hs rs'"
  using register_changes [OF assms(1)]
proof
  assume "\<exists>me r. ring_of rs fd = Some me \<and> registers (rs ! me) r \<and> rs' = rs[me := r]"
  then obtain me r where me: "ring_of rs fd = Some me" and r: "registers (rs ! me) r" and rs': "rs' = rs[me := r]"
    by blast
  note tok = msg_ring_token [OF me]
  have "R (Hs me) r" "r_in_use r"
    using registers_inv [OF r] assms(2) tok by (auto simp: rings_inv_def)
  then show ?thesis
    using assms(2) tok by (simp add: rs' rings_inv_split)
qed (use assms in simp)

end

end
