(* ===== verification/Select.thy ===== *)
theory Select
  imports Setup_Facts
begin

text \<open>
  The select backend (\<open>src/src/engine_select.c\<close>): stateless, so its own state is \<open>unit\<close>; an
  \<open>fd_set\<close> is a list of descriptors.  \<open>select(2)\<close> and \<open>pipe(2)\<close> are parameters; the poke
  pipe's read end is not a numbered descriptor here, so \<open>select\<close> reports it apart, and its
  first argument, the highest descriptor plus one, is left out.
\<close>

record 'w select_os =
  sel_select :: "i32 list \<Rightarrow> i32 list \<Rightarrow> i32 list \<Rightarrow> int \<Rightarrow> 'w \<Rightarrow> (i32 list \<times> i32 list \<times> i32 list \<times> bool) option \<times> 'w"
  sel_pipe :: "'w \<Rightarrow> bool \<times> 'w"

definition FD_SETSIZE :: int where "FD_SETSIZE = 1024"

definition fd_settable :: "i32 \<Rightarrow> bool" where
  "fd_settable f \<longleftrightarrow> 0 \<le> sint f \<and> sint f < FD_SETSIZE"

definition select_open_ring :: "'w select_os \<Rightarrow> unit slip_ring \<Rightarrow> 'w \<Rightarrow> unit slip_ring option \<times> 'w" where
  "select_open_ring so = slip_posix_ctl_open (sel_pipe so)"

definition select_close_ring :: "unit slip_ring \<Rightarrow> 'w \<Rightarrow> unit slip_ring \<times> 'w" where
  "select_close_ring r w = (slip_posix_ctl_close r, w)"

definition select_arm :: "opid \<Rightarrow> unit slip_ring \<Rightarrow> 'w \<Rightarrow> bool \<times> unit slip_ring \<times> 'w" where
  "select_arm i r w = (fd_settable (sqe_fd (sqe_of r i)), r, w)"

definition select_disarm :: "opid \<Rightarrow> unit slip_ring \<Rightarrow> 'w \<Rightarrow> unit slip_ring \<times> 'w" where
  "select_disarm i r w = (r, w)"

definition select_readiness :: "(unit, 'w) readiness" where
  "select_readiness = \<lparr>be_arm = select_arm, be_disarm = select_disarm, be_submit_blocking = None,
     be_forget = None\<rparr>"

definition wants_read :: "eng_op \<Rightarrow> bool" where
  "wants_read op \<longleftrightarrow> op_wait_events op AND (POLLIN OR POLLPRI) \<noteq> 0"

definition wants_write :: "eng_op \<Rightarrow> bool" where
  "wants_write op \<longleftrightarrow> op_wait_events op AND POLLOUT \<noteq> 0"

text \<open>The descriptors of the parked ops that satisfy \<open>p\<close>.\<close>

definition fds_of :: "(eng_op \<Rightarrow> bool) \<Rightarrow> 'b slip_ring \<Rightarrow> i32 list" where
  "fds_of p r = map (\<lambda>i. sqe_fd (sqe_of r i))
     (filter (\<lambda>i. fd_settable (sqe_fd (sqe_of r i)) \<and> p (the_op r i)) (r_waiting r))"

definition select_woke :: "i32 list \<Rightarrow> i32 list \<Rightarrow> i32 list \<Rightarrow> 'b slip_ring \<Rightarrow> opid \<Rightarrow> bool" where
  "select_woke rd wr ex r i \<longleftrightarrow>
     (let f = sqe_fd (sqe_of r i); op = the_op r i in
      fd_settable f \<and>
      (wants_read op \<and> f \<in> set rd \<or> wants_write op \<and> f \<in> set wr \<or> f \<in> set ex))"

definition select_wait ::
    "'w os \<Rightarrow> 'w select_os \<Rightarrow> unit slip_ring \<Rightarrow> nat \<Rightarrow> int \<Rightarrow> 'w
     \<Rightarrow> (eng_done list option \<times> unit slip_ring \<times> 'w) option" where
  "select_wait os so r cap timeout_ms w =
     (case sel_select so (fds_of wants_read r) (fds_of wants_write r) (fds_of (\<lambda>_. True) r) timeout_ms w of
        (None, w) \<Rightarrow> Some (Some [], r, w)
      | (Some (rd, wr, ex, ctl), w) \<Rightarrow>
          let r = (if ctl then slip_posix_ctl_drain r else r) in
          (case slip_posix_finish_ready select_readiness os
                  (filter (select_woke rd wr ex r) (r_waiting r)) cap [] r w of
             None \<Rightarrow> None
           | Some (fin, r, w) \<Rightarrow> Some (Some fin, r, w)))"

definition slip_backend_select :: "'w os \<Rightarrow> 'w select_os \<Rightarrow> (unit, 'w) eng_backend" where
  "slip_backend_select os so =
     \<lparr>eb_open_ring = select_open_ring so, eb_close_ring = select_close_ring,
      eb_poke = Some slip_posix_poke,
      eb_execute = slip_posix_execute select_readiness os,
      eb_wait = select_wait os so,
      eb_carried_ops = slip_posix_carried_ops\<rparr>"

subsection \<open>The contract\<close>

lemma select_no_invariant: "wait_invariant (\<lambda>_ :: unit slip_ring. True)"
  by unfold_locales simp

interpretation select: worker_backend "\<lambda>_. True" "select_readiness :: (unit, 'w) readiness"
  by unfold_locales (auto simp: select_readiness_def select_arm_def select_disarm_def
      intro: wait_leave_frame be_only_refl)

lemma select_wait_inv:
  assumes "select_wait os so r cap t w = Some (fin, r', w')" "ring_inv (\<lambda>_. True) H r"
  shows "ring_inv (\<lambda>_. True) (mset (map fst (case fin of None \<Rightarrow> [] | Some ds \<Rightarrow> ds)) + H) r' \<and> runs r r'"
proof -
  obtain a w1 where sel: "sel_select so (fds_of wants_read r) (fds_of wants_write r)
      (fds_of (\<lambda>_. True) r) t w = (a, w1)"
    by (cases "sel_select so (fds_of wants_read r) (fds_of wants_write r) (fds_of (\<lambda>_. True) r) t w")
  show ?thesis
  proof (cases a)
    case None
    then show ?thesis using assms by (auto simp: select_wait_def sel)
  next
    case (Some q)
    obtain rd wr ex ctl where q: "q = (rd, wr, ex, ctl)" by (cases q)
    define r1 where "r1 = (if ctl then slip_posix_ctl_drain r else r)"
    have r1: "ring_inv (\<lambda>_. True) H r1" "runs r r1" "r_waiting r1 = r_waiting r"
      using assms(2) by (simp_all add: r1_def slip_posix_ctl_drain_def)
    let ?ready = "filter (select_woke rd wr ex r1) (r_waiting r1)"
    obtain ds where fr: "slip_posix_finish_ready select_readiness os ?ready cap [] r1 w1 = Some (ds, r', w')"
      and fin: "fin = Some ds"
      using assms(1) by (auto simp: select_wait_def sel Some q r1_def Let_def split: option.splits)
    have "distinct ?ready"
      using pool_ok_distinct(5) [OF ring_inv_pool [OF r1(1)]] by simp
    then have "ring_inv (\<lambda>_. True) (mset (map fst ds) + H) r' \<and> runs r1 r'"
      using r1(1) by (intro select.slip_posix_finish_ready_inv [OF fr]) auto
    then show ?thesis using r1(2) fin by (auto intro: runs_trans)
  qed
qed

interpretation select_engine: backend_contract "ring_inv (\<lambda>_. True)" "slip_backend_select os so"
  for os :: "'w os" and so :: "'w select_os"
proof unfold_locales
  show "ring_inv (\<lambda>_. True) (exec_hands i x H) r' \<and> runs r r'"
    if "eb_execute (slip_backend_select os so) i r w = Some (x, r', w')"
      "ring_inv (\<lambda>_. True) (add_mset i H) r" for i r w x r' w' H
    using that by (intro select.slip_posix_execute_inv) (simp_all add: slip_backend_select_def)
  show "ring_inv (\<lambda>_. True) (mset (map fst (case fin of None \<Rightarrow> [] | Some ds \<Rightarrow> ds)) + H) r' \<and> runs r r'"
    if "eb_wait (slip_backend_select os so) r cap t w = Some (fin, r', w')" "ring_inv (\<lambda>_. True) H r"
    for r cap t w fin r' w' H
    using that by (intro select_wait_inv) (simp_all add: slip_backend_select_def)
  show "ring_inv (\<lambda>_. True) H (poke r) \<and> runs r (poke r)"
    if "eb_poke (slip_backend_select os so) = Some poke" "ring_inv (\<lambda>_. True) H r" for poke H r
    using that by (auto simp: slip_backend_select_def slip_posix_poke_def)
qed

interpretation select_setup: ring_opening "ring_inv (\<lambda>_. True)" "slip_backend_select os so"
  for os :: "'w os" and so :: "'w select_os"
proof unfold_locales
  fix r :: "unit slip_ring" and nul and w w' :: 'w and sq_n cq_n :: u32 and k
  assume open_ring: "eb_open_ring (slip_backend_select os so) (sized_ring nul sq_n cq_n) w = (Some r, w')"
    and k: "unat cq_n = 2 ^ k" "k < 32"
  then have r: "r = (sized_ring nul sq_n cq_n)\<lparr>r_be_state := nul, r_ctl := False\<rparr>"
    by (auto simp: slip_backend_select_def select_open_ring_def slip_posix_ctl_open_def
        split: prod.splits if_splits option.splits)
  show "ring_inv (\<lambda>_. True) {#} (ring_ready r)"
    by (rule select.opened_ring_inv [OF r _ k]) simp
qed

end
