(* ===== verification/Sides.thy ===== *)
theory Sides
  imports Setup_Facts
begin

text \<open>
  What the epoll and kqueue backends have in common (\<open>src/src/engine_epoll.c\<close>,
  \<open>src/src/engine_kqueue.c\<close>): a table indexed by descriptor whose entries hold the parked ops
  of each direction, \<open>in\<close> and \<open>out\<close>, threaded through the ops.  A backend's entry extends
  \<open>side_fd\<close> with what it told the kernel.  \<open>room\<close> says whether the allocator can hold a
  table of so many entries.
\<close>

subsection \<open>The table\<close>

record side_fd =
  sf_in :: "opid list"
  sf_out :: "opid list"

type_synonym 'e sides = "'e side_fd_scheme list"

text \<open>The doubling of the table; \<open>n\<close> is at least 64 where it is called.\<close>

function grow_to :: "nat \<Rightarrow> nat \<Rightarrow> nat" where
  "grow_to n fd = (if n = 0 \<or> fd < n then n else grow_to (2 * n) fd)"
  by auto
termination by (relation "measure (\<lambda>(n, fd). Suc fd - n)") auto

declare grow_to.simps [simp del]

text \<open>The index of the descriptor's entry, and the ring with the table grown to hold it;
  \<open>zero\<close> is an entry of zero bytes.\<close>

definition fd_slot ::
    "(nat \<Rightarrow> bool) \<Rightarrow> 'e side_fd_scheme \<Rightarrow> i32 \<Rightarrow> 'e sides slip_ring \<Rightarrow> nat option \<times> 'e sides slip_ring" where
  "fd_slot room zero f r =
     (let st = r_be_state r in
      if neg32 f then (None, r)
      else if length st \<le> unat f then
        let want = grow_to (if length st = 0 then 64 else length st) (unat f) in
        if \<not> room want then (None, r)
        else (Some (unat f), r\<lparr>r_be_state := st @ replicate (want - length st) zero\<rparr>)
      else (Some (unat f), r))"

definition set_fd :: "nat \<Rightarrow> 'e side_fd_scheme \<Rightarrow> 'e sides slip_ring \<Rightarrow> 'e sides slip_ring" where
  "set_fd k e r = r\<lparr>r_be_state := (r_be_state r)[k := e]\<rparr>"

text \<open>Which of the two lists of a descriptor an op joins.\<close>

definition waits_out :: "eng_op \<Rightarrow> bool" where
  "waits_out op \<longleftrightarrow> op_wait_events op AND POLLOUT \<noteq> 0"

definition side_push :: "bool \<Rightarrow> opid \<Rightarrow> 'e side_fd_scheme \<Rightarrow> 'e side_fd_scheme" where
  "side_push out i e = (if out then e\<lparr>sf_out := i # sf_out e\<rparr> else e\<lparr>sf_in := i # sf_in e\<rparr>)"

definition side_remove :: "bool \<Rightarrow> opid \<Rightarrow> 'e side_fd_scheme \<Rightarrow> 'e side_fd_scheme" where
  "side_remove out i e =
     (if out then e\<lparr>sf_out := remove1 i (sf_out e)\<rparr> else e\<lparr>sf_in := remove1 i (sf_in e)\<rparr>)"

text \<open>An op leaves its side (the two backends' \<open>disarm\<close>), and a closing descriptor's entry is
  wiped.\<close>

definition side_leave ::
    "(nat \<Rightarrow> bool) \<Rightarrow> 'e side_fd_scheme \<Rightarrow> opid \<Rightarrow> 'e sides slip_ring \<Rightarrow> 'e sides slip_ring" where
  "side_leave room zero i r =
     (case fd_slot room zero (sqe_fd (sqe_of r i)) r of
        (None, r) \<Rightarrow> r
      | (Some k, r) \<Rightarrow> set_fd k (side_remove (waits_out (the_op r i)) i (r_be_state r ! k)) r)"

subsection \<open>The table mirrors the parked set\<close>

text \<open>An op stands in a list of the table only while it is parked, under its own descriptor,
  on the side its events say, and once.\<close>

definition side_ok :: "'e sides slip_ring \<Rightarrow> nat \<Rightarrow> bool \<Rightarrow> opid list \<Rightarrow> bool" where
  "side_ok r k out is \<longleftrightarrow> distinct is \<and>
     (\<forall>i \<in> set is. i \<in> set (r_waiting r) \<and> \<not> neg32 (sqe_fd (sqe_of r i)) \<and>
        unat (sqe_fd (sqe_of r i)) = k \<and> waits_out (the_op r i) = out)"

definition sides_inv :: "'e sides slip_ring \<Rightarrow> bool" where
  "sides_inv r \<longleftrightarrow> (\<forall>k < length (r_be_state r).
     side_ok r k False (sf_in (r_be_state r ! k)) \<and> side_ok r k True (sf_out (r_be_state r ! k)))"

lemma side_ok_nil [simp]: "side_ok r k out []"
  by (simp add: side_ok_def)

lemma side_okD:
  "side_ok r k out is \<Longrightarrow> i \<in> set is \<Longrightarrow> i \<in> set (r_waiting r) \<and>
     \<not> neg32 (sqe_fd (sqe_of r i)) \<and> unat (sqe_fd (sqe_of r i)) = k \<and> waits_out (the_op r i) = out"
  by (simp add: side_ok_def)

lemma side_ok_mono:
  assumes "side_ok r k out is" "set (r_waiting r) \<subseteq> set (r_waiting s)"
    "\<And>j. j \<in> set (r_waiting r) \<Longrightarrow> sqe_of s j = sqe_of r j \<and>
       op_wait_events (the_op s j) = op_wait_events (the_op r j)"
  shows "side_ok s k out is"
  using assms by (auto simp: side_ok_def waits_out_def)

lemma sides_inv_cong: "parked_same r s \<Longrightarrow> sides_inv r \<Longrightarrow> sides_inv s"
  by (auto simp: sides_inv_def parked_same_def intro!: side_ok_mono [of r _ _ _ s])

lemma grow_to_le: "n \<noteq> 0 \<Longrightarrow> n \<le> grow_to n fd \<and> fd < grow_to n fd"
proof (induction n fd rule: grow_to.induct)
  case (1 n fd)
  then show ?case by (cases "fd < n") (simp_all add: grow_to.simps [of n fd])
qed

lemma fd_slot_cases:
  obtains (none) "fd_slot room z f r = (None, r)"
    | (some) st where "fd_slot room z f r = (Some (unat f), r\<lparr>r_be_state := st\<rparr>)" "\<not> neg32 f"
        "unat f < length st" "length (r_be_state r) \<le> length st"
        "\<And>k. k < length st \<Longrightarrow> st ! k = (if k < length (r_be_state r) then r_be_state r ! k else z)"
proof -
  let ?st = "r_be_state r"
  let ?n = "if length ?st = 0 then 64 else length ?st"
  let ?want = "grow_to ?n (unat f)"
  consider "neg32 f \<or> length ?st \<le> unat f \<and> \<not> room ?want"
    | "\<not> neg32 f" "length ?st \<le> unat f" "room ?want" | "\<not> neg32 f" "unat f < length ?st"
    by linarith
  then show thesis
  proof cases
    case 1
    then show thesis by (intro none) (auto simp: fd_slot_def Let_def)
  next
    case 2
    have "?n \<le> ?want \<and> unat f < ?want" by (rule grow_to_le) simp
    then show thesis
      using 2 by (intro some [of "?st @ replicate (?want - length ?st) z"])
        (auto simp: fd_slot_def Let_def nth_append)
  next
    case 3
    then show thesis by (intro some [of ?st]) (auto simp: fd_slot_def Let_def)
  qed
qed

lemma fd_slot_only: "fd_slot room z f r = (x, r') \<Longrightarrow> be_only r r'"
  by (cases rule: fd_slot_cases [of room z f r]) auto

lemma set_fd_only [simp]: "be_only r (set_fd k e r)"
  by (simp add: set_fd_def)

lemma be_only_trans: "be_only r s \<Longrightarrow> be_only s t \<Longrightarrow> be_only r t"
  by (elim be_onlyE) simp

lemma be_only_view:
  assumes "be_only r s"
  shows "r_waiting s = r_waiting r" "sqe_of s = sqe_of r" "the_op s = the_op r"
    "r_op_pool_n s = r_op_pool_n r"
proof -
  obtain b where "s = r\<lparr>r_be_state := b\<rparr>" using assms by (rule be_onlyE)
  then show "r_waiting s = r_waiting r" "sqe_of s = sqe_of r" "the_op s = the_op r"
    "r_op_pool_n s = r_op_pool_n r" by (simp_all add: sqe_of_def the_op_def fun_eq_iff)
qed

lemma set_be_view [simp]:
  "the_op (r\<lparr>r_be_state := b\<rparr>) = the_op r" "sqe_of (r\<lparr>r_be_state := b\<rparr>) = sqe_of r"
  by (simp_all add: the_op_def sqe_of_def fun_eq_iff)

text \<open>The grown table keeps the invariant, and so does an entry whose sides are right.\<close>

lemma sides_inv_slot:
  assumes "fd_slot room z f r = (x, r')" "sides_inv r" "sf_in z = []" "sf_out z = []"
  shows "sides_inv r'"
proof (cases rule: fd_slot_cases [of room z f r])
  case none
  with assms show ?thesis by simp
next
  case (some st)
  have side: "side_ok (r\<lparr>r_be_state := st\<rparr>) k out is = side_ok r k out is" for k out "is"
    by (simp add: side_ok_def sqe_of_def the_op_def)
  show ?thesis
    using assms some by (auto simp: sides_inv_def side)
qed

lemma sides_inv_set:
  assumes "sides_inv r" "side_ok r k False (sf_in e)" "side_ok r k True (sf_out e)"
  shows "sides_inv (set_fd k e r)"
proof -
  have side: "side_ok (set_fd k e r) j out is = side_ok r j out is" for j out "is"
    by (simp add: set_fd_def side_ok_def sqe_of_def the_op_def)
  show ?thesis
    unfolding sides_inv_def side
  proof (intro allI impI)
    fix j assume "j < length (r_be_state (set_fd k e r))"
    then have j: "j < length (r_be_state r)" by (simp add: set_fd_def)
    show "side_ok r j False (sf_in (r_be_state (set_fd k e r) ! j)) \<and>
        side_ok r j True (sf_out (r_be_state (set_fd k e r) ! j))"
      using assms j by (cases "j = k") (auto simp: set_fd_def sides_inv_def)
  qed
qed

lemma sides_inv_entry:
  "sides_inv r \<Longrightarrow> k < length (r_be_state r) \<Longrightarrow>
    side_ok r k False (sf_in (r_be_state r ! k)) \<and> side_ok r k True (sf_out (r_be_state r ! k))"
  by (simp add: sides_inv_def)

lemma fd_slot_Some:
  assumes "fd_slot room z f r = (Some k, r')"
  shows "k = unat f" "\<not> neg32 f" "k < length (r_be_state r')"
proof -
  have "k = unat f \<and> \<not> neg32 f \<and> k < length (r_be_state r')"
    by (cases rule: fd_slot_cases [of room z f r]) (use assms in auto)
  then show "k = unat f" "\<not> neg32 f" "k < length (r_be_state r')" by auto
qed

lemma wait_join_view:
  "op_wait_events (the_op (wait_join i r) j) = op_wait_events (the_op r j)"
  "waits_out (the_op (wait_join i r) j) = waits_out (the_op r j)"
  by (simp_all add: wait_join_def the_op_def upd_op_def waits_out_def)

lemma sides_inv_join: "sides_inv r \<Longrightarrow> sides_inv (wait_join i r)"
  by (auto simp: sides_inv_def wait_join_view intro!: side_ok_mono [of r _ _ _ "wait_join i r"])

lemma set_fd_join: "wait_join i (set_fd k e r) = set_fd k e (wait_join i r)"
  by (simp add: wait_join_def set_fd_def upd_op_def)

lemma sides_inv_arm_joined:
  assumes "sides_inv r" "k < length (r_be_state r)" "k = unat (sqe_fd (sqe_of r i))"
    "\<not> neg32 (sqe_fd (sqe_of r i))" "i \<notin> set (r_waiting r)"
    "sf_in e = sf_in (side_push (waits_out (the_op r i)) i (r_be_state r ! k))"
    "sf_out e = sf_out (side_push (waits_out (the_op r i)) i (r_be_state r ! k))"
  shows "sides_inv (wait_join i (set_fd k e r))"
  unfolding set_fd_join
proof (rule sides_inv_set [OF sides_inv_join [OF assms(1)]])
  let ?q = "wait_join i r"
  have old: "side_ok ?q k False (sf_in (r_be_state r ! k))" "side_ok ?q k True (sf_out (r_be_state r ! k))"
    using sides_inv_entry [OF sides_inv_join [OF assms(1)], of k i] assms(2) by simp_all
  have fresh: "i \<notin> set (sf_in (r_be_state r ! k))" "i \<notin> set (sf_out (r_be_state r ! k))"
    using sides_inv_entry [OF assms(1,2)] assms(5) by (auto simp: side_ok_def)
  have push: "side_ok ?q k out (i # is)" if "side_ok ?q k out is" "i \<notin> set is" "waits_out (the_op r i) = out"
    for out "is" using that assms(3,4) by (simp add: side_ok_def wait_join_view)
  show "side_ok ?q k False (sf_in e)" "side_ok ?q k True (sf_out e)"
    using old push fresh by (auto simp: assms(6,7) side_push_def)
qed

text \<open>Leaving: every list but the op's own is right already, and it leaves its own.\<close>

lemma wait_leave_be: "wait_leave k (r\<lparr>r_be_state := st\<rparr>) = (wait_leave k r)\<lparr>r_be_state := st\<rparr>"
  by (simp add: wait_leave_def Let_def upd_op_def)

lemma side_ok_leave:
  assumes "side_ok r l out is" "distinct (r_waiting r)" "k < length (r_waiting r)"
  shows "side_ok (wait_leave k r) l out (remove1 (r_waiting r ! k) is)"
    "r_waiting r ! k \<notin> set is \<Longrightarrow> side_ok (wait_leave k r) l out is"
proof -
  note lv = wait_leave_frame [OF assms(3)]
  have ev: "waits_out (the_op (wait_leave k r) j) = waits_out (the_op r j)" for j
    by (simp add: waits_out_def lv)
  have gone: "side_ok (wait_leave k r) l out js" if "side_ok r l out js" "r_waiting r ! k \<notin> set js" for js
    using that by (auto simp: side_ok_def lv(7) lv(11) [OF assms(2)] ev)
  then show "r_waiting r ! k \<notin> set is \<Longrightarrow> side_ok (wait_leave k r) l out is" using assms(1) by blast
  have "side_ok r l out (remove1 (r_waiting r ! k) is)" "r_waiting r ! k \<notin> set (remove1 (r_waiting r ! k) is)"
    using assms(1) by (auto simp: side_ok_def)
  then show "side_ok (wait_leave k r) l out (remove1 (r_waiting r ! k) is)" by (rule gone)
qed

lemma sides_inv_leave:
  assumes "sides_inv r" "distinct (r_waiting r)" "k < length (r_waiting r)" "f = sqe_fd (sqe_of r (r_waiting r ! k))"
    "unat f < length (r_be_state r)"
  shows "sides_inv (set_fd (unat f) (side_remove (waits_out (the_op r (r_waiting r ! k))) (r_waiting r ! k)
    (r_be_state r ! unat f)) (wait_leave k r))"
    (is "sides_inv (set_fd ?j (side_remove ?out ?i ?e) ?q)")
proof -
  have s: "side_ok (set_fd ?j (side_remove ?out ?i ?e) ?q) l out is = side_ok ?q l out is" for l out "is"
    by (simp add: set_fd_def side_ok_def sqe_of_def the_op_def)
  have st: "r_be_state ?q = r_be_state r" by (rule wait_leave_frame [OF assms(3)])
  show ?thesis
    unfolding sides_inv_def s
  proof (intro allI impI)
    fix l assume "l < length (r_be_state (set_fd ?j (side_remove ?out ?i ?e) ?q))"
    then have l: "l < length (r_be_state r)" by (simp add: set_fd_def st)
    have old: "side_ok r l False (sf_in (r_be_state r ! l))" "side_ok r l True (sf_out (r_be_state r ! l))"
      using sides_inv_entry [OF assms(1) l] by auto
    have rem: "side_ok ?q l False (remove1 ?i (sf_in (r_be_state r ! l)))"
      "side_ok ?q l True (remove1 ?i (sf_out (r_be_state r ! l)))"
      using old by (auto intro: side_ok_leave(1) [OF _ assms(2,3)])
    have stay: "l \<noteq> ?j \<or> ?out \<Longrightarrow> side_ok ?q l False (sf_in (r_be_state r ! l))"
      "l \<noteq> ?j \<or> \<not> ?out \<Longrightarrow> side_ok ?q l True (sf_out (r_be_state r ! l))"
    proof -
      have "?i \<notin> set (sf_in (r_be_state r ! l))" if "l \<noteq> ?j \<or> ?out"
        using side_okD [OF old(1), of ?i] that assms(4) by auto
      then show "l \<noteq> ?j \<or> ?out \<Longrightarrow> side_ok ?q l False (sf_in (r_be_state r ! l))"
        by (rule side_ok_leave(2) [OF old(1) assms(2,3)])
      have "?i \<notin> set (sf_out (r_be_state r ! l))" if "l \<noteq> ?j \<or> \<not> ?out"
        using side_okD [OF old(2), of ?i] that assms(4) by auto
      then show "l \<noteq> ?j \<or> \<not> ?out \<Longrightarrow> side_ok ?q l True (sf_out (r_be_state r ! l))"
        by (rule side_ok_leave(2) [OF old(2) assms(2,3)])
    qed
    show "side_ok ?q l False (sf_in (r_be_state (set_fd ?j (side_remove ?out ?i ?e) ?q) ! l)) \<and>
        side_ok ?q l True (sf_out (r_be_state (set_fd ?j (side_remove ?out ?i ?e) ?q) ! l))"
    proof (cases "l = ?j")
      case True
      then have "r_be_state (set_fd ?j (side_remove ?out ?i ?e) ?q) ! l = side_remove ?out ?i ?e"
        using assms(5) by (simp add: set_fd_def st)
      then show ?thesis using rem stay True by (simp add: side_remove_def)
    next
      case False
      then have "r_be_state (set_fd ?j (side_remove ?out ?i ?e) ?q) ! l = r_be_state r ! l"
        by (simp add: set_fd_def st)
      then show ?thesis using stay False by simp
    qed
  qed
qed

lemma side_leave_ok:
  assumes "side_leave room z (r_waiting r ! k) (wait_leave k r) = r'" "sides_inv r" "sf_in z = []" "sf_out z = []"
    "distinct (r_waiting r)" "k < length (r_waiting r)"
  shows "sides_inv r'"
proof -
  let ?i = "r_waiting r ! k" and ?q = "wait_leave k r"
  let ?f = "sqe_fd (sqe_of r ?i)"
  note lv = wait_leave_frame [OF assms(6)]
  have ev: "waits_out (the_op ?q j) = waits_out (the_op r j)" for j by (simp add: waits_out_def lv)
  have eq: "fd_slot room z ?f ?q = (fst (fd_slot room z ?f r),
      ?q\<lparr>r_be_state := r_be_state (snd (fd_slot room z ?f r))\<rparr>)"
    by (auto simp: fd_slot_def Let_def lv(9))
  show ?thesis
  proof (cases rule: fd_slot_cases [of room z ?f r])
    case none
    have "r' = ?q" using assms(1) lv(9) by (auto simp: side_leave_def lv(7) eq none)
    have absent: "?i \<notin> set (sf_in (r_be_state r ! l)) \<and> ?i \<notin> set (sf_out (r_be_state r ! l))"
      if "l < length (r_be_state r)" for l
      using sides_inv_entry [OF assms(2) that] none that
      by (auto simp: side_ok_def fd_slot_def Let_def split: if_splits)
    then show ?thesis
      unfolding \<open>r' = ?q\<close> sides_inv_def lv(9)
      using assms(2) by (auto simp: sides_inv_def intro!: side_ok_leave(2) [OF _ assms(5,6)])
  next
    case (some st)
    let ?r1 = "r\<lparr>r_be_state := st\<rparr>"
    have r1: "sides_inv ?r1" by (rule sides_inv_slot [OF some(1) assms(2,3,4)])
    have f1: "sqe_fd (sqe_of ?r1 (r_waiting ?r1 ! k)) = ?f" by simp
    have "r' = set_fd (unat ?f) (side_remove (waits_out (the_op ?r1 (r_waiting ?r1 ! k)))
        (r_waiting ?r1 ! k) (r_be_state ?r1 ! unat ?f)) (wait_leave k ?r1)"
      using assms(1) some(1) by (simp add: side_leave_def lv(7) eq wait_leave_be ev)
    moreover have "sides_inv (set_fd (unat ?f) (side_remove (waits_out (the_op ?r1 (r_waiting ?r1 ! k)))
        (r_waiting ?r1 ! k) (r_be_state ?r1 ! unat ?f)) (wait_leave k ?r1))"
      by (rule sides_inv_leave [OF r1]) (use assms(5,6) some(3) f1 in simp_all)
    ultimately show ?thesis by simp
  qed
qed

text \<open>What the scan of the delivered events keeps: ready ops are parked, each once, and each
  belongs to a descriptor and a side already seen.\<close>

definition ready_ok :: "(i32 \<times> bool) set \<Rightarrow> opid list \<Rightarrow> 'b slip_ring \<Rightarrow> bool" where
  "ready_ok seen ready r \<longleftrightarrow> distinct ready \<and> set ready \<subseteq> set (r_waiting r) \<and>
     (\<forall>i \<in> set ready. (sqe_fd (sqe_of r i), waits_out (the_op r i)) \<in> seen)"

lemma ready_ok_add:
  assumes "ready_ok seen ready r" "(f, out) \<notin> seen" "side_ok r (unat f) out is"
  shows "ready_ok (insert (f, out) seen) (ready @ take a is) r"
proof -
  have key: "sqe_fd (sqe_of r i) = f \<and> waits_out (the_op r i) = out" if "i \<in> set is" for i
    using side_okD [OF assms(3) that] by (auto simp: word_unat_eq_iff)
  have "set ready \<inter> set is = {}" using key assms(1,2) by (fastforce simp: ready_ok_def)
  moreover have "set is \<subseteq> set (r_waiting r)" "distinct is"
    using assms(3) by (auto simp: side_ok_def)
  ultimately show ?thesis
    using assms(1) key set_take_subset [of a "is"] by (auto simp: ready_ok_def distinct_take)
qed

lemma ready_ok_more: "ready_ok seen ready r \<Longrightarrow> seen \<subseteq> seen' \<Longrightarrow> ready_ok seen' ready r"
  by (auto simp: ready_ok_def)

lemma ready_ok_be: "be_only r s \<Longrightarrow> ready_ok seen ready s = ready_ok seen ready r"
  by (simp add: ready_ok_def be_only_view)

lemma side_leave_only: "be_only r (side_leave room z i r)"
proof -
  obtain x r1 where sl: "fd_slot room z (sqe_fd (sqe_of r i)) r = (x, r1)"
    by (cases "fd_slot room z (sqe_fd (sqe_of r i)) r")
  show ?thesis
    using fd_slot_only [OF sl]
    by (auto simp: side_leave_def sl intro: be_only_trans [OF _ set_fd_only] split: option.split)
qed

lemma sides_inv_ctl [simp]: "sides_inv (r\<lparr>r_ctl := c\<rparr>) = sides_inv r"
  by (simp add: sides_inv_def side_ok_def sqe_of_def the_op_def)

lemma ready_ok_ctl [simp]: "ready_ok seen ready (r\<lparr>r_ctl := c\<rparr>) = ready_ok seen ready r"
  by (simp add: ready_ok_def sqe_of_def the_op_def)

lemma be_only_inv:
  assumes "be_only r s" "sides_inv s" "ring_inv sides_inv H r"
  shows "ring_inv sides_inv H s \<and> runs r s"
  using keeps_be_inv [OF be_only_keeps [OF assms(1)] assms(3,2)]
    keeps_be_frame(4) [OF be_only_keeps [OF assms(1)]] by blast

text \<open>What arming may do to the table: the op joins its side, or the sides stay as they were.\<close>

definition side_arms ::
    "(nat \<Rightarrow> bool) \<Rightarrow> 'e side_fd_scheme \<Rightarrow> opid \<Rightarrow> 'e sides slip_ring \<Rightarrow> bool \<Rightarrow> 'e sides slip_ring \<Rightarrow> bool" where
  "side_arms room z i r ok r' \<longleftrightarrow> r' = r \<and> \<not> ok \<or>
     (\<exists>k r1 e. fd_slot room z (sqe_fd (sqe_of r i)) r = (Some k, r1) \<and> r' = set_fd k e r1 \<and>
        (if ok then sf_in e = sf_in (side_push (waits_out (the_op r1 i)) i (r_be_state r1 ! k)) \<and>
             sf_out e = sf_out (side_push (waits_out (the_op r1 i)) i (r_be_state r1 ! k))
         else sf_in e = sf_in (r_be_state r1 ! k) \<and> sf_out e = sf_out (r_be_state r1 ! k)))"

lemma side_arms_ok:
  assumes "side_arms room z i r ok r'" "sf_in z = []" "sf_out z = []"
  shows "be_only r r'" "sides_inv r \<Longrightarrow> i \<notin> set (r_waiting r) \<Longrightarrow> sides_inv (if ok then wait_join i r' else r')"
proof -
  have "be_only r r' \<and> (sides_inv r \<longrightarrow> i \<notin> set (r_waiting r) \<longrightarrow> sides_inv (if ok then wait_join i r' else r'))"
    using assms(1) unfolding side_arms_def
  proof (elim disjE exE)
    fix k r1 e
    assume a: "fd_slot room z (sqe_fd (sqe_of r i)) r = (Some k, r1) \<and> r' = set_fd k e r1 \<and>
        (if ok then sf_in e = sf_in (side_push (waits_out (the_op r1 i)) i (r_be_state r1 ! k)) \<and>
             sf_out e = sf_out (side_push (waits_out (the_op r1 i)) i (r_be_state r1 ! k))
         else sf_in e = sf_in (r_be_state r1 ! k) \<and> sf_out e = sf_out (r_be_state r1 ! k))"
    then have slot: "fd_slot room z (sqe_fd (sqe_of r i)) r = (Some k, r1)" and r': "r' = set_fd k e r1" by auto
    have b: "be_only r r1" by (rule fd_slot_only [OF slot])
    note v = be_only_view [OF b] and sl = fd_slot_Some [OF slot]
    have "be_only r r'" unfolding r' by (rule be_only_trans [OF b set_fd_only])
    moreover have "sides_inv (if ok then wait_join i r' else r')"
      if inv: "sides_inv r" and i: "i \<notin> set (r_waiting r)"
    proof -
      have r1: "sides_inv r1" by (rule sides_inv_slot [OF slot inv assms(2,3)])
      show ?thesis
      proof (cases ok)
        case True
        then have "sides_inv (wait_join i (set_fd k e r1))"
          using a sl i by (intro sides_inv_arm_joined [OF r1]) (simp_all add: v)
        then show ?thesis using True r' by simp
      next
        case False
        then have "sides_inv (set_fd k e r1)"
          using a sides_inv_entry [OF r1 sl(3)] by (intro sides_inv_set [OF r1]) simp_all
        then show ?thesis using False r' by simp
      qed
    qed
    ultimately show ?thesis by blast
  qed simp
  then show "be_only r r'" "sides_inv r \<Longrightarrow> i \<notin> set (r_waiting r) \<Longrightarrow> sides_inv (if ok then wait_join i r' else r')"
    by blast+
qed

text \<open>A closing descriptor's entry is wiped.\<close>

lemma side_forget_ok:
  assumes "fd_slot room z f r = (x, r1)" "sf_in z = []" "sf_out z = []"
    "r' = (case x of None \<Rightarrow> r1 | Some k \<Rightarrow> set_fd k z r1)"
  shows "be_only r r'" "sides_inv r \<Longrightarrow> sides_inv r'"
proof -
  have "be_only r r1" by (rule fd_slot_only [OF assms(1)])
  then show "be_only r r'"
    by (auto simp: assms(4) intro: be_only_trans [OF _ set_fd_only] split: option.split)
  show "sides_inv r'" if "sides_inv r"
    using sides_inv_slot [OF assms(1) that assms(2,3)]
    by (auto simp: assms intro: sides_inv_set split: option.split)
qed

end
