(* ===== verification/Epoll.thy ===== *)
theory Epoll
  imports Sides "HOL-Library.AList"
begin

text \<open>
  The epoll backend (\<open>src/src/engine_epoll.c\<close>): per descriptor, what the kernel was last
  told and the parked ops of each direction.  The kernel's side (\<open>epoll_create1\<close>,
  \<open>epoll_ctl\<close>, \<open>epoll_wait\<close>) and \<open>pipe\<close> are parameters; so is \<open>ep_room\<close>, whether the
  allocator can hold a table of so many entries.  \<open>epoll_wait\<close> reports a registered
  descriptor at most once, so its answer is read as a map (\<open>clearjunk\<close>).
\<close>

subsection \<open>State and the kernel's doors\<close>

definition EPOLLIN :: u32 where "EPOLLIN = 1"
definition EPOLLPRI :: u32 where "EPOLLPRI = 2"
definition EPOLLOUT :: u32 where "EPOLLOUT = 4"
definition EPOLLERR :: u32 where "EPOLLERR = 8"
definition EPOLLHUP :: u32 where "EPOLLHUP = 16"

lemmas epoll_bits = EPOLLIN_def EPOLLPRI_def EPOLLOUT_def EPOLLERR_def EPOLLHUP_def

record ep_fd = side_fd +
  ef_interest :: u32

definition zero_ep_fd :: ep_fd where
  "zero_ep_fd = \<lparr>sf_in = [], sf_out = [], ef_interest = 0\<rparr>"

lemma zero_ep_fd_sides [simp]: "sf_in zero_ep_fd = []" "sf_out zero_ep_fd = []"
  by (simp_all add: zero_ep_fd_def)

type_synonym ep_state = "ep_fd list"

datatype ep_who = EP_CTL | EP_FD i32
datatype ep_op = EPOLL_CTL_ADD | EPOLL_CTL_MOD | EPOLL_CTL_DEL

record 'w epoll_os =
  eo_pipe :: "'w \<Rightarrow> bool \<times> 'w"
  eo_create :: "'w \<Rightarrow> bool \<times> 'w"
  eo_ctl :: "ep_op \<Rightarrow> ep_who \<Rightarrow> u32 \<Rightarrow> 'w \<Rightarrow> i32 option \<times> 'w"  \<comment> \<open>the errno of a failure\<close>
  eo_wait :: "int \<Rightarrow> 'w \<Rightarrow> (ep_who \<times> u32) list option \<times> 'w"
  ep_room :: "nat \<Rightarrow> bool"

definition ep_events_of :: "16 word \<Rightarrow> u32" where
  "ep_events_of ev =
     (if ev AND POLLIN \<noteq> 0 then EPOLLIN else 0) OR
     (if ev AND POLLOUT \<noteq> 0 then EPOLLOUT else 0) OR
     (if ev AND POLLPRI \<noteq> 0 then EPOLLPRI else 0)"

subsection \<open>The backend's operations\<close>

definition ep_quiet ::
    "'w epoll_os \<Rightarrow> nat \<Rightarrow> i32 \<Rightarrow> u32 \<Rightarrow> ep_state slip_ring \<Rightarrow> 'w \<Rightarrow> ep_state slip_ring \<times> 'w" where
  "ep_quiet eo k f unwanted r w =
     (let e = r_be_state r ! k;
          left = ef_interest e AND NOT unwanted
      in if left = 0 then
           (set_fd k (e\<lparr>ef_interest := 0\<rparr>) r, snd (eo_ctl eo EPOLL_CTL_DEL (EP_FD f) 0 w))
         else case eo_ctl eo EPOLL_CTL_MOD (EP_FD f) left w of
           (None, w) \<Rightarrow> (set_fd k (e\<lparr>ef_interest := left\<rparr>) r, w)
         | (Some _, w) \<Rightarrow> (r, w))"

definition epoll_open_ring ::
    "'w epoll_os \<Rightarrow> ep_state slip_ring \<Rightarrow> 'w \<Rightarrow> ep_state slip_ring option \<times> 'w" where
  "epoll_open_ring eo r w =
     (case slip_posix_ctl_open (eo_pipe eo) r w of
        (None, w) \<Rightarrow> (None, w)
      | (Some r, w) \<Rightarrow>
          (case eo_create eo w of (ok, w) \<Rightarrow>
             if \<not> ok then (None, w)
             else case eo_ctl eo EPOLL_CTL_ADD EP_CTL EPOLLIN w of
               (Some _, w) \<Rightarrow> (None, w)
             | (None, w) \<Rightarrow> (Some (r\<lparr>r_be_state := []\<rparr>), w)))"

definition epoll_close_ring :: "ep_state slip_ring \<Rightarrow> 'w \<Rightarrow> ep_state slip_ring \<times> 'w" where
  "epoll_close_ring r w = (slip_posix_ctl_close (r\<lparr>r_be_state := []\<rparr>), w)"

definition epoll_arm ::
    "'w epoll_os \<Rightarrow> opid \<Rightarrow> ep_state slip_ring \<Rightarrow> 'w \<Rightarrow> bool \<times> ep_state slip_ring \<times> 'w" where
  "epoll_arm eo i r w =
     (let f = sqe_fd (sqe_of r i) in
      case fd_slot (ep_room eo) zero_ep_fd f r of
        (None, r) \<Rightarrow> (False, r, w)
      | (Some k, r) \<Rightarrow>
          let op = the_op r i;
              want = ep_events_of (op_wait_events op);
              e = r_be_state r ! k;
              idle = (sf_in e = [] \<and> sf_out e = []);
              joined = side_push (waits_out op) i e
          in if \<not> idle \<and> ef_interest e \<noteq> 0 \<and> ef_interest e AND want = want
             then (True, set_fd k joined r, w)
             else
               let interest = (if idle then 0 else ef_interest e);
                   merged = interest OR want;
                   first = (if interest = 0 then EPOLL_CTL_ADD else EPOLL_CTL_MOD);
                   other = (if first = EPOLL_CTL_ADD then EPOLL_CTL_MOD else EPOLL_CTL_ADD)
               in case eo_ctl eo first (EP_FD f) merged w of
                 (None, w) \<Rightarrow> (True, set_fd k (joined\<lparr>ef_interest := merged\<rparr>) r, w)
               | (Some err, w) \<Rightarrow>
                   (case (if err = EEXIST \<or> err = ENOENT then eo_ctl eo other (EP_FD f) merged w
                          else (Some err, w)) of
                      (None, w) \<Rightarrow> (True, set_fd k (joined\<lparr>ef_interest := merged\<rparr>) r, w)
                    | (Some _, w) \<Rightarrow> (False, set_fd k (e\<lparr>ef_interest := 0\<rparr>) r, w)))"

definition epoll_disarm ::
    "'w epoll_os \<Rightarrow> opid \<Rightarrow> ep_state slip_ring \<Rightarrow> 'w \<Rightarrow> ep_state slip_ring \<times> 'w" where
  "epoll_disarm eo i r w = (side_leave (ep_room eo) zero_ep_fd i r, w)"

definition epoll_forget :: "'w epoll_os \<Rightarrow> i32 \<Rightarrow> ep_state slip_ring \<Rightarrow> ep_state slip_ring" where
  "epoll_forget eo f r =
     (case fd_slot (ep_room eo) zero_ep_fd f r of
        (None, r) \<Rightarrow> r
      | (Some k, r) \<Rightarrow> set_fd k zero_ep_fd r)"

definition epoll_readiness :: "'w epoll_os \<Rightarrow> (ep_state, 'w) readiness" where
  "epoll_readiness eo = \<lparr>be_arm = epoll_arm eo, be_disarm = epoll_disarm eo,
     be_submit_blocking = None, be_forget = Some (epoll_forget eo)\<rparr>"

text \<open>One delivered event: the ops it makes ready, and what is asked about no further.\<close>

definition ep_event ::
    "'w epoll_os \<Rightarrow> ep_who \<times> u32 \<Rightarrow> opid list \<Rightarrow> ep_state slip_ring \<Rightarrow> 'w
     \<Rightarrow> opid list \<times> ep_state slip_ring \<times> 'w" where
  "ep_event eo ev ready r w =
     (case ev of
        (EP_CTL, _) \<Rightarrow> (ready, slip_posix_ctl_drain r, w)
      | (EP_FD f, bits) \<Rightarrow>
          (case fd_slot (ep_room eo) zero_ep_fd f r of
             (None, r) \<Rightarrow> (ready, r, w)
           | (Some k, r) \<Rightarrow>
               let cap = unat (r_op_pool_n r);
                   e = r_be_state r ! k;
                   broken = (bits AND (EPOLLERR OR EPOLLHUP) \<noteq> 0);
                   readable = (bits AND EPOLLIN \<noteq> 0);
                   writable = (bits AND EPOLLOUT \<noteq> 0);
                   ready = (if readable \<or> broken then ready @ take (cap - length ready) (sf_in e) else ready);
                   ready = (if writable \<or> broken then ready @ take (cap - length ready) (sf_out e) else ready);
                   unwanted = (if readable \<and> sf_in e = [] then EPOLLIN OR EPOLLPRI else 0) OR
                              (if writable \<and> sf_out e = [] then EPOLLOUT else 0);
                   unwanted = (if broken \<and> sf_in e = [] \<and> sf_out e = [] then ef_interest e else unwanted)
               in if unwanted \<noteq> 0 then
                    (case ep_quiet eo k f unwanted r w of (r, w) \<Rightarrow> (ready, r, w))
                  else (ready, r, w)))"

fun ep_events ::
    "'w epoll_os \<Rightarrow> (ep_who \<times> u32) list \<Rightarrow> opid list \<Rightarrow> ep_state slip_ring \<Rightarrow> 'w
     \<Rightarrow> opid list \<times> ep_state slip_ring \<times> 'w" where
  "ep_events eo [] ready r w = (ready, r, w)"
| "ep_events eo (ev # evs) ready r w =
     (case ep_event eo ev ready r w of (ready, r, w) \<Rightarrow> ep_events eo evs ready r w)"

definition epoll_wait_ready ::
    "'w os \<Rightarrow> 'w epoll_os \<Rightarrow> ep_state slip_ring \<Rightarrow> nat \<Rightarrow> int \<Rightarrow> 'w
     \<Rightarrow> (eng_done list option \<times> ep_state slip_ring \<times> 'w) option" where
  "epoll_wait_ready os eo r cap timeout_ms w =
     (case eo_wait eo timeout_ms w of
        (None, w) \<Rightarrow> Some (Some [], r, w)
      | (Some evs, w) \<Rightarrow>
          (case ep_events eo (AList.clearjunk evs) [] r w of
             (ready, r, w) \<Rightarrow>
               (case slip_posix_finish_ready (epoll_readiness eo) os ready cap [] r w of
                  None \<Rightarrow> None
                | Some (fin, r, w) \<Rightarrow> Some (Some fin, r, w))))"

definition slip_backend_epoll :: "'w os \<Rightarrow> 'w epoll_os \<Rightarrow> (ep_state, 'w) eng_backend" where
  "slip_backend_epoll os eo =
     \<lparr>eb_open_ring = epoll_open_ring eo, eb_close_ring = epoll_close_ring,
      eb_poke = Some slip_posix_poke,
      eb_execute = slip_posix_execute (epoll_readiness eo) os,
      eb_wait = epoll_wait_ready os eo,
      eb_carried_ops = slip_posix_carried_ops\<rparr>"

lemma epoll_arm_shape:
  assumes "epoll_arm eo i r w = (ok, r', w')"
  shows "side_arms (ep_room eo) zero_ep_fd i r ok r'"
proof (cases "fd_slot (ep_room eo) zero_ep_fd (sqe_fd (sqe_of r i)) r")
  case (Pair x r1)
  show ?thesis
  proof (cases x)
    case None
    then have "r1 = r" using Pair
      by (cases rule: fd_slot_cases [of "ep_room eo" zero_ep_fd "sqe_fd (sqe_of r i)" r]) auto
    then show ?thesis using assms Pair None by (auto simp: epoll_arm_def Let_def side_arms_def)
  next
    case (Some k)
    have "\<exists>e. r' = set_fd k e r1 \<and>
        (if ok then sf_in e = sf_in (side_push (waits_out (the_op r1 i)) i (r_be_state r1 ! k)) \<and>
             sf_out e = sf_out (side_push (waits_out (the_op r1 i)) i (r_be_state r1 ! k))
         else sf_in e = sf_in (r_be_state r1 ! k) \<and> sf_out e = sf_out (r_be_state r1 ! k))"
      using assms Pair Some
      by (auto simp: epoll_arm_def Let_def split: if_splits prod.splits option.splits bool.splits)
    then show ?thesis using Pair Some by (auto simp: side_arms_def)
  qed
qed

lemma epoll_forget_ok: "be_only r (epoll_forget eo f r)" "sides_inv r \<Longrightarrow> sides_inv (epoll_forget eo f r)"
proof -
  obtain x r1 where sl: "fd_slot (ep_room eo) zero_ep_fd f r = (x, r1)" by (cases "fd_slot (ep_room eo) zero_ep_fd f r")
  have eq: "epoll_forget eo f r = (case x of None \<Rightarrow> r1 | Some k \<Rightarrow> set_fd k zero_ep_fd r1)"
    by (simp add: epoll_forget_def sl split: option.split)
  show "be_only r (epoll_forget eo f r)" "sides_inv r \<Longrightarrow> sides_inv (epoll_forget eo f r)"
    by (rule side_forget_ok [OF sl _ _ eq]; simp)+
qed

interpretation epoll: worker_backend sides_inv "epoll_readiness eo" for eo :: "'w epoll_os"
proof unfold_locales
  fix i r w r' and w' :: 'w and ok k f g
  show "be_only r r'" if "be_arm (epoll_readiness eo) i r w = (ok, r', w')"
    using that by (intro side_arms_ok(1) [OF epoll_arm_shape]) (simp_all add: epoll_readiness_def)
  show "sides_inv (if ok then wait_join i r' else r')"
    if "be_arm (epoll_readiness eo) i r w = (ok, r', w')" "sides_inv r" "i \<notin> set (r_waiting r)"
    using that by (intro side_arms_ok(2) [OF epoll_arm_shape]) (simp_all add: epoll_readiness_def)
  show "be_only r r'" if "be_disarm (epoll_readiness eo) i r w = (r', w')"
    using that side_leave_only by (auto simp: epoll_readiness_def epoll_disarm_def)
  show "sides_inv r'" if "be_disarm (epoll_readiness eo) (r_waiting r ! k) (wait_leave k r) w = (r', w')"
    "sides_inv r" "distinct (r_waiting r)" "k < length (r_waiting r)"
    using that(1) side_leave_ok [OF refl that(2) zero_ep_fd_sides that(3,4), of "ep_room eo"]
    by (simp add: epoll_readiness_def epoll_disarm_def)
  show "be_only r (g f r)" "sides_inv r \<Longrightarrow> sides_inv (g f r)" if "be_forget (epoll_readiness eo) = Some g"
    using that epoll_forget_ok by (auto simp: epoll_readiness_def)
  show "be_submit_blocking (epoll_readiness eo) = None" by (simp add: epoll_readiness_def)
  show "sides_inv s" if "parked_same r s" "sides_inv r" for s by (rule sides_inv_cong [OF that])
qed

subsection \<open>Delivery\<close>

lemma ep_quiet_ok:
  assumes "ep_quiet eo k f u r w = (r', w')" "sides_inv r" "k < length (r_be_state r)"
  shows "be_only r r' \<and> sides_inv r'"
  using assms sides_inv_entry [OF assms(2,3)]
  by (auto simp: ep_quiet_def Let_def intro!: sides_inv_set split: if_splits prod.splits option.splits)

lemma ep_event_ok:
  assumes "ep_event eo (EP_FD f, bits) ready r w = (ready', r', w')" "sides_inv r" "ready_ok seen ready r" "{(f, False), (f, True)} \<inter> seen = {}"
  shows "sides_inv r' \<and> be_only r r' \<and> ready_ok ({(f, False), (f, True)} \<union> seen) ready' r'"
proof (cases "fd_slot (ep_room eo) zero_ep_fd f r")
  case (Pair x r1)
  have b: "be_only r r1" by (rule fd_slot_only [OF Pair])
  have r1: "sides_inv r1" by (rule sides_inv_slot [OF Pair assms(2) zero_ep_fd_sides])
  have seen: "ready_ok ({(f, False), (f, True)} \<union> seen) ready r1"
    using assms(3) by (auto simp: ready_ok_be [OF b] intro: ready_ok_more)
  show ?thesis
  proof (cases x)
    case None
    with assms(1) Pair b r1 seen show ?thesis by (auto simp: ep_event_def)
  next
    case (Some k)
    note sl = fd_slot_Some [OF Pair [unfolded Some]]
    let ?e = "r_be_state r1 ! k"
    have side: "side_ok r1 (unat f) False (sf_in ?e)" "side_ok r1 (unat f) True (sf_out ?e)"
      using sides_inv_entry [OF r1 sl(3)] sl(1) by simp_all
    have old: "ready_ok seen ready r1" using assms(3) by (simp add: ready_ok_be [OF b])
    have more: "ready_ok ({(f, False), (f, True)} \<union> seen) (ready @ take a (sf_in ?e) @ take b (sf_out ?e)) r1" for a b
    proof -
      have "ready_ok (insert (f, False) seen) (ready @ take a (sf_in ?e)) r1"
        by (rule ready_ok_add [OF old _ side(1)]) (use assms(4) in auto)
      then have "ready_ok (insert (f, True) (insert (f, False) seen))
          ((ready @ take a (sf_in ?e)) @ take b (sf_out ?e)) r1"
        by (rule ready_ok_add [OF _ _ side(2)]) (use assms(4) in auto)
      then show ?thesis by (auto intro: ready_ok_more)
    qed
    obtain a b' r2 where q: "ready' = ready @ take a (sf_in ?e) @ take b' (sf_out ?e)"
      and r2: "r' = r1 \<or> (\<exists>u. ep_quiet eo k f u r1 w = (r', w'))"
    proof -
      have "\<exists>a b'. ready' = ready @ take a (sf_in ?e) @ take b' (sf_out ?e)"
        using assms(1) Pair Some
        by (auto simp: ep_event_def Let_def split: if_splits prod.splits)
          (metis append.assoc append_Nil2 take0 append_Nil)+
      moreover have "r' = r1 \<or> (\<exists>u. ep_quiet eo k f u r1 w = (r', w'))"
        using assms(1) Pair Some by (auto simp: ep_event_def Let_def split: if_splits prod.splits)
      ultimately show thesis using that by blast
    qed
    have "be_only r1 r' \<and> sides_inv r'"
    proof (cases "r' = r1")
      case True
      then show ?thesis using r1 by simp
    next
      case False
      then obtain u where "ep_quiet eo k f u r1 w = (r', w')" using r2 by blast
      then show ?thesis using r1 sl(3) by (rule ep_quiet_ok)
    qed
    then show ?thesis
      using more be_only_trans [OF b] by (auto simp: q ready_ok_be)
  qed
qed

lemma ep_event_ctl_ok:
  "ep_event eo (EP_CTL, bits) ready r w = (ready, r\<lparr>r_ctl := False\<rparr>, w)"
  by (simp add: ep_event_def slip_posix_ctl_drain_def)

lemma ep_events_ok:
  assumes "ep_events eo evs ready r w = (ready', r', w')" "distinct (map fst evs)"
    "ring_inv sides_inv H r" "ready_ok seen ready r" "\<And>f. EP_FD f \<in> fst ` set evs \<Longrightarrow> {(f, False), (f, True)} \<inter> seen = {}"
  shows "ring_inv sides_inv H r' \<and> runs r r' \<and> distinct ready' \<and> set ready' \<subseteq> set (r_waiting r')"
  using assms
proof (induction evs arbitrary: ready r w seen)
  case Nil
  then show ?case by (auto simp: ready_ok_def)
next
  case (Cons ev evs)
  obtain who bits where ev: "ev = (who, bits)" by (cases ev)
  obtain rd1 r1 w1 where one: "ep_event eo ev ready r w = (rd1, r1, w1)" by (metis prod_cases3)
  have rest: "ep_events eo evs rd1 r1 w1 = (ready', r', w')" using Cons.prems(1) by (simp add: one)
  have dist: "distinct (map fst evs)" using Cons.prems(2) by simp
  have inv: "sides_inv r" using Cons.prems(3) by (simp add: ring_inv_def)
  show ?case
  proof (cases who)
    case EP_CTL
    then have r1: "rd1 = ready" "r1 = r\<lparr>r_ctl := False\<rparr>" using one ev by (simp_all add: ep_event_ctl_ok)
    then have i1: "ring_inv sides_inv H r1" "ready_ok seen rd1 r1" "runs r r1" using Cons.prems(3,4) by simp_all
    from Cons.IH [OF rest dist i1(1,2)] Cons.prems(5) i1(3) show ?thesis by (auto intro: runs_trans)
  next
    case (EP_FD f)
    have f: "{(f, False), (f, True)} \<inter> seen = {}" using Cons.prems(5) by (simp add: ev EP_FD)
    note eo = ep_event_ok [OF one [unfolded ev EP_FD] inv Cons.prems(4) f]
    then have i1: "ring_inv sides_inv H r1" "runs r r1" using be_only_inv Cons.prems(3) by blast+
    have fresh: "{(g, False), (g, True)} \<inter> ({(f, False), (f, True)} \<union> seen) = {}"
      if "EP_FD g \<in> fst ` set evs" for g
    proof -
      have "g \<noteq> f" using that Cons.prems(2) by (auto simp: ev EP_FD)
      then show ?thesis using that Cons.prems(5) [of g] by auto
    qed
    from Cons.IH [OF rest dist i1(1) _ fresh] eo i1(2) show ?thesis by (auto intro: runs_trans)
  qed
qed

lemma epoll_wait_inv:
  assumes "epoll_wait_ready os eo r cap t w = Some (fin, r', w')" "ring_inv sides_inv H r"
  shows "ring_inv sides_inv (mset (map fst (case fin of None \<Rightarrow> [] | Some ds \<Rightarrow> ds)) + H) r' \<and> runs r r'"
proof -
  obtain a w1 where wt: "eo_wait eo t w = (a, w1)" by (cases "eo_wait eo t w")
  show ?thesis
  proof (cases a)
    case None
    then show ?thesis using assms by (auto simp: epoll_wait_ready_def wt)
  next
    case (Some evs)
    obtain ready r1 w2 where sc: "ep_events eo (AList.clearjunk evs) [] r w1 = (ready, r1, w2)"
      by (metis prod_cases3)
    have s: "ring_inv sides_inv H r1 \<and> runs r r1 \<and> distinct ready \<and> set ready \<subseteq> set (r_waiting r1)"
      by (rule ep_events_ok [OF sc distinct_clearjunk assms(2), of "{}"]) (simp_all add: ready_ok_def)
    obtain ds where fr: "slip_posix_finish_ready (epoll_readiness eo) os ready cap [] r1 w2 = Some (ds, r', w')"
      and fin: "fin = Some ds"
      using assms(1) by (auto simp: epoll_wait_ready_def wt Some sc split: option.splits)
    have "ring_inv sides_inv (mset (map fst ds) + H) r' \<and> runs r1 r'"
      using s by (intro epoll.slip_posix_finish_ready_inv [OF fr]) auto
    then show ?thesis using s fin by (auto intro: runs_trans)
  qed
qed

interpretation epoll_engine: backend_contract "ring_inv sides_inv" "slip_backend_epoll os eo"
  for os :: "'w os" and eo :: "'w epoll_os"
proof unfold_locales
  show "ring_inv sides_inv (exec_hands i x H) r' \<and> runs r r'"
    if "eb_execute (slip_backend_epoll os eo) i r w = Some (x, r', w')"
      "ring_inv sides_inv (add_mset i H) r" for i r w x r' w' H
    using that by (intro epoll.slip_posix_execute_inv) (simp_all add: slip_backend_epoll_def)
  show "ring_inv sides_inv (mset (map fst (case fin of None \<Rightarrow> [] | Some ds \<Rightarrow> ds)) + H) r' \<and> runs r r'"
    if "eb_wait (slip_backend_epoll os eo) r cap t w = Some (fin, r', w')" "ring_inv sides_inv H r"
    for r cap t w fin r' w' H
    using that by (intro epoll_wait_inv) (simp_all add: slip_backend_epoll_def)
  show "ring_inv sides_inv H (poke r) \<and> runs r (poke r)"
    if "eb_poke (slip_backend_epoll os eo) = Some poke" "ring_inv sides_inv H r" for poke H r
    using that by (auto simp: slip_backend_epoll_def slip_posix_poke_def)
qed

interpretation epoll_setup: ring_opening "ring_inv sides_inv" "slip_backend_epoll os eo"
  for os :: "'w os" and eo :: "'w epoll_os"
proof unfold_locales
  fix r :: "ep_state slip_ring" and nul and w w' :: 'w and sq_n cq_n :: u32 and k
  assume open_ring: "eb_open_ring (slip_backend_epoll os eo) (sized_ring nul sq_n cq_n) w = (Some r, w')"
    and k: "unat cq_n = 2 ^ k" "k < 32"
  then have r: "r = (sized_ring nul sq_n cq_n)\<lparr>r_be_state := [], r_ctl := False\<rparr>"
    by (auto simp: slip_backend_epoll_def epoll_open_ring_def slip_posix_ctl_open_def
        split: prod.splits if_splits option.splits)
  show "ring_inv sides_inv {#} (ring_ready r)"
    by (rule epoll.opened_ring_inv [OF r _ k]) (simp add: r sides_inv_def)
qed

end
