(* ===== verification/Kqueue.thy ===== *)
theory Kqueue
  imports Sides "HOL-Library.AList"
begin

text \<open>
  The kqueue backend (\<open>src/src/engine_kqueue.c\<close>): per descriptor, which of the two knotes is
  registered and the parked ops of each direction.  \<open>kqueue\<close>, \<open>kevent\<close> and \<open>pipe\<close> are
  parameters.  \<open>kevent\<close> reports a knote, named by descriptor and filter, at most once, so
  its answer is read as a map (\<open>clearjunk\<close>).
\<close>

record kq_fd = side_fd +
  armed_read :: bool
  armed_write :: bool

definition zero_kq_fd :: kq_fd where
  "zero_kq_fd = \<lparr>sf_in = [], sf_out = [], armed_read = False, armed_write = False\<rparr>"

lemma zero_kq_fd_sides [simp]: "sf_in zero_kq_fd = []" "sf_out zero_kq_fd = []"
  by (simp_all add: zero_kq_fd_def)

type_synonym kq_state = "kq_fd list"

datatype kq_who = KQ_CTL | KQ_FD i32
datatype kq_filter = EVFILT_READ | EVFILT_WRITE
datatype kq_change = EV_ADD | EV_DELETE

text \<open>An event: its knote, whether \<open>EV_EOF\<close> is set, and \<open>fflags\<close>.\<close>

type_synonym kevent = "(kq_who \<times> kq_filter) \<times> bool \<times> u32"

record 'w kqueue_os =
  ko_pipe :: "'w \<Rightarrow> bool \<times> 'w"
  ko_create :: "'w \<Rightarrow> bool \<times> 'w"
  ko_change :: "kq_change \<Rightarrow> kq_who \<Rightarrow> kq_filter \<Rightarrow> 'w \<Rightarrow> bool \<times> 'w"
  ko_wait :: "int \<Rightarrow> 'w \<Rightarrow> kevent list option \<times> 'w"
  kq_room :: "nat \<Rightarrow> bool"

definition kq_filter_of :: "16 word \<Rightarrow> kq_filter" where
  "kq_filter_of ev = (if ev AND POLLOUT \<noteq> 0 then EVFILT_WRITE else EVFILT_READ)"

subsection \<open>The backend's operations\<close>

definition kqueue_open_ring ::
    "'w kqueue_os \<Rightarrow> kq_state slip_ring \<Rightarrow> 'w \<Rightarrow> kq_state slip_ring option \<times> 'w" where
  "kqueue_open_ring ko r w =
     (case slip_posix_ctl_open (ko_pipe ko) r w of
        (None, w) \<Rightarrow> (None, w)
      | (Some r, w) \<Rightarrow>
          (case ko_create ko w of (ok, w) \<Rightarrow>
             if \<not> ok then (None, w)
             else case ko_change ko EV_ADD KQ_CTL EVFILT_READ w of
               (added, w) \<Rightarrow> (if added then Some (r\<lparr>r_be_state := []\<rparr>) else None, w)))"

definition kqueue_close_ring :: "kq_state slip_ring \<Rightarrow> 'w \<Rightarrow> kq_state slip_ring \<times> 'w" where
  "kqueue_close_ring r w = (slip_posix_ctl_close (r\<lparr>r_be_state := []\<rparr>), w)"

definition is_armed :: "bool \<Rightarrow> kq_fd \<Rightarrow> bool" where
  "is_armed out e = (if out then armed_write e else armed_read e)"

definition set_armed :: "bool \<Rightarrow> bool \<Rightarrow> kq_fd \<Rightarrow> kq_fd" where
  "set_armed out v e = (if out then e\<lparr>armed_write := v\<rparr> else e\<lparr>armed_read := v\<rparr>)"

definition kqueue_arm ::
    "'w kqueue_os \<Rightarrow> opid \<Rightarrow> kq_state slip_ring \<Rightarrow> 'w \<Rightarrow> bool \<times> kq_state slip_ring \<times> 'w" where
  "kqueue_arm ko i r w =
     (let f = sqe_fd (sqe_of r i) in
      case fd_slot (kq_room ko) zero_kq_fd f r of
        (None, r) \<Rightarrow> (False, r, w)
      | (Some k, r) \<Rightarrow>
          let e = r_be_state r ! k;
              writing = waits_out (the_op r i);
              filt = kq_filter_of (op_wait_events (the_op r i));
              e = (if sf_in e = [] \<and> sf_out e = [] then e\<lparr>armed_read := False, armed_write := False\<rparr> else e);
              joined = side_push writing i e
          in if is_armed writing e then (True, set_fd k joined r, w)
             else case ko_change ko EV_ADD (KQ_FD f) filt w of
               (True, w) \<Rightarrow> (True, set_fd k (set_armed writing True joined) r, w)
             | (False, w) \<Rightarrow>
                 (case ko_change ko EV_ADD (KQ_FD f) filt (snd (ko_change ko EV_DELETE (KQ_FD f) filt w)) of
                    (True, w) \<Rightarrow> (True, set_fd k (set_armed writing True joined) r, w)
                  | (False, w) \<Rightarrow> (False, set_fd k e r, w)))"

definition kqueue_disarm ::
    "'w kqueue_os \<Rightarrow> opid \<Rightarrow> kq_state slip_ring \<Rightarrow> 'w \<Rightarrow> kq_state slip_ring \<times> 'w" where
  "kqueue_disarm ko i r w = (side_leave (kq_room ko) zero_kq_fd i r, w)"

definition kqueue_forget :: "'w kqueue_os \<Rightarrow> i32 \<Rightarrow> kq_state slip_ring \<Rightarrow> kq_state slip_ring" where
  "kqueue_forget ko f r =
     (case fd_slot (kq_room ko) zero_kq_fd f r of
        (None, r) \<Rightarrow> r
      | (Some k, r) \<Rightarrow> set_fd k zero_kq_fd r)"

definition kqueue_readiness :: "'w kqueue_os \<Rightarrow> (kq_state, 'w) readiness" where
  "kqueue_readiness ko = \<lparr>be_arm = kqueue_arm ko, be_disarm = kqueue_disarm ko,
     be_submit_blocking = None, be_forget = Some (kqueue_forget ko)\<rparr>"

definition note_error :: "i32 \<Rightarrow> opid list \<Rightarrow> 'b slip_ring \<Rightarrow> 'b slip_ring" where
  "note_error err is r = fold (\<lambda>i. upd_op i (\<lambda>op. op\<lparr>op_socket_error := err\<rparr>)) is r"

definition kq_event ::
    "'w kqueue_os \<Rightarrow> kevent \<Rightarrow> opid list \<Rightarrow> kq_state slip_ring \<Rightarrow> 'w
     \<Rightarrow> opid list \<times> kq_state slip_ring \<times> 'w" where
  "kq_event ko ev ready r w =
     (case ev of
        ((KQ_CTL, EVFILT_READ), _) \<Rightarrow> (ready, slip_posix_ctl_drain r, w)
      | ((KQ_CTL, EVFILT_WRITE), _) \<Rightarrow> (ready, r, w)
      | ((KQ_FD f, filt), eof, fflags) \<Rightarrow>
          (case fd_slot (kq_room ko) zero_kq_fd f r of
             (None, r) \<Rightarrow> (ready, r, w)
           | (Some k, r) \<Rightarrow>
               let writing = (filt = EVFILT_WRITE);
                   e = r_be_state r ! k;
                   side = (if writing then sf_out e else sf_in e);
                   woken = take (unat (r_op_pool_n r) - length ready) side;
                   socket_error = (if eof then fflags else 0);
                   r = (if writing \<and> socket_error \<noteq> 0 then note_error socket_error woken r else r)
               in if woken = [] then
                    (ready, set_fd k (set_armed writing False e) r,
                     snd (ko_change ko EV_DELETE (KQ_FD f) filt w))
                  else (ready @ woken, r, w)))"

fun kq_events ::
    "'w kqueue_os \<Rightarrow> kevent list \<Rightarrow> opid list \<Rightarrow> kq_state slip_ring \<Rightarrow> 'w
     \<Rightarrow> opid list \<times> kq_state slip_ring \<times> 'w" where
  "kq_events ko [] ready r w = (ready, r, w)"
| "kq_events ko (ev # evs) ready r w =
     (case kq_event ko ev ready r w of (ready, r, w) \<Rightarrow> kq_events ko evs ready r w)"

definition kqueue_wait ::
    "'w os \<Rightarrow> 'w kqueue_os \<Rightarrow> kq_state slip_ring \<Rightarrow> nat \<Rightarrow> int \<Rightarrow> 'w
     \<Rightarrow> (eng_done list option \<times> kq_state slip_ring \<times> 'w) option" where
  "kqueue_wait os ko r cap timeout_ms w =
     (case ko_wait ko timeout_ms w of
        (None, w) \<Rightarrow> Some (Some [], r, w)
      | (Some evs, w) \<Rightarrow>
          (case kq_events ko (AList.clearjunk evs) [] r w of
             (ready, r, w) \<Rightarrow>
               (case slip_posix_finish_ready (kqueue_readiness ko) os ready cap [] r w of
                  None \<Rightarrow> None
                | Some (fin, r, w) \<Rightarrow> Some (Some fin, r, w))))"

definition slip_backend_kqueue :: "'w os \<Rightarrow> 'w kqueue_os \<Rightarrow> (kq_state, 'w) eng_backend" where
  "slip_backend_kqueue os ko =
     \<lparr>eb_open_ring = kqueue_open_ring ko, eb_close_ring = kqueue_close_ring,
      eb_poke = Some slip_posix_poke,
      eb_execute = slip_posix_execute (kqueue_readiness ko) os,
      eb_wait = kqueue_wait os ko,
      eb_carried_ops = slip_posix_carried_ops\<rparr>"

subsection \<open>The table mirrors the parked set\<close>

lemma set_armed_sides [simp]:
  "sf_in (set_armed out v e) = sf_in e" "sf_out (set_armed out v e) = sf_out e"
  by (simp_all add: set_armed_def)

lemma side_push_armed [simp]:
  "sf_in (side_push out i (e\<lparr>armed_read := a, armed_write := b\<rparr>)) = sf_in (side_push out i e)"
  "sf_out (side_push out i (e\<lparr>armed_read := a, armed_write := b\<rparr>)) = sf_out (side_push out i e)"
  by (simp_all add: side_push_def)

lemma kqueue_arm_shape:
  assumes "kqueue_arm ko i r w = (ok, r', w')"
  shows "side_arms (kq_room ko) zero_kq_fd i r ok r'"
proof (cases "fd_slot (kq_room ko) zero_kq_fd (sqe_fd (sqe_of r i)) r")
  case (Pair x r1)
  show ?thesis
  proof (cases x)
    case None
    then have "r1 = r" using Pair
      by (cases rule: fd_slot_cases [of "kq_room ko" zero_kq_fd "sqe_fd (sqe_of r i)" r]) auto
    then show ?thesis using assms Pair None by (auto simp: kqueue_arm_def Let_def side_arms_def)
  next
    case (Some k)
    have "\<exists>e. r' = set_fd k e r1 \<and>
        (if ok then sf_in e = sf_in (side_push (waits_out (the_op r1 i)) i (r_be_state r1 ! k)) \<and>
             sf_out e = sf_out (side_push (waits_out (the_op r1 i)) i (r_be_state r1 ! k))
         else sf_in e = sf_in (r_be_state r1 ! k) \<and> sf_out e = sf_out (r_be_state r1 ! k))"
      using assms Pair Some
      by (auto simp: kqueue_arm_def Let_def split: if_splits prod.splits option.splits bool.splits)
    then show ?thesis using Pair Some by (auto simp: side_arms_def)
  qed
qed

lemma kqueue_forget_ok: "be_only r (kqueue_forget ko f r)" "sides_inv r \<Longrightarrow> sides_inv (kqueue_forget ko f r)"
proof -
  obtain x r1 where sl: "fd_slot (kq_room ko) zero_kq_fd f r = (x, r1)" by (cases "fd_slot (kq_room ko) zero_kq_fd f r")
  have eq: "kqueue_forget ko f r = (case x of None \<Rightarrow> r1 | Some k \<Rightarrow> set_fd k zero_kq_fd r1)"
    by (simp add: kqueue_forget_def sl split: option.split)
  show "be_only r (kqueue_forget ko f r)" "sides_inv r \<Longrightarrow> sides_inv (kqueue_forget ko f r)"
    by (rule side_forget_ok [OF sl _ _ eq]; simp)+
qed

interpretation kqueue: worker_backend sides_inv "kqueue_readiness ko" for ko :: "'w kqueue_os"
proof unfold_locales
  fix i r w r' and w' :: 'w and ok k f g
  show "be_only r r'" if "be_arm (kqueue_readiness ko) i r w = (ok, r', w')"
    using that by (intro side_arms_ok(1) [OF kqueue_arm_shape]) (simp_all add: kqueue_readiness_def)
  show "sides_inv (if ok then wait_join i r' else r')"
    if "be_arm (kqueue_readiness ko) i r w = (ok, r', w')" "sides_inv r" "i \<notin> set (r_waiting r)"
    using that by (intro side_arms_ok(2) [OF kqueue_arm_shape]) (simp_all add: kqueue_readiness_def)
  show "be_only r r'" if "be_disarm (kqueue_readiness ko) i r w = (r', w')"
    using that side_leave_only by (auto simp: kqueue_readiness_def kqueue_disarm_def)
  show "sides_inv r'" if "be_disarm (kqueue_readiness ko) (r_waiting r ! k) (wait_leave k r) w = (r', w')"
    "sides_inv r" "distinct (r_waiting r)" "k < length (r_waiting r)"
    using that(1) side_leave_ok [OF refl that(2) zero_kq_fd_sides that(3,4), of "kq_room ko"]
    by (simp add: kqueue_readiness_def kqueue_disarm_def)
  show "be_only r (g f r)" "sides_inv r \<Longrightarrow> sides_inv (g f r)" if "be_forget (kqueue_readiness ko) = Some g"
    using that kqueue_forget_ok by (auto simp: kqueue_readiness_def)
  show "be_submit_blocking (kqueue_readiness ko) = None" by (simp add: kqueue_readiness_def)
  show "sides_inv s" if "parked_same r s" "sides_inv r" for s by (rule sides_inv_cong [OF that])
qed

subsection \<open>Delivery\<close>

lemma note_one_ok:
  fixes r :: "kq_state slip_ring" and err :: i32 and i :: opid
  defines "r' \<equiv> upd_op i (\<lambda>op. op\<lparr>op_socket_error := err\<rparr>) r"
  shows "ring_inv sides_inv H r' = ring_inv sides_inv H r \<and> runs s r' = runs s r \<and>
    sides_inv r' = sides_inv r \<and> ready_ok seen ready r' = ready_ok seen ready r \<and>
    r_be_state r' = r_be_state r"
proof -
  have p: "parked_same r r'"
    by (simp add: r'_def parked_same_def sqe_of_def) (simp add: upd_op_def)
  have w: "ring_wf r' = ring_wf r" by (rule ring_wf_cong) (simp_all add: r'_def upd_op_def)
  have f: "r_op_pool_n r' = r_op_pool_n r" "r_be_state r' = r_be_state r" "r_waiting r' = r_waiting r"
    by (simp_all add: r'_def upd_op_def)
  have "ring_inv sides_inv H r' = ring_inv sides_inv H r"
    by (rule kqueue.R_same [OF p _ f(1) w]) (simp add: r'_def)
  moreover have "runs s r' = runs s r" by (simp add: r'_def runs_def upd_op_def)
  moreover have "sides_inv r' = sides_inv r" by (rule kqueue.I_same [OF p])
  moreover have "ready_ok seen ready r' = ready_ok seen ready r"
    unfolding ready_ok_def f by (auto simp: r'_def sqe_of_def waits_out_def split: if_splits)
  ultimately show ?thesis using f(2) by blast
qed

lemma note_error_ok:
  fixes r :: "kq_state slip_ring"
  shows "ring_inv sides_inv H (note_error err is r) = ring_inv sides_inv H r \<and>
    runs s (note_error err is r) = runs s r \<and> sides_inv (note_error err is r) = sides_inv r \<and>
    ready_ok seen ready (note_error err is r) = ready_ok seen ready r \<and>
    r_be_state (note_error err is r) = r_be_state r"
proof (induction "is" arbitrary: r)
  case (Cons i "is")
  have "note_error err (i # is) r = note_error err is (upd_op i (\<lambda>op. op\<lparr>op_socket_error := err\<rparr>) r)"
    by (simp add: note_error_def)
  then show ?case using Cons.IH note_one_ok by metis
qed (simp add: note_error_def)

lemma kq_event_ok:
  assumes "kq_event ko ((KQ_FD f, filt), eof, ff) ready r w = (ready', r', w')" "ring_inv sides_inv H r"
    "ready_ok seen ready r" "(f, filt = EVFILT_WRITE) \<notin> seen"
  shows "ring_inv sides_inv H r' \<and> runs r r' \<and> ready_ok (insert (f, filt = EVFILT_WRITE) seen) ready' r'"
proof (cases "fd_slot (kq_room ko) zero_kq_fd f r")
  case (Pair x r1)
  have b: "be_only r r1" by (rule fd_slot_only [OF Pair])
  have inv: "sides_inv r" using assms(2) by (simp add: ring_inv_def)
  have s1: "sides_inv r1" by (rule sides_inv_slot [OF Pair inv zero_kq_fd_sides])
  have r1: "ring_inv sides_inv H r1" "runs r r1" using be_only_inv [OF b s1 assms(2)] by auto
  have old: "ready_ok seen ready r1" using assms(3) by (simp add: ready_ok_be [OF b])
  let ?out = "filt = EVFILT_WRITE"
  have seen: "ready_ok (insert (f, ?out) seen) ready r1" by (rule ready_ok_more [OF old]) blast
  show ?thesis
  proof (cases x)
    case None
    with assms(1) Pair r1 seen show ?thesis by (auto simp: kq_event_def)
  next
    case (Some k)
    note sl = fd_slot_Some [OF Pair [unfolded Some]]
    let ?e = "r_be_state r1 ! k"
    let ?side = "if ?out then sf_out ?e else sf_in ?e"
    let ?woken = "take (unat (r_op_pool_n r1) - length ready) ?side"
    let ?r2 = "if ?out \<and> (if eof then ff else 0) \<noteq> 0 then note_error (if eof then ff else 0) ?woken r1 else r1"
    have r2: "ring_inv sides_inv H ?r2" "runs r ?r2" "sides_inv ?r2" "r_be_state ?r2 = r_be_state r1"
      "\<And>seen ready. ready_ok seen ready ?r2 = ready_ok seen ready r1"
      using r1 s1 by (simp_all add: note_error_ok)
    show ?thesis
    proof (cases "?woken = []")
      case True
      have e: "sides_inv (set_fd k (set_armed ?out False ?e) ?r2)"
        using sides_inv_entry [OF r2(3), of k] sl(3) r2(4) by (intro sides_inv_set [OF r2(3)]) simp_all
      have "r' = set_fd k (set_armed ?out False ?e) ?r2" "ready' = ready"
        using assms(1) Pair Some True by (auto simp: kq_event_def Let_def)
      moreover have "ring_inv sides_inv H (set_fd k (set_armed ?out False ?e) ?r2) \<and>
          runs ?r2 (set_fd k (set_armed ?out False ?e) ?r2)"
        by (rule be_only_inv [OF set_fd_only e r2(1)])
      ultimately show ?thesis
        using r2(2) seen by (auto simp: ready_ok_be [OF set_fd_only] r2(5) intro: runs_trans)
    next
      case False
      then have eq: "r' = ?r2" "ready' = ready @ ?woken"
        using assms(1) Pair Some by (auto simp: kq_event_def Let_def)
      have "side_ok r1 (unat f) ?out ?side"
        using sides_inv_entry [OF s1 sl(3)] sl(1) by auto
      from ready_ok_add [OF old assms(4) this] show ?thesis
        unfolding eq r2(5) using r2(1,2) by blast
    qed
  qed
qed

lemma kq_events_ok:
  assumes "kq_events ko evs ready r w = (ready', r', w')" "distinct (map fst evs)"
    "ring_inv sides_inv H r" "ready_ok seen ready r"
    "\<And>f filt. (KQ_FD f, filt) \<in> fst ` set evs \<Longrightarrow> (f, filt = EVFILT_WRITE) \<notin> seen"
  shows "ring_inv sides_inv H r' \<and> runs r r' \<and> distinct ready' \<and> set ready' \<subseteq> set (r_waiting r')"
  using assms
proof (induction evs arbitrary: ready r w seen)
  case Nil
  then show ?case by (auto simp: ready_ok_def)
next
  case (Cons ev evs)
  obtain who filt eof ff where ev: "ev = ((who, filt), eof, ff)" by (cases ev) auto
  obtain rd1 r1 w1 where one: "kq_event ko ev ready r w = (rd1, r1, w1)" by (metis prod_cases3)
  have rest: "kq_events ko evs rd1 r1 w1 = (ready', r', w')" using Cons.prems(1) by (simp add: one)
  have dist: "distinct (map fst evs)" using Cons.prems(2) by simp
  show ?case
  proof (cases who)
    case KQ_CTL
    then have "rd1 = ready" "r1 = r \<or> r1 = r\<lparr>r_ctl := False\<rparr>"
      using one by (auto simp: ev kq_event_def slip_posix_ctl_drain_def split: kq_filter.splits)
    then have i1: "ring_inv sides_inv H r1" "ready_ok seen rd1 r1" "runs r r1"
      using Cons.prems(3,4) by auto
    from Cons.IH [OF rest dist i1(1,2)] Cons.prems(5) i1(3) show ?thesis by (auto intro: runs_trans)
  next
    case (KQ_FD f)
    have f: "(f, filt = EVFILT_WRITE) \<notin> seen" using Cons.prems(5) by (simp add: ev KQ_FD)
    note eo = kq_event_ok [OF one [unfolded ev KQ_FD] Cons.prems(3,4) f]
    have fresh: "(g, fl = EVFILT_WRITE) \<notin> insert (f, filt = EVFILT_WRITE) seen"
      if "(KQ_FD g, fl) \<in> fst ` set evs" for g fl
    proof -
      have "(g, fl) \<noteq> (f, filt)" using that Cons.prems(2) by (auto simp: ev KQ_FD)
      then have "(g, fl = EVFILT_WRITE) \<noteq> (f, filt = EVFILT_WRITE)" by (cases fl; cases filt) auto
      then show ?thesis using that Cons.prems(5) [of g fl] by auto
    qed
    from Cons.IH [OF rest dist _ _ fresh] eo show ?thesis by (auto intro: runs_trans)
  qed
qed

lemma kqueue_wait_inv:
  assumes "kqueue_wait os ko r cap t w = Some (fin, r', w')" "ring_inv sides_inv H r"
  shows "ring_inv sides_inv (mset (map fst (case fin of None \<Rightarrow> [] | Some ds \<Rightarrow> ds)) + H) r' \<and> runs r r'"
proof -
  obtain a w1 where wt: "ko_wait ko t w = (a, w1)" by (cases "ko_wait ko t w")
  show ?thesis
  proof (cases a)
    case None
    then show ?thesis using assms by (auto simp: kqueue_wait_def wt)
  next
    case (Some evs)
    obtain ready r1 w2 where sc: "kq_events ko (AList.clearjunk evs) [] r w1 = (ready, r1, w2)"
      by (metis prod_cases3)
    have s: "ring_inv sides_inv H r1 \<and> runs r r1 \<and> distinct ready \<and> set ready \<subseteq> set (r_waiting r1)"
      by (rule kq_events_ok [OF sc distinct_clearjunk assms(2), of "{}"]) (simp_all add: ready_ok_def)
    obtain ds where fr: "slip_posix_finish_ready (kqueue_readiness ko) os ready cap [] r1 w2 = Some (ds, r', w')"
      and fin: "fin = Some ds"
      using assms(1) by (auto simp: kqueue_wait_def wt Some sc split: option.splits)
    have "ring_inv sides_inv (mset (map fst ds) + H) r' \<and> runs r1 r'"
      using s by (intro kqueue.slip_posix_finish_ready_inv [OF fr]) auto
    then show ?thesis using s fin by (auto intro: runs_trans)
  qed
qed

interpretation kqueue_engine: backend_contract "ring_inv sides_inv" "slip_backend_kqueue os ko"
  for os :: "'w os" and ko :: "'w kqueue_os"
proof unfold_locales
  show "ring_inv sides_inv (exec_hands i x H) r' \<and> runs r r'"
    if "eb_execute (slip_backend_kqueue os ko) i r w = Some (x, r', w')"
      "ring_inv sides_inv (add_mset i H) r" for i r w x r' w' H
    using that by (intro kqueue.slip_posix_execute_inv) (simp_all add: slip_backend_kqueue_def)
  show "ring_inv sides_inv (mset (map fst (case fin of None \<Rightarrow> [] | Some ds \<Rightarrow> ds)) + H) r' \<and> runs r r'"
    if "eb_wait (slip_backend_kqueue os ko) r cap t w = Some (fin, r', w')" "ring_inv sides_inv H r"
    for r cap t w fin r' w' H
    using that by (intro kqueue_wait_inv) (simp_all add: slip_backend_kqueue_def)
  show "ring_inv sides_inv H (poke r) \<and> runs r (poke r)"
    if "eb_poke (slip_backend_kqueue os ko) = Some poke" "ring_inv sides_inv H r" for poke H r
    using that by (auto simp: slip_backend_kqueue_def slip_posix_poke_def)
qed

interpretation kqueue_setup: ring_opening "ring_inv sides_inv" "slip_backend_kqueue os ko"
  for os :: "'w os" and ko :: "'w kqueue_os"
proof unfold_locales
  fix r :: "kq_state slip_ring" and nul and w w' :: 'w and sq_n cq_n :: u32 and k
  assume open_ring: "eb_open_ring (slip_backend_kqueue os ko) (sized_ring nul sq_n cq_n) w = (Some r, w')"
    and k: "unat cq_n = 2 ^ k" "k < 32"
  then have r: "r = (sized_ring nul sq_n cq_n)\<lparr>r_be_state := [], r_ctl := False\<rparr>"
    by (auto simp: slip_backend_kqueue_def kqueue_open_ring_def slip_posix_ctl_open_def
        split: prod.splits if_splits option.splits)
  show "ring_inv sides_inv {#} (ring_ready r)"
    by (rule kqueue.opened_ring_inv [OF r _ k]) (simp add: r sides_inv_def)
qed

end
