(* ===== verification/Sample.thy ===== *)
theory Sample
  imports Select Epoll Kqueue
begin

text \<open>
  A concrete system and concrete rings, on which the theorems of the root theory are
  exercised.  Nothing is ever ready on a socket here, every descriptor is one, and each call
  that creates something answers descriptor 9.
\<close>

subsection \<open>A quiet system\<close>

definition no_data :: "sysret \<times> unit" where "no_data = (SysErr EAGAIN, ())"
definition all_fine :: "sysret \<times> unit" where "all_fine = (SysOk 0, ())"
definition fd_nine :: "sysret \<times> unit" where "fd_nine = (SysOk 9, ())"

definition sample_mem :: umem where
  "sample_mem = \<lparr>um_tail = (\<lambda>_. 2),
     um_buf = (\<lambda>base k. \<lparr>buf_addr = base + 4096 * of_nat k, buf_len = 64, buf_bid = of_nat k\<rparr>)\<rparr>"

definition sample_os :: "unit os" where
  "sample_os = \<lparr>os_mem = (\<lambda>_. sample_mem),
     os_ld_msghdr = (\<lambda>_ _. \<lparr>msg_namelen = 0, msg_controllen = 0\<rparr>),
     os_st_recvmsg_out = (\<lambda>_ _ w. w),
     os_close = (\<lambda>_ _. all_fine), os_getfl = (\<lambda>_ _. (SysOk 0, ())), os_setfl = (\<lambda>_ _ w. w),
     os_fstat = (\<lambda>_ _. Some F_OTHER), os_accept4 = (\<lambda>_ _ _ _ _. no_data),
     os_recv = (\<lambda>_ _ _ _ _. no_data), os_send = (\<lambda>_ _ n _ _. (SysOk (uint n), ())),
     os_recvmsg = (\<lambda>_ _ _ _. no_data), os_recvmsg_at = (\<lambda>_ _ _ _. ((SysErr EAGAIN, 0, 0, 0), ())),
     os_sendmsg = (\<lambda>_ _ _ _. all_fine), os_read = (\<lambda>_ _ _ _. no_data),
     os_pread = (\<lambda>_ _ _ _ _. no_data), os_write = (\<lambda>_ _ n _. (SysOk (uint n), ())),
     os_pwrite = (\<lambda>_ _ n _ _. (SysOk (uint n), ())), os_preadv2_nowait = (\<lambda>_ _ _ _ _. no_data),
     os_pwritev2_nowait = (\<lambda>_ _ _ _ _. no_data), os_socket = (\<lambda>_ _ _ _. fd_nine),
     os_bind = (\<lambda>_ _ _ _. all_fine), os_listen = (\<lambda>_ _ _. all_fine),
     os_shutdown = (\<lambda>_ _ _. all_fine), os_poll = (\<lambda>_ _ _. (Some 0, ())),
     os_statx = (\<lambda>_ _ _ _ _ _. all_fine), os_unlinkat = (\<lambda>_ _ _ _. all_fine),
     os_setsockopt = (\<lambda>_ _ _ _ _ _. all_fine), os_getsockopt = (\<lambda>_ _ _ _ _ _. ((SysOk 0, 4), ())),
     os_getpeername = (\<lambda>_ _ _ _. all_fine), os_getsockname = (\<lambda>_ _ _ _. all_fine),
     os_so_error = (\<lambda>_ _. (Inr 0, ())), os_peer_known = (\<lambda>_ _. all_fine),
     os_connect = (\<lambda>_ _ _ _. (SysErr EINPROGRESS, ())), os_openat = (\<lambda>_ _ _ _ _. fd_nine),
     os_thrd_create = (\<lambda>_. (True, ())), os_openat2 = (\<lambda>_ _ _ _ _. fd_nine)\<rparr>"

definition sample_eo :: "unit epoll_os" where
  "sample_eo = \<lparr>eo_pipe = (\<lambda>_. (True, ())), eo_create = (\<lambda>_. (True, ())),
     eo_ctl = (\<lambda>_ _ _ _. (None, ())), eo_wait = (\<lambda>_ _. (Some [(EP_CTL, EPOLLIN)], ())),
     ep_room = (\<lambda>_. True)\<rparr>"

definition sample_ko :: "unit kqueue_os" where
  "sample_ko = \<lparr>ko_pipe = (\<lambda>_. (True, ())), ko_create = (\<lambda>_. (True, ())),
     ko_change = (\<lambda>_ _ _ _. (True, ())), ko_wait = (\<lambda>_ _. (Some [((KQ_CTL, EVFILT_READ), False, 0)], ())),
     kq_room = (\<lambda>_. True)\<rparr>"

definition sample_so :: "unit select_os" where
  "sample_so = \<lparr>sel_select = (\<lambda>_ _ _ _ _. (Some ([], [], [], True), ())), sel_pipe = (\<lambda>_. (True, ()))\<rparr>"

definition sample_clock :: "unit \<Rightarrow> timespec \<times> unit" where
  "sample_clock w = ((100, 0), ())"

subsection \<open>Rings\<close>

text \<open>An empty ring of two submissions and four completions, and one in which a NOP and a
  receive have been submitted.\<close>

definition sample_ring :: "'b \<Rightarrow> 'b slip_ring" where
  "sample_ring nul = ring_ready (sized_ring nul 2 4)"

definition nop_sqe :: "u64 \<Rightarrow> sqe" where
  "nop_sqe ud = zero_sqe\<lparr>sqe_opcode := OP_NOP, sqe_user_data := ud\<rparr>"

definition recv_sqe :: "u64 \<Rightarrow> i32 \<Rightarrow> sqe" where
  "recv_sqe ud fd = zero_sqe\<lparr>sqe_opcode := OP_RECV, sqe_user_data := ud, sqe_fd := fd, sqe_len := 64\<rparr>"

definition submitted_ring :: "'b \<Rightarrow> 'b slip_ring" where
  "submitted_ring nul = (sample_ring nul)
     \<lparr>r_sq := (r_sq (sample_ring nul))\<lparr>sq_tail := 2, sq_array := (\<lambda>k. of_nat k)\<rparr>,
      r_sqes := (\<lambda>k. if k = 0 then nop_sqe 7 else recv_sqe 8 5)\<rparr>"

lemma sample_ring_inv:
  assumes "I (sample_ring nul)"
  shows "ring_inv I {#} (sample_ring nul)"
  using sized_ring_inv [of 4 2 I nul 2] assms by (simp add: sample_ring_def)

lemma sample_ring_wf: "ring_wf (sample_ring nul)" and sample_pool_ok: "pool_ok (sample_ring nul) {#}"
  using sample_ring_inv [of "\<lambda>_. True" nul] by (simp_all add: ring_inv_def)

lemma sample_cq_wf: "cq_wf (sample_ring nul)" and sample_fixed_wf: "fixed_wf (sample_ring nul)"
  and sample_bufrings_wf: "bufrings_wf (sample_ring nul)"
  using sample_ring_wf [of nul] by (simp_all add: ring_wf_def)

lemma sides_inv_nil: "r_be_state r = [] \<Longrightarrow> sides_inv r"
  by (simp add: sides_inv_def)

lemma sample_be_state [simp]: "r_be_state (sample_ring nul) = nul" "r_be_state (submitted_ring nul) = nul"
  by (simp_all add: submitted_ring_def) (simp_all add: sample_ring_def ring_ready_def sized_ring_def zero_ring_def)

lemma submitted_ring_inv:
  assumes "wait_invariant I" "I (sample_ring nul)"
  shows "ring_inv I {#} (submitted_ring nul)"
proof -
  have "ring_wf (submitted_ring nul) = ring_wf (sample_ring nul)"
    by (rule ring_wf_cong) (simp_all add: submitted_ring_def)
  then show ?thesis
    by (subst ring_contract.R_same [OF wait_invariant.contract [OF assms(1)], of "sample_ring nul"])
      (simp_all add: sample_ring_inv assms(2) parked_same_plain submitted_ring_def acct_def)
qed

subsection \<open>Evaluating the loops\<close>

lemma process_queue_done: "r_queue (rs ! me) = [] \<Longrightarrow> process_queue be me rs w = Some (rs, w)"
  by (subst process_queue.simps) simp

lemma process_queue_held:
  "r_blocking (rs ! me) \<noteq> None \<Longrightarrow> process_queue be me rs w = Some (rs, w)"
  by (subst process_queue.simps) (simp split: list.split)

lemma process_queue_next:
  "r_queue (rs ! me) = i # q \<Longrightarrow> r_blocking (rs ! me) = None \<Longrightarrow>
     process_queue be me rs w = Option.bind (process_one be me i (rs[me := (rs ! me)\<lparr>r_queue := q\<rparr>]) w)
       (\<lambda>(rs, w). process_queue be me rs w)"
  by (subst process_queue.simps) simp

lemmas sample_rings = submitted_ring_def sample_ring_def ring_ready_def sized_ring_def zero_ring_def
  nop_sqe_def recv_sqe_def zero_sqe_def zero_op_def

declare run_accept_multishot.simps [code] run_recv_multishot.simps [code] recvmsg_loop.simps [code]
  cancel_waiting.simps [code] process_queue.simps [code] wait_loop.simps [code] round_loop.simps [code]

lemma sample_rings_inv:
  assumes "wait_invariant I" "I (sample_ring nul)"
  shows "rings_inv (ring_inv I) (\<lambda>_. {#}) [submitted_ring nul]"
  using submitted_ring_inv [OF assms] by (simp add: rings_inv_def)

text \<open>One \<open>enter\<close> per backend: the NOP completes and the receive is parked.\<close>

definition sample_enter :: "('b, unit) eng_backend \<Rightarrow> 'b \<Rightarrow> (i32 \<times> 'b slip_ring list \<times> unit) option" where
  "sample_enter be nul = slipstream_engine_enter be sample_clock (ring_token 0) 2 0 0 None 0
     [submitted_ring nul] ()"

lemma sample_enter_epoll: "map_option fst (sample_enter (slip_backend_epoll sample_os sample_eo) []) = Some 2"
  by code_simp

lemma sample_enter_kqueue: "map_option fst (sample_enter (slip_backend_kqueue sample_os sample_ko) []) = Some 2"
  by code_simp

lemma sample_enter_select: "map_option fst (sample_enter (slip_backend_select sample_os sample_so) ()) = Some 2"
  by code_simp

subsection \<open>Rings in the middle of their work\<close>

text \<open>The ops \<open>0, 1, \<dots>\<close> of a fresh ring with the entries \<open>ss\<close>, all of them queued.\<close>

definition queued_ring :: "'b \<Rightarrow> sqe list \<Rightarrow> 'b slip_ring" where
  "queued_ring nul ss = (sample_ring nul)
     \<lparr>r_op_free := [length ss..<4], r_queue := [0..<length ss],
      r_op_pool := (\<lambda>k. if k < length ss then zero_op\<lparr>op_sqe := ss ! k\<rparr> else zero_op)\<rparr>"

lemma sample_ring_fields [simp]:
  "r_waiting (sample_ring nul) = []" "r_op_pool_n (sample_ring nul) = 4"
  "r_op_free (sample_ring nul) = [0..<4]" "r_backlog (sample_ring nul) = []"
  "r_wq (sample_ring nul) = []" "r_queue (sample_ring nul) = []" "r_in_use (sample_ring nul)"
  "r_blocking (sample_ring nul) = None" "r_chain_failed (sample_ring nul) = SLIP_CHAIN_HOLDS"
  by (simp_all add: sample_rings)

lemma queued_ring_fields [simp]:
  "r_waiting (queued_ring nul ss) = []" "r_op_pool_n (queued_ring nul ss) = 4"
  "r_queue (queued_ring nul ss) = [0..<length ss]" "r_be_state (queued_ring nul ss) = nul"
  "r_in_use (queued_ring nul ss)" "r_blocking (queued_ring nul ss) = None"
  "r_chain_failed (queued_ring nul ss) = SLIP_CHAIN_HOLDS"
  by (simp_all add: queued_ring_def)

lemma queued_ring_inv:
  assumes "wait_invariant I" "I (sample_ring nul)" "length ss \<le> 4"
  shows "ring_inv I {#} (queued_ring nul ss)"
proof -
  have "ring_wf (queued_ring nul ss) = ring_wf (sample_ring nul)"
    by (rule ring_wf_cong) (simp_all add: queued_ring_def)
  moreover have "acct (queued_ring nul ss) = acct (sample_ring nul)"
  proof -
    have "[0..<4] = [0..<length ss] @ [length ss..<4]"
      using upt_add_eq_append [of 0 "length ss" "4 - length ss"] assms(3) by simp
    then show ?thesis by (simp add: acct_def queued_ring_def)
  qed
  moreover have "parked_same (sample_ring nul) (queued_ring nul ss)" by (simp add: parked_same_def)
  ultimately show ?thesis
    using sample_ring_inv [of I nul, OF assms(2)] ring_contract.R_same [OF wait_invariant.contract [OF assms(1)]] by simp
qed

text \<open>Entries with the link bit, and the cancel and the message between rings.\<close>

definition linked_sqe :: "sqe \<Rightarrow> sqe" where
  "linked_sqe s = s\<lparr>sqe_flags := set_bit 2 (sqe_flags s)\<rparr>"

definition cancel_sqe :: "u64 \<Rightarrow> u32 \<Rightarrow> sqe" where
  "cancel_sqe target fl = zero_sqe\<lparr>sqe_opcode := OP_ASYNC_CANCEL, sqe_addr := target,
     sqe_op_flags := fl, sqe_user_data := 99\<rparr>"

definition msg_sqe :: "i32 \<Rightarrow> u64 \<Rightarrow> u32 \<Rightarrow> sqe" where
  "msg_sqe fd off len = zero_sqe\<lparr>sqe_opcode := OP_MSG_RING, sqe_fd := fd, sqe_off := off, sqe_len := len\<rparr>"

lemmas sample_sqes = nop_sqe_def recv_sqe_def linked_sqe_def cancel_sqe_def msg_sqe_def zero_sqe_def

lemma sample_drains: "drains sample_os (\<lambda>_. 0)"
  by (simp add: drains_def sample_os_def no_data_def)

text \<open>An op in the engine's hands, a receive, and the ring after it was parked.\<close>

definition taken_ring :: "ep_state slip_ring" where
  "taken_ring = (queued_ring [] [recv_sqe 8 5])\<lparr>r_queue := []\<rparr>"

definition parked_ring :: "ep_state slip_ring" where
  "parked_ring = fst (snd (park (epoll_readiness sample_eo) 0
     (upd_op 0 (set_wait POLLIN) taken_ring) ()))"

lemma taken_ring_inv: "ring_inv sides_inv {#0#} taken_ring"
proof -
  have "ring_inv sides_inv {#} (queued_ring ([] :: ep_state) [recv_sqe 8 5])"
    by (simp add: queued_ring_inv epoll.wait_invariant_axioms sides_inv_nil)
  from epoll.take_queue_inv(1) [OF this, of "[]" 0 "[]"] show ?thesis by (simp add: taken_ring_def)
qed

lemma parked_ring_inv: "ring_inv sides_inv {#} parked_ring" "set (r_waiting parked_ring) = {0}"
proof -
  let ?r = "upd_op 0 (set_wait POLLIN) taken_ring"
  obtain ok r w where p: "park (epoll_readiness sample_eo) 0 ?r () = (ok, r, w)" by (metis prod_cases3)
  have "fst (park (epoll_readiness sample_eo) 0 ?r ())" by code_simp
  then have ok: "ok = True" by (simp add: p)
  note i = epoll.park_inv [OF p epoll.upd_op_inv(1) [OF taken_ring_inv]]
  show "ring_inv sides_inv {#} parked_ring" "set (r_waiting parked_ring) = {0}"
    using i by (simp_all add: parked_ring_def p ok) (simp add: upd_op_def taken_ring_def)
qed

text \<open>The numbers of the opcodes in the io_uring ABI.\<close>

fun sample_num :: "opcode \<Rightarrow> u8" where
  "sample_num OP_NOP = 0" | "sample_num OP_POLL_ADD = 6" | "sample_num OP_POLL_REMOVE = 7"
| "sample_num OP_SENDMSG = 9" | "sample_num OP_RECVMSG = 10" | "sample_num OP_ACCEPT = 13"
| "sample_num OP_ASYNC_CANCEL = 14" | "sample_num OP_CONNECT = 16" | "sample_num OP_OPENAT = 18"
| "sample_num OP_CLOSE = 19" | "sample_num OP_STATX = 21" | "sample_num OP_READ = 22"
| "sample_num OP_WRITE = 23" | "sample_num OP_SEND = 26" | "sample_num OP_RECV = 27"
| "sample_num OP_OPENAT2 = 28" | "sample_num OP_SHUTDOWN = 34" | "sample_num OP_UNLINKAT = 36"
| "sample_num OP_MSG_RING = 40" | "sample_num OP_SOCKET = 45" | "sample_num OP_URING_CMD = 46"
| "sample_num OP_BIND = 56" | "sample_num OP_LISTEN = 57" | "sample_num (OP_OTHER n) = n"

end
