(* ===== verification/Dispatch.thy ===== *)
theory Dispatch
  imports Sides
begin

text \<open>
  The dispatch backend (\<open>src/src/engine_dispatch.c\<close>), over Grand Central Dispatch: a source per
  waited-for side of a descriptor reports readiness, ops that must block go to GCD's pool or to
  a file channel, and a wait collects both behind one semaphore, the door.  The chain of
  descriptors through \<open>next_ready\<close> is the list \<open>d_ready\<close>.  What has been handed to GCD and has
  not had its last word is the list \<open>d_jobs\<close>, and \<open>d_ending\<close> counts the cancelled sources
  whose cancel handler has not run.  Everything GCD decides is a parameter: the record
  \<open>dispatch_os\<close> and the handlers it runs while the engine waits.
\<close>

subsection \<open>State\<close>

record dsp_fd = side_fd +
  df_rd :: bool            \<comment> \<open>there is a read source\<close>
  df_wr :: bool
  df_rd_hit :: bool
  df_wr_hit :: bool
  df_queued :: bool

definition zero_dsp_fd :: dsp_fd where
  "zero_dsp_fd = \<lparr>sf_in = [], sf_out = [], df_rd = False, df_wr = False, df_rd_hit = False,
     df_wr_hit = False, df_queued = False\<rparr>"

text \<open>A job is an op at the pool, or a request of a file channel: whether it writes, its length
  and what it has copied.\<close>

datatype dsp_job = Job_pool opid | Job_io opid bool u32 nat

fun job_op :: "dsp_job \<Rightarrow> opid" where
  "job_op (Job_pool i) = i"
| "job_op (Job_io i _ _ _) = i"

record dsp_state =
  d_there :: bool          \<comment> \<open>\<open>be_state\<close> is not null\<close>
  d_fds :: "dsp_fd list"
  d_ready :: "nat list"
  d_done :: "eng_done list"
  d_done_max :: nat
  d_live :: nat
  d_knocked :: bool
  d_sem :: nat
  d_gate :: nat
  d_jobs :: "dsp_job list"
  d_ending :: nat

definition zero_dsp :: dsp_state where
  "zero_dsp = \<lparr>d_there = False, d_fds = [], d_ready = [], d_done = [], d_done_max = 0, d_live = 0,
     d_knocked = False, d_sem = 0, d_gate = 0, d_jobs = [], d_ending = 0\<rparr>"

type_synonym dsp_ring = "dsp_state slip_ring"

definition upd_st :: "(dsp_state \<Rightarrow> dsp_state) \<Rightarrow> dsp_ring \<Rightarrow> dsp_ring" where
  "upd_st g r = r\<lparr>r_be_state := g (r_be_state r)\<rparr>"

definition set_entry :: "nat \<Rightarrow> dsp_fd \<Rightarrow> dsp_state \<Rightarrow> dsp_state" where
  "set_entry k e st = st\<lparr>d_fds := (d_fds st)[k := e]\<rparr>"

text \<open>What GCD runs while the engine is elsewhere: a source's event handler, a cancel handler, an
  op of the pool, and what a channel says of a request (whether it is done, what remains or the
  sizes of the regions that arrived, and an error).\<close>

datatype gcd_event =
    Ev_report i32 bool
  | Ev_cancelled
  | Ev_job nat
  | Ev_write nat bool u32 i32
  | Ev_read nat bool "nat list" i32

record 'w dispatch_os =
  dso_alloc :: "'w \<Rightarrow> bool \<times> 'w"
  dso_room :: "nat \<Rightarrow> bool"
  dso_source :: "i32 \<Rightarrow> bool \<Rightarrow> 'w \<Rightarrow> bool \<times> 'w"
  dso_channel :: "i32 \<Rightarrow> 'w \<Rightarrow> bool \<times> 'w"
  dso_wait :: "int \<Rightarrow> 'w \<Rightarrow> gcd_event list \<times> 'w"     \<comment> \<open>what runs until the door opens or the time is up\<close>
  dso_sync :: "'w \<Rightarrow> gcd_event list \<times> 'w"            \<comment> \<open>what runs before the barrier\<close>
  dso_gate :: "'w \<Rightarrow> gcd_event list \<times> 'w"

subsection \<open>The table\<close>

definition dsp_slot :: "'w dispatch_os \<Rightarrow> i32 \<Rightarrow> dsp_ring \<Rightarrow> nat option \<times> dsp_ring" where
  "dsp_slot dso f r =
     (let fds = d_fds (r_be_state r) in
      if neg32 f then (None, r)
      else if length fds \<le> unat f then
        let want = grow_to (if length fds = 0 then 64 else length fds) (unat f) in
        if \<not> dso_room dso want then (None, r)
        else (Some (unat f), upd_st (\<lambda>st. st\<lparr>d_fds := fds @ replicate (want - length fds) zero_dsp_fd\<rparr>) r)
      else (Some (unat f), r))"

subsection \<open>The door\<close>

text \<open>\<open>True\<close> where the caller owes the door a knock.\<close>

definition dsp_knock_locked :: "dsp_state \<Rightarrow> bool \<times> dsp_state" where
  "dsp_knock_locked st = (if d_knocked st then (False, st) else (True, st\<lparr>d_knocked := True\<rparr>))"

definition sem_signal :: "dsp_state \<Rightarrow> dsp_state" where
  "sem_signal st = st\<lparr>d_sem := Suc (d_sem st)\<rparr>"

definition gate_signal :: "dsp_state \<Rightarrow> dsp_state" where
  "gate_signal st = st\<lparr>d_gate := Suc (d_gate st)\<rparr>"

definition owe :: "bool \<times> dsp_state \<Rightarrow> dsp_state" where
  "owe x = (if fst x then sem_signal (snd x) else snd x)"

definition note_hit :: "bool \<Rightarrow> dsp_fd \<Rightarrow> dsp_fd" where
  "note_hit writing e = (if writing then e\<lparr>df_wr_hit := True\<rparr> else e\<lparr>df_rd_hit := True\<rparr>)"

definition dsp_report_locked :: "i32 \<Rightarrow> bool \<Rightarrow> dsp_state \<Rightarrow> bool \<times> dsp_state" where
  "dsp_report_locked f writing st =
     (let k = unat f in
      if k < length (d_fds st) then
        let e = note_hit writing (d_fds st ! k);
            st = (if \<not> df_queued e
                  then (set_entry k (e\<lparr>df_queued := True\<rparr>) st)\<lparr>d_ready := k # d_ready st\<rparr>
                  else set_entry k e st)
        in dsp_knock_locked st
      else (False, st))"

definition dsp_report :: "i32 \<Rightarrow> bool \<Rightarrow> dsp_state \<Rightarrow> dsp_state" where
  "dsp_report f writing st = owe (dsp_report_locked f writing st)"

definition dsp_poke :: "dsp_ring \<Rightarrow> dsp_ring" where
  "dsp_poke r = upd_st (\<lambda>st. owe (dsp_knock_locked st)) r"

subsection \<open>Sources\<close>

definition dsp_source_stop :: "bool \<Rightarrow> dsp_state \<Rightarrow> dsp_state" where
  "dsp_source_stop src st = (if src then st\<lparr>d_ending := Suc (d_ending st)\<rparr> else st)"

definition dsp_source_start :: "'w dispatch_os \<Rightarrow> i32 \<Rightarrow> bool \<Rightarrow> dsp_ring \<Rightarrow> 'w \<Rightarrow> bool \<times> dsp_ring \<times> 'w" where
  "dsp_source_start dso f writing r w =
     (case dso_source dso f writing w of
        (False, w) \<Rightarrow> (False, r, w)
      | (True, w) \<Rightarrow> (True, upd_st (\<lambda>st. st\<lparr>d_live := Suc (d_live st)\<rparr>) r, w))"

text \<open>A cancelled source's last word.\<close>

definition dsp_cancelled_locked :: "dsp_state \<Rightarrow> dsp_state" where
  "dsp_cancelled_locked st = st\<lparr>d_ending := d_ending st - 1, d_live := d_live st - 1\<rparr>"

definition dsp_cancelled :: "dsp_state \<Rightarrow> dsp_state" where
  "dsp_cancelled st = (if d_ending st = 0 then st else gate_signal (dsp_cancelled_locked st))"

subsection \<open>Parking\<close>

definition set_source :: "bool \<Rightarrow> bool \<Rightarrow> dsp_fd \<Rightarrow> dsp_fd" where
  "set_source writing there e = (if writing then e\<lparr>df_wr := there\<rparr> else e\<lparr>df_rd := there\<rparr>)"

definition side_of :: "bool \<Rightarrow> dsp_fd \<Rightarrow> opid list" where
  "side_of writing e = (if writing then sf_out e else sf_in e)"

definition dsp_arm :: "'w dispatch_os \<Rightarrow> opid \<Rightarrow> dsp_ring \<Rightarrow> 'w \<Rightarrow> bool \<times> dsp_ring \<times> 'w" where
  "dsp_arm dso i r w =
     (case dsp_slot dso (sqe_fd (sqe_of r i)) r of
        (None, r) \<Rightarrow> (False, r, w)
      | (Some k, r) \<Rightarrow>
          let writing = waits_out (the_op r i);
              e = d_fds (r_be_state r) ! k;
              joined = side_push writing i e
          in if side_of writing e \<noteq> [] then (True, upd_st (set_entry k joined) r, w)
             else case dsp_source_start dso (sqe_fd (sqe_of r i)) writing r w of
               (False, r, w) \<Rightarrow> (False, r, w)
             | (True, r, w) \<Rightarrow> (True, upd_st (set_entry k (set_source writing True joined)) r, w))"

definition dsp_disarm :: "'w dispatch_os \<Rightarrow> opid \<Rightarrow> dsp_ring \<Rightarrow> 'w \<Rightarrow> dsp_ring \<times> 'w" where
  "dsp_disarm dso i r w =
     (case dsp_slot dso (sqe_fd (sqe_of r i)) r of
        (None, r) \<Rightarrow> (r, w)
      | (Some k, r) \<Rightarrow>
          let writing = waits_out (the_op r i);
              e = side_remove writing i (d_fds (r_be_state r) ! k);
              src = (if writing then df_wr e else df_rd e)
          in if side_of writing e = [] \<and> src
             then (upd_st (\<lambda>st. dsp_source_stop src (set_entry k (set_source writing False e) st)) r, w)
             else (upd_st (set_entry k e) r, w))"

definition dsp_forget :: "i32 \<Rightarrow> dsp_ring \<Rightarrow> dsp_ring" where
  "dsp_forget f r =
     (let fds = d_fds (r_be_state r); k = unat f in
      if neg32 f \<or> length fds \<le> k then r
      else let e = fds ! k in
        upd_st (\<lambda>st. dsp_source_stop (df_wr e) (dsp_source_stop (df_rd e)
          (set_entry k (e\<lparr>sf_in := [], sf_out := [], df_rd := False, df_wr := False,
                          df_rd_hit := False, df_wr_hit := False\<rparr>) st))) r)"

subsection \<open>What must block\<close>

definition dsp_done_locked :: "opid \<Rightarrow> i32 \<Rightarrow> dsp_state \<Rightarrow> bool \<times> dsp_state" where
  "dsp_done_locked i res st =
     (let st = (if length (d_done st) < d_done_max st then st\<lparr>d_done := d_done st @ [(i, res)]\<rparr> else st)
      in dsp_knock_locked (st\<lparr>d_live := d_live st - 1\<rparr>))"

definition dsp_done :: "opid \<Rightarrow> i32 \<Rightarrow> dsp_state \<Rightarrow> dsp_state" where
  "dsp_done i res st = gate_signal (owe (dsp_done_locked i res st))"

definition start_job :: "dsp_job \<Rightarrow> dsp_ring \<Rightarrow> dsp_ring" where
  "start_job j r = upd_st (\<lambda>st. st\<lparr>d_live := Suc (d_live st), d_jobs := d_jobs st @ [j]\<rparr>) r"

definition dsp_file_channel :: "'w dispatch_os \<Rightarrow> opid \<Rightarrow> dsp_ring \<Rightarrow> 'w \<Rightarrow> bool \<times> dsp_ring \<times> 'w" where
  "dsp_file_channel dso i r w =
     (let s = sqe_of r i in
      case dso_alloc dso w of
        (False, w) \<Rightarrow> (False, r, w)
      | (True, w) \<Rightarrow>
          (case dso_channel dso (sqe_fd s) w of
             (False, w) \<Rightarrow> (False, r, w)
           | (True, w) \<Rightarrow> (True, start_job (Job_io i (sqe_opcode s = OP_WRITE) (sqe_len s) 0) r, w)))"

definition dsp_is_regular :: "'w os \<Rightarrow> i32 \<Rightarrow> 'w \<Rightarrow> bool" where
  "dsp_is_regular os f w \<longleftrightarrow> os_fstat os f w = Some F_REG"

definition dsp_submit_blocking ::
    "'w os \<Rightarrow> 'w dispatch_os \<Rightarrow> opid \<Rightarrow> dsp_ring \<Rightarrow> 'w \<Rightarrow> dsp_ring \<times> 'w" where
  "dsp_submit_blocking os dso i r w =
     (let s = sqe_of r i in
      case (if (sqe_opcode s = OP_READ \<or> sqe_opcode s = OP_WRITE) \<and> sqe_off s \<noteq> - 1 \<and>
               dsp_is_regular os (sqe_fd s) w
            then dsp_file_channel dso i r w else (False, r, w)) of
        (True, r, w) \<Rightarrow> (r, w)
      | (False, r, w) \<Rightarrow> (start_job (Job_pool i) r, w))"

text \<open>What a channel's handlers do with a request of \<open>len\<close> bytes.  The copies are pairs of an
  offset into the caller's buffer and a size; a region is cut, or skipped, at the buffer's end.\<close>

definition io_write_res :: "u32 \<Rightarrow> u32 \<Rightarrow> i32 \<Rightarrow> i32" where
  "io_write_res len left err = (if err \<noteq> 0 \<and> left = len then - err else len - left)"

fun io_copies :: "nat \<Rightarrow> nat \<Rightarrow> nat \<Rightarrow> nat list \<Rightarrow> (nat \<times> nat) list" where
  "io_copies len base at [] = []"
| "io_copies len base at (sz # szs) =
     (let room = len - base in
      (if room \<le> at then [] else [(base + at, if room - at < sz then room - at else sz)])
        @ io_copies len base (at + sz) szs)"

definition io_read_copied :: "nat \<Rightarrow> nat \<Rightarrow> nat list \<Rightarrow> nat" where
  "io_read_copied len copied szs =
     (let got = sum_list szs in
      if 0 < got \<and> copied < len then copied + (if len - copied < got then len - copied else got) else copied)"

definition io_read_res :: "nat \<Rightarrow> i32 \<Rightarrow> i32" where
  "io_read_res copied err = (if err \<noteq> 0 \<and> copied = 0 then - err else of_nat copied)"

definition drop_job :: "nat \<Rightarrow> dsp_state \<Rightarrow> dsp_state" where
  "drop_job k st = st\<lparr>d_jobs := take k (d_jobs st) @ drop (Suc k) (d_jobs st)\<rparr>"

text \<open>One handler.  GCD runs only what it was given: anything else is no event.\<close>

definition gcd_run :: "'w os \<Rightarrow> gcd_event \<Rightarrow> dsp_ring \<Rightarrow> 'w \<Rightarrow> dsp_ring \<times> 'w" where
  "gcd_run os ev r w =
     (let jobs = d_jobs (r_be_state r) in
      case ev of
        Ev_report f writing \<Rightarrow> (upd_st (dsp_report f writing) r, w)
      | Ev_cancelled \<Rightarrow> (upd_st dsp_cancelled r, w)
      | Ev_job k \<Rightarrow>
          if k < length jobs then
            (case jobs ! k of
               Job_pool i \<Rightarrow>
                 (case slip_posix_run_blocking os (sqe_of r i) w of
                    (res, w) \<Rightarrow> (upd_st (\<lambda>st. dsp_done i res (drop_job k st)) r, w))
             | _ \<Rightarrow> (r, w))
          else (r, w)
      | Ev_write k fin left err \<Rightarrow>
          if k < length jobs \<and> fin then
            (case jobs ! k of
               Job_io i True len _ \<Rightarrow>
                 (upd_st (\<lambda>st. dsp_done i (io_write_res len left err) (drop_job k st)) r, w)
             | _ \<Rightarrow> (r, w))
          else (r, w)
      | Ev_read k fin szs err \<Rightarrow>
          if k < length jobs then
            (case jobs ! k of
               Job_io i False len copied \<Rightarrow>
                 let copied = io_read_copied (unat len) copied szs in
                 if fin then (upd_st (\<lambda>st. dsp_done i (io_read_res copied err) (drop_job k st)) r, w)
                 else (upd_st (\<lambda>st. st\<lparr>d_jobs := jobs[k := Job_io i False len copied]\<rparr>) r, w)
             | _ \<Rightarrow> (r, w))
          else (r, w))"

fun gcd_runs :: "'w os \<Rightarrow> gcd_event list \<Rightarrow> dsp_ring \<Rightarrow> 'w \<Rightarrow> dsp_ring \<times> 'w" where
  "gcd_runs os [] r w = (r, w)"
| "gcd_runs os (ev # evs) r w = (case gcd_run os ev r w of (r, w) \<Rightarrow> gcd_runs os evs r w)"

subsection \<open>The wait\<close>

text \<open>Results are taken from the end of \<open>done[]\<close>.\<close>

fun dsp_take_done :: "nat \<Rightarrow> eng_done list \<Rightarrow> eng_done list \<Rightarrow> eng_done list \<times> eng_done list" where
  "dsp_take_done 0 rev_done out = (out, rev_done)"
| "dsp_take_done (Suc n) [] out = (out, [])"
| "dsp_take_done (Suc n) (d # ds) out = dsp_take_done n ds (out @ [d])"

definition hit_ops :: "dsp_fd \<Rightarrow> opid list" where
  "hit_ops e = (if df_rd_hit e then sf_in e else []) @ (if df_wr_hit e then sf_out e else [])"

fun dsp_walk :: "nat \<Rightarrow> nat list \<Rightarrow> opid list \<Rightarrow> dsp_state \<Rightarrow> opid list \<times> dsp_state" where
  "dsp_walk pool [] ready st = (ready, st\<lparr>d_ready := []\<rparr>)"
| "dsp_walk pool (k # ks) ready st =
     (let e = d_fds st ! k in
      if pool < length ready + length (hit_ops e) then (ready, st\<lparr>d_ready := k # ks\<rparr>)
      else dsp_walk pool ks (ready @ hit_ops e)
             (set_entry k (e\<lparr>df_rd_hit := False, df_wr_hit := False, df_queued := False\<rparr>) st))"

text \<open>The section under the mutex; the last component says whether something is left, for which
  the door keeps its knock.\<close>

definition dsp_collect :: "nat \<Rightarrow> nat \<Rightarrow> dsp_state \<Rightarrow> eng_done list \<times> opid list \<times> bool \<times> dsp_state" where
  "dsp_collect pool cap st =
     (case dsp_take_done cap (rev (d_done st)) [] of
        (out, rest) \<Rightarrow>
          let st = st\<lparr>d_done := rev rest\<rparr>;
              (ready, st) = (if length out < cap then dsp_walk pool (d_ready st) [] st else ([], st));
              left = (d_ready st \<noteq> [] \<or> d_done st \<noteq> [])
          in (out, ready, left, if left then st else st\<lparr>d_knocked := False\<rparr>))"

definition dsp_readiness :: "'w os \<Rightarrow> 'w dispatch_os \<Rightarrow> (dsp_state, 'w) readiness" where
  "dsp_readiness os dso = \<lparr>be_arm = dsp_arm dso, be_disarm = dsp_disarm dso,
     be_submit_blocking = Some (dsp_submit_blocking os dso), be_forget = Some dsp_forget\<rparr>"

definition dsp_wait ::
    "'w os \<Rightarrow> 'w dispatch_os \<Rightarrow> dsp_ring \<Rightarrow> nat \<Rightarrow> int \<Rightarrow> 'w
     \<Rightarrow> (eng_done list option \<times> dsp_ring \<times> 'w) option" where
  "dsp_wait os dso r cap timeout_ms w =
     (case dso_wait dso timeout_ms w of (evs, w) \<Rightarrow>
      case gcd_runs os evs r w of (r, w) \<Rightarrow>
      if d_sem (r_be_state r) = 0 then (if timeout_ms < 0 then None else Some (Some [], r, w))
      else
        let r = upd_st (\<lambda>st. st\<lparr>d_sem := d_sem st - 1\<rparr>) r in
        case dso_sync dso w of (evs, w) \<Rightarrow>
        case gcd_runs os evs r w of (r, w) \<Rightarrow>
        case dsp_collect (unat (r_op_pool_n r)) cap (r_be_state r) of
          (out, ready, left, st) \<Rightarrow>
            let r = r\<lparr>r_be_state := if left then sem_signal st else st\<rparr> in
            if ready \<noteq> [] \<and> length out < cap then
              (case slip_posix_finish_ready (dsp_readiness os dso) os ready cap out r w of
                 None \<Rightarrow> None
               | Some (fin, r, w) \<Rightarrow> Some (Some fin, r, w))
            else Some (Some out, r, w))"

subsection \<open>A ring's life\<close>

definition dsp_open_ring :: "'w dispatch_os \<Rightarrow> dsp_ring \<Rightarrow> 'w \<Rightarrow> dsp_ring option \<times> 'w" where
  "dsp_open_ring dso r w =
     (case dso_alloc dso w of
        (False, w) \<Rightarrow> (None, w)
      | (True, w) \<Rightarrow>
          (case dso_alloc dso w of
             (False, w) \<Rightarrow> (None, w)
           | (True, w) \<Rightarrow>
               (case dso_alloc dso w of
                  (False, w) \<Rightarrow> (None, w)
                | (True, w) \<Rightarrow>
                    (Some (r\<lparr>r_be_state := zero_dsp\<lparr>d_there := True, d_done_max := unat (r_op_pool_n r)\<rparr>\<rparr>), w))))"

definition stop_entry :: "dsp_fd \<Rightarrow> dsp_state \<Rightarrow> dsp_state" where
  "stop_entry e st = dsp_source_stop (df_wr e) (dsp_source_stop (df_rd e) st)"

definition no_sources :: "dsp_fd \<Rightarrow> dsp_fd" where
  "no_sources e = e\<lparr>df_rd := False, df_wr := False\<rparr>"

definition dsp_stop_all :: "dsp_state \<Rightarrow> dsp_state" where
  "dsp_stop_all st = fold stop_entry (d_fds st) (st\<lparr>d_fds := map no_sources (d_fds st)\<rparr>)"

text \<open>Waiting until nothing is live: each round drops the results, and waits at the gate.\<close>

partial_function (option) dsp_drain_live :: "'w os \<Rightarrow> 'w dispatch_os \<Rightarrow> dsp_ring \<Rightarrow> 'w \<Rightarrow> (dsp_ring \<times> 'w) option" where
  "dsp_drain_live os dso r w =
     (let r = upd_st (\<lambda>st. st\<lparr>d_done := []\<rparr>) r in
      if d_live (r_be_state r) = 0 then Some (r, w)
      else case dso_gate dso w of (evs, w) \<Rightarrow>
        case gcd_runs os evs r w of (r, w) \<Rightarrow>
        if d_gate (r_be_state r) = 0 then None
        else dsp_drain_live os dso (upd_st (\<lambda>st. st\<lparr>d_gate := d_gate st - 1\<rparr>) r) w)"

definition dsp_close_ring :: "'w os \<Rightarrow> 'w dispatch_os \<Rightarrow> dsp_ring \<Rightarrow> 'w \<Rightarrow> (dsp_ring \<times> 'w) option" where
  "dsp_close_ring os dso r w =
     (if \<not> d_there (r_be_state r) then Some (r, w)
      else
        let r = upd_st dsp_stop_all r in
        case dsp_drain_live os dso r w of
          None \<Rightarrow> None
        | Some (r, w) \<Rightarrow>
            (case dso_sync dso w of (evs, w) \<Rightarrow>
             case gcd_runs os evs r w of (r, w) \<Rightarrow> Some (r\<lparr>r_be_state := zero_dsp\<rparr>, w)))"

text \<open>In the record of the backend a close that never returns has no value of its own.\<close>

definition slip_backend_dispatch :: "'w os \<Rightarrow> 'w dispatch_os \<Rightarrow> (dsp_state, 'w) eng_backend" where
  "slip_backend_dispatch os dso =
     \<lparr>eb_open_ring = dsp_open_ring dso, eb_close_ring = (\<lambda>r w. the (dsp_close_ring os dso r w)),
      eb_poke = Some dsp_poke,
      eb_execute = slip_posix_execute (dsp_readiness os dso) os,
      eb_wait = dsp_wait os dso,
      eb_carried_ops = slip_posix_carried_ops\<rparr>"

end
