(* ===== verification/Dispatch_Facts.thy ===== *)
theory Dispatch_Facts
  imports Dispatch
begin

text \<open>
  The dispatch backend keeps what the other backends keep, with the ops that are at GCD as one
  more place an op can be; its counters count what they should, and its door is knocked on
  exactly while something is to be collected.
\<close>

subsection \<open>The table of a dispatch ring as a table of sides\<close>

definition fds_ring :: "dsp_ring \<Rightarrow> dsp_fd list slip_ring" where
  "fds_ring r = slip_ring.make (r_in_use r) (r_sq_entries r) (r_cq_entries r) (r_op_pool r)
     (r_op_pool_n r) (r_op_free r) (r_sq r) (r_cq r) (r_sqes r) (r_backlog r) (r_wq r)
     (r_blocked_done r) (r_blocked_failed r) (r_queue r) (r_waiting r) (r_chain_failed r)
     (r_blocking r) (r_fixed r) (r_alloc_off r) (r_alloc_len r) (r_alloc_hint r) (r_bufrings r)
     (d_fds (r_be_state r)) (r_ctl r) (r_worker_live r) (r_stopping r)"

lemma fds_ring_view [simp]:
  "r_waiting (fds_ring r) = r_waiting r" "r_be_state (fds_ring r) = d_fds (r_be_state r)"
  "the_op (fds_ring r) = the_op r" "sqe_of (fds_ring r) = sqe_of r"
  by (simp_all add: fds_ring_def slip_ring.make_def the_op_def sqe_of_def fun_eq_iff)

lemma fds_ring_set: "fds_ring (r\<lparr>r_be_state := st\<rparr>) = (fds_ring r)\<lparr>r_be_state := d_fds st\<rparr>"
  by (simp add: fds_ring_def slip_ring.make_def)

lemma fds_ring_upd: "fds_ring (upd_st g r) = (fds_ring r)\<lparr>r_be_state := d_fds (g (r_be_state r))\<rparr>"
  by (simp add: upd_st_def fds_ring_set)

lemma fds_ring_upd_op [simp]: "fds_ring (upd_op i g r) = upd_op i g (fds_ring r)"
  by (simp add: fds_ring_def slip_ring.make_def upd_op_def)

lemma fds_ring_join: "fds_ring (wait_join i r) = wait_join i (fds_ring r)"
  by (simp add: fds_ring_def slip_ring.make_def upd_op_def wait_join_def)

lemma fds_ring_leave: "fds_ring (wait_leave k r) = wait_leave k (fds_ring r)"
  by (simp add: fds_ring_def slip_ring.make_def upd_op_def wait_leave_def Let_def)

lemma fds_ring_same: "parked_same r s \<Longrightarrow> parked_same (fds_ring r) (fds_ring s)"
  by (simp add: parked_same_def)

lemma upd_st_view [simp]:
  "r_be_state (upd_st g r) = g (r_be_state r)" "the_op (upd_st g r) = the_op r" "sqe_of (upd_st g r) = sqe_of r"
  "r_waiting (upd_st g r) = r_waiting r" "r_op_pool_n (upd_st g r) = r_op_pool_n r"
  by (simp_all add: upd_st_def)

lemma upd_st_only [simp]: "be_only r (upd_st g r)"
  by (simp add: upd_st_def)

lemma dsp_slot_shape:
  assumes "dsp_slot dso f r = (x, r')"
  shows "fd_slot (dso_room dso) zero_dsp_fd f (fds_ring r) = (x, fds_ring r')"
    "r' = r \<or> (\<exists>n. r' = upd_st (\<lambda>st. st\<lparr>d_fds := d_fds st @ replicate n zero_dsp_fd\<rparr>) r)"
proof -
  show "fd_slot (dso_room dso) zero_dsp_fd f (fds_ring r) = (x, fds_ring r')"
    using assms by (auto simp: dsp_slot_def fd_slot_def Let_def fds_ring_upd split: if_splits)
  show "r' = r \<or> (\<exists>n. r' = upd_st (\<lambda>st. st\<lparr>d_fds := d_fds st @ replicate n zero_dsp_fd\<rparr>) r)"
    using assms by (auto simp: dsp_slot_def Let_def upd_st_def split: if_splits)
qed

lemma zero_dsp_fd_simps [simp]:
  "sf_in zero_dsp_fd = []" "sf_out zero_dsp_fd = []" "\<not> df_rd zero_dsp_fd" "\<not> df_wr zero_dsp_fd"
  "\<not> df_queued zero_dsp_fd"
  by (simp_all add: zero_dsp_fd_def)

subsection \<open>What the state counts\<close>

text \<open>The sources of the table.\<close>

definition sources :: "dsp_fd \<Rightarrow> nat" where
  "sources e = of_bool (df_rd e) + of_bool (df_wr e)"

text \<open>A side has a source exactly while somebody waits behind it.\<close>

definition entry_ok :: "dsp_fd \<Rightarrow> bool" where
  "entry_ok e \<longleftrightarrow> df_rd e = (sf_in e \<noteq> []) \<and> df_wr e = (sf_out e \<noteq> [])"

definition at_gcd :: "dsp_state \<Rightarrow> opid multiset" where
  "at_gcd st = mset (map job_op (d_jobs st)) + mset (map fst (d_done st))"

text \<open>\<open>live\<close> counts the sources, those that are ending, and the jobs.\<close>

definition live_ok :: "dsp_state \<Rightarrow> bool" where
  "live_ok st \<longleftrightarrow> d_live st = sum_list (map sources (d_fds st)) + d_ending st + length (d_jobs st)"

text \<open>The chain holds the queued descriptors, each once.\<close>

definition chain_ok :: "dsp_state \<Rightarrow> bool" where
  "chain_ok st \<longleftrightarrow> distinct (d_ready st) \<and>
     (\<forall>k. k \<in> set (d_ready st) \<longleftrightarrow> k < length (d_fds st) \<and> df_queued (d_fds st ! k))"

definition work :: "dsp_state \<Rightarrow> bool" where
  "work st \<longleftrightarrow> d_ready st \<noteq> [] \<or> d_done st \<noteq> []"

text \<open>Count, and the \<open>c\<close> knocks that are owed or held by the one inside, are one exactly while the
  door is knocked on, and it is while there is work.\<close>

definition door_ok :: "nat \<Rightarrow> dsp_state \<Rightarrow> bool" where
  "door_ok c st \<longleftrightarrow> d_sem st + c = of_bool (d_knocked st) \<and> (work st \<longrightarrow> d_knocked st)"

definition dsp_ok :: "nat \<Rightarrow> dsp_state \<Rightarrow> bool" where
  "dsp_ok c st \<longleftrightarrow> (\<forall>e \<in> set (d_fds st). entry_ok e) \<and> live_ok st \<and> chain_ok st \<and> door_ok c st"

definition dsp_inv :: "opid multiset \<Rightarrow> nat \<Rightarrow> dsp_ring \<Rightarrow> bool" where
  "dsp_inv X n r \<longleftrightarrow> sides_inv (fds_ring r) \<and> dsp_ok 0 (r_be_state r) \<and> at_gcd (r_be_state r) = X \<and>
     d_done_max (r_be_state r) = n"

lemma dsp_inv_cong:
  assumes "parked_same r s" "dsp_inv X n r"
  shows "dsp_inv X n s"
proof -
  have "r_be_state s = r_be_state r" using assms(1) by (simp add: parked_same_def)
  then show ?thesis
    using assms(2) sides_inv_cong [OF fds_ring_same [OF assms(1)]] by (simp add: dsp_inv_def)
qed

text \<open>Changing one entry: only the entry and the count of the sources move.\<close>

lemma sum_list_update_nat:
  fixes g :: "'a \<Rightarrow> nat"
  shows "k < length xs \<Longrightarrow> sum_list (map g (xs[k := e])) + g (xs ! k) = sum_list (map g xs) + g e"
proof (induction xs arbitrary: k)
  case (Cons x xs)
  then show ?case by (cases k) force+
qed simp

lemma entry_sources: "k < length (d_fds st) \<Longrightarrow> sources (d_fds st ! k) \<le> sum_list (map sources (d_fds st))"
  by (simp add: member_le_sum_list)

lemma set_entry_fields [simp]:
  "d_fds (set_entry k e st) = (d_fds st)[k := e]" "d_ready (set_entry k e st) = d_ready st"
  "d_done (set_entry k e st) = d_done st" "d_live (set_entry k e st) = d_live st"
  "d_knocked (set_entry k e st) = d_knocked st" "d_sem (set_entry k e st) = d_sem st"
  "d_jobs (set_entry k e st) = d_jobs st" "d_ending (set_entry k e st) = d_ending st"
  "d_done_max (set_entry k e st) = d_done_max st" "d_gate (set_entry k e st) = d_gate st"
  by (simp_all add: set_entry_def)

lemma stop_fields [simp]:
  "d_fds (dsp_source_stop b st) = d_fds st" "d_ready (dsp_source_stop b st) = d_ready st"
  "d_done (dsp_source_stop b st) = d_done st" "d_live (dsp_source_stop b st) = d_live st"
  "d_knocked (dsp_source_stop b st) = d_knocked st" "d_sem (dsp_source_stop b st) = d_sem st"
  "d_jobs (dsp_source_stop b st) = d_jobs st"
  "d_ending (dsp_source_stop b st) = d_ending st + of_bool b"
  "d_done_max (dsp_source_stop b st) = d_done_max st" "d_gate (dsp_source_stop b st) = d_gate st"
  by (simp_all add: dsp_source_stop_def)

text \<open>An entry that changes hands with the counters.\<close>

lemma dsp_ok_entry:
  assumes "dsp_ok 0 st" "k < length (d_fds st)" "entry_ok e" "df_queued e = df_queued (d_fds st ! k)"
    "d_fds st' = (d_fds st)[k := e]" "d_ready st' = d_ready st" "d_done st' = d_done st"
    "d_knocked st' = d_knocked st" "d_sem st' = d_sem st" "d_jobs st' = d_jobs st"
    "d_live st' + d_ending st + sources (d_fds st ! k) = d_live st + d_ending st' + sources e"
  shows "dsp_ok 0 st'"
proof -
  have all: "\<forall>e \<in> set (d_fds st'). entry_ok e"
    using assms(1,3,5) set_update_subset_insert [of "d_fds st" k e] by (auto simp: dsp_ok_def)
  have "chain_ok st'"
    using assms(1,2,4,5,6) by (auto simp: dsp_ok_def chain_ok_def nth_list_update)
  moreover have "live_ok st'"
  proof -
    have "sum_list (map sources (d_fds st')) + sources (d_fds st ! k) = sum_list (map sources (d_fds st)) + sources e"
      unfolding assms(5) by (rule sum_list_update_nat [OF assms(2)])
    moreover have "live_ok st" using assms(1) by (simp add: dsp_ok_def)
    ultimately show ?thesis using assms(11) by (simp add: live_ok_def assms(10))
  qed
  moreover have "door_ok 0 st'" using assms by (simp add: dsp_ok_def door_ok_def work_def)
  ultimately show ?thesis using all by (simp add: dsp_ok_def)
qed

lemma dsp_slot_state:
  assumes "dsp_slot dso f r = (x, r')" "dsp_ok 0 (r_be_state r)"
  shows "dsp_ok 0 (r_be_state r')" "at_gcd (r_be_state r') = at_gcd (r_be_state r)"
    "d_done_max (r_be_state r') = d_done_max (r_be_state r)" "be_only r r'"
proof -
  have "dsp_ok 0 (r_be_state r') \<and> at_gcd (r_be_state r') = at_gcd (r_be_state r) \<and>
    d_done_max (r_be_state r') = d_done_max (r_be_state r) \<and> be_only r r'"
    using dsp_slot_shape(2) [OF assms(1)]
  proof
    assume "\<exists>m. r' = upd_st (\<lambda>st. st\<lparr>d_fds := d_fds st @ replicate m zero_dsp_fd\<rparr>) r"
    then obtain m where m: "r' = upd_st (\<lambda>st. st\<lparr>d_fds := d_fds st @ replicate m zero_dsp_fd\<rparr>) r" ..
    let ?st = "r_be_state r"
    have "chain_ok (?st\<lparr>d_fds := d_fds ?st @ replicate m zero_dsp_fd\<rparr>)"
      using assms(2) by (auto simp: dsp_ok_def chain_ok_def nth_append)
    moreover have "sum_list (map sources (replicate m zero_dsp_fd)) = 0"
      by (simp add: sources_def sum_list_replicate)
    ultimately have "dsp_ok 0 (?st\<lparr>d_fds := d_fds ?st @ replicate m zero_dsp_fd\<rparr>)"
      using assms(2) by (auto simp: dsp_ok_def entry_ok_def live_ok_def door_ok_def work_def)
    then show ?thesis using m by (simp add: at_gcd_def)
  qed (use assms(2) in simp)
  then show "dsp_ok 0 (r_be_state r')" "at_gcd (r_be_state r') = at_gcd (r_be_state r)"
    "d_done_max (r_be_state r') = d_done_max (r_be_state r)" "be_only r r'" by auto
qed

lemma dsp_slot_ok:
  assumes "dsp_slot dso f r = (x, r')" "dsp_inv X n r"
  shows "dsp_inv X n r'" "be_only r r'"
proof -
  have "sides_inv (fds_ring r')"
    by (rule sides_inv_slot [OF dsp_slot_shape(1) [OF assms(1)]]) (use assms(2) in \<open>simp_all add: dsp_inv_def\<close>)
  then show "dsp_inv X n r'" "be_only r r'"
    using dsp_slot_state [OF assms(1)] assms(2) by (simp_all add: dsp_inv_def)
qed

subsection \<open>Arming, disarming, forgetting\<close>

lemma dsp_slot_Some:
  assumes "dsp_slot dso f r = (Some k, r')"
  shows "k = unat f" "k < length (d_fds (r_be_state r'))"
  using fd_slot_Some [OF dsp_slot_shape(1) [OF assms]] by simp_all

lemma fds_ring_entry: "fds_ring (upd_st g r) = set_fd k e (fds_ring r)"
  if "d_fds (g (r_be_state r)) = (d_fds (r_be_state r))[k := e]"
  using that by (simp add: fds_ring_upd set_fd_def)

lemma entry_ok_nth: "dsp_ok 0 st \<Longrightarrow> k < length (d_fds st) \<Longrightarrow> entry_ok (d_fds st ! k)"
  by (simp add: dsp_ok_def)

lemma push_entry:
  assumes "entry_ok e"
  shows "side_of out e \<noteq> [] \<Longrightarrow> entry_ok (side_push out i e) \<and> sources (side_push out i e) = sources e"
    "side_of out e = [] \<Longrightarrow> entry_ok (set_source out True (side_push out i e)) \<and>
       sources (set_source out True (side_push out i e)) = Suc (sources e)"
  using assms by (auto simp: entry_ok_def side_of_def side_push_def set_source_def sources_def split: if_splits)

lemma push_simps [simp]:
  "df_queued (side_push out i e) = df_queued e" "df_queued (set_source out b e) = df_queued e"
  "sf_in (set_source out b e) = sf_in e" "sf_out (set_source out b e) = sf_out e"
  by (simp_all add: side_push_def set_source_def)

lemma dsp_arm_shape:
  assumes "dsp_arm dso i r w = (ok, r', w')" "dsp_inv X n r"
  shows "side_arms (dso_room dso) zero_dsp_fd i (fds_ring r) ok (fds_ring r') \<and> dsp_ok 0 (r_be_state r') \<and>
    at_gcd (r_be_state r') = X \<and> d_done_max (r_be_state r') = n"
proof -
  obtain x r1 where sl: "dsp_slot dso (sqe_fd (sqe_of r i)) r = (x, r1)" by fastforce
  note sh = dsp_slot_shape(1) [OF sl] and in1 = dsp_slot_ok(1) [OF sl assms(2)]
  have view: "the_op r1 = the_op r" "sqe_of r1 = sqe_of r" using be_only_view [OF dsp_slot_ok(2) [OF sl assms(2)]] by simp_all
  show ?thesis
  proof (cases x)
    case None
    have "r' = r1 \<and> \<not> ok" using assms(1) sl None by (simp add: dsp_arm_def)
    moreover have "fds_ring r1 = fds_ring r" using sh None by (cases rule: fd_slot_cases [of "dso_room dso" zero_dsp_fd "sqe_fd (sqe_of r i)" "fds_ring r"]) auto
    ultimately show ?thesis using in1 by (simp add: side_arms_def dsp_inv_def)
  next
    case (Some k)
    note k = dsp_slot_Some [OF sl [unfolded Some]]
    let ?st = "r_be_state r1" and ?out = "waits_out (the_op r i)"
    let ?e = "d_fds ?st ! k"
    have ok1: "dsp_ok 0 ?st" "at_gcd ?st = X" "d_done_max ?st = n" "entry_ok ?e" using in1 k by (auto simp: dsp_inv_def dsp_ok_def)
    have arms: "side_arms (dso_room dso) zero_dsp_fd i (fds_ring r) b (set_fd k e (fds_ring r1))"
      if "if b then sf_in e = sf_in (side_push ?out i ?e) \<and> sf_out e = sf_out (side_push ?out i ?e)
          else sf_in e = sf_in ?e \<and> sf_out e = sf_out ?e" for b e
      using that sh Some unfolding side_arms_def by (auto simp: view intro!: exI [of _ k] exI [of _ "fds_ring r1"] exI [of _ e])
    consider (chained) "side_of ?out ?e \<noteq> []" "ok" "r' = upd_st (set_entry k (side_push ?out i ?e)) r1"
      | (refused) "\<not> ok" "r' = r1"
      | (started) "side_of ?out ?e = []" "ok" "r' = upd_st (\<lambda>st. set_entry k (set_source ?out True (side_push ?out i ?e)) (st\<lparr>d_live := Suc (d_live st)\<rparr>)) r1"
      using assms(1) sl Some
      by (auto simp: dsp_arm_def dsp_source_start_def Let_def view upd_st_def split: if_splits prod.splits bool.splits)
    then show ?thesis
    proof cases
      case chained
      let ?st' = "set_entry k (side_push ?out i ?e) ?st"
      have "dsp_ok 0 ?st'"
        by (rule dsp_ok_entry [OF ok1(1) k(2), of "side_push ?out i ?e"]) (use push_entry(1) [OF ok1(4) chained(1)] in auto)
      moreover have "fds_ring r' = set_fd k (side_push ?out i ?e) (fds_ring r1)" unfolding chained by (rule fds_ring_entry) simp
      ultimately show ?thesis using arms [of True "side_push ?out i ?e"] chained ok1 by (simp add: at_gcd_def)
    next
      case refused
      have "fds_ring r' = set_fd k ?e (fds_ring r1)" unfolding refused by (simp add: set_fd_def)
      then show ?thesis using arms [of False ?e] refused ok1 by simp
    next
      case started
      let ?e' = "set_source ?out True (side_push ?out i ?e)"
      let ?st' = "set_entry k ?e' (?st\<lparr>d_live := Suc (d_live ?st)\<rparr>)"
      have "dsp_ok 0 ?st'"
        by (rule dsp_ok_entry [OF ok1(1) k(2), of ?e']) (use push_entry(2) [OF ok1(4) started(1)] in auto)
      moreover have "fds_ring r' = set_fd k ?e' (fds_ring r1)" unfolding started by (rule fds_ring_entry) simp
      ultimately show ?thesis using arms [of True ?e'] started ok1 by (simp add: at_gcd_def)
    qed
  qed
qed

lemma dsp_arm_only: "dsp_arm dso i r w = (ok, r', w') \<Longrightarrow> be_only r r'"
proof -
  assume a: "dsp_arm dso i r w = (ok, r', w')"
  obtain x r1 where sl: "dsp_slot dso (sqe_fd (sqe_of r i)) r = (x, r1)" by fastforce
  have b: "be_only r r1" using dsp_slot_shape(2) [OF sl] by auto
  have "r' = r1 \<or> (\<exists>g. r' = upd_st g r1)"
    using a sl by (auto simp: dsp_arm_def dsp_source_start_def Let_def upd_st_def split: if_splits prod.splits bool.splits option.splits)
  then show ?thesis using b by (auto intro: be_only_trans [OF _ upd_st_only])
qed

lemma dsp_arm_inv:
  assumes "dsp_arm dso i r w = (ok, r', w')" "dsp_inv X n r" "i \<notin> set (r_waiting r)"
  shows "dsp_inv X n (if ok then wait_join i r' else r')"
proof -
  note sh = dsp_arm_shape [OF assms(1,2)]
  have "sides_inv (if ok then wait_join i (fds_ring r') else fds_ring r')"
    by (rule side_arms_ok(2) [OF conjunct1 [OF sh]]) (use assms in \<open>simp_all add: dsp_inv_def\<close>)
  moreover have "r_be_state (wait_join i r') = r_be_state r'" by (simp add: wait_join_def upd_op_def)
  ultimately show ?thesis using sh by (simp add: dsp_inv_def fds_ring_join split: if_splits)
qed

lemma remove_entry:
  fixes e e' :: dsp_fd
  fixes out i src
  assumes "entry_ok e"
  defines "e' \<equiv> side_remove out i e"
  defines "src \<equiv> (if out then df_wr e' else df_rd e')"
  shows "\<not> (side_of out e' = [] \<and> src) \<Longrightarrow> entry_ok e' \<and> sources e' = sources e"
    "side_of out e' = [] \<Longrightarrow> src \<Longrightarrow> entry_ok (set_source out False e') \<and> Suc (sources (set_source out False e')) = sources e"
  using assms by (auto simp: entry_ok_def side_of_def side_remove_def set_source_def sources_def split: if_splits)

lemma dsp_disarm_shape:
  assumes "dsp_disarm dso i r w = (r', w')"
  obtains (none) "r' = r" "fst (fd_slot (dso_room dso) zero_dsp_fd (sqe_fd (sqe_of r i)) (fds_ring r)) = None"
    | (kept) r1 k e where "dsp_slot dso (sqe_fd (sqe_of r i)) r = (Some k, r1)"
        "e = side_remove (waits_out (the_op r i)) i (d_fds (r_be_state r1) ! k)"
        "r' = upd_st (set_entry k e) r1"
        "\<not> (side_of (waits_out (the_op r i)) e = [] \<and> (if waits_out (the_op r i) then df_wr e else df_rd e))"
    | (stopped) r1 k e where "dsp_slot dso (sqe_fd (sqe_of r i)) r = (Some k, r1)"
        "e = side_remove (waits_out (the_op r i)) i (d_fds (r_be_state r1) ! k)"
        "r' = upd_st (\<lambda>st. dsp_source_stop True (set_entry k (set_source (waits_out (the_op r i)) False e) st)) r1"
        "side_of (waits_out (the_op r i)) e = []" "if waits_out (the_op r i) then df_wr e else df_rd e"
proof (cases "dsp_slot dso (sqe_fd (sqe_of r i)) r")
  case (Pair x r1)
  note sh = dsp_slot_shape [OF Pair]
  have view: "the_op r1 = the_op r" using sh(2) by auto
  show ?thesis
  proof (cases x)
    case None
    then have "r1 = r" using Pair by (auto simp: dsp_slot_def Let_def split: if_splits)
    then show ?thesis using assms Pair None sh(1) by (intro none) (simp_all add: dsp_disarm_def)
  next
    case (Some k)
    let ?out = "waits_out (the_op r i)"
    let ?e = "side_remove ?out i (d_fds (r_be_state r1) ! k)"
    show ?thesis
    proof (cases "side_of ?out ?e = [] \<and> (if ?out then df_wr ?e else df_rd ?e)")
      case True
      have "dsp_disarm dso i r w =
          (upd_st (\<lambda>st. dsp_source_stop True (set_entry k (set_source ?out False ?e) st)) r1, w)"
        using True by (cases ?out) (simp_all add: dsp_disarm_def Let_def Pair Some view)
      then show ?thesis using assms True by (intro stopped [OF Pair [unfolded Some] refl]) auto
    next
      case False
      have "dsp_disarm dso i r w = (upd_st (set_entry k ?e) r1, w)"
        using False by (cases ?out) (auto simp: dsp_disarm_def Let_def Pair Some view)
      then show ?thesis using assms False by (intro kept [OF Pair [unfolded Some] refl]) auto
    qed
  qed
qed

lemma sides_inv_proj:
  assumes "r_waiting s = r_waiting r" "the_op s = the_op r"
    "map sf_in (r_be_state s) = map sf_in (r_be_state r)" "map sf_out (r_be_state s) = map sf_out (r_be_state r)"
    "sides_inv r"
  shows "sides_inv s"
proof -
  have len: "length (r_be_state s) = length (r_be_state r)" using assms(3) by (metis length_map)
  have "sf_in (r_be_state s ! k) = sf_in (r_be_state r ! k) \<and> sf_out (r_be_state s ! k) = sf_out (r_be_state r ! k)"
    if "k < length (r_be_state r)" for k
    using assms(3,4) len that by (metis nth_map)
  moreover have "side_ok s k out is = side_ok r k out is" for k out "is"
    by (simp add: side_ok_def sqe_of_def assms(1,2))
  ultimately show ?thesis using assms(5) by (simp add: sides_inv_def len)
qed

lemma dsp_inv_sides: "dsp_inv X n r \<Longrightarrow> sides_inv (fds_ring r)"
  by (simp add: dsp_inv_def)

lemma side_leave_disarm:
  assumes "dsp_disarm dso i r w = (r', w')"
  defines "s \<equiv> side_leave (dso_room dso) zero_dsp_fd i (fds_ring r)"
  shows "map sf_in (d_fds (r_be_state r')) = map sf_in (r_be_state s)"
    "map sf_out (d_fds (r_be_state r')) = map sf_out (r_be_state s)" "be_only r r'" "w' = w"
proof -
  have w: "w' = w" using assms(1) by (auto simp: dsp_disarm_def Let_def split: prod.splits option.splits if_splits)
  have "map sf_in (d_fds (r_be_state r')) = map sf_in (r_be_state s) \<and>
      map sf_out (d_fds (r_be_state r')) = map sf_out (r_be_state s) \<and> be_only r r'"
    using assms(1)
  proof (cases rule: dsp_disarm_shape)
    case none
    obtain r1 where "fd_slot (dso_room dso) zero_dsp_fd (sqe_fd (sqe_of r i)) (fds_ring r) = (None, r1)"
      using none(2) by (metis prod.collapse)
    moreover from this have "r1 = fds_ring r"
      by (cases rule: fd_slot_cases [of "dso_room dso" zero_dsp_fd "sqe_fd (sqe_of r i)" "fds_ring r"]) auto
    ultimately show ?thesis by (simp add: s_def side_leave_def none(1))
  next
    case (kept r1 k e)
    note sh = dsp_slot_shape [OF kept(1)]
    have "the_op r1 = the_op r" "be_only r r1" using sh(2) by auto
    then show ?thesis using kept sh(1) by (simp add: s_def side_leave_def set_fd_def map_update be_only_trans [OF _ upd_st_only])
  next
    case (stopped r1 k e)
    note sh = dsp_slot_shape [OF stopped(1)]
    have "the_op r1 = the_op r" "be_only r r1" using sh(2) by auto
    then show ?thesis using stopped(1-3) sh(1) by (simp add: s_def side_leave_def set_fd_def map_update be_only_trans [OF _ upd_st_only])
  qed
  then show "map sf_in (d_fds (r_be_state r')) = map sf_in (r_be_state s)"
    "map sf_out (d_fds (r_be_state r')) = map sf_out (r_be_state s)" "be_only r r'" "w' = w" using w by auto
qed

lemma remove_queued [simp]: "df_queued (side_remove out i e) = df_queued e"
  by (simp add: side_remove_def)

lemma dsp_disarm_state:
  assumes "dsp_disarm dso i r w = (r', w')" "dsp_inv X n r0" "r_be_state r = r_be_state r0"
  shows "dsp_ok 0 (r_be_state r') \<and> at_gcd (r_be_state r') = X \<and> d_done_max (r_be_state r') = n"
proof -
  have st: "dsp_ok 0 (r_be_state r)" "at_gcd (r_be_state r) = X" "d_done_max (r_be_state r) = n"
    using assms(2,3) by (simp_all add: dsp_inv_def)
  have slot: "dsp_ok 0 (r_be_state r1) \<and> at_gcd (r_be_state r1) = X \<and> d_done_max (r_be_state r1) = n"
    if "dsp_slot dso f r = (x, r1)" for f x r1
    using dsp_slot_state [OF that st(1)] st(2,3) by simp
  from assms(1) show ?thesis
  proof (cases rule: dsp_disarm_shape)
    case none
    then show ?thesis using st by simp
  next
    case (kept r1 k e)
    note k = dsp_slot_Some(2) [OF kept(1)] and s1 = slot [OF kept(1)]
    have "dsp_ok 0 (set_entry k e (r_be_state r1))"
      by (rule dsp_ok_entry [OF conjunct1 [OF s1] k, of e])
        (use remove_entry(1) [OF entry_ok_nth [OF conjunct1 [OF s1] k] kept(4) [unfolded kept(2)]] kept(2) in auto)
    then show ?thesis using s1 kept(3) by (simp add: at_gcd_def)
  next
    case (stopped r1 k e)
    note k = dsp_slot_Some(2) [OF stopped(1)] and s1 = slot [OF stopped(1)]
    let ?e = "set_source (waits_out (the_op r i)) False e"
    have "dsp_ok 0 (dsp_source_stop True (set_entry k ?e (r_be_state r1)))"
      by (rule dsp_ok_entry [OF conjunct1 [OF s1] k, of ?e])
        (use remove_entry(2) [OF entry_ok_nth [OF conjunct1 [OF s1] k] stopped(4,5) [unfolded stopped(2)]] stopped(2) in auto)
    then show ?thesis using s1 stopped(3) by (simp add: at_gcd_def)
  qed
qed

lemma dsp_disarm_inv:
  assumes "dsp_disarm dso (r_waiting r ! k) (wait_leave k r) w = (r', w')" "dsp_inv X n r"
    "distinct (r_waiting r)" "k < length (r_waiting r)"
  shows "dsp_inv X n r'"
proof -
  let ?i = "r_waiting r ! k" and ?s = "side_leave (dso_room dso) zero_dsp_fd (r_waiting r ! k) (wait_leave k (fds_ring r))"
  have "r_be_state (wait_leave k r) = r_be_state r" using assms(4) by (rule wait_leave_frame)
  note st = dsp_disarm_state [OF assms(1,2) this]
  note lv = side_leave_disarm [OF assms(1), unfolded fds_ring_leave]
  have "sides_inv ?s"
    by (rule side_leave_ok [OF _ dsp_inv_sides [OF assms(2)], of "dso_room dso" zero_dsp_fd k]) (use assms(3,4) in simp_all)
  moreover have b: "be_only (wait_leave k (fds_ring r)) ?s" by (rule side_leave_only)
  note view = be_only_view [OF b] and view' = be_only_view [OF lv(3)]
  have same: "r_waiting (wait_leave k (fds_ring r)) = r_waiting (wait_leave k r)"
    "the_op (wait_leave k (fds_ring r)) = the_op (wait_leave k r)"
    unfolding fds_ring_leave [symmetric] by (rule fds_ring_view)+
  ultimately have "sides_inv (fds_ring r')"
    by (intro sides_inv_proj [of "fds_ring r'" ?s])
      (simp_all only: fds_ring_view lv(1,2) view(1,3) view'(1,3) same)
  then show ?thesis using st by (simp add: dsp_inv_def)
qed

lemma dsp_forget_inv:
  shows "be_only r (dsp_forget f r)" "dsp_inv X n r \<Longrightarrow> dsp_inv X n (dsp_forget f r)"
proof -
  show "be_only r (dsp_forget f r)" by (simp add: dsp_forget_def Let_def)
  assume inv: "dsp_inv X n r"
  show "dsp_inv X n (dsp_forget f r)"
  proof (cases "neg32 f \<or> length (d_fds (r_be_state r)) \<le> unat f")
    case False
    let ?k = "unat f" and ?st = "r_be_state r"
    let ?e = "(d_fds ?st ! ?k)\<lparr>sf_in := [], sf_out := [], df_rd := False, df_wr := False,
                          df_rd_hit := False, df_wr_hit := False\<rparr>"
    let ?old = "d_fds ?st ! ?k"
    let ?st' = "dsp_source_stop (df_wr ?old) (dsp_source_stop (df_rd ?old) (set_entry ?k ?e ?st))"
    have r': "dsp_forget f r = r\<lparr>r_be_state := ?st'\<rparr>" using False by (simp add: dsp_forget_def Let_def upd_st_def)
    have k: "?k < length (d_fds ?st)" using False by simp
    have "dsp_ok 0 ?st'"
      by (rule dsp_ok_entry [OF _ k, of ?e]) (use inv in \<open>auto simp: dsp_inv_def entry_ok_def sources_def\<close>)
    moreover have "sides_inv (fds_ring (dsp_forget f r))"
    proof -
      have "fds_ring (dsp_forget f r) = set_fd ?k ?e (fds_ring r)" by (simp add: r' fds_ring_set set_fd_def)
      then show ?thesis using sides_inv_set [OF dsp_inv_sides [OF inv], of ?k ?e] by simp
    qed
    ultimately show ?thesis using inv by (simp add: dsp_inv_def r' at_gcd_def)
  qed (use inv in \<open>simp add: dsp_forget_def\<close>)
qed

interpretation dispatch: readiness_backend "dsp_inv X n" "dsp_readiness os dso"
  for X n and os :: "'w os" and dso :: "'w dispatch_os"
proof unfold_locales
  fix i r w r' and w' :: 'w and ok k f g
  show "be_only r r'" if "be_arm (dsp_readiness os dso) i r w = (ok, r', w')"
    using that dsp_arm_only by (simp add: dsp_readiness_def)
  show "dsp_inv X n (if ok then wait_join i r' else r')"
    if "be_arm (dsp_readiness os dso) i r w = (ok, r', w')" "dsp_inv X n r" "i \<notin> set (r_waiting r)"
    by (rule dsp_arm_inv [of dso i r w ok r' w', OF _ that(2,3)])
      (use that(1) in \<open>simp add: dsp_readiness_def\<close>)
  show "be_only r r'" if "be_disarm (dsp_readiness os dso) i r w = (r', w')"
    by (rule side_leave_disarm(3) [of dso i r w r' w']) (use that in \<open>simp add: dsp_readiness_def\<close>)
  show "dsp_inv X n r'" if "be_disarm (dsp_readiness os dso) (r_waiting r ! k) (wait_leave k r) w = (r', w')"
    "dsp_inv X n r" "distinct (r_waiting r)" "k < length (r_waiting r)"
    by (rule dsp_disarm_inv [of dso r k w r' w', OF _ that(2-4)])
      (use that(1) in \<open>simp add: dsp_readiness_def\<close>)
  show "be_only r (g f r)" "dsp_inv X n r \<Longrightarrow> dsp_inv X n (g f r)" if "be_forget (dsp_readiness os dso) = Some g"
    using that dsp_forget_inv by (auto simp: dsp_readiness_def)
  show "dsp_inv X n s" if "parked_same r s" "dsp_inv X n r" for s by (rule dsp_inv_cong [OF that])
qed

subsection \<open>What a channel copies\<close>

text \<open>Copies that follow each other from \<open>a\<close> to \<open>b\<close>.\<close>

fun runs_from :: "nat \<Rightarrow> (nat \<times> nat) list \<Rightarrow> nat \<Rightarrow> bool" where
  "runs_from a [] b \<longleftrightarrow> a = b"
| "runs_from a ((d, n) # cs) b \<longleftrightarrow> d = a \<and> runs_from (a + n) cs b"

lemma io_copies_full: "len - base \<le> at \<Longrightarrow> io_copies len base at szs = []"
  by (induction szs arbitrary: at) simp_all

lemma io_copies_run:
  assumes "base + at \<le> len"
  shows "runs_from (base + at) (io_copies len base at szs) (min len (base + at + sum_list szs)) \<and>
    (\<forall>(d, n) \<in> set (io_copies len base at szs). base \<le> d \<and> d + n \<le> len)"
  using assms
proof (induction szs arbitrary: at)
  case Nil
  then show ?case by simp
next
  case (Cons sz szs)
  show ?case
  proof (cases "len - base \<le> at \<or> len - base - at < sz")
    case True
    then have "io_copies len base (at + sz) szs = []" by (intro io_copies_full) auto
    then show ?thesis using Cons.prems True by (auto simp: Let_def)
  next
    case False
    then have "base + (at + sz) \<le> len" using Cons.prems by arith
    from Cons.IH [OF this] show ?thesis using False by (auto simp: Let_def ac_simps)
  qed
qed

lemma io_read_copied_eq: "copied \<le> len \<Longrightarrow> io_read_copied len copied szs = min len (copied + sum_list szs)"
  by (cases "sum_list szs = 0") (auto simp: io_read_copied_def Let_def simp del: sum_list_eq_0_iff)

end
