(* ===== verification/Dispatch_Inv.thy ===== *)
theory Dispatch_Inv
  imports Dispatch_Facts
begin

text \<open>
  Handlers and submissions of the dispatch backend: every op of the pool stays in exactly one
  place, where being at GCD is one of them.
\<close>

subsection \<open>The invariant of a ring\<close>

text \<open>\<open>c\<close> knocks are owed or held, \<open>H\<close> are the ops in somebody's hands.\<close>

definition dsp_ring_ok :: "nat \<Rightarrow> opid multiset \<Rightarrow> dsp_ring \<Rightarrow> bool" where
  "dsp_ring_ok c H r \<longleftrightarrow> pool_ok r (at_gcd (r_be_state r) + H) \<and> ring_wf r \<and> slots_ok r \<and>
     sides_inv (fds_ring r) \<and> dsp_ok c (r_be_state r) \<and> d_done_max (r_be_state r) = unat (r_op_pool_n r)"

abbreviation dsp_ring_inv :: "opid multiset \<Rightarrow> dsp_ring \<Rightarrow> bool" where
  "dsp_ring_inv \<equiv> dsp_ring_ok 0"

lemma dsp_ring_inv_iff:
  "dsp_ring_inv H r \<longleftrightarrow>
     ring_inv (dsp_inv (at_gcd (r_be_state r)) (unat (r_op_pool_n r))) (at_gcd (r_be_state r) + H) r"
  by (auto simp: dsp_ring_ok_def ring_inv_def dsp_inv_def)

lemma dsp_ring_invI:
  assumes "ring_inv (dsp_inv X (unat (r_op_pool_n r))) (X + H) r"
  shows "dsp_ring_inv H r"
  using assms by (auto simp: dsp_ring_inv_iff ring_inv_def dsp_inv_def)

lemma upd_st_frame:
  "pool_ok (upd_st g r) H = pool_ok r H" "ring_wf (upd_st g r) = ring_wf r"
  "slots_ok (upd_st g r) = slots_ok r" "runs r (upd_st g r)"
proof -
  have k: "keeps_be 0 r (upd_st g r)" by (rule be_only_keeps) simp
  show "pool_ok (upd_st g r) H = pool_ok r H" "slots_ok (upd_st g r) = slots_ok r" "runs r (upd_st g r)"
    by (rule keeps_be_frame [OF k])+
  show "ring_wf (upd_st g r) = ring_wf r" by (rule ring_wf_cong) (simp_all add: upd_st_def)
qed

text \<open>A change of the backend's state that leaves the sides alone.\<close>

definition same_sides :: "dsp_state \<Rightarrow> dsp_state \<Rightarrow> bool" where
  "same_sides st st' \<longleftrightarrow> map sf_in (d_fds st') = map sf_in (d_fds st) \<and> map sf_out (d_fds st') = map sf_out (d_fds st) \<and>
     d_done_max st' = d_done_max st"

lemma same_sides_refl [simp]: "same_sides st st"
  by (simp add: same_sides_def)

lemma same_sides_trans [trans]: "same_sides a b \<Longrightarrow> same_sides b c \<Longrightarrow> same_sides a c"
  by (simp add: same_sides_def)

lemma upd_st_ok:
  assumes "dsp_ring_ok c H r" "same_sides (r_be_state r) (g (r_be_state r))" "dsp_ok c' (g (r_be_state r))"
    "at_gcd (g (r_be_state r)) + H' = at_gcd (r_be_state r) + H"
  shows "dsp_ring_ok c' H' (upd_st g r)"
proof -
  have "sides_inv (fds_ring (upd_st g r))"
    by (rule sides_inv_proj [of _ "fds_ring r"])
      (use assms(1,2) in \<open>simp_all add: dsp_ring_ok_def same_sides_def\<close>)
  then show ?thesis
    using assms by (simp add: dsp_ring_ok_def upd_st_frame same_sides_def)
qed

subsection \<open>Handlers\<close>

lemma live_entry_same:
  assumes "map sources (d_fds st') = map sources (d_fds st)" "d_live st' = d_live st" "d_ending st' = d_ending st"
    "length (d_jobs st') = length (d_jobs st)"
  shows "live_ok st' = live_ok st"
  using assms by (simp add: live_ok_def)

lemma knock_fields [simp]:
  "d_fds (owe x) = d_fds (snd x)" "d_ready (owe x) = d_ready (snd x)" "d_done (owe x) = d_done (snd x)"
  "d_live (owe x) = d_live (snd x)" "d_jobs (owe x) = d_jobs (snd x)" "d_ending (owe x) = d_ending (snd x)"
  "d_done_max (owe x) = d_done_max (snd x)" "d_knocked (owe x) = d_knocked (snd x)"
  "d_fds (snd (dsp_knock_locked st)) = d_fds st" "d_ready (snd (dsp_knock_locked st)) = d_ready st"
  "d_done (snd (dsp_knock_locked st)) = d_done st" "d_live (snd (dsp_knock_locked st)) = d_live st"
  "d_jobs (snd (dsp_knock_locked st)) = d_jobs st" "d_ending (snd (dsp_knock_locked st)) = d_ending st"
  "d_done_max (snd (dsp_knock_locked st)) = d_done_max st" "d_sem (snd (dsp_knock_locked st)) = d_sem st"
  "d_knocked (snd (dsp_knock_locked st))"
  by (simp_all add: owe_def sem_signal_def dsp_knock_locked_def)

text \<open>A knock makes the door right whatever there is to collect, and owes what it says.\<close>

lemma knock_door:
  assumes "d_sem st + c = of_bool (d_knocked st)"
  shows "door_ok (c + of_bool (fst (dsp_knock_locked st))) (snd (dsp_knock_locked st))"
    "door_ok c (owe (dsp_knock_locked st))"
  using assms by (auto simp: door_ok_def dsp_knock_locked_def owe_def sem_signal_def)

lemma note_hit_simps [simp]:
  "sf_in (note_hit out e) = sf_in e" "sf_out (note_hit out e) = sf_out e" "df_queued (note_hit out e) = df_queued e"
  "sources (note_hit out e) = sources e" "entry_ok (note_hit out e) = entry_ok e"
  by (simp_all add: note_hit_def sources_def entry_ok_def)

lemma queued_simps [simp]:
  "sources (e\<lparr>df_queued := b\<rparr>) = sources e" "entry_ok (e\<lparr>df_queued := b\<rparr>) = entry_ok e"
  by (simp_all add: sources_def entry_ok_def)

lemma map_update_same: "k < length xs \<Longrightarrow> g e = g (xs ! k) \<Longrightarrow> map g (xs[k := e]) = map g xs"
  by (metis list_update_id map_update)

text \<open>A report: the descriptor is on the chain, its side is noted, and the door is knocked on.\<close>

lemma report_locked_ok:
  assumes "dsp_ok c st"
  shows "dsp_ok (c + of_bool (fst (dsp_report_locked f out st))) (snd (dsp_report_locked f out st))"
    "same_sides st (snd (dsp_report_locked f out st))" "at_gcd (snd (dsp_report_locked f out st)) = at_gcd st"
proof -
  let ?k = "unat f" and ?res = "dsp_report_locked f out st"
  have "dsp_ok (c + of_bool (fst ?res)) (snd ?res) \<and> same_sides st (snd ?res) \<and> at_gcd (snd ?res) = at_gcd st"
  proof (cases "?k < length (d_fds st)")
    case True
    let ?e = "note_hit out (d_fds st ! ?k)"
    define e where "e = (if df_queued ?e then ?e else ?e\<lparr>df_queued := True\<rparr>)"
    define st1 where "st1 = (if df_queued ?e then set_entry ?k e st else (set_entry ?k e st)\<lparr>d_ready := ?k # d_ready st\<rparr>)"
    have res: "?res = dsp_knock_locked st1"
      using True by (simp add: dsp_report_locked_def Let_def e_def st1_def)
    have e: "sf_in e = sf_in (d_fds st ! ?k)" "sf_out e = sf_out (d_fds st ! ?k)" "df_queued e"
      "sources e = sources (d_fds st ! ?k)" "entry_ok e = entry_ok (d_fds st ! ?k)" by (simp_all add: e_def)
    have st1: "d_fds st1 = (d_fds st)[?k := e]" "d_live st1 = d_live st" "d_ending st1 = d_ending st"
      "d_jobs st1 = d_jobs st" "d_done st1 = d_done st" "d_sem st1 = d_sem st" "d_knocked st1 = d_knocked st"
      "d_done_max st1 = d_done_max st"
      by (simp_all add: st1_def)
    have "chain_ok st1"
      using assms True e(3) by (auto simp: dsp_ok_def chain_ok_def st1_def nth_list_update)
    moreover have "live_ok st1"
      using assms True e(4) by (subst live_entry_same [of _ st]) (simp_all add: dsp_ok_def st1 map_update_same)
    moreover have "\<forall>e \<in> set (d_fds st1). entry_ok e"
      using assms True e(5) set_update_subset_insert [of "d_fds st" ?k e] by (auto simp: dsp_ok_def st1)
    moreover have "door_ok (c + of_bool (fst (dsp_knock_locked st1))) (snd (dsp_knock_locked st1))"
      by (rule knock_door) (use assms in \<open>simp add: st1 dsp_ok_def door_ok_def\<close>)
    ultimately have "dsp_ok (c + of_bool (fst ?res)) (snd ?res)"
      by (simp add: res dsp_ok_def chain_ok_def live_ok_def)
    then show ?thesis
      using True e by (simp add: res same_sides_def at_gcd_def st1 map_update_same)
  qed (use assms in \<open>simp add: dsp_report_locked_def\<close>)
  then show "dsp_ok (c + of_bool (fst ?res)) (snd ?res)" "same_sides st (snd ?res)" "at_gcd (snd ?res) = at_gcd st"
    by auto
qed

text \<open>Signalling pays what is owed.\<close>

lemma owe_ok:
  assumes "dsp_ok (c + of_bool (fst x)) (snd x)"
  shows "dsp_ok c (owe x)"
proof -
  have "door_ok c (owe x)" using assms by (auto simp: dsp_ok_def door_ok_def owe_def sem_signal_def work_def)
  then show ?thesis using assms by (simp add: dsp_ok_def live_ok_def chain_ok_def)
qed

lemma owe_same [simp]: "at_gcd (owe x) = at_gcd (snd x)" "same_sides st (owe x) = same_sides st (snd x)"
  by (simp_all add: at_gcd_def same_sides_def)

lemma gate_ok [simp]:
  "dsp_ok c (gate_signal st) = dsp_ok c st" "at_gcd (gate_signal st) = at_gcd st"
  "same_sides st0 (gate_signal st) = same_sides st0 st"
  by (simp_all add: gate_signal_def dsp_ok_def live_ok_def chain_ok_def door_ok_def work_def at_gcd_def same_sides_def)

lemma report_ok:
  assumes "dsp_ok c st"
  shows "dsp_ok c (dsp_report f out st)" "same_sides st (dsp_report f out st)"
    "at_gcd (dsp_report f out st) = at_gcd st"
  using report_locked_ok [OF assms] by (simp_all add: dsp_report_def owe_ok)

lemma cancelled_ok:
  assumes "dsp_ok c st"
  shows "dsp_ok c (dsp_cancelled st)" "same_sides st (dsp_cancelled st)" "at_gcd (dsp_cancelled st) = at_gcd st"
proof -
  let ?st = "st\<lparr>d_ending := d_ending st - 1, d_live := d_live st - 1\<rparr>"
  have "dsp_ok c ?st" if "d_ending st \<noteq> 0"
    using assms that by (auto simp: dsp_ok_def live_ok_def chain_ok_def door_ok_def work_def)
  then show "dsp_ok c (dsp_cancelled st)" using assms by (simp add: dsp_cancelled_def dsp_cancelled_locked_def)
  show "same_sides st (dsp_cancelled st)" by (simp add: dsp_cancelled_def dsp_cancelled_locked_def) (simp add: same_sides_def)
  show "at_gcd (dsp_cancelled st) = at_gcd st" by (simp add: dsp_cancelled_def dsp_cancelled_locked_def) (simp add: at_gcd_def)
qed

text \<open>The last word of a job: its op goes to the results.\<close>

lemma drop_job_ops:
  assumes "k < length js"
  shows "mset (map job_op js) = add_mset (job_op (js ! k)) (mset (map job_op (take k js @ drop (Suc k) js)))"
proof -
  have "js = take k js @ js ! k # drop (Suc k) js" using assms by (rule id_take_nth_drop)
  then have "mset (map job_op js) = mset (map job_op (take k js @ js ! k # drop (Suc k) js))" by simp
  then show ?thesis by simp
qed

lemma done_locked_ok:
  fixes res :: i32
  assumes "dsp_ok c st" "k < length (d_jobs st)" "job_op (d_jobs st ! k) = i" "length (d_done st) < d_done_max st"
  defines "x \<equiv> dsp_done_locked i res (drop_job k st)"
  shows "dsp_ok (c + of_bool (fst x)) (snd x)" "same_sides st (snd x)" "at_gcd (snd x) = at_gcd st"
proof -
  define st1 where "st1 = (drop_job k st)\<lparr>d_done := d_done st @ [(i, res)], d_live := d_live st - 1\<rparr>"
  have x: "x = dsp_knock_locked st1"
    using assms(4) by (simp add: x_def dsp_done_locked_def drop_job_def st1_def)
  have st1: "d_fds st1 = d_fds st" "d_live st1 = d_live st - 1" "d_ending st1 = d_ending st"
    "d_jobs st1 = take k (d_jobs st) @ drop (Suc k) (d_jobs st)" "d_done st1 = d_done st @ [(i, res)]"
    "d_sem st1 = d_sem st" "d_knocked st1 = d_knocked st" "d_ready st1 = d_ready st" "d_done_max st1 = d_done_max st"
    by (simp_all add: st1_def drop_job_def)
  have "length (d_jobs st1) = length (d_jobs st) - 1" using assms(2) by (simp add: st1(4))
  then have "live_ok st1" using assms(1,2) by (simp add: dsp_ok_def live_ok_def st1(1-3))
  moreover have "door_ok (c + of_bool (fst (dsp_knock_locked st1))) (snd (dsp_knock_locked st1))"
    by (rule knock_door) (use assms(1) in \<open>simp add: st1 dsp_ok_def door_ok_def\<close>)
  ultimately show "dsp_ok (c + of_bool (fst x)) (snd x)"
    using assms(1) by (simp add: x dsp_ok_def live_ok_def chain_ok_def st1(1,8))
  show "same_sides st (snd x)" by (simp add: x same_sides_def st1)
  show "at_gcd (snd x) = at_gcd st"
    unfolding at_gcd_def x knock_fields st1(4,5) drop_job_ops [OF assms(2)] by (simp add: assms(3))
qed

lemma at_gcd_room:
  assumes "pool_ok r (at_gcd st + H)" "d_done_max st = unat (r_op_pool_n r)" "k < length (d_jobs st)"
  shows "length (d_done st) < d_done_max st"
proof -
  have "size (acct r + (at_gcd st + H)) = unat (r_op_pool_n r)"
    using assms(1) by (simp only: pool_ok_def) simp
  then show ?thesis using assms(2,3) by (simp add: at_gcd_def)
qed

text \<open>Every handler keeps the ring as it should be, whatever it is told.\<close>

lemma upd_st_done:
  assumes "dsp_ring_ok c H r" "k < length (d_jobs (r_be_state r))" "job_op (d_jobs (r_be_state r) ! k) = i"
  shows "dsp_ring_ok c H (upd_st (\<lambda>st. dsp_done i res (drop_job k st)) r)"
proof -
  let ?st = "r_be_state r"
  have "length (d_done ?st) < d_done_max ?st"
    using at_gcd_room [OF _ _ assms(2)] assms(1) by (auto simp: dsp_ring_ok_def)
  then have "dsp_ok c (dsp_done i res (drop_job k ?st)) \<and> same_sides ?st (dsp_done i res (drop_job k ?st)) \<and>
      at_gcd (dsp_done i res (drop_job k ?st)) = at_gcd ?st"
    using done_locked_ok [of c ?st k i res] assms by (simp add: dsp_ring_ok_def dsp_done_def owe_ok)
  then show ?thesis by (intro upd_st_ok [OF assms(1)]) simp_all
qed

lemma copied_ok:
  assumes "dsp_ring_ok c H r" "k < length (d_jobs (r_be_state r))" "job_op (d_jobs (r_be_state r) ! k) = job_op j"
  shows "dsp_ring_ok c H (upd_st (\<lambda>st. st\<lparr>d_jobs := (d_jobs (r_be_state r))[k := j]\<rparr>) r)"
proof (rule upd_st_ok [OF assms(1)])
  let ?st = "r_be_state r"
  have "map job_op ((d_jobs ?st)[k := j]) = map job_op (d_jobs ?st)"
    using assms(2,3) by (simp add: map_update_same)
  then show "at_gcd (?st\<lparr>d_jobs := (d_jobs ?st)[k := j]\<rparr>) + H = at_gcd ?st + H" by (simp add: at_gcd_def)
  show "dsp_ok c (?st\<lparr>d_jobs := (d_jobs ?st)[k := j]\<rparr>)"
    using assms(1) by (simp add: dsp_ring_ok_def dsp_ok_def live_ok_def chain_ok_def door_ok_def work_def)
qed (simp add: same_sides_def)

lemma gcd_run_ok:
  assumes "gcd_run os ev r w = (r', w')" "dsp_ring_ok c H r"
  shows "dsp_ring_ok c H r' \<and> be_only r r'"
proof -
  have ok: "dsp_ok c (r_be_state r)" using assms(2) by (simp add: dsp_ring_ok_def)
  show ?thesis
  proof (cases ev)
    case (Ev_report f out)
    then show ?thesis using assms(1) upd_st_ok [OF assms(2)] report_ok [OF ok] by (auto simp: gcd_run_def)
  next
    case Ev_cancelled
    then show ?thesis using assms(1) upd_st_ok [OF assms(2)] cancelled_ok [OF ok] by (auto simp: gcd_run_def)
  next
    case (Ev_job k)
    then show ?thesis using assms upd_st_done [OF assms(2), of k]
      by (auto simp: gcd_run_def Let_def split: if_splits dsp_job.splits prod.splits)
  next
    case (Ev_write k fin left err)
    then show ?thesis using assms upd_st_done [OF assms(2), of k]
      by (auto simp: gcd_run_def Let_def split: if_splits dsp_job.splits bool.splits)
  next
    case (Ev_read k fin szs err)
    then show ?thesis using assms upd_st_done [OF assms(2), of k] copied_ok [OF assms(2), of k]
      by (auto simp: gcd_run_def Let_def split: if_splits dsp_job.splits bool.splits)
  qed
qed

lemma gcd_runs_ok:
  "gcd_runs os evs r w = (r', w') \<Longrightarrow> dsp_ring_ok c H r \<Longrightarrow> dsp_ring_ok c H r' \<and> be_only r r'"
proof (induction evs arbitrary: r w)
  case (Cons ev evs)
  obtain r1 w1 where e: "gcd_run os ev r w = (r1, w1)" by fastforce
  have "gcd_runs os evs r1 w1 = (r', w')" using Cons.prems(1) by (simp add: e)
  from Cons.IH [OF this] gcd_run_ok [OF e Cons.prems(2)] show ?case using be_only_trans by blast
qed simp

subsection \<open>Handing an op to GCD\<close>

lemma start_job_ok:
  assumes "dsp_ring_ok c (add_mset i H) r" "job_op j = i"
  shows "dsp_ring_ok c H (start_job j r)"
  unfolding start_job_def
  by (rule upd_st_ok [OF assms(1)])
    (use assms in \<open>simp_all add: dsp_ring_ok_def dsp_ok_def live_ok_def chain_ok_def door_ok_def work_def
       same_sides_def at_gcd_def\<close>)

lemma start_job_only: "be_only r (start_job j r)"
  by (simp add: start_job_def)

lemma submit_blocking_ok:
  assumes "dsp_submit_blocking os dso i r w = (r', w')" "dsp_ring_ok c (add_mset i H) r"
  shows "dsp_ring_ok c H r' \<and> be_only r r'"
proof -
  have "r' = start_job (Job_pool i) r \<or> (\<exists>out len. r' = start_job (Job_io i out len 0) r)"
    using assms(1)
    by (auto simp: dsp_submit_blocking_def dsp_file_channel_def Let_def split: if_splits prod.splits bool.splits)
  then have "\<exists>j. job_op j = i \<and> r' = start_job j r" by (metis job_op.simps)
  then show ?thesis using start_job_ok [OF assms(2)] start_job_only by blast
qed

lemma dsp_execute_inv:
  assumes "eb_execute (slip_backend_dispatch os dso) i r w = Some (x, r', w')" "dsp_ring_inv (add_mset i H) r"
  shows "dsp_ring_inv (exec_hands i x H) r' \<and> runs r r'"
proof -
  let ?X = "at_gcd (r_be_state r)" and ?n = "unat (r_op_pool_n r)"
  have ex: "slip_posix_execute (dsp_readiness os dso) os i r w = Some (x, r', w')"
    using assms(1) by (simp add: slip_backend_dispatch_def)
  have inv: "ring_inv (dsp_inv ?X ?n) (add_mset i (?X + H)) r" using assms(2) by (simp add: dsp_ring_inv_iff)
  have again: "dsp_ring_inv L s" if "ring_inv (dsp_inv ?X ?n) K s" "runs r s" "K = ?X + L" for K L s
    using that by (intro dsp_ring_invI [of ?X]) (simp add: runs_def)
  show ?thesis
    using ex inv
  proof (cases rule: dispatch.slip_posix_execute_cases)
    case ran
    have "exec_hands i x (?X + H) = ?X + exec_hands i x H" by (cases x) simp_all
    with ran again show ?thesis by blast
  next
    case (blocks r1 w1)
    have "dsp_submit_blocking os dso i r1 w1 = (r', w')" using blocks(4) by (simp add: dsp_readiness_def)
    moreover have "dsp_ring_inv (add_mset i H) r1" by (rule again [OF blocks(1,2)]) simp
    ultimately have "dsp_ring_inv H r' \<and> be_only r1 r'" by (rule submit_blocking_ok)
    then show ?thesis
      using blocks(2,3) keeps_be_frame(4) [OF be_only_keeps] by (auto intro: runs_trans)
  qed
qed

end
