(* ===== verification/Dispatch_Wait.thy ===== *)
theory Dispatch_Wait
  imports Dispatch_Inv
begin

text \<open>
  The wait of the dispatch backend: what its section under the mutex collects, that no op is
  lost or doubled by it, and that with the pool's own size as the room nothing stays behind.
\<close>

subsection \<open>Collecting\<close>

lemma take_done_eq: "dsp_take_done n ds out = (out @ take n ds, drop n ds)"
  by (induction n ds out rule: dsp_take_done.induct) simp_all

definition answered :: "dsp_fd \<Rightarrow> dsp_fd" where
  "answered e = e\<lparr>df_rd_hit := False, df_wr_hit := False, df_queued := False\<rparr>"

lemma answered_simps [simp]:
  "sf_in (answered e) = sf_in e" "sf_out (answered e) = sf_out e" "\<not> df_queued (answered e)"
  "sources (answered e) = sources e" "entry_ok (answered e) = entry_ok e"
  by (simp_all add: answered_def sources_def entry_ok_def)

text \<open>What a walk over the chain \<open>ks\<close> does: the first \<open>m\<close> descriptors hand over their waiters and
  leave the chain, and it stops early only at one whose waiters do not fit.\<close>

definition walked :: "nat \<Rightarrow> nat list \<Rightarrow> opid list \<Rightarrow> dsp_state \<Rightarrow> opid list \<times> dsp_state \<Rightarrow> nat \<Rightarrow> bool" where
  "walked pool ks ready st x m \<longleftrightarrow> m \<le> length ks \<and>
     fst x = ready @ concat (map (\<lambda>k. hit_ops (d_fds st ! k)) (take m ks)) \<and>
     (m < length ks \<longrightarrow> pool < length (fst x) + length (hit_ops (d_fds st ! (ks ! m)))) \<and>
     snd x = st\<lparr>d_fds := d_fds (snd x), d_ready := drop m ks\<rparr> \<and> length (d_fds (snd x)) = length (d_fds st) \<and>
     (\<forall>k < length (d_fds st). d_fds (snd x) ! k = (if k \<in> set (take m ks) then answered (d_fds st ! k) else d_fds st ! k))"

lemma dsp_walk_walked:
  "distinct ks \<Longrightarrow> \<forall>k \<in> set ks. k < length (d_fds st) \<Longrightarrow> \<exists>m. walked pool ks ready st (dsp_walk pool ks ready st) m"
proof (induction ks arbitrary: ready st)
  case Nil
  then show ?case by (auto simp: walked_def)
next
  case (Cons k ks)
  let ?e = "d_fds st ! k"
  show ?case
  proof (cases "pool < length ready + length (hit_ops ?e)")
    case True
    then show ?thesis by (intro exI [of _ 0]) (simp add: walked_def)
  next
    case False
    let ?st = "set_entry k (answered ?e) st" and ?ready = "ready @ hit_ops ?e"
    let ?x = "dsp_walk pool ks ?ready ?st"
    have x: "dsp_walk pool (k # ks) ready st = ?x" using False by (simp add: answered_def Let_def)
    obtain m where m: "walked pool ks ?ready ?st ?x m" using Cons.IH [of ?st ?ready] Cons.prems by auto
    have other: "d_fds ?st ! j = d_fds st ! j" if "j \<in> set ks" for j
    proof -
      have "j \<noteq> k" using that Cons.prems(1) by auto
      then show ?thesis by simp
    qed
    have hits: "map (\<lambda>j. hit_ops (d_fds ?st ! j)) (take m ks) = map (\<lambda>j. hit_ops (d_fds st ! j)) (take m ks)"
      using other by (intro map_cong refl) (metis in_set_takeD)
    have "walked pool (k # ks) ready st ?x (Suc m)"
      unfolding walked_def
    proof (intro conjI)
      show "fst ?x = ready @ concat (map (\<lambda>j. hit_ops (d_fds st ! j)) (take (Suc m) (k # ks)))"
      proof -
        have f: "fst ?x = ?ready @ concat (map (\<lambda>j. hit_ops (d_fds ?st ! j)) (take m ks))"
          using m unfolding walked_def by blast
        show ?thesis unfolding f hits by simp
      qed
      show "Suc m < length (k # ks) \<longrightarrow> pool < length (fst ?x) + length (hit_ops (d_fds st ! ((k # ks) ! Suc m)))"
      proof
        assume "Suc m < length (k # ks)"
        then have l: "m < length ks" by simp
        have "pool < length (fst ?x) + length (hit_ops (d_fds ?st ! (ks ! m)))"
          using m l unfolding walked_def by blast
        then show "pool < length (fst ?x) + length (hit_ops (d_fds st ! ((k # ks) ! Suc m)))"
          using other [of "ks ! m"] l by (simp del: set_entry_fields)
      qed
      show "snd ?x = st\<lparr>d_fds := d_fds (snd ?x), d_ready := drop (Suc m) (k # ks)\<rparr>"
        using m unfolding walked_def by (metis (no_types, lifting) dsp_state.simps(12) dsp_state.surjective dsp_state.update_convs(2,3) drop_Suc_Cons set_entry_def)
      show "\<forall>j<length (d_fds st). d_fds (snd ?x) ! j =
          (if j \<in> set (take (Suc m) (k # ks)) then answered (d_fds st ! j) else d_fds st ! j)"
      proof (intro allI impI)
        fix j assume j: "j < length (d_fds st)"
        then have "d_fds (snd ?x) ! j = (if j \<in> set (take m ks) then answered (d_fds ?st ! j) else d_fds ?st ! j)"
          using m by (simp add: walked_def)
        moreover have "j = k \<Longrightarrow> j \<notin> set (take m ks)" using Cons.prems(1) by (auto dest: in_set_takeD)
        ultimately show "d_fds (snd ?x) ! j = (if j \<in> set (take (Suc m) (k # ks)) then answered (d_fds st ! j) else d_fds st ! j)"
          using j by (cases "j = k") auto
      qed
    qed (use m in \<open>simp_all add: walked_def\<close>)
    then show ?thesis using x by auto
  qed
qed

lemma walked_state:
  assumes "walked pool (d_ready st) [] st x m" "chain_ok st"
  shows "chain_ok (snd x)" "same_sides st (snd x)" "map sources (d_fds (snd x)) = map sources (d_fds st)"
    "(\<forall>e \<in> set (d_fds st). entry_ok e) \<longrightarrow> (\<forall>e \<in> set (d_fds (snd x)). entry_ok e)"
proof -
  let ?ks = "d_ready st"
  have len: "length (d_fds (snd x)) = length (d_fds st)" and ready: "d_ready (snd x) = drop m ?ks"
    and max: "d_done_max (snd x) = d_done_max st"
    using assms(1) unfolding walked_def by (metis dsp_state.select_convs dsp_state.surjective dsp_state.update_convs(2,3))+
  have fds: "d_fds (snd x) ! k = (if k \<in> set (take m ?ks) then answered (d_fds st ! k) else d_fds st ! k)"
    if "k < length (d_fds st)" for k using assms(1) that by (simp add: walked_def)
  have split: "set ?ks = set (take m ?ks) \<union> set (drop m ?ks)" "set (take m ?ks) \<inter> set (drop m ?ks) = {}"
    using assms(2) by (metis append_take_drop_id set_append, simp add: chain_ok_def set_take_disj_set_drop_if_distinct)
  have "k \<in> set (drop m ?ks) \<longleftrightarrow> k < length (d_fds (snd x)) \<and> df_queued (d_fds (snd x) ! k)" for k
  proof (cases "k < length (d_fds st)")
    case True
    have "k \<in> set (take m ?ks) \<or> k \<in> set (drop m ?ks) \<longleftrightarrow> df_queued (d_fds st ! k)"
      using assms(2) True split(1) by (auto simp: chain_ok_def)
    then show ?thesis using fds [OF True] True split(2) by (auto simp: len)
  next
    case False
    then show ?thesis using assms(2) split(1) by (auto simp: chain_ok_def len)
  qed
  then show "chain_ok (snd x)" using assms(2) by (simp add: chain_ok_def ready)
  have "map g (d_fds (snd x)) = map g (d_fds st)" if "\<And>e. g (answered e) = g e" for g :: "dsp_fd \<Rightarrow> 'a"
    using len fds that by (intro nth_equalityI) simp_all
  from this [of sf_in] this [of sf_out] show "same_sides st (snd x)" by (simp add: same_sides_def max)
  show "map sources (d_fds (snd x)) = map sources (d_fds st)"
    using len fds by (intro nth_equalityI) simp_all
  show "(\<forall>e \<in> set (d_fds st). entry_ok e) \<longrightarrow> (\<forall>e \<in> set (d_fds (snd x)). entry_ok e)"
  proof (intro impI ballI)
    fix e assume ok: "\<forall>e \<in> set (d_fds st). entry_ok e" and "e \<in> set (d_fds (snd x))"
    then obtain i where i: "i < length (d_fds st)" "e = d_fds (snd x) ! i" by (auto simp: in_set_conv_nth len)
    have "entry_ok (d_fds st ! i)" using ok i(1) by simp
    then show "entry_ok e" unfolding i(2) fds [OF i(1)] by simp
  qed
qed

text \<open>The section of a wait that holds the door's one knock.\<close>

lemma collect_ok:
  assumes "dsp_collect pool cap st = (out, ready, left, st')" "dsp_ok 1 st"
  defines "st2 \<equiv> (if left then sem_signal st' else st')"
  obtains m where "dsp_ok 0 st2" "same_sides st st2" "at_gcd st2 + mset (map fst out) = at_gcd st"
    "out = take cap (rev (d_done st))"
    "ready = (if length out < cap then concat (map (\<lambda>k. hit_ops (d_fds st ! k)) (take m (d_ready st))) else [])"
    "length out < cap \<longrightarrow> m \<le> length (d_ready st) \<and> d_ready st2 = drop m (d_ready st) \<and>
       (m < length (d_ready st) \<longrightarrow> pool < length ready + length (hit_ops (d_fds st ! (d_ready st ! m))))"
    "d_done st2 = rev (drop cap (rev (d_done st)))"
proof -
  have door: "d_sem st = 0" "d_knocked st"
    using assms(2) by (auto simp: dsp_ok_def door_ok_def of_bool_def split: if_splits)
  have chain: "chain_ok st" using assms(2) by (simp add: dsp_ok_def)
  define rest where "rest = rev (drop cap (rev (d_done st)))"
  have out: "out = take cap (rev (d_done st))"
    using assms(1) by (auto simp: dsp_collect_def take_done_eq Let_def split: prod.splits)
  define st1 where "st1 = st\<lparr>d_done := rest\<rparr>"
  have chain1: "chain_ok st1" "d_ready st1 = d_ready st" "d_fds st1 = d_fds st"
    using chain by (simp_all add: st1_def chain_ok_def)
  define x where "x = (if length out < cap then dsp_walk pool (d_ready st) [] st1 else ([], st1))"
  obtain m where m: "length out < cap \<longrightarrow> walked pool (d_ready st1) [] st1 x m"
    using dsp_walk_walked [of "d_ready st1" st1 pool "[]"] chain1 by (auto simp: x_def chain_ok_def)
  have parts: "ready = fst x" "left = (d_ready (snd x) \<noteq> [] \<or> d_done (snd x) \<noteq> [])"
    "st' = (if left then snd x else (snd x)\<lparr>d_knocked := False\<rparr>)"
    using assms(1) by (auto simp: dsp_collect_def take_done_eq Let_def x_def st1_def rest_def split: prod.splits if_splits)
  have state: "snd x = st1\<lparr>d_fds := d_fds (snd x), d_ready := d_ready (snd x)\<rparr>"
  proof (cases "length out < cap")
    case True
    then show ?thesis using m unfolding walked_def
      by (metis dsp_state.select_convs(3) dsp_state.surjective dsp_state.update_convs(2,3))
  qed (simp add: x_def)
  then have same: "d_done (snd x) = rest" "d_live (snd x) = d_live st" "d_ending (snd x) = d_ending st"
    "d_jobs (snd x) = d_jobs st" "d_sem (snd x) = 0" "d_knocked (snd x)" "d_done_max (snd x) = d_done_max st"
    using door by (metis (no_types, lifting) dsp_state.select_convs dsp_state.surjective dsp_state.update_convs st1_def)+
  have ws: "chain_ok (snd x) \<and> same_sides st (snd x) \<and> map sources (d_fds (snd x)) = map sources (d_fds st) \<and>
      (\<forall>e \<in> set (d_fds (snd x)). entry_ok e)"
  proof (cases "length out < cap")
    case True
    note w = walked_state [OF mp [OF m True] chain1(1)]
    have "\<forall>e \<in> set (d_fds (snd x)). entry_ok e" using assms(2) w(4) chain1(3) by (simp add: dsp_ok_def)
    moreover have "same_sides st (snd x)" using w(2) by (simp add: same_sides_def chain1(3)) (simp add: st1_def)
    ultimately show ?thesis using w(1,3) by (simp add: chain1(3))
  next
    case False
    then show ?thesis using chain1 assms(2) by (simp add: x_def dsp_ok_def) (simp add: same_sides_def st1_def)
  qed
  have st2: "d_fds st2 = d_fds (snd x)" "d_ready st2 = d_ready (snd x)" "d_done st2 = rest" "d_live st2 = d_live st"
    "d_ending st2 = d_ending st" "d_jobs st2 = d_jobs st" "d_sem st2 = of_bool left" "d_knocked st2 = left"
    "d_done_max st2 = d_done_max st"
    using same by (simp_all add: st2_def parts(3) sem_signal_def)
  have "live_ok st2" using assms(2) ws by (simp add: live_ok_def dsp_ok_def st2)
  moreover have "chain_ok st2" using ws by (simp add: chain_ok_def st2(1,2))
  moreover have "door_ok 0 st2" using parts(2) same(1) by (auto simp: door_ok_def work_def st2)
  ultimately have ok: "dsp_ok 0 st2" using ws by (simp add: dsp_ok_def st2(1))
  have "mset (map fst out) + mset (map fst rest) = mset (map fst (d_done st))"
  proof -
    have "mset (d_done st) = mset (take cap (rev (d_done st)) @ drop cap (rev (d_done st)))" by simp
    then have "mset (d_done st) = mset out + mset rest" unfolding out rest_def mset_append mset_rev .
    then show ?thesis by (simp only: mset_map image_mset_union)
  qed
  then have gcd: "at_gcd st2 + mset (map fst out) = at_gcd st" by (simp add: at_gcd_def st2 add.commute)
  show ?thesis
  proof (rule that [OF ok _ gcd out])
    show "same_sides st st2" using ws by (simp add: same_sides_def st2)
    show "ready = (if length out < cap then concat (map (\<lambda>k. hit_ops (d_fds st ! k)) (take m (d_ready st))) else [])"
    proof (cases "length out < cap")
      case True
      then show ?thesis using m chain1(2,3) by (simp add: parts(1) walked_def)
    next
      case False
      then show ?thesis by (simp add: parts(1) x_def)
    qed
    show "length out < cap \<longrightarrow> m \<le> length (d_ready st) \<and> d_ready st2 = drop m (d_ready st) \<and>
       (m < length (d_ready st) \<longrightarrow> pool < length ready + length (hit_ops (d_fds st ! (d_ready st ! m))))"
    proof
      assume "length out < cap"
      then have w: "walked pool (d_ready st) [] st1 x m" using m chain1(2) by simp
      then have "d_ready (snd x) = drop m (d_ready st)"
        unfolding walked_def by (metis dsp_state.select_convs(3) dsp_state.surjective dsp_state.update_convs(2,3))
      moreover have "m \<le> length (d_ready st)"
        "m < length (d_ready st) \<longrightarrow> pool < length (fst x) + length (hit_ops (d_fds st ! (d_ready st ! m)))"
        using w unfolding walked_def chain1(3) by blast+
      ultimately show "m \<le> length (d_ready st) \<and> d_ready st2 = drop m (d_ready st) \<and>
         (m < length (d_ready st) \<longrightarrow> pool < length ready + length (hit_ops (d_fds st ! (d_ready st ! m))))"
        unfolding parts(1) st2(2) by blast
    qed
    show "d_done st2 = rev (drop cap (rev (d_done st)))" by (simp add: st2 rest_def)
  qed
qed

text \<open>What the hit sides of distinct descriptors hand over is parked, and each op once.\<close>

lemma hits_parked:
  assumes "sides_inv (fds_ring r)" "distinct ks" "\<forall>k \<in> set ks. k < length (d_fds (r_be_state r))"
  defines "ops \<equiv> concat (map (\<lambda>k. hit_ops (d_fds (r_be_state r) ! k)) ks)"
  shows "distinct ops" "set ops \<subseteq> set (r_waiting r)"
proof -
  have one: "distinct (hit_ops (d_fds (r_be_state r) ! k)) \<and>
      (\<forall>i \<in> set (hit_ops (d_fds (r_be_state r) ! k)). i \<in> set (r_waiting r) \<and> unat (sqe_fd (sqe_of r i)) = k)"
    if "k < length (d_fds (r_be_state r))" for k
  proof -
    let ?e = "d_fds (r_be_state r) ! k"
    have s: "side_ok (fds_ring r) k False (sf_in ?e)" "side_ok (fds_ring r) k True (sf_out ?e)"
      using sides_inv_entry [OF assms(1), of k] that by simp_all
    have "set (sf_in ?e) \<inter> set (sf_out ?e) = {}" using side_okD [OF s(1)] side_okD [OF s(2)] by blast
    then show ?thesis using s by (auto simp: hit_ops_def side_ok_def)
  qed
  have "distinct ops \<and> set ops \<subseteq> set (r_waiting r) \<and> (\<forall>i \<in> set ops. unat (sqe_fd (sqe_of r i)) \<in> set ks)"
    using assms(2,3) unfolding ops_def
  proof (induction ks)
    case (Cons k ks)
    let ?h = "hit_ops (d_fds (r_be_state r) ! k)" and ?t = "concat (map (\<lambda>k. hit_ops (d_fds (r_be_state r) ! k)) ks)"
    have t: "distinct ?t \<and> set ?t \<subseteq> set (r_waiting r) \<and> (\<forall>i \<in> set ?t. unat (sqe_fd (sqe_of r i)) \<in> set ks)"
      using Cons by simp
    have h: "distinct ?h \<and> (\<forall>i \<in> set ?h. i \<in> set (r_waiting r) \<and> unat (sqe_fd (sqe_of r i)) = k)"
      using one [of k] Cons.prems(2) by (simp del: split_paired_All)
    have "set ?h \<inter> set ?t = {}" using t h Cons.prems(1) by fastforce
    then have "distinct (?h @ ?t)" using t h by simp
    moreover have "set (?h @ ?t) \<subseteq> set (r_waiting r)" "\<forall>i \<in> set (?h @ ?t). unat (sqe_fd (sqe_of r i)) \<in> set (k # ks)"
      using t h unfolding set_append by auto
    ultimately show ?case by (simp only: list.map concat.simps)
  qed simp
  then show "distinct ops" "set ops \<subseteq> set (r_waiting r)" by auto
qed

lemma chain_bound: "chain_ok st \<Longrightarrow> k \<in> set (d_ready st) \<Longrightarrow> k < length (d_fds st)"
  by (simp add: chain_ok_def)

lemma collect_ready_ok:
  assumes "dsp_collect pool cap (r_be_state r) = (out, ready, left, st')" "dsp_ring_ok 1 H r"
  shows "distinct ready" "set ready \<subseteq> set (r_waiting r)"
proof -
  have ok: "dsp_ok 1 (r_be_state r)" "sides_inv (fds_ring r)" using assms(2) by (simp_all add: dsp_ring_ok_def)
  then have chain: "chain_ok (r_be_state r)" by (simp add: dsp_ok_def)
  obtain m where m: "ready = (if length out < cap
      then concat (map (\<lambda>k. hit_ops (d_fds (r_be_state r) ! k)) (take m (d_ready (r_be_state r)))) else [])"
    by (rule collect_ok [OF assms(1) ok(1)])
  have "distinct (take m (d_ready (r_be_state r)))" using chain by (simp add: chain_ok_def)
  from hits_parked [OF ok(2) this] chain_bound [OF chain] in_set_takeD
  show "distinct ready" "set ready \<subseteq> set (r_waiting r)" unfolding m by (auto dest: in_set_takeD)
qed

text \<open>A wait answers ops that were at GCD or parked, each once, and leaves the ring as it should
  be.\<close>

lemma dsp_wait_inv:
  assumes "dsp_wait os dso r cap t w = Some (fin, r', w')" "dsp_ring_inv H r"
  shows "dsp_ring_inv (mset (map fst (case fin of None \<Rightarrow> [] | Some ds \<Rightarrow> ds)) + H) r' \<and> runs r r'"
proof -
  obtain evs w1 where e1: "dso_wait dso t w = (evs, w1)" by fastforce
  obtain r1 w2 where g1: "gcd_runs os evs r w1 = (r1, w2)" by fastforce
  note k1 = gcd_runs_ok [OF g1 assms(2)]
  show ?thesis
  proof (cases "d_sem (r_be_state r1) = 0")
    case True
    then have "fin = Some [] \<and> r' = r1" using assms(1) by (auto simp: dsp_wait_def e1 g1 split: if_splits)
    then show ?thesis using k1 keeps_be_frame(4) [OF be_only_keeps] by auto
  next
    case False
    let ?r2 = "upd_st (\<lambda>st. st\<lparr>d_sem := d_sem st - 1\<rparr>) r1"
    have k2: "dsp_ring_ok 1 H ?r2"
      by (rule upd_st_ok [OF conjunct1 [OF k1]])
        (use k1 False in \<open>auto simp: dsp_ring_ok_def dsp_ok_def live_ok_def chain_ok_def door_ok_def work_def
           same_sides_def at_gcd_def of_bool_def split: if_splits\<close>)
    obtain evs2 w3 where e2: "dso_sync dso w2 = (evs2, w3)" by fastforce
    obtain r3 w4 where g2: "gcd_runs os evs2 ?r2 w3 = (r3, w4)" by fastforce
    note k3 = conjunct1 [OF gcd_runs_ok [OF g2 k2]] conjunct2 [OF gcd_runs_ok [OF g2 k2]]
    obtain out ready left st where c: "dsp_collect (unat (r_op_pool_n r3)) cap (r_be_state r3) = (out, ready, left, st)"
      by (metis prod_cases4)
    note rd = collect_ready_ok [OF c k3(1)]
    let ?st = "if left then sem_signal st else st"
    let ?r4 = "upd_st (\<lambda>_. ?st) r3"
    have "dsp_ring_inv (mset (map fst out) + H) ?r4"
    proof (rule collect_ok [OF c])
      show "dsp_ok 1 (r_be_state r3)" using k3(1) by (simp add: dsp_ring_ok_def)
      assume "dsp_ok 0 ?st" "same_sides (r_be_state r3) ?st" "at_gcd ?st + mset (map fst out) = at_gcd (r_be_state r3)"
      then show ?thesis by (intro upd_st_ok [OF k3(1)]) (simp_all add: add.assoc [symmetric])
    qed
    moreover have "runs r ?r4"
      using k1 k3(2) keeps_be_frame(4) [OF be_only_keeps] by (meson runs_trans upd_st_only)
    moreover have r4: "?r4 = r3\<lparr>r_be_state := ?st\<rparr>" by (simp add: upd_st_def)
    ultimately have i4: "dsp_ring_inv (mset (map fst out) + H) ?r4" "runs r ?r4" by blast+
    show ?thesis
    proof (cases "ready \<noteq> [] \<and> length out < cap")
      case True
      then obtain ds where f: "slip_posix_finish_ready (dsp_readiness os dso) os ready cap out ?r4 w4 = Some (ds, r', w')"
        and fin: "fin = Some ds"
        using assms(1) False by (auto simp: dsp_wait_def e1 g1 e2 g2 c r4 Let_def simp del: One_nat_def split: option.splits)
      let ?X = "at_gcd (r_be_state ?r4)" and ?n = "unat (r_op_pool_n ?r4)"
      have "ring_inv (dsp_inv ?X ?n) (mset (map fst out) + (?X + H)) ?r4"
        using i4(1) unfolding dsp_ring_inv_iff by (simp add: ac_simps)
      then have "ring_inv (dsp_inv ?X ?n) (mset (map fst ds) + (?X + H)) r' \<and> runs ?r4 r'"
        using rd by (intro dispatch.slip_posix_finish_ready_inv [OF f]) simp_all
      then have "ring_inv (dsp_inv ?X (unat (r_op_pool_n r'))) (?X + (mset (map fst ds) + H)) r' \<and> runs ?r4 r'"
        by (simp add: ac_simps runs_def)
      then show ?thesis using dsp_ring_invI i4(2) fin by (auto intro: runs_trans)
    next
      case none: False
      then have "fin = Some out \<and> r' = ?r4"
        using assms(1) False by (auto simp: dsp_wait_def e1 g1 e2 g2 c r4 Let_def simp del: One_nat_def)
      then show ?thesis using i4 by simp
    qed
  qed
qed

subsection \<open>Nothing stays behind\<close>

text \<open>The reference: every result, newest first, and every waiter of every side that was hit; only
  where the results take up the whole room is the chain left for the next wait.\<close>

definition collect_all :: "nat \<Rightarrow> dsp_state \<Rightarrow> eng_done list \<times> opid list \<times> bool" where
  "collect_all n st =
     (rev (d_done st),
      if length (d_done st) < n then concat (map (\<lambda>k. hit_ops (d_fds st ! k)) (d_ready st)) else [],
      length (d_done st) = n \<and> d_ready st \<noteq> [])"

lemma gcd_bound:
  assumes "dsp_ring_ok c H r"
  shows "length (d_done (r_be_state r)) + length (r_waiting r) \<le> unat (r_op_pool_n r)"
proof -
  have "size (acct r + (at_gcd (r_be_state r) + H)) = unat (r_op_pool_n r)"
    using assms by (simp only: pool_ok_def dsp_ring_ok_def) simp
  then show ?thesis by (simp add: acct_def at_gcd_def)
qed

lemma hits_fit:
  assumes "dsp_ring_ok c H r"
  defines "st \<equiv> r_be_state r"
  shows "length (concat (map (\<lambda>k. hit_ops (d_fds st ! k)) (take m (d_ready st)))) \<le> length (r_waiting r)"
proof -
  have ok: "chain_ok st" "sides_inv (fds_ring r)" using assms by (simp_all add: dsp_ring_ok_def dsp_ok_def)
  have "distinct (take m (d_ready st))" using ok(1) by (simp add: chain_ok_def)
  moreover have "\<forall>k \<in> set (take m (d_ready st)). k < length (d_fds (r_be_state r))"
    using chain_bound [OF ok(1)] by (auto simp: st_def dest: in_set_takeD)
  ultimately have "distinct (concat (map (\<lambda>k. hit_ops (d_fds st ! k)) (take m (d_ready st))))"
    "set (concat (map (\<lambda>k. hit_ops (d_fds st ! k)) (take m (d_ready st)))) \<subseteq> set (r_waiting r)"
    using hits_parked [OF ok(2), of "take m (d_ready st)"] unfolding st_def by blast+
  then show ?thesis by (metis card_length card_mono distinct_card finite_set le_trans)
qed

lemma collects_all:
  assumes "dsp_collect (unat (r_op_pool_n r)) (unat (r_op_pool_n r)) (r_be_state r) = (out, ready, left, st')"
    "dsp_ring_ok 1 H r"
  shows "(out, ready, left) = collect_all (unat (r_op_pool_n r)) (r_be_state r)"
    "length out + length ready \<le> unat (r_op_pool_n r)" "d_done st' = []"
    "d_ready st' = (if left then d_ready (r_be_state r) else [])"
proof -
  let ?st = "r_be_state r" and ?n = "unat (r_op_pool_n r)"
  let ?hits = "\<lambda>m. concat (map (\<lambda>k. hit_ops (d_fds ?st ! k)) (take m (d_ready ?st)))"
  have ok: "dsp_ok 1 ?st" using assms(2) by (simp add: dsp_ring_ok_def)
  note bound = gcd_bound [OF assms(2)]
  define st2 where "st2 = (if left then sem_signal st' else st')"
  obtain m where m: "out = take ?n (rev (d_done ?st))"
    "ready = (if length out < ?n then ?hits m else [])"
    "length out < ?n \<longrightarrow> m \<le> length (d_ready ?st) \<and> d_ready st2 = drop m (d_ready ?st) \<and>
       (m < length (d_ready ?st) \<longrightarrow> ?n < length ready + length (hit_ops (d_fds ?st ! (d_ready ?st ! m))))"
    "d_done st2 = rev (drop ?n (rev (d_done ?st)))"
    unfolding st2_def by (rule collect_ok [OF assms(1) ok])
  have out: "out = rev (d_done ?st)" using m(1) bound by simp
  have st2: "d_ready st2 = d_ready st'" "d_done st2 = d_done st'" by (simp_all add: st2_def sem_signal_def)
  show dn: "d_done st' = []" using m(4) bound by (simp add: st2)
  have left: "left \<longleftrightarrow> d_ready st' \<noteq> [] \<or> d_done st' \<noteq> []"
    using assms(1) by (auto simp: dsp_collect_def Let_def split: prod.splits if_splits)
  have all: "ready = ?hits (length (d_ready ?st)) \<and> d_ready st' = []" if room: "length (d_done ?st) < ?n"
  proof -
    have p: "m \<le> length (d_ready ?st)" "d_ready st' = drop m (d_ready ?st)" "ready = ?hits m"
      "m < length (d_ready ?st) \<longrightarrow> ?n < length ready + length (hit_ops (d_fds ?st ! (d_ready ?st ! m)))"
      using m(2,3) room out st2 by auto
    have "\<not> m < length (d_ready ?st)"
    proof
      assume l: "m < length (d_ready ?st)"
      have "?hits (Suc m) = ?hits m @ hit_ops (d_fds ?st ! (d_ready ?st ! m))"
        by (simp add: take_Suc_conv_app_nth [OF l])
      then have "length ready + length (hit_ops (d_fds ?st ! (d_ready ?st ! m))) \<le> length (r_waiting r)"
        using hits_fit [OF assms(2), of "Suc m"] p(3) by (metis length_append)
      then show False using p(4) l bound by simp
    qed
    then have m: "m = length (d_ready ?st)" using p(1) by simp
    show ?thesis using p(2,3) unfolding m by simp
  qed
  have full: "ready = [] \<and> d_ready st' = d_ready ?st" if "\<not> length (d_done ?st) < ?n"
    using assms(1) that bound
    by (auto simp: dsp_collect_def take_done_eq Let_def split: if_splits)
  show "(out, ready, left) = collect_all ?n ?st"
    using all full out left dn bound by (cases "length (d_done ?st) < ?n") (simp_all add: collect_all_def take_all)
  show "d_ready st' = (if left then d_ready ?st else [])"
    using all full left dn by (cases "length (d_done ?st) < ?n") simp_all
  show "length out + length ready \<le> ?n"
  proof (cases "length (d_done ?st) < ?n")
    case True
    have "length ready \<le> length (r_waiting r)" using hits_fit [OF assms(2)] conjunct1 [OF all [OF True]] by metis
    then show ?thesis using bound out by simp
  next
    case False
    then show ?thesis using bound out full by simp
  qed
qed

subsection \<open>The backend keeps the core's contract\<close>

lemma dsp_ring_inv_move:
  assumes "dsp_ring_inv H r" "parked_same r s" "acct s + H' = acct r + H" "r_op_pool_n s = r_op_pool_n r"
    "ring_wf s"
  shows "dsp_ring_inv H' s"
proof -
  let ?X = "at_gcd (r_be_state r)" and ?n = "unat (r_op_pool_n r)"
  have "ring_inv (dsp_inv ?X ?n) (?X + H) r" using assms(1) by (simp add: dsp_ring_inv_iff)
  moreover have "acct s + (?X + H') = acct r + (?X + H)" using assms(3) by (simp add: ac_simps)
  ultimately have "ring_inv (dsp_inv ?X ?n) (?X + H') s"
    using dispatch.R_move [OF _ assms(2) _ assms(4,5)] by blast
  then show ?thesis using assms(4) by (intro dsp_ring_invI [of ?X]) simp
qed

lemma dsp_poke_ok: "dsp_ring_ok c H r \<Longrightarrow> dsp_ring_ok c H (dsp_poke r)"
  unfolding dsp_poke_def
proof (rule upd_st_ok)
  assume ok: "dsp_ring_ok c H r"
  let ?x = "dsp_knock_locked (r_be_state r)"
  have d: "dsp_ok c (r_be_state r)" using ok by (simp add: dsp_ring_ok_def)
  have "door_ok c (owe ?x)" by (rule knock_door) (use d in \<open>simp add: dsp_ok_def door_ok_def\<close>)
  then show "dsp_ok c (owe ?x)" using d by (simp add: dsp_ok_def live_ok_def chain_ok_def)
  show "at_gcd (owe ?x) + H = at_gcd (r_be_state r) + H" by (simp add: at_gcd_def)
qed (simp_all add: same_sides_def)

interpretation dispatch_engine: backend_contract dsp_ring_inv "slip_backend_dispatch os dso"
  for os :: "'w os" and dso :: "'w dispatch_os"
proof unfold_locales
  show "dsp_ring_inv H' s" if "dsp_ring_inv H r" "parked_same r s" "acct s + H' = acct r + H"
    "r_op_pool_n s = r_op_pool_n r" "ring_wf s" for H H' r s
    using that by (rule dsp_ring_inv_move)
  show "\<exists>X. pool_ok r (X + H)" if "dsp_ring_inv H r" for H r using that by (auto simp: dsp_ring_ok_def)
  show "ring_wf r" if "dsp_ring_inv H r" for H r using that by (simp add: dsp_ring_ok_def)
  show "dsp_ring_inv (exec_hands i x H) r' \<and> runs r r'"
    if "eb_execute (slip_backend_dispatch os dso) i r w = Some (x, r', w')" "dsp_ring_inv (add_mset i H) r"
    for i r w x r' w' H
    using that by (rule dsp_execute_inv)
  show "dsp_ring_inv (mset (map fst (case fin of None \<Rightarrow> [] | Some ds \<Rightarrow> ds)) + H) r' \<and> runs r r'"
    if "eb_wait (slip_backend_dispatch os dso) r cap t w = Some (fin, r', w')" "dsp_ring_inv H r"
    for r cap t w fin r' w' H
    using that by (intro dsp_wait_inv) (simp_all add: slip_backend_dispatch_def)
  show "dsp_ring_inv H (poke r) \<and> runs r (poke r)"
    if "eb_poke (slip_backend_dispatch os dso) = Some poke" "dsp_ring_inv H r" for poke H r
    using that dsp_poke_ok [of 0 H r] upd_st_frame(4) by (auto simp: slip_backend_dispatch_def dsp_poke_def)
qed

interpretation dispatch_setup: ring_opening dsp_ring_inv "slip_backend_dispatch os dso"
  for os :: "'w os" and dso :: "'w dispatch_os"
proof unfold_locales
  fix r :: dsp_ring and nul and w w' :: 'w and sq_n cq_n :: u32 and k
  assume op: "eb_open_ring (slip_backend_dispatch os dso) (sized_ring nul sq_n cq_n) w = (Some r, w')"
    and k: "unat cq_n = 2 ^ k" "k < 32"
  then have r: "r = (sized_ring nul sq_n cq_n)\<lparr>r_be_state := zero_dsp\<lparr>d_there := True, d_done_max := unat cq_n\<rparr>,
      r_ctl := r_ctl (sized_ring nul sq_n cq_n)\<rparr>"
    by (auto simp: slip_backend_dispatch_def dsp_open_ring_def sized_ring_def split: prod.splits bool.splits)
  have "dsp_inv {#} (unat cq_n) r"
    by (simp add: dsp_inv_def r at_gcd_def zero_dsp_def sides_inv_def dsp_ok_def live_ok_def chain_ok_def
        door_ok_def work_def)
  then have "ring_inv (dsp_inv {#} (unat cq_n)) ({#} + {#}) (ring_ready r)"
    using dispatch.opened_ring_inv [OF r _ k] by simp
  then show "dsp_ring_inv {#} (ring_ready r)"
    by (intro dsp_ring_invI [of "{#}"]) (simp add: r ring_ready_def sized_ring_def)
qed

end
