(* ===== verification/Dispatch_Door.thy ===== *)
theory Dispatch_Door
  imports Dispatch_Wait
begin

text \<open>
  The door of the dispatch backend between threads.  A section under the state's mutex is one
  step; the signal of a semaphore that follows it is a step of its own, so that anything may
  happen in between.  Handlers run on the serial queue \<open>q\<close>, jobs on GCD's pool, and the ring's
  own thread parks, waits and at last closes.
\<close>

subsection \<open>The steps\<close>

datatype thread = On_queue | On_pool | On_ring

datatype owed = Knock thread | Gate thread

datatype door_phase = Opened | Closing | Freed

record door =
  dr_ring :: dsp_ring
  dr_owed :: "owed multiset"       \<comment> \<open>semaphores that a thread is about to signal\<close>
  dr_inside :: bool                \<comment> \<open>a wait has come through the door and not collected\<close>
  dr_phase :: door_phase

abbreviation dr_st :: "door \<Rightarrow> dsp_state" where
  "dr_st d \<equiv> r_be_state (dr_ring d)"

definition locked :: "dsp_state \<Rightarrow> owed multiset \<Rightarrow> door \<Rightarrow> door" where
  "locked st os d = d\<lparr>dr_ring := upd_st (\<lambda>_. st) (dr_ring d), dr_owed := dr_owed d + os\<rparr>"

definition if_owed :: "bool \<Rightarrow> thread \<Rightarrow> owed multiset" where
  "if_owed k t = (if k then {#Knock t#} else {#})"

definition job_thread :: "dsp_job \<Rightarrow> thread" where
  "job_thread j = (case j of Job_pool _ \<Rightarrow> On_pool | _ \<Rightarrow> On_queue)"

text \<open>A poke comes from a thread of its own; nothing of the queue is under way behind the barrier
  of a close.\<close>

inductive door_step :: "'w os \<Rightarrow> 'w dispatch_os \<Rightarrow> door \<Rightarrow> door \<Rightarrow> bool" for os dso where
  report: "dsp_report_locked f out (dr_st d) = (k, st) \<Longrightarrow> dr_phase d \<noteq> Freed \<Longrightarrow>
    door_step os dso d (locked st (if_owed k On_queue) d)"
| job: "n < length (d_jobs (dr_st d)) \<Longrightarrow> d_jobs (dr_st d) ! n = j \<Longrightarrow> dr_phase d \<noteq> Freed \<Longrightarrow>
    dsp_done_locked (job_op j) res (drop_job n (dr_st d)) = (k, st) \<Longrightarrow>
    door_step os dso d (locked st (if_owed k (job_thread j) + {#Gate (job_thread j)#}) d)"
| cancelled: "0 < d_ending (dr_st d) \<Longrightarrow> dr_phase d \<noteq> Freed \<Longrightarrow>
    door_step os dso d (locked (dsp_cancelled_locked (dr_st d)) {#Gate On_queue#} d)"
| poke: "dsp_knock_locked (dr_st d) = (k, st) \<Longrightarrow> dr_phase d = Opened \<Longrightarrow>
    door_step os dso d (locked st (if_owed k On_pool) d)"
| knocks: "Knock t \<in># dr_owed d \<Longrightarrow> dr_phase d \<noteq> Freed \<Longrightarrow>
    door_step os dso d ((locked (sem_signal (dr_st d)) {#} d)\<lparr>dr_owed := dr_owed d - {#Knock t#}\<rparr>)"
| gate: "Gate t \<in># dr_owed d \<Longrightarrow> dr_phase d \<noteq> Freed \<Longrightarrow>
    door_step os dso d ((locked (gate_signal (dr_st d)) {#} d)\<lparr>dr_owed := dr_owed d - {#Gate t#}\<rparr>)"
| enters: "0 < d_sem (dr_st d) \<Longrightarrow> \<not> dr_inside d \<Longrightarrow> dr_phase d = Opened \<Longrightarrow>
    door_step os dso d ((locked ((dr_st d)\<lparr>d_sem := d_sem (dr_st d) - 1\<rparr>) {#} d)\<lparr>dr_inside := True\<rparr>)"
| collects: "dsp_collect pool cap (dr_st d) = (out, ready, left, st) \<Longrightarrow> dr_inside d \<Longrightarrow> dr_phase d = Opened \<Longrightarrow>
    door_step os dso d ((locked st (if_owed left On_ring) d)\<lparr>dr_inside := False\<rparr>)"
| arm: "dsp_arm dso i (dr_ring d) w = (ok, r, w') \<Longrightarrow> \<not> dr_inside d \<Longrightarrow> dr_phase d = Opened \<Longrightarrow>
    door_step os dso d (d\<lparr>dr_ring := r\<rparr>)"
| disarm: "dsp_disarm dso i (dr_ring d) w = (r, w') \<Longrightarrow> \<not> dr_inside d \<Longrightarrow> dr_phase d = Opened \<Longrightarrow>
    door_step os dso d (d\<lparr>dr_ring := r\<rparr>)"
| forget: "\<not> dr_inside d \<Longrightarrow> dr_phase d = Opened \<Longrightarrow>
    door_step os dso d (d\<lparr>dr_ring := dsp_forget f (dr_ring d)\<rparr>)"
| submit: "dsp_submit_blocking os dso i (dr_ring d) w = (r, w') \<Longrightarrow> \<not> dr_inside d \<Longrightarrow> dr_phase d = Opened \<Longrightarrow>
    door_step os dso d (d\<lparr>dr_ring := r\<rparr>)"
| closes: "\<not> dr_inside d \<Longrightarrow> dr_phase d = Opened \<Longrightarrow> Knock On_ring \<notin># dr_owed d \<Longrightarrow>
    door_step os dso d ((locked (dsp_stop_all (dr_st d)) {#} d)\<lparr>dr_phase := Closing\<rparr>)"
| waits: "dr_phase d = Closing \<Longrightarrow> d_live (dr_st d) \<noteq> 0 \<Longrightarrow> 0 < d_gate (dr_st d) \<Longrightarrow>
    door_step os dso d (locked ((dr_st d)\<lparr>d_done := [], d_gate := d_gate (dr_st d) - 1\<rparr>) {#} d)"
| frees: "dr_phase d = Closing \<Longrightarrow> d_live (dr_st d) = 0 \<Longrightarrow>
    Knock On_queue \<notin># dr_owed d \<Longrightarrow> Gate On_queue \<notin># dr_owed d \<Longrightarrow>
    door_step os dso d ((locked ((dr_st d)\<lparr>d_done := []\<rparr>) {#} d)\<lparr>dr_phase := Freed\<rparr>)"

inductive door_reach :: "'w os \<Rightarrow> 'w dispatch_os \<Rightarrow> door \<Rightarrow> door \<Rightarrow> bool" for os dso where
  here: "door_reach os dso d d"
| there: "door_reach os dso d e \<Longrightarrow> door_step os dso e g \<Longrightarrow> door_reach os dso d g"

lemma locked_view [simp]:
  "dr_st (locked st os d) = st" "dr_owed (locked st os d) = dr_owed d + os"
  "dr_inside (locked st os d) = dr_inside d" "dr_phase (locked st os d) = dr_phase d"
  by (simp_all add: locked_def)

subsection \<open>News is kept, and the door knows of it\<close>

definition hit :: "dsp_fd \<Rightarrow> bool" where
  "hit e \<longleftrightarrow> df_rd_hit e \<or> df_wr_hit e"

text \<open>The chain is right, and a side that was reported is on it.\<close>

definition news_ok :: "dsp_state \<Rightarrow> bool" where
  "news_ok st \<longleftrightarrow> chain_ok st \<and> (\<forall>e \<in> set (d_fds st). hit e \<longrightarrow> df_queued e)"

definition knocks :: "owed multiset \<Rightarrow> nat" where
  "knocks os = size (filter_mset (\<lambda>x. \<exists>t. x = Knock t) os)"

lemma knocks_simps [simp]:
  "knocks {#} = 0" "knocks (add_mset (Knock t) os) = Suc (knocks os)" "knocks (add_mset (Gate t) os) = knocks os"
  "knocks (os + os') = knocks os + knocks os'" "knocks (if_owed k t) = of_bool k"
  by (simp_all add: knocks_def if_owed_def)

lemma knocks_less: "Knock t \<in># os \<Longrightarrow> Suc (knocks (os - {#Knock t#})) = knocks os"
  "Gate t \<in># os \<Longrightarrow> knocks (os - {#Gate t#}) = knocks os"
  by (metis insert_DiffM knocks_simps(2), metis insert_DiffM knocks_simps(3))

definition door_inv :: "door \<Rightarrow> bool" where
  "door_inv d \<longleftrightarrow> news_ok (dr_st d) \<and> door_ok (knocks (dr_owed d) + of_bool (dr_inside d)) (dr_st d)"

text \<open>What the ring's own thread does to the table touches neither the door nor the chain.\<close>

definition news_same :: "dsp_state \<Rightarrow> dsp_state \<Rightarrow> bool" where
  "news_same st st' \<longleftrightarrow> d_ready st' = d_ready st \<and> d_done st' = d_done st \<and> d_sem st' = d_sem st \<and>
     d_knocked st' = d_knocked st \<and> length (d_fds st) \<le> length (d_fds st') \<and>
     (\<forall>k < length (d_fds st').
        if k < length (d_fds st)
        then df_queued (d_fds st' ! k) = df_queued (d_fds st ! k) \<and> (hit (d_fds st' ! k) \<longrightarrow> hit (d_fds st ! k))
        else \<not> df_queued (d_fds st' ! k) \<and> \<not> hit (d_fds st' ! k))"

lemma news_same_refl [simp]: "news_same st st"
  by (simp add: news_same_def)

lemma news_same_trans: "news_same a b \<Longrightarrow> news_same b c \<Longrightarrow> news_same a c"
  by (simp add: news_same_def split: if_splits) (meson less_le_trans)

lemma news_same_ok:
  assumes "news_same st st'"
  shows "news_ok st \<Longrightarrow> news_ok st'" "door_ok c st' = door_ok c st"
proof -
  show "door_ok c st' = door_ok c st" using assms by (simp add: news_same_def door_ok_def work_def)
  assume ok: "news_ok st"
  have len: "length (d_fds st) \<le> length (d_fds st')" using assms by (simp add: news_same_def)
  have chain: "d_ready st' = d_ready st" using assms by (simp add: news_same_def)
  have k: "df_queued (d_fds st' ! k) \<longleftrightarrow> k < length (d_fds st) \<and> df_queued (d_fds st ! k)"
    "hit (d_fds st' ! k) \<longrightarrow> k < length (d_fds st) \<and> hit (d_fds st ! k)" if "k < length (d_fds st')" for k
  proof -
    have "if k < length (d_fds st)
        then df_queued (d_fds st' ! k) = df_queued (d_fds st ! k) \<and> (hit (d_fds st' ! k) \<longrightarrow> hit (d_fds st ! k))
        else \<not> df_queued (d_fds st' ! k) \<and> \<not> hit (d_fds st' ! k)"
      using assms that unfolding news_same_def by blast
    then show "df_queued (d_fds st' ! k) \<longleftrightarrow> k < length (d_fds st) \<and> df_queued (d_fds st ! k)"
      "hit (d_fds st' ! k) \<longrightarrow> k < length (d_fds st) \<and> hit (d_fds st ! k)" by (simp_all split: if_splits)
  qed
  have on: "k \<in> set (d_ready st') \<longleftrightarrow> k < length (d_fds st') \<and> df_queued (d_fds st' ! k)" for k
  proof -
    have "k \<in> set (d_ready st') \<longleftrightarrow> k < length (d_fds st) \<and> df_queued (d_fds st ! k)"
      using ok unfolding news_ok_def chain_ok_def chain by blast
    then show ?thesis using k(1) [of k] len by (metis less_le_trans)
  qed
  moreover have "distinct (d_ready st')" using ok unfolding news_ok_def chain_ok_def chain by blast
  ultimately have "chain_ok st'" unfolding chain_ok_def by (intro conjI allI)
  moreover have "hit (d_fds st' ! m) \<longrightarrow> df_queued (d_fds st' ! m)" if m: "m < length (d_fds st')" for m
  proof
    assume "hit (d_fds st' ! m)"
    with k(2) [OF m] have old: "m < length (d_fds st)" "hit (d_fds st ! m)" by simp_all
    have "df_queued (d_fds st ! m)" using ok old nth_mem [OF old(1)] by (simp add: news_ok_def)
    with old(1) show "df_queued (d_fds st' ! m)" by (simp add: k(1) [OF m])
  qed
  then have "\<forall>e \<in> set (d_fds st'). hit e \<longrightarrow> df_queued e" by (simp add: all_set_conv_all_nth)
  ultimately show "news_ok st'" by (simp add: news_ok_def)
qed

lemma news_same_entry:
  assumes "d_fds st' = (d_fds st)[k := e]" "df_queued e = df_queued (d_fds st ! k)" "hit e \<Longrightarrow> hit (d_fds st ! k)"
    "d_ready st' = d_ready st" "d_done st' = d_done st" "d_sem st' = d_sem st" "d_knocked st' = d_knocked st"
  shows "news_same st st'"
proof -
  have "df_queued ((d_fds st)[k := e] ! j) = df_queued (d_fds st ! j) \<and>
      (hit ((d_fds st)[k := e] ! j) \<longrightarrow> hit (d_fds st ! j))" if "j < length (d_fds st)" for j
    using assms(2,3) that by (cases "j = k") auto
  then show ?thesis using assms(1,4-) by (simp add: news_same_def)
qed

lemma hit_simps [simp]:
  "hit (side_push out i e) = hit e" "hit (side_remove out i e) = hit e" "hit (set_source out b e) = hit e"
  "hit (e\<lparr>df_queued := b\<rparr>) = hit e" "hit (note_hit out e)" "\<not> hit (answered e)" "\<not> hit zero_dsp_fd"
  "hit (no_sources e) = hit e" "df_queued (no_sources e) = df_queued e"
  by (simp_all add: hit_def side_push_def side_remove_def set_source_def note_hit_def answered_def zero_dsp_fd_def
      no_sources_def)

lemma slot_news: "dsp_slot dso f r = (x, r') \<Longrightarrow> news_same (r_be_state r) (r_be_state r')"
proof -
  assume "dsp_slot dso f r = (x, r')"
  then consider "r' = r" | n where "r' = upd_st (\<lambda>st. st\<lparr>d_fds := d_fds st @ replicate n zero_dsp_fd\<rparr>) r"
    using dsp_slot_shape(2) by blast
  then show ?thesis by cases (auto simp: news_same_def nth_append)
qed

lemma arm_news:
  assumes "dsp_arm dso i r w = (ok, r', w')"
  shows "news_same (r_be_state r) (r_be_state r')"
proof -
  obtain x r1 where sl: "dsp_slot dso (sqe_fd (sqe_of r i)) r = (x, r1)" by fastforce
  have "news_same (r_be_state r1) (r_be_state r')"
    using assms sl
    by (auto simp: dsp_arm_def dsp_source_start_def Let_def split: if_splits prod.splits bool.splits option.splits
        intro!: news_same_entry)
  with slot_news [OF sl] show ?thesis by (rule news_same_trans)
qed

lemma disarm_news:
  assumes "dsp_disarm dso i r w = (r', w')"
  shows "news_same (r_be_state r) (r_be_state r')"
  using assms
proof (cases rule: dsp_disarm_shape)
  case (kept r1 k e)
  have "news_same (r_be_state r1) (r_be_state r')"
    unfolding kept(3) by (rule news_same_entry [of _ _ k e]) (simp_all add: kept(2))
  with slot_news [OF kept(1)] show ?thesis by (rule news_same_trans)
next
  case (stopped r1 k e)
  have "news_same (r_be_state r1) (r_be_state r')"
    unfolding stopped(3)
    by (rule news_same_entry [of _ _ k "set_source (waits_out (the_op r i)) False e"]) (simp_all add: stopped(2))
  with slot_news [OF stopped(1)] show ?thesis by (rule news_same_trans)
qed simp

lemma forget_news: "news_same (r_be_state r) (r_be_state (dsp_forget f r))"
  by (auto simp: dsp_forget_def Let_def hit_def intro!: news_same_entry)

lemma submit_news:
  assumes "dsp_submit_blocking os dso i r w = (r', w')"
  shows "news_same (r_be_state r) (r_be_state r')"
proof -
  have "\<exists>j. r' = start_job j r"
    using assms by (auto simp: dsp_submit_blocking_def dsp_file_channel_def Let_def split: if_splits prod.splits bool.splits)
  then show ?thesis by (auto simp: start_job_def news_same_def)
qed

lemma fold_stop_fields:
  "d_fds (fold stop_entry es st) = d_fds st" "d_ready (fold stop_entry es st) = d_ready st"
  "d_done (fold stop_entry es st) = d_done st" "d_sem (fold stop_entry es st) = d_sem st"
  "d_knocked (fold stop_entry es st) = d_knocked st" "d_live (fold stop_entry es st) = d_live st"
  "d_jobs (fold stop_entry es st) = d_jobs st"
  "d_ending (fold stop_entry es st) = d_ending st + sum_list (map sources es)"
  by (induction es arbitrary: st) (simp_all add: stop_entry_def sources_def)

lemma stop_all_fields [simp]:
  "d_fds (dsp_stop_all st) = map no_sources (d_fds st)" "d_live (dsp_stop_all st) = d_live st"
  "d_jobs (dsp_stop_all st) = d_jobs st" "d_ending (dsp_stop_all st) = d_ending st + sum_list (map sources (d_fds st))"
  by (simp_all add: dsp_stop_all_def fold_stop_fields)

lemma stop_all_news: "news_same st (dsp_stop_all st)"
  by (simp add: news_same_def) (simp add: dsp_stop_all_def fold_stop_fields)

text \<open>A section that changes the chain: a report, and the walk of a wait.\<close>

lemma report_news:
  assumes "dsp_report_locked f out st = (k, st')" "news_ok st" "door_ok c st"
  shows "news_ok st'" "door_ok (c + of_bool k) st'"
proof -
  have "news_ok st' \<and> door_ok (c + of_bool k) st'"
  proof (cases "unat f < length (d_fds st)")
    case True
    let ?k = "unat f" let ?e = "note_hit out (d_fds st ! ?k)"
    define st1 where "st1 = (if df_queued ?e then set_entry ?k ?e st
      else (set_entry ?k (?e\<lparr>df_queued := True\<rparr>) st)\<lparr>d_ready := ?k # d_ready st\<rparr>)"
    define e where "e = (if df_queued ?e then ?e else ?e\<lparr>df_queued := True\<rparr>)"
    have res: "dsp_knock_locked st1 = (k, st')"
      using True assms(1) by (simp add: dsp_report_locked_def Let_def st1_def split: if_splits)
    have fds: "d_fds st1 = (d_fds st)[?k := e]" "df_queued e" "d_sem st1 = d_sem st" "d_knocked st1 = d_knocked st"
      by (simp_all add: st1_def e_def)
    have "chain_ok st1"
      using assms(2) True fds(2) by (auto simp: news_ok_def chain_ok_def st1_def e_def nth_list_update)
    then have "news_ok st1"
      using assms(2) fds(1,2) set_update_subset_insert [of "d_fds st" ?k e] by (auto simp: news_ok_def)
    moreover have "news_ok (snd (dsp_knock_locked st1)) = news_ok st1" by (simp add: news_ok_def chain_ok_def)
    moreover have "door_ok (c + of_bool (fst (dsp_knock_locked st1))) (snd (dsp_knock_locked st1))"
      by (rule knock_door) (use assms(3) in \<open>simp add: door_ok_def fds\<close>)
    ultimately show ?thesis by (simp add: res)
  qed (use assms in \<open>simp add: dsp_report_locked_def\<close>)
  then show "news_ok st'" "door_ok (c + of_bool k) st'" by auto
qed

lemma collect_news:
  assumes "dsp_collect pool cap st = (out, ready, left, st')" "news_ok st" "door_ok (Suc c) st"
  shows "news_ok st'" "door_ok (c + of_bool left) st'"
proof -
  define st1 where "st1 = st\<lparr>d_done := rev (drop cap (rev (d_done st)))\<rparr>"
  define x where "x = (if length out < cap then dsp_walk pool (d_ready st) [] st1 else ([], st1))"
  have out: "out = take cap (rev (d_done st))"
    using assms(1) by (auto simp: dsp_collect_def take_done_eq Let_def split: prod.splits)
  have parts: "left = (d_ready (snd x) \<noteq> [] \<or> d_done (snd x) \<noteq> [])"
    "st' = (if left then snd x else (snd x)\<lparr>d_knocked := False\<rparr>)"
    using assms(1) by (auto simp: dsp_collect_def take_done_eq Let_def x_def st1_def split: prod.splits if_splits)
  have st1: "news_ok st1" "d_ready st1 = d_ready st" "d_sem st1 = d_sem st" "d_knocked st1 = d_knocked st"
    using assms(2) by (simp_all add: news_ok_def chain_ok_def st1_def)
  have x: "news_ok (snd x) \<and> d_sem (snd x) = d_sem st \<and> d_knocked (snd x) = d_knocked st"
  proof (cases "length out < cap")
    case True
    obtain m where m: "walked pool (d_ready st1) [] st1 x m"
      using dsp_walk_walked [of "d_ready st1" st1 pool "[]"] st1 True by (auto simp: x_def news_ok_def chain_ok_def)
    have ch: "chain_ok (snd x)" by (rule walked_state(1) [OF m]) (use st1 in \<open>simp add: news_ok_def\<close>)
    have rest: "d_sem (snd x) = d_sem st1" "d_knocked (snd x) = d_knocked st1"
      using m unfolding walked_def by (metis dsp_state.select_convs dsp_state.surjective dsp_state.update_convs(2,3))+
    have len: "length (d_fds (snd x)) = length (d_fds st1)" using m unfolding walked_def by blast
    have "hit (d_fds (snd x) ! k) \<longrightarrow> df_queued (d_fds (snd x) ! k)" if "k < length (d_fds st1)" for k
    proof -
      have "d_fds (snd x) ! k = answered (d_fds st1 ! k) \<or> d_fds (snd x) ! k = d_fds st1 ! k"
      proof -
      have "\<forall>k < length (d_fds st1). d_fds (snd x) ! k =
          (if k \<in> set (take m (d_ready st1)) then answered (d_fds st1 ! k) else d_fds st1 ! k)"
        using m unfolding walked_def by blast
      from this [rule_format, OF that] show ?thesis by (simp split: if_splits)
    qed
      then show ?thesis using st1(1) that by (auto simp: news_ok_def)
    qed
    then have "\<forall>e \<in> set (d_fds (snd x)). hit e \<longrightarrow> df_queued e" by (metis in_set_conv_nth len)
    then show ?thesis using ch rest st1 by (simp add: news_ok_def)
  qed (use st1 in \<open>simp add: x_def\<close>)
  then show "news_ok st'" by (simp add: parts(2) news_ok_def chain_ok_def)
  show "door_ok (c + of_bool left) st'"
    using x assms(3) parts by (auto simp: door_ok_def work_def of_bool_def split: if_splits)
qed

subsection \<open>Every interleaving keeps the door right\<close>

lemma door_step_inv:
  assumes "door_step os dso d e" "door_inv d"
  shows "door_inv e"
proof -
  let ?c = "knocks (dr_owed d) + of_bool (dr_inside d)"
  have n: "news_ok (dr_st d)" "door_ok ?c (dr_st d)" using assms(2) by (simp_all add: door_inv_def)
  have same: "news_ok st \<and> door_ok ?c st" if "news_same (dr_st d) st" for st
    using news_same_ok [OF that] n by blast
  from assms(1) show ?thesis
  proof cases
    case (report f out k st)
    show ?thesis using report_news [OF report(2) n] by (simp add: report(1) door_inv_def ac_simps)
  next
    case (job m j res k st)
    obtain st1 where st1: "dsp_knock_locked st1 = (k, st)" "d_fds st1 = d_fds (dr_st d)" "d_ready st1 = d_ready (dr_st d)"
      "d_sem st1 = d_sem (dr_st d)" "d_knocked st1 = d_knocked (dr_st d)"
    proof (rule that)
      let ?st0 = "drop_job m (dr_st d)"
      let ?st2 = "if length (d_done ?st0) < d_done_max ?st0
        then ?st0\<lparr>d_done := d_done ?st0 @ [(job_op j, res)]\<rparr> else ?st0"
      let ?st1 = "?st2\<lparr>d_live := d_live ?st2 - 1\<rparr>"
      show "dsp_knock_locked ?st1 = (k, st)" using job(5) by (simp add: dsp_done_locked_def Let_def)
    qed (simp_all add: drop_job_def)
    have "door_ok (?c + of_bool (fst (dsp_knock_locked st1))) (snd (dsp_knock_locked st1))"
      by (rule knock_door) (use n in \<open>simp add: door_ok_def st1\<close>)
    then have "door_ok (?c + of_bool k) st" by (simp add: st1(1))
    moreover have "news_ok (snd (dsp_knock_locked st1))" using n(1) by (simp add: news_ok_def chain_ok_def st1(2,3))
    then have "news_ok st" by (simp add: st1(1))
    ultimately show ?thesis by (simp add: job(1) door_inv_def ac_simps)
  next
    case cancelled
    have "news_same (dr_st d) (dsp_cancelled_locked (dr_st d))" by (simp add: news_same_def dsp_cancelled_locked_def)
    from same [OF this] show ?thesis by (simp add: cancelled(1) door_inv_def)
  next
    case (poke k st)
    have k: "k = fst (dsp_knock_locked (dr_st d))" "st = snd (dsp_knock_locked (dr_st d))" by (simp_all add: poke(2))
    have "door_ok (?c + of_bool k) st" unfolding k by (rule knock_door) (use n in \<open>simp add: door_ok_def\<close>)
    moreover have "news_ok st" unfolding k(2) using n(1) by (simp add: news_ok_def chain_ok_def)
    ultimately show ?thesis by (simp add: poke(1) door_inv_def ac_simps)
  next
    case (knocks t)
    have "door_ok (knocks (dr_owed d - {#Knock t#}) + of_bool (dr_inside d)) (sem_signal (dr_st d))"
      using n(2) knocks_less(1) [OF knocks(2)] by (simp add: door_ok_def work_def sem_signal_def)
    moreover have "news_ok (sem_signal (dr_st d))" using n(1) by (simp add: news_ok_def chain_ok_def sem_signal_def)
    ultimately show ?thesis by (simp add: knocks(1) door_inv_def)
  next
    case (gate t)
    have "door_ok ?c (gate_signal (dr_st d))" "news_ok (gate_signal (dr_st d))"
      using n by (simp_all add: news_ok_def chain_ok_def door_ok_def work_def gate_signal_def)
    then show ?thesis using knocks_less(2) [OF gate(2)] by (simp add: gate(1) door_inv_def)
  next
    case enters
    have "door_ok (Suc ?c) ((dr_st d)\<lparr>d_sem := d_sem (dr_st d) - 1\<rparr>)"
      using n(2) enters(2) by (auto simp: door_ok_def work_def)
    then show ?thesis using n(1) enters(3) by (simp add: enters(1) door_inv_def news_ok_def chain_ok_def)
  next
    case (collects pool cap out ready left st)
    have "door_ok (Suc (knocks (dr_owed d))) (dr_st d)" using n(2) collects(3) by simp
    from collect_news [OF collects(2) n(1) this] show ?thesis by (simp add: collects(1) door_inv_def)
  next
    case (arm i w ok r w')
    from same [OF arm_news [OF arm(2)]] show ?thesis by (simp add: arm(1) door_inv_def)
  next
    case (disarm i w r w')
    from same [OF disarm_news [OF disarm(2)]] show ?thesis by (simp add: disarm(1) door_inv_def)
  next
    case (forget f)
    from same [OF forget_news] show ?thesis by (simp add: forget(1) door_inv_def)
  next
    case (submit i w r w')
    from same [OF submit_news [OF submit(2)]] show ?thesis by (simp add: submit(1) door_inv_def)
  next
    case closes
    from same [OF stop_all_news] show ?thesis by (simp add: closes(1) door_inv_def)
  next
    case waits
    show ?thesis using n by (simp add: waits(1) door_inv_def news_ok_def chain_ok_def door_ok_def work_def)
  next
    case frees
    show ?thesis using n by (simp add: frees(1) door_inv_def news_ok_def chain_ok_def door_ok_def work_def)
  qed
qed

lemma door_reach_inv: "door_reach os dso d e \<Longrightarrow> door_inv d \<Longrightarrow> door_inv e"
  by (induction rule: door_reach.induct) (blast dest: door_step_inv)+

text \<open>What the invariant says of wake-ups: never more than one stands in the semaphore, and news that
  nobody has collected has one on its way.\<close>

lemma door_inv_says:
  assumes "door_inv d"
  shows "d_sem (dr_st d) + knocks (dr_owed d) + of_bool (dr_inside d) \<le> 1"
    "d_done (dr_st d) \<noteq> [] \<or> (\<exists>e \<in> set (d_fds (dr_st d)). hit e) \<Longrightarrow>
       d_sem (dr_st d) = 1 \<or> (\<exists>t. Knock t \<in># dr_owed d) \<or> dr_inside d"
proof -
  have door: "d_sem (dr_st d) + (knocks (dr_owed d) + of_bool (dr_inside d)) = of_bool (d_knocked (dr_st d))"
    "work (dr_st d) \<longrightarrow> d_knocked (dr_st d)" and news: "news_ok (dr_st d)"
    using assms by (simp_all add: door_inv_def door_ok_def)
  then show "d_sem (dr_st d) + knocks (dr_owed d) + of_bool (dr_inside d) \<le> 1" by (simp add: add.assoc)
  assume "d_done (dr_st d) \<noteq> [] \<or> (\<exists>e \<in> set (d_fds (dr_st d)). hit e)"
  then have "work (dr_st d)"
  proof
    assume "\<exists>e \<in> set (d_fds (dr_st d)). hit e"
    then obtain k where "k < length (d_fds (dr_st d))" "df_queued (d_fds (dr_st d) ! k)"
      using news by (metis in_set_conv_nth news_ok_def)
    then have "k \<in> set (d_ready (dr_st d))" using news by (simp add: news_ok_def chain_ok_def)
    then show ?thesis by (auto simp: work_def)
  qed (simp add: work_def)
  then have "d_sem (dr_st d) + (knocks (dr_owed d) + of_bool (dr_inside d)) = 1" using door by simp
  moreover have "\<exists>t. Knock t \<in># dr_owed d" if "knocks (dr_owed d) \<noteq> 0"
    proof -
    have "filter_mset (\<lambda>x. \<exists>t. x = Knock t) (dr_owed d) \<noteq> {#}" using that by (auto simp: knocks_def)
    then obtain x where "x \<in># filter_mset (\<lambda>x. \<exists>t. x = Knock t) (dr_owed d)" by (rule multiset_nonemptyE)
    then show ?thesis by auto
  qed
  ultimately show "d_sem (dr_st d) = 1 \<or> (\<exists>t. Knock t \<in># dr_owed d) \<or> dr_inside d"
    by (cases "knocks (dr_owed d) = 0") (auto simp: of_bool_def split: if_splits)
qed

subsection \<open>Closing\<close>

text \<open>While the ring closes there are no sources left in the table and \<open>live\<close> counts what is
  still at GCD; when the state is freed it has counted down to nothing.\<close>

definition closing_ok :: "door \<Rightarrow> bool" where
  "closing_ok d \<longleftrightarrow> dr_phase d \<noteq> Opened \<and> live_ok (dr_st d) \<and> sum_list (map sources (d_fds (dr_st d))) = 0 \<and>
     (dr_phase d = Freed \<longrightarrow> d_live (dr_st d) = 0 \<and> Knock On_queue \<notin># dr_owed d \<and> Gate On_queue \<notin># dr_owed d)"

lemma closing_step:
  assumes "door_step os dso d e" "closing_ok d"
  shows "closing_ok e"
proof -
  have ok: "dr_phase d \<noteq> Opened" "live_ok (dr_st d)" "sum_list (map sources (d_fds (dr_st d))) = 0"
    using assms(2) unfolding closing_ok_def by blast+
  from assms(1) show ?thesis
  proof cases
    case (report f out k st)
    have "map sources (d_fds st) = map sources (d_fds (dr_st d)) \<and> d_live st = d_live (dr_st d) \<and>
        d_ending st = d_ending (dr_st d) \<and> d_jobs st = d_jobs (dr_st d)"
      using report(2)
      by (auto simp: dsp_report_locked_def dsp_knock_locked_def Let_def map_update_same split: if_splits)
    then show ?thesis using ok report(3) by (simp add: report(1) closing_ok_def live_ok_def del: sum_list_eq_0_iff)
  next
    case (job m j res k st)
    have "d_fds st = d_fds (dr_st d) \<and> d_live st = d_live (dr_st d) - 1 \<and> d_ending st = d_ending (dr_st d) \<and>
        length (d_jobs st) = length (d_jobs (dr_st d)) - 1"
      using job(2,5) by (auto simp: dsp_done_locked_def dsp_knock_locked_def drop_job_def Let_def split: if_splits)
    then show ?thesis using ok job(2,4) by (simp add: job(1) closing_ok_def live_ok_def del: sum_list_eq_0_iff)
  next
    case cancelled
    then show ?thesis using ok by (simp add: closing_ok_def live_ok_def dsp_cancelled_locked_def del: sum_list_eq_0_iff)
  next
    case (knocks t)
    then show ?thesis using ok by (simp add: closing_ok_def live_ok_def sem_signal_def del: sum_list_eq_0_iff)
  next
    case (gate t)
    then show ?thesis using ok by (simp add: closing_ok_def live_ok_def gate_signal_def del: sum_list_eq_0_iff)
  next
    case waits
    then show ?thesis using ok by (simp add: closing_ok_def live_ok_def del: sum_list_eq_0_iff)
  next
    case frees
    then show ?thesis using ok by (simp add: closing_ok_def live_ok_def del: sum_list_eq_0_iff)
  qed (use ok(1) in simp_all)
qed

lemma closing_reach: "door_reach os dso d e \<Longrightarrow> closing_ok d \<Longrightarrow> closing_ok e"
  by (induction rule: door_reach.induct) (blast dest: closing_step)+

lemma close_begins:
  assumes "live_ok (dr_st d)"
  shows "closing_ok ((locked (dsp_stop_all (dr_st d)) {#} d)\<lparr>dr_phase := Closing\<rparr>)"
proof -
  have "sum_list (map sources (map no_sources es)) = 0" for es
    by (induction es) (simp_all add: sources_def no_sources_def)
  then show ?thesis using assms by (simp add: closing_ok_def live_ok_def del: map_map)
qed

lemma freed_says:
  assumes "closing_ok d" "dr_phase d = Freed"
  shows "d_jobs (dr_st d) = []" "d_ending (dr_st d) = 0" "Knock On_queue \<notin># dr_owed d" "Gate On_queue \<notin># dr_owed d"
  using assms by (auto simp: closing_ok_def live_ok_def)

text \<open>The last job of the pool leaves the mutex with two signals to give, and \<open>live\<close> is already 0.\<close>

lemma freed_under_a_signal:
  assumes "dr_phase d = Closing" "d_jobs (dr_st d) = [Job_pool i]" "d_live (dr_st d) = 1"
    "Knock On_queue \<notin># dr_owed d" "Gate On_queue \<notin># dr_owed d"
  shows "\<exists>e. door_reach os dso d e \<and> dr_phase e = Freed \<and> Gate On_pool \<in># dr_owed e"
proof -
  obtain k st where st: "dsp_done_locked i 0 (drop_job 0 (dr_st d)) = (k, st)" by fastforce
  let ?e = "locked st (if_owed k On_pool + {#Gate On_pool#}) d"
  have "door_step os dso d ?e"
    using door_step.job [of 0 d "Job_pool i" 0 k st] assms(1,2) st by (simp add: job_thread_def)
  then have e: "door_reach os dso d ?e" by (rule door_reach.there [OF door_reach.here])
  have live: "d_live st = 0"
    using st assms(3) by (auto simp: dsp_done_locked_def dsp_knock_locked_def drop_job_def Let_def split: if_splits)
  let ?f = "(locked (st\<lparr>d_done := []\<rparr>) {#} ?e)\<lparr>dr_phase := Freed\<rparr>"
  have "door_step os dso ?e ((locked ((dr_st ?e)\<lparr>d_done := []\<rparr>) {#} ?e)\<lparr>dr_phase := Freed\<rparr>)"
    by (rule door_step.frees) (use assms live in \<open>simp_all add: if_owed_def\<close>)
  then have "door_reach os dso d ?f" using door_reach.there [OF e] by simp
  then show ?thesis by (intro exI [of _ ?f]) simp
qed

end
