(* ===== verification/Signals.thy ===== *)
theory Signals
  imports Abi
begin

text \<open>
  Signals as a descriptor (\<open>src/src/slipstream_signal.c\<close>): the four arms of the file.  Linux
  passes \<open>signalfd\<close> through; Windows writes what its console handler is told into a pair of
  sockets, macOS what its dispatch sources report into a pipe, and the rest of POSIX what a thread
  of its own takes with \<open>sigtimedwait\<close>.  The globals of an arm are its state; a system call
  answers an errno (\<open>Inl\<close>) or what it gave.
\<close>

definition SIGINT :: i32 where "SIGINT = 2"
definition SIGTERM :: i32 where "SIGTERM = 15"
definition EIO :: i32 where "EIO = 5"

text \<open>The numbers a caller passes: \<open>None\<close> is a null pointer.\<close>

definition first_sigs :: "i32 list option \<Rightarrow> u32 \<Rightarrow> i32 list" where
  "first_sigs sigs n = take (unat n) (the sigs)"

text \<open>\<open>(char) sig\<close>, and back through \<open>unsigned char\<close>.\<close>

definition sig_byte :: "i32 \<Rightarrow> u8" where "sig_byte sig = ucast sig"
definition byte_sig :: "u8 \<Rightarrow> i32" where "byte_sig b = ucast b"

text \<open>A read: the bytes it gave, none at the end, or an errno.\<close>

type_synonym 'w byte_read = "i32 \<Rightarrow> 'w \<Rightarrow> (i32 + u8 option) \<times> 'w"

subsection \<open>Linux\<close>

record 'w linux_sig =
  ls_valid :: "i32 \<Rightarrow> bool"                                \<comment> \<open>\<open>sigaddset\<close> takes it\<close>
  ls_signalfd :: "i32 list \<Rightarrow> 'w \<Rightarrow> (i32 + i32) \<times> 'w"
  ls_read :: "i32 \<Rightarrow> 'w \<Rightarrow> (i32 + nat \<times> i32) \<times> 'w"       \<comment> \<open>how many bytes, and \<open>ssi_signo\<close>\<close>
  ls_close :: "i32 \<Rightarrow> 'w \<Rightarrow> i32 option \<times> 'w"

definition SIZEOF_SIGINFO :: nat where "SIZEOF_SIGINFO = 128"

definition linux_signal_open :: "'w linux_sig \<Rightarrow> i32 list option \<Rightarrow> u32 \<Rightarrow> bool \<Rightarrow> 'w \<Rightarrow> i32 \<times> bool \<times> 'w" where
  "linux_signal_open ls sigs n g w =
     (if sigs = None \<or> n = 0 then (- EINVAL, g, w)
      else if g then (- EEXIST, g, w)
      else if \<not> list_all (ls_valid ls) (first_sigs sigs n) then (- EINVAL, g, w)
      else case ls_signalfd ls (first_sigs sigs n) w of
        (Inl e, w) \<Rightarrow> (- e, g, w)
      | (Inr fd, w) \<Rightarrow> (fd, True, w))"

text \<open>The answer, and the number written through the pointer if one was.\<close>

definition linux_signal_read :: "'w linux_sig \<Rightarrow> i32 \<Rightarrow> 'w \<Rightarrow> i32 \<times> i32 option \<times> 'w" where
  "linux_signal_read ls fd w =
     (case ls_read ls fd w of
        (Inr (got, signo), w) \<Rightarrow> if got = SIZEOF_SIGINFO then (1, Some signo, w) else (- EIO, None, w)
      | (Inl e, w) \<Rightarrow> if e = EAGAIN then (0, None, w) else (- e, None, w))"

definition linux_signal_close :: "'w linux_sig \<Rightarrow> i32 \<Rightarrow> bool \<Rightarrow> 'w \<Rightarrow> i32 \<times> bool \<times> 'w" where
  "linux_signal_close ls fd g w =
     (case ls_close ls fd w of (None, w) \<Rightarrow> (0, False, w) | (Some e, w) \<Rightarrow> (- e, False, w))"

text \<open>The three arms with a wire read one byte of it.\<close>

definition wire_read :: "'w byte_read \<Rightarrow> i32 \<Rightarrow> 'w \<Rightarrow> i32 \<times> i32 option \<times> 'w" where
  "wire_read rd fd w =
     (case rd fd w of
        (Inr (Some one), w) \<Rightarrow> (1, Some (byte_sig one), w)
      | (Inr None, w) \<Rightarrow> (- EIO, None, w)
      | (Inl e, w) \<Rightarrow> if e = EAGAIN then (0, None, w) else (- e, None, w))"

subsection \<open>Windows\<close>

type_synonym socket = nat

record 'w win_sig =
  wn_socket :: "'w \<Rightarrow> socket option \<times> 'w"
  wn_bind :: "socket \<Rightarrow> 'w \<Rightarrow> bool \<times> 'w"
  wn_listen :: "socket \<Rightarrow> 'w \<Rightarrow> bool \<times> 'w"
  wn_getsockname :: "socket \<Rightarrow> 'w \<Rightarrow> bool \<times> 'w"
  wn_connect :: "socket \<Rightarrow> 'w \<Rightarrow> bool \<times> 'w"
  wn_accept :: "socket \<Rightarrow> 'w \<Rightarrow> socket option \<times> 'w"
  wn_closesocket :: "socket \<Rightarrow> 'w \<Rightarrow> 'w"
  wn_startup :: "'w \<Rightarrow> 'w"
  wn_nonblock :: "socket \<Rightarrow> 'w \<Rightarrow> 'w"
  wn_send :: "socket \<Rightarrow> u8 \<Rightarrow> 'w \<Rightarrow> 'w"
  wn_recv :: "'w byte_read"
  wn_handler :: "bool \<Rightarrow> 'w \<Rightarrow> bool \<times> 'w"                 \<comment> \<open>\<open>SetConsoleCtrlHandler\<close>, on or off\<close>

record win_state =
  wn_write :: "socket option"      \<comment> \<open>\<open>None\<close> is \<open>INVALID_SOCKET\<close>\<close>
  wn_want :: "i32 list"            \<comment> \<open>the 32 places\<close>
  wn_nwant :: nat

definition zero_win :: win_state where
  "zero_win = \<lparr>wn_write = None, wn_want = replicate 32 0, wn_nwant = 0\<rparr>"

definition wanted :: "i32 \<Rightarrow> win_state \<Rightarrow> bool" where
  "wanted sig g \<longleftrightarrow> list_ex (\<lambda>x. x = sig) (take (wn_nwant g) (wn_want g))"

text \<open>\<open>CTRL_C_EVENT\<close>, \<open>CTRL_BREAK_EVENT\<close>; \<open>CTRL_CLOSE_EVENT\<close>, \<open>CTRL_LOGOFF_EVENT\<close>,
  \<open>CTRL_SHUTDOWN_EVENT\<close>.\<close>

definition console_signal :: "u32 \<Rightarrow> i32 option" where
  "console_signal type =
     (if type = 0 \<or> type = 1 then Some SIGINT
      else if type = 2 \<or> type = 5 \<or> type = 6 then Some SIGTERM
      else None)"

definition console_handler :: "'w win_sig \<Rightarrow> win_state \<Rightarrow> u32 \<Rightarrow> 'w \<Rightarrow> bool \<times> 'w" where
  "console_handler ws g type w =
     (case console_signal type of
        None \<Rightarrow> (False, w)
      | Some sig \<Rightarrow>
          if \<not> wanted sig g then (False, w)
          else (True, case wn_write g of None \<Rightarrow> w | Some s \<Rightarrow> wn_send ws s (sig_byte sig) w))"

text \<open>\<open>A || B\<close> of calls.\<close>

definition and_then :: "('w \<Rightarrow> bool \<times> 'w) \<Rightarrow> ('w \<Rightarrow> bool \<times> 'w) \<Rightarrow> 'w \<Rightarrow> bool \<times> 'w" where
  "and_then f g w = (case f w of (False, w) \<Rightarrow> (False, w) | (True, w) \<Rightarrow> g w)"

definition loopback_pair :: "'w win_sig \<Rightarrow> 'w \<Rightarrow> (socket \<times> socket) option \<times> 'w" where
  "loopback_pair ws w =
     (case wn_socket ws w of
        (None, w) \<Rightarrow> (None, w)
      | (Some l, w) \<Rightarrow>
          (case and_then (wn_bind ws l) (and_then (wn_listen ws l) (wn_getsockname ws l)) w of
             (False, w) \<Rightarrow> (None, wn_closesocket ws l w)
           | (True, w) \<Rightarrow>
               (case wn_socket ws w of
                  (None, w) \<Rightarrow> (None, wn_closesocket ws l w)
                | (Some c, w) \<Rightarrow>
                    (case wn_connect ws c w of
                       (False, w) \<Rightarrow> (None, wn_closesocket ws c (wn_closesocket ws l w))
                     | (True, w) \<Rightarrow>
                         (case wn_accept ws l w of
                            (a, w) \<Rightarrow>
                              let w = wn_closesocket ws l w in
                              (case a of
                                 None \<Rightarrow> (None, wn_closesocket ws c w)
                               | Some s \<Rightarrow> (Some (s, c), w)))))))"

text \<open>\<open>g_want[i] = signums[i]\<close>.\<close>

definition put_sigs :: "i32 list \<Rightarrow> i32 list \<Rightarrow> i32 list" where
  "put_sigs xs want = xs @ drop (length xs) want"

definition win_signal_open ::
    "'w win_sig \<Rightarrow> i32 list option \<Rightarrow> u32 \<Rightarrow> win_state \<Rightarrow> 'w \<Rightarrow> i32 \<times> win_state \<times> 'w" where
  "win_signal_open ws sigs n g w =
     (if sigs = None \<or> n = 0 \<or> 32 < n then (- EINVAL, g, w)
      else if wn_write g \<noteq> None then (- EEXIST, g, w)
      else case loopback_pair ws (wn_startup ws w) of
        (None, w) \<Rightarrow> (- EIO, g, w)
      | (Some (sp0, sp1), w) \<Rightarrow>
          let w = wn_nonblock ws sp0 w;
              g = g\<lparr>wn_want := put_sigs (first_sigs sigs n) (wn_want g), wn_nwant := unat n, wn_write := Some sp1\<rparr>
          in case wn_handler ws True w of
            (False, w) \<Rightarrow>
              (- EIO, g\<lparr>wn_write := None, wn_nwant := 0\<rparr>, wn_closesocket ws sp1 (wn_closesocket ws sp0 w))
          | (True, w) \<Rightarrow> (of_nat sp0, g, w))"

text \<open>Every failure but an empty wire is \<open>-EIO\<close>.\<close>

definition win_signal_read :: "'w win_sig \<Rightarrow> i32 \<Rightarrow> 'w \<Rightarrow> i32 \<times> i32 option \<times> 'w" where
  "win_signal_read ws fd w =
     (case wn_recv ws fd w of
        (Inr (Some one), w) \<Rightarrow> (1, Some (byte_sig one), w)
      | (Inr None, w) \<Rightarrow> (- EIO, None, w)
      | (Inl e, w) \<Rightarrow> if e = EAGAIN then (0, None, w) else (- EIO, None, w))"

definition win_signal_close :: "'w win_sig \<Rightarrow> i32 \<Rightarrow> win_state \<Rightarrow> 'w \<Rightarrow> i32 \<times> win_state \<times> 'w" where
  "win_signal_close ws fd g w =
     (let w = wn_closesocket ws (unat fd) (snd (wn_handler ws False w));
          w = (case wn_write g of None \<Rightarrow> w | Some s \<Rightarrow> wn_closesocket ws s w)
      in (0, g\<lparr>wn_write := None, wn_nwant := 0\<rparr>, w))"

subsection \<open>macOS\<close>

record 'w mac_sig =
  mc_pipe :: "'w \<Rightarrow> (i32 + i32 \<times> i32) \<times> 'w"
  mc_fcntl :: "i32 \<Rightarrow> 'w \<Rightarrow> 'w"                          \<comment> \<open>\<open>O_NONBLOCK\<close> and \<open>FD_CLOEXEC\<close> on one end\<close>
  mc_ignore :: "i32 \<Rightarrow> 'w \<Rightarrow> 'w"                         \<comment> \<open>\<open>signal(sig, SIG_IGN)\<close>\<close>
  mc_source :: "i32 \<Rightarrow> 'w \<Rightarrow> bool \<times> 'w"                  \<comment> \<open>created, with its handler, and resumed\<close>
  mc_cancel :: "i32 \<Rightarrow> 'w \<Rightarrow> 'w"
  mc_close :: "i32 \<Rightarrow> 'w \<Rightarrow> i32 option \<times> 'w"
  mc_write :: "i32 \<Rightarrow> u8 \<Rightarrow> 'w \<Rightarrow> 'w"
  mc_read :: "'w byte_read"

text \<open>A source is named by its signal.\<close>

record mac_state =
  ms_src :: "i32 list"             \<comment> \<open>the 32 places\<close>
  ms_nsrc :: nat
  ms_write :: i32

definition zero_mac :: mac_state where
  "zero_mac = \<lparr>ms_src = replicate 32 0, ms_nsrc = 0, ms_write = - 1\<rparr>"

text \<open>The loop over the signals: whether it went through.  \<open>None\<close> is a write past \<open>g_src\<close>.\<close>

fun mac_sources :: "'w mac_sig \<Rightarrow> i32 list \<Rightarrow> mac_state \<Rightarrow> 'w \<Rightarrow> (bool \<times> mac_state \<times> 'w) option" where
  "mac_sources ms [] g w = Some (True, g, w)"
| "mac_sources ms (sig # sigs) g w =
     (case mc_source ms sig (mc_ignore ms sig w) of
        (False, w) \<Rightarrow> Some (False, g, w)
      | (True, w) \<Rightarrow>
          if ms_nsrc g < length (ms_src g)
          then mac_sources ms sigs (g\<lparr>ms_src := (ms_src g)[ms_nsrc g := sig], ms_nsrc := Suc (ms_nsrc g)\<rparr>) w
          else None)"

definition mac_signal_open ::
    "'w mac_sig \<Rightarrow> i32 list option \<Rightarrow> u32 \<Rightarrow> mac_state \<Rightarrow> 'w \<Rightarrow> (i32 \<times> mac_state \<times> 'w) option" where
  "mac_signal_open ms sigs n g w =
     (if sigs = None \<or> n = 0 \<or> 32 < n then Some (- EINVAL, g, w)
      else if \<not> neg32 (ms_write g) then Some (- EEXIST, g, w)
      else case mc_pipe ms w of
        (Inl e, w) \<Rightarrow> Some (- e, g, w)
      | (Inr (fd0, fd1), w) \<Rightarrow>
          (case mac_sources ms (first_sigs sigs n) (g\<lparr>ms_write := fd1\<rparr>) (mc_fcntl ms fd1 (mc_fcntl ms fd0 w)) of
             None \<Rightarrow> None
           | Some (False, g, w) \<Rightarrow>
               Some (- ENOMEM, g\<lparr>ms_write := - 1\<rparr>, snd (mc_close ms fd1 (snd (mc_close ms fd0 w))))
           | Some (True, g, w) \<Rightarrow> Some (fd0, g, w)))"

text \<open>A source's handler writes to whatever the global names when it runs.\<close>

definition mac_handler :: "'w mac_sig \<Rightarrow> i32 \<Rightarrow> mac_state \<Rightarrow> 'w \<Rightarrow> 'w" where
  "mac_handler ms sig g w = mc_write ms (ms_write g) (sig_byte sig) w"

definition mac_signal_close :: "'w mac_sig \<Rightarrow> i32 \<Rightarrow> mac_state \<Rightarrow> 'w \<Rightarrow> i32 \<times> mac_state \<times> 'w" where
  "mac_signal_close ms fd g w =
     (let w = fold (mc_cancel ms) (take (ms_nsrc g) (ms_src g)) w;
          w = (if neg32 (ms_write g) then w else snd (mc_close ms (ms_write g) w));
          g = g\<lparr>ms_nsrc := 0, ms_write := - 1\<rparr>
      in case mc_close ms fd w of (None, w) \<Rightarrow> (0, g, w) | (Some e, w) \<Rightarrow> (- e, g, w))"

subsection \<open>The rest of POSIX\<close>

record 'w posix_sig =
  px_valid :: "i32 \<Rightarrow> bool"
  px_pipe :: "'w \<Rightarrow> (i32 + i32 \<times> i32) \<times> 'w"
  px_fcntl :: "i32 \<Rightarrow> 'w \<Rightarrow> 'w"
  px_create :: "'w \<Rightarrow> bool \<times> 'w"
  px_join :: "'w \<Rightarrow> 'w option"                            \<comment> \<open>\<open>None\<close> where the thread never ends\<close>
  px_close :: "i32 \<Rightarrow> 'w \<Rightarrow> i32 option \<times> 'w"
  px_read :: "'w byte_read"

record px_state =
  ps_running :: bool
  ps_stop :: bool
  ps_write :: i32
  ps_set :: "i32 list"

definition zero_px :: px_state where
  "zero_px = \<lparr>ps_running = False, ps_stop = False, ps_write = - 1, ps_set = []\<rparr>"

definition posix_signal_open ::
    "'w posix_sig \<Rightarrow> i32 list option \<Rightarrow> u32 \<Rightarrow> px_state \<Rightarrow> 'w \<Rightarrow> i32 \<times> px_state \<times> 'w" where
  "posix_signal_open px sigs n g w =
     (if sigs = None \<or> n = 0 then (- EINVAL, g, w)
      else if ps_running g then (- EEXIST, g, w)
      else let taken = takeWhile (px_valid px) (first_sigs sigs n); g = g\<lparr>ps_set := taken\<rparr> in
        if taken \<noteq> first_sigs sigs n then (- EINVAL, g, w)
        else case px_pipe px w of
          (Inl e, w) \<Rightarrow> (- e, g, w)
        | (Inr (fd0, fd1), w) \<Rightarrow>
            let w = px_fcntl px fd1 (px_fcntl px fd0 w); g = g\<lparr>ps_write := fd1, ps_stop := False\<rparr> in
            (case px_create px w of
               (False, w) \<Rightarrow>
                 (- EAGAIN, g\<lparr>ps_write := - 1\<rparr>, snd (px_close px fd1 (snd (px_close px fd0 w))))
             | (True, w) \<Rightarrow> (fd0, g\<lparr>ps_running := True\<rparr>, w)))"

definition posix_signal_close ::
    "'w posix_sig \<Rightarrow> i32 \<Rightarrow> px_state \<Rightarrow> 'w \<Rightarrow> (i32 \<times> px_state \<times> 'w) option" where
  "posix_signal_close px fd g w =
     (case (if ps_running g
            then (case px_join px w of None \<Rightarrow> None | Some w \<Rightarrow> Some (g\<lparr>ps_stop := True, ps_running := False\<rparr>, w))
            else Some (g, w)) of
        None \<Rightarrow> None
      | Some (g, w) \<Rightarrow>
          let w = (if neg32 (ps_write g) then w else snd (px_close px (ps_write g) w));
              g = g\<lparr>ps_write := - 1\<rparr>
          in (case px_close px fd w of (None, w) \<Rightarrow> Some (0, g, w) | (Some e, w) \<Rightarrow> Some (- e, g, w)))"

subsection \<open>The thread of the generic arm\<close>

text \<open>Where \<open>pump\<close> stands: at its loop's condition, in \<open>sigtimedwait\<close>, in \<open>write\<close>, or returned.\<close>

datatype pump_pc = P_TOP | P_WAIT | P_WRITE u8 | P_DONE

definition pump_top :: "bool \<Rightarrow> pump_pc" where
  "pump_top stop = (if stop then P_DONE else P_WAIT)"

definition pump_got :: "i32 \<Rightarrow> pump_pc" where
  "pump_got got = (if \<not> neg32 got \<and> got \<noteq> 0 then P_WRITE (sig_byte got) else P_TOP)"

end
