(* ===== verification/Signals_Facts.thy ===== *)
theory Signals_Facts
  imports Signals "HOL-Library.Multiset"
begin

text \<open>
  What the arms of the signal descriptors promise: one descriptor at a time, whatever is called;
  bytes that read back as the signals they were made of, in their order; and when a close of the
  generic arm comes back.
\<close>

subsection \<open>One open per process\<close>

type_synonym ('g, 'w) sig_opens = "i32 list option \<Rightarrow> u32 \<Rightarrow> 'g \<Rightarrow> 'w \<Rightarrow> (i32 \<times> 'g \<times> 'w) option"
type_synonym ('g, 'w) sig_closes = "i32 \<Rightarrow> 'g \<Rightarrow> 'w \<Rightarrow> (i32 \<times> 'g \<times> 'w) option"

text \<open>A program opens, closes what it holds, and the world moves in between.\<close>

inductive sig_calls :: "('g, 'w) sig_opens \<Rightarrow> ('g, 'w) sig_closes \<Rightarrow> 'g \<times> 'w \<times> i32 list \<Rightarrow> 'g \<times> 'w \<times> i32 list \<Rightarrow> bool"
  for opens closes where
  start: "sig_calls opens closes s s"
| called: "sig_calls opens closes s (g, w, held) \<Longrightarrow> opens sigs n g w = Some (r, g', w') \<Longrightarrow>
    sig_calls opens closes s (g', w', if neg32 r then held else r # held)"
| closed: "sig_calls opens closes s (g, w, held) \<Longrightarrow> fd \<in> set held \<Longrightarrow> closes fd g w = Some (r, g', w') \<Longrightarrow>
    sig_calls opens closes s (g', w', remove1 fd held)"
| moves: "sig_calls opens closes s (g, w, held) \<Longrightarrow> sig_calls opens closes s (g, w', held)"

text \<open>What an arm promises.  \<open>lawful\<close> is what it takes from the system: descriptors are not
  negative, errnos are positive.\<close>

locale signal_arm =
  fixes lawful :: bool
    and opened :: "'g \<Rightarrow> bool"
    and opens :: "('g, 'w) sig_opens"
    and closes :: "('g, 'w) sig_closes"
  assumes refuses: "opened g \<Longrightarrow> opens sigs n g w = Some (r, g', w') \<Longrightarrow>
      g' = g \<and> w' = w \<and> (r = - EEXIST \<or> r = - EINVAL)"
    and opens_it: "lawful \<Longrightarrow> \<not> opened g \<Longrightarrow> opens sigs n g w = Some (r, g', w') \<Longrightarrow> opened g' \<longleftrightarrow> \<not> neg32 r"
    and closing: "closes fd g w = Some (r, g', w') \<Longrightarrow> \<not> opened g'"
begin

lemma holds_one:
  assumes "sig_calls opens closes s t" "lawful" "length (snd (snd s)) = of_bool (opened (fst s))"
  shows "length (snd (snd t)) = of_bool (opened (fst t))"
  using assms(1,3)
proof (induction rule: sig_calls.induct)
  case (called s g w held sigs n r g' w')
  show ?case
  proof (cases "opened g")
    case True
    have "neg32 (- EEXIST)" "neg32 (- EINVAL)" by (simp_all add: neg32_unat EEXIST_def EINVAL_def)
    with refuses [OF True called.hyps(2)] have "neg32 r \<and> g' = g" by auto
    then show ?thesis using called True by simp
  next
    case False
    then show ?thesis using called opens_it [OF assms(2) False called.hyps(2)] by simp
  qed
next
  case (closed s g w held fd r g' w')
  have "length held = of_bool (opened g)" using closed by simp
  then have "length (remove1 fd held) = 0" using closed.hyps(2) by (simp add: length_remove1 split: if_splits)
  then show ?case using closing [OF closed.hyps(3)] by simp
qed simp_all

end

definition answers_lawful :: "i32 + i32 \<Rightarrow> bool" where
  "answers_lawful a = (case a of Inl e \<Rightarrow> neg32 (- e) | Inr fd \<Rightarrow> \<not> neg32 fd)"

definition linux_lawful :: "'w linux_sig \<Rightarrow> bool" where
  "linux_lawful ls \<longleftrightarrow> (\<forall>s w. answers_lawful (fst (ls_signalfd ls s w)))"

definition win_lawful :: "'w win_sig \<Rightarrow> bool" where
  "win_lawful ws \<longleftrightarrow> (\<forall>l w s. fst (wn_accept ws l w) = Some s \<longrightarrow> s < 2 ^ 31)"

definition pipe_lawful :: "('w \<Rightarrow> (i32 + i32 \<times> i32) \<times> 'w) \<Rightarrow> bool" where
  "pipe_lawful p \<longleftrightarrow> (\<forall>w. case fst (p w) of Inl e \<Rightarrow> neg32 (- e) | Inr (a, b) \<Rightarrow> \<not> neg32 a \<and> \<not> neg32 b)"

lemma errnos_negative [simp]: "neg32 (- EEXIST)" "neg32 (- EINVAL)" "neg32 (- EIO)" "neg32 (- ENOMEM)" "neg32 (- EAGAIN)"
  by (simp_all add: neg32_unat EEXIST_def EINVAL_def EIO_def ENOMEM_def EAGAIN_def)

lemma neg32_minus_1 [simp]: "neg32 (- 1)"
  by (simp add: neg32_def)

interpretation linux_signals: signal_arm "linux_lawful ls" "\<lambda>g. g"
  "\<lambda>sigs n g w. Some (linux_signal_open ls sigs n g w)" "\<lambda>fd g w. Some (linux_signal_close ls fd g w)"
  for ls :: "'w linux_sig"
proof
  fix g sigs n r g' fd and w w' :: 'w
  show "g' = g \<and> w' = w \<and> (r = - EEXIST \<or> r = - EINVAL)"
    if "g" "Some (linux_signal_open ls sigs n g w) = Some (r, g', w')"
    using that by (auto simp: linux_signal_open_def split: if_splits)
  show "g' \<longleftrightarrow> \<not> neg32 r"
    if "linux_lawful ls" "\<not> g" "Some (linux_signal_open ls sigs n g w) = Some (r, g', w')"
  proof -
    have "answers_lawful (fst (ls_signalfd ls (first_sigs sigs n) w))" using that(1) by (simp add: linux_lawful_def)
    then show ?thesis using that(2,3)
      by (auto simp: linux_signal_open_def answers_lawful_def split: if_splits prod.splits sum.splits)
  qed
  show "\<not> g'" if "Some (linux_signal_close ls fd g w) = Some (r, g', w')"
    using that by (auto simp: linux_signal_close_def split: prod.splits option.splits)
qed

interpretation win_signals: signal_arm "win_lawful ws" "\<lambda>g. wn_write g \<noteq> None"
  "\<lambda>sigs n g w. Some (win_signal_open ws sigs n g w)" "\<lambda>fd g w. Some (win_signal_close ws fd g w)"
  for ws :: "'w win_sig"
proof
  fix g sigs n r g' fd and w w' :: 'w
  show "g' = g \<and> w' = w \<and> (r = - EEXIST \<or> r = - EINVAL)"
    if "wn_write g \<noteq> None" "Some (win_signal_open ws sigs n g w) = Some (r, g', w')"
    using that by (auto simp: win_signal_open_def split: if_splits)
  have pair: "sp0 < 2 ^ 31" if "win_lawful ws" "loopback_pair ws v = (Some (sp0, sp1), v')" for sp0 sp1 and v v' :: 'w
    using that by (auto simp: loopback_pair_def win_lawful_def Let_def split: prod.splits option.splits bool.splits)
      (metis fst_conv)+
  show "wn_write g' \<noteq> None \<longleftrightarrow> \<not> neg32 r"
    if "win_lawful ws" "\<not> wn_write g \<noteq> None" "Some (win_signal_open ws sigs n g w) = Some (r, g', w')"
  proof (cases "loopback_pair ws (wn_startup ws w)")
    case (Pair p v)
    show ?thesis
    proof (cases p)
      case None
      then show ?thesis using that(2,3) Pair by (auto simp: win_signal_open_def split: if_splits)
    next
      case (Some sp)
      obtain sp0 sp1 where sp: "sp = (sp0, sp1)" by fastforce
      have s: "sp0 < 2 ^ 31" using pair [OF that(1)] Pair Some sp by blast
      have "\<not> neg32 (of_nat sp0)" using s by (intro neg32_small) (simp add: unat_of_nat)
      then show ?thesis using that(2,3) Pair Some sp
        by (auto simp: win_signal_open_def Let_def split: if_splits prod.splits bool.splits)
    qed
  qed
  show "\<not> wn_write g' \<noteq> None" if "Some (win_signal_close ws fd g w) = Some (r, g', w')"
    using that by (auto simp: win_signal_close_def Let_def)
qed

lemma mac_sources_write: "mac_sources ms sigs g w = Some (ok, g', w') \<Longrightarrow> ms_write g' = ms_write g"
  by (induction ms sigs g w rule: mac_sources.induct) (auto split: prod.splits bool.splits if_splits)

interpretation mac_signals: signal_arm "pipe_lawful (mc_pipe ms)" "\<lambda>g. \<not> neg32 (ms_write g)"
  "mac_signal_open ms" "\<lambda>fd g w. Some (mac_signal_close ms fd g w)"
  for ms :: "'w mac_sig"
proof
  fix g sigs n r g' fd and w w' :: 'w
  show "g' = g \<and> w' = w \<and> (r = - EEXIST \<or> r = - EINVAL)"
    if "\<not> neg32 (ms_write g)" "mac_signal_open ms sigs n g w = Some (r, g', w')"
    using that by (auto simp: mac_signal_open_def split: if_splits)
  show "\<not> neg32 (ms_write g') \<longleftrightarrow> \<not> neg32 r"
    if "pipe_lawful (mc_pipe ms)" "\<not> \<not> neg32 (ms_write g)" "mac_signal_open ms sigs n g w = Some (r, g', w')"
  proof -
    have "case fst (mc_pipe ms w) of Inl e \<Rightarrow> neg32 (- e) | Inr (a, b) \<Rightarrow> \<not> neg32 a \<and> \<not> neg32 b"
      using that(1) by (simp add: pipe_lawful_def)
    then show ?thesis using that(2,3)
      by (auto simp: mac_signal_open_def dest!: mac_sources_write
          split: if_splits prod.splits sum.splits option.splits bool.splits)
  qed
  show "\<not> \<not> neg32 (ms_write g')" if "Some (mac_signal_close ms fd g w) = Some (r, g', w')"
    using that by (auto simp: mac_signal_close_def Let_def split: prod.splits option.splits)
qed

interpretation posix_signals: signal_arm "pipe_lawful (px_pipe px)" ps_running
  "\<lambda>sigs n g w. Some (posix_signal_open px sigs n g w)" "posix_signal_close px"
  for px :: "'w posix_sig"
proof
  fix g sigs n r g' fd and w w' :: 'w
  show "g' = g \<and> w' = w \<and> (r = - EEXIST \<or> r = - EINVAL)"
    if "ps_running g" "Some (posix_signal_open px sigs n g w) = Some (r, g', w')"
    using that by (auto simp: posix_signal_open_def split: if_splits)
  show "ps_running g' \<longleftrightarrow> \<not> neg32 r"
    if "pipe_lawful (px_pipe px)" "\<not> ps_running g" "Some (posix_signal_open px sigs n g w) = Some (r, g', w')"
  proof -
    have "case fst (px_pipe px w) of Inl e \<Rightarrow> neg32 (- e) | Inr (a, b) \<Rightarrow> \<not> neg32 a \<and> \<not> neg32 b"
      using that(1) by (simp add: pipe_lawful_def)
    then show ?thesis using that(2,3)
      by (auto simp: posix_signal_open_def Let_def split: if_splits prod.splits sum.splits bool.splits)
  qed
  show "\<not> ps_running g'" if "posix_signal_close px fd g w = Some (r, g', w')"
    using that by (auto simp: posix_signal_close_def Let_def split: if_splits prod.splits option.splits)
qed

subsection \<open>Bytes and signals\<close>

lemma byte_sig_of_byte:
  assumes "unat sig < 256"
  shows "byte_sig (sig_byte sig) = sig"
proof -
  have "unat (take_bit 8 sig) = unat sig" using assms by (simp add: unsigned_take_bit_eq take_bit_nat_eq_self)
  then have "take_bit 8 sig = sig" by (simp only: word_unat_eq_iff)
  then show ?thesis by (simp add: byte_sig_def sig_byte_def word_eq_iff_unsigned unsigned_ucast_eq)
qed

lemma console_signals_fit: "console_signal type = Some sig \<Longrightarrow> byte_sig (sig_byte sig) = sig"
  by (rule byte_sig_of_byte) (auto simp: console_signal_def SIGINT_def SIGTERM_def split: if_splits)

subsection \<open>The thread and its caller\<close>

text \<open>The generic arm under way: where the thread stands, the flag, the pipe between the two ends,
  the signals that are pending for the process, what the caller has read, and where the caller is.
  \<open>pu_came\<close> is the history of arrivals.\<close>

datatype sig_caller = C_RUNS | C_JOINS | C_CLOSED

record pump_sys =
  pu_pc :: pump_pc
  pu_stop :: bool
  pu_pipe :: "u8 list"
  pu_pending :: "i32 list"
  pu_came :: "i32 list"
  pu_read :: "i32 list"
  pu_caller :: sig_caller

text \<open>\<open>cap\<close> is what the pipe holds; a write to a full one waits.\<close>

inductive pump_step :: "nat \<Rightarrow> pump_sys \<Rightarrow> pump_sys \<Rightarrow> bool" for cap where
  arrives: "\<not> neg32 sig \<Longrightarrow> sig \<noteq> 0 \<Longrightarrow> unat sig < 256 \<Longrightarrow>
    pump_step cap s (s\<lparr>pu_pending := pu_pending s @ [sig], pu_came := pu_came s @ [sig]\<rparr>)"
| tops: "pu_pc s = P_TOP \<Longrightarrow> pump_step cap s (s\<lparr>pu_pc := pump_top (pu_stop s)\<rparr>)"
| takes: "pu_pc s = P_WAIT \<Longrightarrow> pu_pending s = sig # rest \<Longrightarrow>
    pump_step cap s (s\<lparr>pu_pc := pump_got sig, pu_pending := rest\<rparr>)"
| times_out: "pu_pc s = P_WAIT \<Longrightarrow> pump_step cap s (s\<lparr>pu_pc := pump_got (- 1)\<rparr>)"
| writes: "pu_pc s = P_WRITE b \<Longrightarrow> length (pu_pipe s) < cap \<Longrightarrow>
    pump_step cap s (s\<lparr>pu_pc := P_TOP, pu_pipe := pu_pipe s @ [b]\<rparr>)"
| reads: "pu_caller s = C_RUNS \<Longrightarrow> pu_pipe s = b # bs \<Longrightarrow>
    pump_step cap s (s\<lparr>pu_pipe := bs, pu_read := pu_read s @ [byte_sig b]\<rparr>)"
| closes: "pu_caller s = C_RUNS \<Longrightarrow> pump_step cap s (s\<lparr>pu_stop := True, pu_caller := C_JOINS\<rparr>)"
| joined: "pu_caller s = C_JOINS \<Longrightarrow> pu_pc s = P_DONE \<Longrightarrow> pump_step cap s (s\<lparr>pu_caller := C_CLOSED\<rparr>)"

inductive pump_reach :: "nat \<Rightarrow> pump_sys \<Rightarrow> pump_sys \<Rightarrow> bool" for cap where
  here: "pump_reach cap s s"
| there: "pump_reach cap s t \<Longrightarrow> pump_step cap t u \<Longrightarrow> pump_reach cap s u"

text \<open>As \<open>slipstream_signal_open\<close> leaves it.\<close>

definition fresh_pump :: pump_sys where
  "fresh_pump = \<lparr>pu_pc = P_TOP, pu_stop = False, pu_pipe = [], pu_pending = [], pu_came = [], pu_read = [],
     pu_caller = C_RUNS\<rparr>"

definition in_hand :: "pump_pc \<Rightarrow> i32 list" where
  "in_hand pc = (case pc of P_WRITE b \<Rightarrow> [byte_sig b] | _ \<Rightarrow> [])"

definition pump_ok :: "pump_sys \<Rightarrow> bool" where
  "pump_ok s \<longleftrightarrow>
     pu_read s @ map byte_sig (pu_pipe s) @ in_hand (pu_pc s) @ pu_pending s = pu_came s \<and>
     (\<forall>sig \<in> set (pu_pending s). \<not> neg32 sig \<and> sig \<noteq> 0 \<and> unat sig < 256)"

lemma pump_got_hand: "\<not> neg32 sig \<Longrightarrow> sig \<noteq> 0 \<Longrightarrow> unat sig < 256 \<Longrightarrow> in_hand (pump_got sig) = [sig]"
  by (simp add: in_hand_def pump_got_def byte_sig_of_byte)

lemma hand_simps [simp]:
  "in_hand P_TOP = []" "in_hand P_WAIT = []" "in_hand P_DONE = []" "in_hand (P_WRITE b) = [byte_sig b]"
  "in_hand (pump_top stop) = []" "in_hand (pump_got (- 1)) = []"
  by (simp_all add: in_hand_def pump_top_def pump_got_def)

lemma pump_step_ok: "pump_step cap s t \<Longrightarrow> pump_ok s \<Longrightarrow> pump_ok t"
  by (induction rule: pump_step.induct) (auto simp: pump_ok_def pump_got_hand)

lemma pump_reach_ok: "pump_reach cap s t \<Longrightarrow> pump_ok s \<Longrightarrow> pump_ok t"
  by (induction rule: pump_reach.induct) (blast dest: pump_step_ok)+

lemma fresh_pump_ok: "pump_ok fresh_pump"
  by (simp add: pump_ok_def fresh_pump_def)

text \<open>A close that has begun stays where it is exactly if the thread stands before a full pipe.\<close>

definition stuck :: "nat \<Rightarrow> pump_sys \<Rightarrow> bool" where
  "stuck cap s \<longleftrightarrow> pu_caller s = C_JOINS \<and> (\<exists>b. pu_pc s = P_WRITE b) \<and> cap \<le> length (pu_pipe s)"

lemma stuck_step: "pump_step cap s t \<Longrightarrow> stuck cap s \<Longrightarrow> stuck cap t"
  by (induction rule: pump_step.induct) (auto simp: stuck_def)

lemma stuck_reach: "pump_reach cap s t \<Longrightarrow> stuck cap s \<Longrightarrow> stuck cap t"
  by (induction rule: pump_reach.induct) (blast dest: stuck_step)+

lemma pump_reach_step: "pump_step cap s t \<Longrightarrow> pump_reach cap t u \<Longrightarrow> pump_reach cap s u"
  by (rotate_tac, induction rule: pump_reach.induct) (blast intro: pump_reach.intros)+

lemma close_from_done:
  "pu_caller s = C_JOINS \<Longrightarrow> pu_pc s = P_DONE \<Longrightarrow> \<exists>t. pump_reach cap s t \<and> pu_caller t = C_CLOSED"
  by (intro exI [of _ "s\<lparr>pu_caller := C_CLOSED\<rparr>"]) (auto intro: pump_reach.intros pump_step.intros)

lemma close_from_top:
  assumes "pu_caller s = C_JOINS" "pu_stop s" "pu_pc s = P_TOP"
  shows "\<exists>t. pump_reach cap s t \<and> pu_caller t = C_CLOSED"
proof -
  have "pump_step cap s (s\<lparr>pu_pc := P_DONE\<rparr>)"
    using pump_step.tops [OF assms(3), of cap] assms(2) by (simp add: pump_top_def)
  moreover obtain t where "pump_reach cap (s\<lparr>pu_pc := P_DONE\<rparr>) t" "pu_caller t = C_CLOSED"
    using close_from_done [of "s\<lparr>pu_pc := P_DONE\<rparr>" cap] assms(1) by auto
  ultimately show ?thesis using pump_reach_step by blast
qed

lemma close_comes_back:
  assumes "pu_caller s = C_JOINS" "pu_stop s" "\<not> stuck cap s"
  shows "\<exists>t. pump_reach cap s t \<and> pu_caller t = C_CLOSED"
proof (cases "pu_pc s")
  case P_TOP
  with assms(1,2) show ?thesis by (rule close_from_top)
next
  case P_WAIT
  have "pump_step cap s (s\<lparr>pu_pc := P_TOP\<rparr>)"
    using pump_step.times_out [OF P_WAIT, of cap] by (simp add: pump_got_def)
  moreover obtain t where "pump_reach cap (s\<lparr>pu_pc := P_TOP\<rparr>) t" "pu_caller t = C_CLOSED"
    using close_from_top [of "s\<lparr>pu_pc := P_TOP\<rparr>" cap] assms(1,2) by auto
  ultimately show ?thesis using pump_reach_step by blast
next
  case (P_WRITE b)
  let ?t = "s\<lparr>pu_pc := P_TOP, pu_pipe := pu_pipe s @ [b]\<rparr>"
  have "length (pu_pipe s) < cap" using assms(1,3) P_WRITE by (auto simp: stuck_def not_le)
  then have "pump_step cap s ?t" by (rule pump_step.writes [OF P_WRITE])
  moreover obtain t where "pump_reach cap ?t t" "pu_caller t = C_CLOSED"
    using close_from_top [of ?t cap] assms(1,2) by auto
  ultimately show ?thesis using pump_reach_step by blast
next
  case P_DONE
  with assms(1) show ?thesis by (rule close_from_done)
qed

subsection \<open>The sources of a failed open\<close>

lemma mac_sources_run:
  assumes "\<forall>s w. fst (mc_source ms s w)" "length (ms_src g) = 32"
  shows "mac_sources ms sigs g w = None \<longleftrightarrow> 32 < ms_nsrc g + length sigs \<and> sigs \<noteq> []"
  using assms(2)
proof (induction sigs arbitrary: g w)
  case (Cons sig sigs)
  obtain v where v: "mc_source ms sig (mc_ignore ms sig w) = (True, v)" using assms(1) by (metis eq_fst_iff)
  show ?case
  proof (cases "ms_nsrc g < 32")
    case True
    let ?g = "g\<lparr>ms_src := (ms_src g)[ms_nsrc g := sig], ms_nsrc := Suc (ms_nsrc g)\<rparr>"
    have "mac_sources ms (sig # sigs) g w = mac_sources ms sigs ?g v" using v True Cons.prems by simp
    moreover have "mac_sources ms sigs ?g v = None \<longleftrightarrow> 32 < ms_nsrc ?g + length sigs \<and> sigs \<noteq> []"
      by (rule Cons.IH) (use Cons.prems in simp)
    ultimately show ?thesis using True by (cases sigs) auto
  next
    case False
    then show ?thesis using v Cons.prems by simp
  qed
qed simp

lemma mac_sources_failed:
  assumes "mac_sources ms sigs g w = Some (ok, g', w')"
  shows "\<exists>k \<le> length sigs. ms_nsrc g' = ms_nsrc g + k \<and> (ok \<longleftrightarrow> k = length sigs) \<and>
    length (ms_src g') = length (ms_src g)"
  using assms
proof (induction sigs arbitrary: g w)
  case (Cons sig sigs)
  let ?g = "g\<lparr>ms_src := (ms_src g)[ms_nsrc g := sig], ms_nsrc := Suc (ms_nsrc g)\<rparr>"
  obtain b v where v: "mc_source ms sig (mc_ignore ms sig w) = (b, v)" by fastforce
  show ?case
  proof (cases b)
    case True
    then have m: "mac_sources ms sigs ?g v = Some (ok, g', w')" using Cons.prems v by (auto split: if_splits)
    obtain k where "k \<le> length sigs" "ms_nsrc g' = ms_nsrc ?g + k" "ok \<longleftrightarrow> k = length sigs"
      "length (ms_src g') = length (ms_src ?g)"
      using Cons.IH [OF m] by blast
    then show ?thesis by (intro exI [of _ "Suc k"]) simp
  next
    case False
    then show ?thesis using Cons.prems v by (intro exI [of _ 0]) auto
  qed
qed simp

subsection \<open>Sockets of the Windows arm\<close>

text \<open>\<open>socks w\<close> are the sockets that are open in \<open>w\<close>.\<close>

definition makes_socket :: "('w \<Rightarrow> socket set) \<Rightarrow> ('w \<Rightarrow> socket option \<times> 'w) \<Rightarrow> bool" where
  "makes_socket socks f \<longleftrightarrow> (\<forall>w. case f w of
     (None, w') \<Rightarrow> socks w' = socks w | (Some s, w') \<Rightarrow> s \<notin> socks w \<and> socks w' = insert s (socks w))"

definition socks_laws :: "'w win_sig \<Rightarrow> ('w \<Rightarrow> socket set) \<Rightarrow> bool" where
  "socks_laws ws socks \<longleftrightarrow> makes_socket socks (wn_socket ws) \<and> (\<forall>l. makes_socket socks (wn_accept ws l)) \<and>
     (\<forall>l w. socks (snd (wn_bind ws l w)) = socks w) \<and> (\<forall>l w. socks (snd (wn_listen ws l w)) = socks w) \<and>
     (\<forall>l w. socks (snd (wn_getsockname ws l w)) = socks w) \<and> (\<forall>l w. socks (snd (wn_connect ws l w)) = socks w) \<and>
     (\<forall>s w. socks (wn_closesocket ws s w) = socks w - {s}) \<and> (\<forall>w. socks (wn_startup ws w) = socks w) \<and>
     (\<forall>s w. socks (wn_nonblock ws s w) = socks w) \<and> (\<forall>b w. socks (snd (wn_handler ws b w)) = socks w)"

lemma socks_lawsD:
  assumes "socks_laws ws socks"
  shows "makes_socket socks (wn_socket ws)" "makes_socket socks (wn_accept ws l)"
    "socks (snd (wn_bind ws l w)) = socks w" "socks (snd (wn_listen ws l w)) = socks w"
    "socks (snd (wn_getsockname ws l w)) = socks w" "socks (snd (wn_connect ws l w)) = socks w"
    "socks (wn_closesocket ws s w) = socks w - {s}" "socks (wn_startup ws w) = socks w"
    "socks (wn_nonblock ws s w) = socks w" "socks (snd (wn_handler ws b w)) = socks w"
  using assms by (simp_all add: socks_laws_def)

lemma makes_socketD:
  "makes_socket socks f \<Longrightarrow> f w = (None, w') \<Longrightarrow> socks w' = socks w"
  "makes_socket socks f \<Longrightarrow> f w = (Some s, w') \<Longrightarrow> s \<notin> socks w \<and> socks w' = insert s (socks w)"
  unfolding makes_socket_def by (drule spec [of _ w], simp)+

lemma and_then_same:
  assumes "\<And>w. socks (snd (f w)) = socks w" "\<And>w. socks (snd (g w)) = socks w"
  shows "socks (snd (and_then f g w)) = socks w"
proof -
  obtain b v where f: "f w = (b, v)" by fastforce
  then have "socks v = socks w" using assms(1) [of w] by simp
  then show ?thesis using assms(2) by (cases b) (simp_all add: and_then_def f)
qed

lemma loopback_pair_socks:
  assumes "socks_laws ws socks" "loopback_pair ws w = (p, w')"
  shows "case p of None \<Rightarrow> socks w' = socks w
    | Some (s, c) \<Rightarrow> s \<noteq> c \<and> s \<notin> socks w \<and> c \<notin> socks w \<and> socks w' = {s, c} \<union> socks w"
proof -
  note L = socks_lawsD [OF assms(1)]
  note mk = L(1,2) and cl = L(7) and co = L(6)
  obtain a w1 where s1: "wn_socket ws w = (a, w1)" by fastforce
  show ?thesis
  proof (cases a)
    case None
    then show ?thesis using assms(2) s1 makes_socketD(1) [OF mk(1)] by (auto simp: loopback_pair_def)
  next
    case (Some l)
    have l: "l \<notin> socks w" "socks w1 = insert l (socks w)" using makes_socketD(2) [OF mk(1)] s1 Some by blast+
    obtain ok w2 where b: "and_then (wn_bind ws l) (and_then (wn_listen ws l) (wn_getsockname ws l)) w1 = (ok, w2)" by fastforce
    have "socks (snd (and_then (wn_bind ws l) (and_then (wn_listen ws l) (wn_getsockname ws l)) w1)) = socks w1"
      by (intro and_then_same L)
    then have w2: "socks w2 = insert l (socks w)" using b l by simp
    show ?thesis
    proof (cases ok)
      case False
      then show ?thesis using assms(2) s1 Some b cl w2 l by (auto simp: loopback_pair_def)
    next
      case True
      obtain e w3 where s2: "wn_socket ws w2 = (e, w3)" by fastforce
      show ?thesis
      proof (cases e)
        case None
        then show ?thesis using assms(2) s1 Some b True s2 cl w2 l makes_socketD(1) [OF mk(1) s2 [unfolded None]]
          by (auto simp: loopback_pair_def)
      next
        case (Some c)
        have c: "c \<notin> socks w2" "socks w3 = insert c (socks w2)" using makes_socketD(2) [OF mk(1)] s2 Some by blast+
        obtain k w4 where s3: "wn_connect ws c w3 = (k, w4)" by fastforce
        have w4: "socks w4 = insert c (insert l (socks w))" using co [of c w3] s3 c w2 by simp
        show ?thesis
        proof (cases k)
          case False
          then show ?thesis using assms(2) s1 \<open>a = Some l\<close> b True s2 Some s3 cl w4 l c w2
            by (auto simp: loopback_pair_def)
        next
          case conn: True
          obtain z w5 where s4: "wn_accept ws l w4 = (z, w5)" by fastforce
          show ?thesis
          proof (cases z)
            case None
            then show ?thesis
              using assms(2) s1 \<open>a = Some l\<close> b True s2 Some s3 conn s4 cl w4 l c w2 makes_socketD(1) [OF mk(2) s4 [unfolded None]]
              by (auto simp: loopback_pair_def)
          next
            case (Some s)
            then show ?thesis
              using assms(2) s1 \<open>a = Some l\<close> b True s2 \<open>e = Some c\<close> s3 conn s4 cl w4 l c w2 makes_socketD(2) [OF mk(2) s4 [unfolded Some]]
              by (auto simp: loopback_pair_def)
          qed
        qed
      qed
    qed
  qed
qed

lemma win_open_socks:
  assumes "socks_laws ws socks" "win_signal_open ws sigs n g w = (r, g', w')" "wn_write g = None"
  shows "case wn_write g' of None \<Rightarrow> socks w' = socks w
    | Some c \<Rightarrow> \<exists>s. r = of_nat s \<and> s \<noteq> c \<and> s \<notin> socks w \<and> c \<notin> socks w \<and> socks w' = {s, c} \<union> socks w"
proof -
  note cl = socks_lawsD(7) [OF assms(1)] and nb = socks_lawsD(9) [OF assms(1)]
    and st = socks_lawsD(8) [OF assms(1)] and hd = socks_lawsD(10) [OF assms(1)]
  show ?thesis
  proof (cases "sigs = None \<or> n = 0 \<or> 32 < n")
    case True
    then show ?thesis using assms(2,3) by (auto simp: win_signal_open_def)
  next
    case False
    obtain p w1 where lp: "loopback_pair ws (wn_startup ws w) = (p, w1)" by fastforce
    note ls = loopback_pair_socks [OF assms(1) lp]
    show ?thesis
    proof (cases p)
      case None
      then show ?thesis using assms(2,3) False lp ls st by (auto simp: win_signal_open_def)
    next
      case (Some sp)
      obtain s c where sp: "sp = (s, c)" by fastforce
      obtain ok w2 where h: "wn_handler ws True (wn_nonblock ws s w1) = (ok, w2)" by fastforce
      have "socks w2 = socks w1" using hd [of True "wn_nonblock ws s w1"] h nb by simp
      then show ?thesis using assms(2,3) False lp ls st cl h Some sp
        by (cases ok) (auto simp: win_signal_open_def Let_def)
    qed
  qed
qed

end
