(* ===== verification/Routing.thy ===== *)
theory Routing
  imports Setup_Facts
begin

text \<open>
  Which side answers liburing (\<open>src/src/slipstream_syscall.c\<close>, \<open>src/src/uring_available.h\<close>): the
  kernel, where it gives this process a ring, or the engine.  The choice is made once, on first
  use; what names a ring's memory or its token is the engine's in either mode.  \<open>g_engine\<close> is
  \<open>None\<close> until it has been asked.
\<close>

subsection \<open>The two sides\<close>

text \<open>The kernel's calls and libc's, answering an errno (\<open>Inl\<close>) or a result.\<close>

record 'w kernel_os =
  kn_linux :: bool                                     \<comment> \<open>\<open>__linux__\<close>\<close>
  kn_setup :: "u32 \<Rightarrow> io_uring_params option \<Rightarrow> 'w \<Rightarrow> (i32 + i32) \<times> io_uring_params option \<times> 'w"
  kn_enter :: "u32 \<Rightarrow> u32 \<Rightarrow> u32 \<Rightarrow> u32 \<Rightarrow> timespec option option \<Rightarrow> nat \<Rightarrow> 'w \<Rightarrow> (i32 + i32) \<times> 'w"
  kn_register :: "u32 \<Rightarrow> bool \<Rightarrow> reg_op \<Rightarrow> u32 \<Rightarrow> 'w \<Rightarrow> (i32 + i32) \<times> reg_out \<times> 'w"
  kn_mmap :: "u64 \<Rightarrow> nat \<Rightarrow> i32 \<Rightarrow> i32 \<Rightarrow> i32 \<Rightarrow> u64 \<Rightarrow> 'w \<Rightarrow> (i32 + u64) \<times> 'w"
  kn_munmap :: "u64 \<Rightarrow> nat \<Rightarrow> 'w \<Rightarrow> i32 option \<times> 'w"
  kn_close :: "i32 \<Rightarrow> 'w \<Rightarrow> i32 option \<times> 'w"

text \<open>The engine with what it was built and set up with.\<close>

record ('b, 'w) engine_env =
  ev_be :: "('b, 'w) eng_backend"
  ev_os :: "'w os"
  ev_nul :: 'b
  ev_sizes :: sizes
  ev_plat :: plat_ok
  ev_num :: "opcode \<Rightarrow> u8"
  ev_malloc_ok :: "nat \<Rightarrow> bool"
  ev_clock :: "'w \<Rightarrow> timespec \<times> 'w"
  ev_join :: "'b slip_ring \<Rightarrow> 'w \<Rightarrow> 'b slip_ring \<times> 'w"
  ev_addr_of :: "nat \<Rightarrow> block_part \<Rightarrow> u64"

text \<open>\<open>r < 0 ? -errno : r\<close>.\<close>

definition negated :: "i32 + i32 \<Rightarrow> i32" where
  "negated a = (case a of Inl e \<Rightarrow> - e | Inr r \<Rightarrow> r)"

definition negated0 :: "i32 option \<Rightarrow> i32" where
  "negated0 a = (case a of Some e \<Rightarrow> - e | None \<Rightarrow> 0)"

subsection \<open>The choice\<close>

definition zero_params :: io_uring_params where
  "zero_params = \<lparr>p_flags = 0, p_sq_entries = 0, p_cq_entries = 0, p_features = 0, p_sq_off = [], p_cq_off = []\<rparr>"

text \<open>An attempt, not a version check: one entry, closed again at once.\<close>

definition slipstream_uring_available :: "'w kernel_os \<Rightarrow> 'w \<Rightarrow> bool \<times> 'w" where
  "slipstream_uring_available kn w =
     (if \<not> kn_linux kn then (False, w)
      else case kn_setup kn 1 (Some zero_params) w of
        (Inl e, _, w) \<Rightarrow> (False, w)
      | (Inr fd, _, w) \<Rightarrow> (True, snd (kn_close kn fd w)))"

definition engine_chosen :: "'w kernel_os \<Rightarrow> bool option \<Rightarrow> 'w \<Rightarrow> bool \<times> bool option \<times> 'w" where
  "engine_chosen kn g w =
     (case g of
        Some on \<Rightarrow> (on, g, w)
      | None \<Rightarrow> (case slipstream_uring_available kn w of (ok, w) \<Rightarrow> (\<not> ok, Some (\<not> ok), w)))"

definition slipstream_syscall_uses_engine :: "'w kernel_os \<Rightarrow> bool option \<Rightarrow> 'w \<Rightarrow> bool \<times> bool option \<times> 'w" where
  "slipstream_syscall_uses_engine kn g w = engine_chosen kn g w"

definition slipstream_syscall_set_engine :: "i32 \<Rightarrow> bool option" where
  "slipstream_syscall_set_engine on = Some (on \<noteq> 0)"

text \<open>Off Linux the engine answers without being asked for.\<close>

definition ask_engine :: "'w kernel_os \<Rightarrow> bool option \<Rightarrow> 'w \<Rightarrow> bool \<times> bool option \<times> 'w" where
  "ask_engine kn g w = (if kn_linux kn then engine_chosen kn g w else (True, g, w))"

subsection \<open>The calls\<close>

definition slipstream_io_uring_setup ::
    "'w kernel_os \<Rightarrow> ('b, 'w) engine_env \<Rightarrow> u32 \<Rightarrow> io_uring_params option \<Rightarrow> bool option \<Rightarrow> 'b slip_ring list \<Rightarrow> 'w
     \<Rightarrow> (i32 \<times> io_uring_params option \<times> bool option \<times> 'b slip_ring list \<times> 'w) option" where
  "slipstream_io_uring_setup kn ev entries p g rs w =
     (case ask_engine kn g w of
        (False, g, w) \<Rightarrow>
          (case kn_setup kn entries p w of (a, p, w) \<Rightarrow> Some (negated a, p, g, rs, w))
      | (True, g, w) \<Rightarrow>
          map_option (\<lambda>(r, p, rs, w). (r, p, g, rs, w))
            (slipstream_engine_setup (ev_be ev) (ev_nul ev) (ev_sizes ev) (ev_plat ev) entries p rs w))"

definition slipstream_io_uring_enter2 ::
    "'w kernel_os \<Rightarrow> ('b, 'w) engine_env \<Rightarrow> u32 \<Rightarrow> u32 \<Rightarrow> u32 \<Rightarrow> u32 \<Rightarrow> timespec option option \<Rightarrow> nat
     \<Rightarrow> bool option \<Rightarrow> 'b slip_ring list \<Rightarrow> 'w \<Rightarrow> (i32 \<times> bool option \<times> 'b slip_ring list \<times> 'w) option" where
  "slipstream_io_uring_enter2 kn ev fd to_submit min_complete flags arg sz g rs w =
     (case ask_engine kn g w of
        (False, g, w) \<Rightarrow>
          (case kn_enter kn fd to_submit min_complete flags arg sz w of (a, w) \<Rightarrow> Some (negated a, g, rs, w))
      | (True, g, w) \<Rightarrow>
          map_option (\<lambda>(r, rs, w). (r, g, rs, w))
            (slipstream_engine_enter (ev_be ev) (ev_clock ev) fd to_submit min_complete flags arg sz rs w))"

definition slipstream_io_uring_register ::
    "'w kernel_os \<Rightarrow> ('b, 'w) engine_env \<Rightarrow> u32 \<Rightarrow> bool \<Rightarrow> reg_op \<Rightarrow> u32
     \<Rightarrow> bool option \<Rightarrow> 'b slip_ring list \<Rightarrow> 'w \<Rightarrow> i32 \<times> reg_out \<times> bool option \<times> 'b slip_ring list \<times> 'w" where
  "slipstream_io_uring_register kn ev fd by_index opc nr g rs w =
     (case ask_engine kn g w of
        (False, g, w) \<Rightarrow> (case kn_register kn fd by_index opc nr w of (a, out, w) \<Rightarrow> (negated a, out, g, rs, w))
      | (True, g, w) \<Rightarrow>
          (case slipstream_engine_register (ev_be ev) (ev_os ev) (ev_num ev) (ev_malloc_ok ev) fd by_index opc nr rs w of
             (r, out, rs, w) \<Rightarrow> (r, out, g, rs, w)))"

definition fd_is_ring_token :: "i32 \<Rightarrow> bool" where
  "fd_is_ring_token fd \<longleftrightarrow> \<not> neg32 fd \<and> fd \<noteq> 0 \<and> bit fd RING_TOKEN_BIT"

datatype mapped = At_ring nat block_part | At_addr u64 | Map_error i32

definition slipstream_mmap ::
    "'w kernel_os \<Rightarrow> u64 \<Rightarrow> nat \<Rightarrow> i32 \<Rightarrow> i32 \<Rightarrow> i32 \<Rightarrow> u64 \<Rightarrow> 'b slip_ring list \<Rightarrow> 'w \<Rightarrow> mapped \<times> 'w" where
  "slipstream_mmap kn addr len prot flags fd offset rs w =
     (if fd_is_ring_token fd then
        (case slipstream_engine_mmap rs len fd offset of
           Some (me, part) \<Rightarrow> (At_ring me part, w) | None \<Rightarrow> (Map_error (- EINVAL), w))
      else case kn_mmap kn addr len prot flags fd offset w of
        (Inl e, w) \<Rightarrow> (Map_error (- e), w) | (Inr p, w) \<Rightarrow> (At_addr p, w))"

definition slipstream_munmap ::
    "'w kernel_os \<Rightarrow> ('b, 'w) engine_env \<Rightarrow> u64 \<Rightarrow> nat \<Rightarrow> bool option \<Rightarrow> 'b slip_ring list \<Rightarrow> 'w
     \<Rightarrow> i32 \<times> bool option \<times> 'w" where
  "slipstream_munmap kn ev addr len g rs w =
     (case engine_chosen kn g w of
        (on, g, w) \<Rightarrow>
          if on \<and> slipstream_engine_munmap (ev_addr_of ev) rs addr = 0 then (0, g, w)
          else case kn_munmap kn addr len w of (a, w) \<Rightarrow> (negated0 a, g, w))"

definition slipstream_close ::
    "'w kernel_os \<Rightarrow> ('b, 'w) engine_env \<Rightarrow> i32 \<Rightarrow> 'b slip_ring list \<Rightarrow> 'w \<Rightarrow> i32 \<times> 'b slip_ring list \<times> 'w" where
  "slipstream_close kn ev fd rs w =
     (if fd_is_ring_token fd
      then slipstream_engine_close (ev_be ev) (ev_os ev) (ev_nul ev) (ev_join ev) fd rs w
      else case kn_close kn fd w of (a, w) \<Rightarrow> (negated0 a, rs, w))"

subsection \<open>What goes where\<close>

text \<open>The choice is made once.\<close>

lemma engine_chosen_sticks:
  "engine_chosen kn g w = (on, g', w') \<Longrightarrow> g' = Some on \<and> engine_chosen kn g' v = (on, g', v)"
  by (auto simp: engine_chosen_def split: option.splits prod.splits)

lemma ask_engine_sticks:
  "ask_engine kn g w = (on, g', w') \<Longrightarrow> ask_engine kn g' v = (on, g', v)"
  using engine_chosen_sticks [of kn g w on g' w' v] by (auto simp: ask_engine_def split: if_splits)

text \<open>A token is what the engine means by one: on a number without the bit it refuses.\<close>

lemma no_token_no_ring: "\<not> bit fd RING_TOKEN_BIT \<Longrightarrow> ring_of rs fd = None"
  by (simp add: ring_of_def)

lemma not_linux_uses_engine: "\<not> kn_linux kn \<Longrightarrow> engine_chosen kn None w = (True, Some True, w)"
  by (simp add: engine_chosen_def slipstream_uring_available_def)

text \<open>A setup of the engine that succeeds answers the token of a ring that was free.\<close>

lemma setup_answers_token:
  assumes "slipstream_engine_setup be nul sz pl entries params rs w = Some (res, params', rs', w')" "\<not> neg32 res"
  obtains idx r where "free_ring_index rs = Some idx" "res = ring_token idx" "rs' = rs[idx := ring_ready r]"
proof -
  obtain p idx where p: "params = Some p" and idx: "free_ring_index rs = Some idx"
    and nz: "entries \<noteq> 0" and nr: "\<not> refused_setup (p_flags p)"
    using assms by (auto simp: slipstream_engine_setup_def split: option.splits if_splits)
  have enomem: "neg32 (- ENOMEM)" by (simp add: neg32_unat ENOMEM_def)
  obtain sq_n cq_n where "(if \<not> ok_calloc pl (block_size sz sq_n cq_n) \<or> \<not> ok_mtx pl \<or> \<not> ok_cnd pl then
        Some (- ENOMEM, params, rs[idx := zero_ring nul], w)
      else case eb_open_ring be (sized_ring nul sq_n cq_n) w of
        (None, w) \<Rightarrow> Some (- ENOMEM, params, rs[idx := zero_ring nul], w)
      | (Some r, w) \<Rightarrow> Some (ring_token idx, Some (report_params sq_n cq_n p), rs[idx := ring_ready r], w)) =
      Some (res, params', rs', w')"
    using assms(1) p idx nz nr by (auto simp: slipstream_engine_setup_def bind_eq_Some_conv simp del: split_paired_All)
  then have "\<exists>r. res = ring_token idx \<and> rs' = rs[idx := ring_ready r]"
    using assms(2) enomem by (auto split: if_splits prod.splits option.splits)
  with idx show thesis using that by blast
qed

lemma ring_token_is_token:
  assumes "idx < SLIP_RINGS_MAX"
  shows "fd_is_ring_token (ring_token idx)"
proof -
  have nb: "\<not> bit (of_nat idx :: i32) 31"
  proof -
    have "bit (of_nat idx :: i32) 31 \<longleftrightarrow> neg32 (of_nat idx)" by (simp add: neg32_bit)
    also have "\<dots> = False" using assms by (simp add: neg32_unat unat_of_nat SLIP_RINGS_MAX_def)
    finally show ?thesis by simp
  qed
  have "bit (ring_token idx) RING_TOKEN_BIT" by (simp add: ring_token_def bit_set_bit_iff RING_TOKEN_BIT_def)
  moreover from this have "ring_token idx \<noteq> 0" by (metis bit_0_eq bot_apply bot_bool_def)
  moreover have "\<not> neg32 (ring_token idx)"
    using nb by (simp add: neg32_bit ring_token_def bit_set_bit_iff RING_TOKEN_BIT_def)
  ultimately show ?thesis by (simp add: fd_is_ring_token_def)
qed

text \<open>A ring that the engine set up through the routing: what happens to it afterwards.\<close>

lemma routed_ring:
  assumes "slipstream_io_uring_setup kn ev entries p g rs w = Some (fd, p', g', rs', w')"
    "fst (ask_engine kn g w)" "\<not> neg32 fd" "length rs = SLIP_RINGS_MAX"
  obtains idx where "fd_is_ring_token fd" "\<And>v. ask_engine kn g' v = (True, g', v)"
    "ring_of rs' fd = Some idx" "r_in_use (rs' ! idx)" "idx < SLIP_RINGS_MAX"
proof -
  obtain g1 w1 where a: "ask_engine kn g w = (True, g1, w1)" using assms(2) by (metis eq_fst_iff)
  have e: "slipstream_engine_setup (ev_be ev) (ev_nul ev) (ev_sizes ev) (ev_plat ev) entries p rs w1 = Some (fd, p', rs', w')"
    and g': "g' = g1"
    using assms(1) by (auto simp: slipstream_io_uring_setup_def a)
  obtain idx r where i: "free_ring_index rs = Some idx" "fd = ring_token idx" "rs' = rs[idx := ring_ready r]"
    by (rule setup_answers_token [OF e assms(3)])
  have idx: "idx < SLIP_RINGS_MAX" using i(1) by (auto simp: free_ring_index_def find_Some_iff)
  have use: "r_in_use (rs' ! idx)" using idx assms(4) by (simp add: i(3) ring_ready_def)
  show thesis
  proof (rule that)
    show "fd_is_ring_token fd" unfolding i(2) by (rule ring_token_is_token [OF idx])
    show "\<And>v. ask_engine kn g' v = (True, g', v)" unfolding g' by (rule ask_engine_sticks [OF a])
    show "ring_of rs' fd = Some idx" unfolding i(2) by (rule ring_token_of [OF idx _ use]) (use idx assms(4) in \<open>simp add: i(3)\<close>)
  qed (rule use idx)+
qed

lemma own_block_found:
  assumes "idx < SLIP_RINGS_MAX" "idx < length rs" "r_in_use (rs ! idx)"
  shows "slipstream_engine_munmap addr_of rs (addr_of idx part) = 0"
proof -
  have "list_ex (\<lambda>i. i < length rs \<and> r_in_use (rs ! i) \<and>
      (addr_of idx part = addr_of i SQ_BLOCK \<or> addr_of idx part = addr_of i CQ_BLOCK \<or> addr_of idx part = addr_of i SQES_BLOCK))
      [0..<SLIP_RINGS_MAX]"
    using assms by (cases part) (auto simp: list_ex_iff intro!: bexI [of _ idx])
  then show ?thesis by (simp add: slipstream_engine_munmap_def)
qed

end
