(* ===== verification/Sample_Dispatch.thy ===== *)
theory Sample_Dispatch
  imports Sample Dispatch_Door Signals_Facts Routing
begin

text \<open>
  Concrete systems and states for the dispatch backend, the signal descriptors and the routing
  of system calls.
\<close>

subsection \<open>Grand Central Dispatch\<close>

text \<open>Everything succeeds, and while the engine waits the first job runs.\<close>

definition sample_dso :: "unit dispatch_os" where
  "sample_dso = \<lparr>dso_alloc = (\<lambda>_. (True, ())), dso_room = (\<lambda>_. True), dso_source = (\<lambda>_ _ _. (True, ())),
     dso_channel = (\<lambda>_ _. (True, ())), dso_wait = (\<lambda>_ _. ([Ev_job 0], ())), dso_sync = (\<lambda>_. ([], ())),
     dso_gate = (\<lambda>_. ([], ()))\<rparr>"

definition opened_dsp :: dsp_state where
  "opened_dsp = zero_dsp\<lparr>d_there := True, d_done_max := 4\<rparr>"

definition openat_sqe :: "u64 \<Rightarrow> sqe" where
  "openat_sqe ud = zero_sqe\<lparr>sqe_opcode := OP_OPENAT, sqe_user_data := ud\<rparr>"

definition dsp_taken_ring :: dsp_ring where
  "dsp_taken_ring = (queued_ring opened_dsp [openat_sqe 1])\<lparr>r_queue := []\<rparr>"

lemma opened_dsp_ok: "dsp_ok 0 opened_dsp" "at_gcd opened_dsp = {#}"
  by (simp_all add: opened_dsp_def zero_dsp_def dsp_ok_def live_ok_def chain_ok_def door_ok_def work_def at_gcd_def)

lemma dsp_taken_ring_inv: "dsp_ring_inv {#0#} dsp_taken_ring"
proof -
  have none: "wait_invariant (\<lambda>_ :: dsp_ring. True)" by unfold_locales simp_all
  have "ring_inv (\<lambda>_. True) {#} (queued_ring opened_dsp [openat_sqe 1])"
    by (rule queued_ring_inv [OF none]) simp_all
  from ring_contract.take_queue_inv(1) [OF wait_invariant.contract [OF none] this, of "[]" 0 "[]"]
  have "ring_inv (\<lambda>_. True) {#0#} dsp_taken_ring" by (simp add: dsp_taken_ring_def)
  moreover have "r_be_state dsp_taken_ring = opened_dsp" "r_op_pool_n dsp_taken_ring = 4"
    by (simp_all add: dsp_taken_ring_def)
  moreover have "sides_inv (fds_ring dsp_taken_ring)"
    by (rule sides_inv_nil) (simp add: dsp_taken_ring_def opened_dsp_def zero_dsp_def)
  ultimately show ?thesis using opened_dsp_ok by (simp add: dsp_ring_ok_def ring_inv_def) (simp add: opened_dsp_def)
qed

declare dsp_drain_live.simps [code]

text \<open>A wait that has come through the door: the op's result is there to be collected.\<close>

definition collecting_ring :: dsp_ring where
  "collecting_ring = upd_st (\<lambda>st. st\<lparr>d_done := [(0, 9)], d_knocked := True\<rparr>) dsp_taken_ring"

lemma collecting_ring_ok: "dsp_ring_ok 1 {#} collecting_ring"
proof -
  have st: "r_be_state dsp_taken_ring = opened_dsp" by (simp add: dsp_taken_ring_def)
  show ?thesis
    unfolding collecting_ring_def
  proof (rule upd_st_ok [OF dsp_taken_ring_inv])
    show "dsp_ok 1 ((r_be_state dsp_taken_ring)\<lparr>d_done := [(0, 9)], d_knocked := True\<rparr>)"
      by (simp add: st opened_dsp_def zero_dsp_def dsp_ok_def live_ok_def chain_ok_def door_ok_def work_def)
    show "at_gcd ((r_be_state dsp_taken_ring)\<lparr>d_done := [(0, 9)], d_knocked := True\<rparr>) + {#} =
        at_gcd (r_be_state dsp_taken_ring) + {#0#}"
      by (simp add: st opened_dsp_def zero_dsp_def at_gcd_def)
  qed (simp add: same_sides_def)
qed

text \<open>A ring with one descriptor whose readers wait, and one that closes while a job runs.\<close>

definition reader_door :: door where
  "reader_door = \<lparr>dr_ring = queued_ring (opened_dsp\<lparr>d_fds := [zero_dsp_fd\<lparr>sf_in := [0], df_rd := True\<rparr>], d_live := 1\<rparr>) [],
     dr_owed = {#}, dr_inside = False, dr_phase = Opened\<rparr>"

lemma reader_door_inv: "door_inv reader_door"
  by (auto simp: reader_door_def opened_dsp_def zero_dsp_def door_inv_def news_ok_def chain_ok_def door_ok_def work_def
      hit_def zero_dsp_fd_def nth_Cons split: nat.splits)

definition closing_door :: door where
  "closing_door = \<lparr>dr_ring = queued_ring (opened_dsp\<lparr>d_jobs := [Job_pool 0], d_live := 1\<rparr>) [],
     dr_owed = {#}, dr_inside = False, dr_phase = Closing\<rparr>"

lemma closing_door_ok: "closing_ok closing_door"
  by (simp add: closing_door_def opened_dsp_def zero_dsp_def closing_ok_def live_ok_def)

subsection \<open>Signals\<close>

definition sample_linux_sig :: "unit linux_sig" where
  "sample_linux_sig = \<lparr>ls_valid = (\<lambda>s. s \<noteq> 0), ls_signalfd = (\<lambda>_ _. (Inr 7, ())),
     ls_read = (\<lambda>_ _. (Inl EAGAIN, ())), ls_close = (\<lambda>_ _. (None, ()))\<rparr>"

lemma sample_linux_lawful: "linux_lawful sample_linux_sig"
  by (simp add: linux_lawful_def sample_linux_sig_def answers_lawful_def neg32_unat)

definition sample_posix_sig :: "unit posix_sig" where
  "sample_posix_sig = \<lparr>px_valid = (\<lambda>s. s \<noteq> 0), px_pipe = (\<lambda>_. (Inr (7, 8), ())), px_fcntl = (\<lambda>_ _. ()),
     px_create = (\<lambda>_. (True, ())), px_join = (\<lambda>_. Some ()), px_close = (\<lambda>_ _. (None, ())),
     px_read = (\<lambda>_ _. (Inl EAGAIN, ()))\<rparr>"

lemma sample_posix_lawful: "pipe_lawful (px_pipe sample_posix_sig)"
  by (simp add: pipe_lawful_def sample_posix_sig_def neg32_unat)

text \<open>Dispatch sources that are refused once \<open>n\<close> have been made; the world counts them.\<close>

definition sample_mac_sig :: "nat \<Rightarrow> nat mac_sig" where
  "sample_mac_sig n = \<lparr>mc_pipe = (\<lambda>w. (Inr (7, 8), w)), mc_fcntl = (\<lambda>_ w. w), mc_ignore = (\<lambda>_ w. w),
     mc_source = (\<lambda>_ w. (w < n, Suc w)), mc_cancel = (\<lambda>_ w. w), mc_close = (\<lambda>_ w. (None, w)),
     mc_write = (\<lambda>_ _ w. w), mc_read = (\<lambda>_ w. (Inl EAGAIN, w))\<rparr>"

definition willing_mac_sig :: "nat mac_sig" where
  "willing_mac_sig = (sample_mac_sig 0)\<lparr>mc_source := \<lambda>_ w. (True, w)\<rparr>"

subsection \<open>A kernel without io_uring\<close>

definition sample_kernel :: "unit kernel_os" where
  "sample_kernel = \<lparr>kn_linux = True, kn_setup = (\<lambda>_ p _. (Inl ENOSYS, p, ())),
     kn_enter = (\<lambda>_ _ _ _ _ _ _. (Inl ENOSYS, ())), kn_register = (\<lambda>_ _ _ _ _. (Inl ENOSYS, OUT_NONE, ())),
     kn_mmap = (\<lambda>_ _ _ _ _ _ _. (Inr 4096, ())), kn_munmap = (\<lambda>_ _ _. (None, ())), kn_close = (\<lambda>_ _. (None, ()))\<rparr>"

end
