(* ===== verification/Iocp.thy ===== *)
theory Iocp
  imports Setup
begin

text \<open>
  The Windows backend (\<open>src/src/engine_iocp.c\<close>), over an I/O completion port: an op is issued, the
  system holds it with the wrapper that embeds its \<open>OVERLAPPED\<close>, and the port hands back a packet
  when it is done.  Nothing parks.  The wrappers of \<open>in_flight\<close> are the list \<open>ic_flight\<close>, newest
  first, and a packet names a wrapper by its place there; \<open>op->be_source\<close> is only ever written and
  is left out.  \<open>ic_pokes\<close> counts the packets of pokes that stand in the port.  Winsock, the files
  and the port are parameters: the record \<open>iocp_os\<close>, whose calls answer their value or the error
  \<open>GetLastError\<close> gives.  Errno values are named, with their numbers on Linux.
\<close>

subsection \<open>What Windows answers\<close>

datatype 'a winret = W_OK 'a | W_ERR u32

definition EIO :: i32 where "EIO = 5"
definition EPIPE :: i32 where "EPIPE = 32"
definition ENOTSOCK :: i32 where "ENOTSOCK = 88"
definition EMSGSIZE :: i32 where "EMSGSIZE = 90"
definition ECONNABORTED :: i32 where "ECONNABORTED = 103"
definition ECONNRESET :: i32 where "ECONNRESET = 104"

definition ERROR_HANDLE_EOF :: u32 where "ERROR_HANDLE_EOF = 38"
definition ERROR_NETNAME_DELETED :: u32 where "ERROR_NETNAME_DELETED = 64"
definition ERROR_INVALID_PARAMETER :: u32 where "ERROR_INVALID_PARAMETER = 87"
definition ERROR_OPERATION_ABORTED :: u32 where "ERROR_OPERATION_ABORTED = 995"
definition WSA_IO_PENDING :: u32 where "WSA_IO_PENDING = 997"   \<comment> \<open>also \<open>ERROR_IO_PENDING\<close>\<close>
definition WSAENOTSOCK :: u32 where "WSAENOTSOCK = 10038"
definition WSAECONNABORTED :: u32 where "WSAECONNABORTED = 10053"
definition WSAECONNRESET :: u32 where "WSAECONNRESET = 10054"
definition WSAESHUTDOWN :: u32 where "WSAESHUTDOWN = 10058"

lemmas winerr_defs = ERROR_HANDLE_EOF_def ERROR_NETNAME_DELETED_def ERROR_INVALID_PARAMETER_def
  ERROR_OPERATION_ABORTED_def WSA_IO_PENDING_def WSAENOTSOCK_def WSAECONNABORTED_def
  WSAECONNRESET_def WSAESHUTDOWN_def

definition win_err_to_errno :: "u32 \<Rightarrow> i32" where
  "win_err_to_errno e =
     (if e = ERROR_HANDLE_EOF then 0
      else if e = WSAECONNRESET \<or> e = ERROR_NETNAME_DELETED then - ECONNRESET
      else if e = WSAECONNABORTED then - ECONNABORTED
      else if e = WSAENOTSOCK then - ENOTSOCK
      else if e = WSAESHUTDOWN then - EPIPE
      else if e = ERROR_OPERATION_ABORTED then - ECANCELED
      else - EIO)"

subsection \<open>State\<close>

datatype iocp_kind = IOCP_KIND_IO | IOCP_KIND_ACCEPT | IOCP_KIND_CONNECT | IOCP_KIND_POLL

record iocp_op =
  ov_op :: opid
  ov_sock :: i32
  ov_kind :: iocp_kind
  ov_multishot :: bool
  ov_back :: "u64 option"     \<comment> \<open>the caller's header a message writes back to\<close>
  ov_file_index :: u32
  ov_accepted :: i32

text \<open>A wrapper as \<open>calloc\<close> and the two first assignments leave it.\<close>

definition new_wrapper :: "opid \<Rightarrow> i32 \<Rightarrow> iocp_kind \<Rightarrow> iocp_op" where
  "new_wrapper i s k = \<lparr>ov_op = i, ov_sock = s, ov_kind = k, ov_multishot = False, ov_back = None,
     ov_file_index = 0, ov_accepted = 0\<rparr>"

record iocp_state =
  ic_there :: bool            \<comment> \<open>\<open>be_state\<close> is not null\<close>
  ic_flight :: "iocp_op list"
  ic_pokes :: nat

definition zero_iocp :: iocp_state where
  "zero_iocp = \<lparr>ic_there = False, ic_flight = [], ic_pokes = 0\<rparr>"

type_synonym iocp_ring = "iocp_state slip_ring"

definition upd_ic :: "(iocp_state \<Rightarrow> iocp_state) \<Rightarrow> iocp_ring \<Rightarrow> iocp_ring" where
  "upd_ic g r = r\<lparr>r_be_state := g (r_be_state r)\<rparr>"

definition fly :: "iocp_op \<Rightarrow> iocp_ring \<Rightarrow> iocp_ring" where
  "fly x r = upd_ic (\<lambda>st. st\<lparr>ic_flight := x # ic_flight st\<rparr>) r"

definition land :: "nat \<Rightarrow> iocp_ring \<Rightarrow> iocp_ring" where
  "land k r = upd_ic (\<lambda>st. st\<lparr>ic_flight := take k (ic_flight st) @ drop (Suc k) (ic_flight st)\<rparr>) r"

subsection \<open>The system underneath\<close>

datatype win_extension = EXT_ACCEPTEX | EXT_CONNECTEX | EXT_WSARECVMSG | EXT_WSASENDMSG

text \<open>A message as the caller's \<open>msghdr\<close> has it, and as \<open>WSAMSG\<close> has it.\<close>

record posix_msg =
  pm_name :: u64
  pm_namelen :: u32
  pm_iov :: "(u64 \<times> u64) list"       \<comment> \<open>base and length\<close>
  pm_control :: u64
  pm_controllen :: u64
  pm_flags :: u32

record wsa_msg =
  wm_name :: u64
  wm_namelen :: u32
  wm_bufs :: "(u32 \<times> u64) list"      \<comment> \<open>length and buffer\<close>
  wm_control :: "u32 \<times> u64"
  wm_flags :: u32

datatype file_access = GENERIC_READ | GENERIC_WRITE | GENERIC_READ_WRITE
datatype file_disposition = OPEN_EXISTING | CREATE_NEW | OPEN_ALWAYS | CREATE_ALWAYS

record win_stat =
  ws_nlink :: "16 word"
  ws_mode :: "16 word"
  ws_size :: u64
  ws_atime :: u64
  ws_mtime :: u64
  ws_ctime :: u64

record statx_out =
  sx_mask :: u32
  sx_nlink :: u32
  sx_mode :: u16
  sx_size :: u64
  sx_atime :: u64
  sx_mtime :: u64
  sx_ctime :: u64

text \<open>What comes out of the port: a poke, or the packet of a wrapper with the error it ended in,
  its byte count, and what a message left in its \<open>WSAMSG\<close> (name length, control length, flags).\<close>

datatype iocp_packet =
    Pk_poke
  | Pk_io nat "u32 option" u32 "u32 \<times> u32 \<times> u32"

record 'w iocp_os =
  ios_startup :: "'w \<Rightarrow> bool \<times> 'w"
  ios_cleanup :: "'w \<Rightarrow> 'w"
  ios_alloc :: "'w \<Rightarrow> bool \<times> 'w"
  ios_port :: "'w \<Rightarrow> bool \<times> 'w"
  ios_close_port :: "'w \<Rightarrow> 'w"
  ios_assoc_sock :: "i32 \<Rightarrow> 'w \<Rightarrow> unit winret \<times> 'w"
  ios_assoc_file :: "u64 \<Rightarrow> 'w \<Rightarrow> unit winret \<times> 'w"
  ios_get :: "int \<Rightarrow> 'w \<Rightarrow> iocp_packet option \<times> 'w"      \<comment> \<open>a negative time is \<open>INFINITE\<close>\<close>
  ios_cancel :: "i32 \<Rightarrow> 'w \<Rightarrow> 'w"
  ios_kept :: "win_extension \<Rightarrow> 'w \<Rightarrow> bool"
  ios_keep :: "win_extension \<Rightarrow> 'w \<Rightarrow> 'w"
  ios_wsaioctl :: "win_extension \<Rightarrow> i32 \<Rightarrow> 'w \<Rightarrow> bool \<times> 'w"
  ios_socket :: "i32 \<Rightarrow> i32 \<Rightarrow> i32 \<Rightarrow> 'w \<Rightarrow> i32 winret \<times> 'w"
  ios_bind :: "i32 \<Rightarrow> u64 \<Rightarrow> i32 \<Rightarrow> 'w \<Rightarrow> unit winret \<times> 'w"
  ios_listen :: "i32 \<Rightarrow> i32 \<Rightarrow> 'w \<Rightarrow> unit winret \<times> 'w"
  ios_shutdown :: "i32 \<Rightarrow> i32 \<Rightarrow> 'w \<Rightarrow> unit winret \<times> 'w"
  ios_closesocket :: "i32 \<Rightarrow> 'w \<Rightarrow> unit winret \<times> 'w"
  ios_crt_close :: "i32 \<Rightarrow> 'w \<Rightarrow> bool \<times> 'w"
  ios_getsockname :: "i32 \<Rightarrow> 'w \<Rightarrow> bool"
  ios_protocol :: "i32 \<Rightarrow> 'w \<Rightarrow> u32 option"              \<comment> \<open>the address family of a socket\<close>
  ios_bind_wildcard :: "i32 \<Rightarrow> u32 \<Rightarrow> bool \<Rightarrow> 'w \<Rightarrow> bool \<times> 'w"  \<comment> \<open>whether the address has IPv6's size\<close>
  ios_acceptex :: "i32 \<Rightarrow> i32 \<Rightarrow> 'w \<Rightarrow> unit winret \<times> 'w"
  ios_accept_context :: "i32 \<Rightarrow> i32 \<Rightarrow> 'w \<Rightarrow> 'w"
  ios_connectex :: "i32 \<Rightarrow> u64 \<Rightarrow> i32 \<Rightarrow> 'w \<Rightarrow> unit winret \<times> 'w"
  ios_connect_context :: "i32 \<Rightarrow> 'w \<Rightarrow> 'w"
  ios_wsarecv :: "i32 \<Rightarrow> u64 \<Rightarrow> u32 \<Rightarrow> 'w \<Rightarrow> unit winret \<times> 'w"
  ios_wsasend :: "i32 \<Rightarrow> u64 \<Rightarrow> u32 \<Rightarrow> 'w \<Rightarrow> unit winret \<times> 'w"
  ios_ld_msghdr :: "u64 \<Rightarrow> 'w \<Rightarrow> posix_msg"
  ios_st_msghdr :: "u64 \<Rightarrow> u32 \<times> u32 \<times> u32 \<Rightarrow> 'w \<Rightarrow> 'w"
  ios_wsarecvmsg :: "i32 \<Rightarrow> wsa_msg \<Rightarrow> 'w \<Rightarrow> unit winret \<times> 'w"
  ios_wsasendmsg :: "i32 \<Rightarrow> wsa_msg \<Rightarrow> u32 \<Rightarrow> 'w \<Rightarrow> unit winret \<times> 'w"
  ios_create_file :: "u64 \<Rightarrow> file_access \<Rightarrow> file_disposition \<Rightarrow> 'w \<Rightarrow> u64 winret \<times> 'w"
  ios_open_osfhandle :: "u64 \<Rightarrow> i32 \<Rightarrow> 'w \<Rightarrow> i32 \<times> 'w"
  ios_close_handle :: "u64 \<Rightarrow> 'w \<Rightarrow> 'w"
  ios_get_osfhandle :: "i32 \<Rightarrow> 'w \<Rightarrow> u64 option"
  ios_read_file :: "u64 \<Rightarrow> u64 \<Rightarrow> u32 \<Rightarrow> u32 \<Rightarrow> u32 \<Rightarrow> 'w \<Rightarrow> unit winret \<times> 'w"
  ios_write_file :: "u64 \<Rightarrow> u64 \<Rightarrow> u32 \<Rightarrow> u32 \<Rightarrow> u32 \<Rightarrow> 'w \<Rightarrow> unit winret \<times> 'w"
  ios_stat64 :: "u64 \<Rightarrow> 'w \<Rightarrow> win_stat option"
  ios_st_statx :: "u64 \<Rightarrow> statx_out \<Rightarrow> 'w \<Rightarrow> 'w"
  ios_remove_directory :: "u64 \<Rightarrow> 'w \<Rightarrow> bool \<times> 'w"
  ios_delete_file :: "u64 \<Rightarrow> 'w \<Rightarrow> bool \<times> 'w"

subsection \<open>A ring's life\<close>

definition iocp_open_ring :: "'w iocp_os \<Rightarrow> iocp_ring \<Rightarrow> 'w \<Rightarrow> iocp_ring option \<times> 'w" where
  "iocp_open_ring ios r w =
     (case ios_startup ios w of
        (False, w) \<Rightarrow> (None, w)
      | (True, w) \<Rightarrow>
          (case ios_alloc ios w of
             (False, w) \<Rightarrow> (None, ios_cleanup ios w)
           | (True, w) \<Rightarrow>
               (case ios_port ios w of
                  (False, w) \<Rightarrow> (None, ios_cleanup ios w)
                | (True, w) \<Rightarrow> (Some (r\<lparr>r_be_state := zero_iocp\<lparr>ic_there := True\<rparr>\<rparr>), w))))"

definition slip_native_fd_close :: "'w iocp_os \<Rightarrow> i32 \<Rightarrow> 'w \<Rightarrow> 'w" where
  "slip_native_fd_close ios fd w =
     (case ios_closesocket ios fd w of
        (W_OK _, w) \<Rightarrow> w
      | (W_ERR _, w) \<Rightarrow> snd (ios_crt_close ios fd w))"

text \<open>The port hands back what was posted or issued; anything else is no packet.\<close>

definition port_has :: "iocp_packet \<Rightarrow> iocp_state \<Rightarrow> bool" where
  "port_has p st = (case p of Pk_poke \<Rightarrow> 0 < ic_pokes st | Pk_io k _ _ _ \<Rightarrow> k < length (ic_flight st))"

definition port_get :: "'w iocp_os \<Rightarrow> int \<Rightarrow> iocp_ring \<Rightarrow> 'w \<Rightarrow> iocp_packet option \<times> 'w" where
  "port_get ios timeout r w =
     (case ios_get ios timeout w of
        (Some p, w) \<Rightarrow> (if port_has p (r_be_state r) then Some p else None, w)
      | (None, w) \<Rightarrow> (None, w))"

definition take_poke :: "iocp_ring \<Rightarrow> iocp_ring" where
  "take_poke r = upd_ic (\<lambda>st. st\<lparr>ic_pokes := ic_pokes st - 1\<rparr>) r"

function iocp_drain :: "'w iocp_os \<Rightarrow> iocp_ring \<Rightarrow> 'w \<Rightarrow> iocp_ring \<times> 'w" where
  "iocp_drain ios r w =
     (if ic_flight (r_be_state r) \<noteq> [] then
        (case port_get ios 1000 r w of
           (None, w) \<Rightarrow> (r, w)
         | (Some Pk_poke, w) \<Rightarrow> iocp_drain ios (take_poke r) w
         | (Some (Pk_io k _ _ _), w) \<Rightarrow> iocp_drain ios (land k r) w)
      else (r, w))"
  by pat_completeness auto
termination
  by (relation "measure (\<lambda>(ios, r, w). ic_pokes (r_be_state r) + length (ic_flight (r_be_state r)))")
    (auto simp: port_get_def port_has_def take_poke_def land_def upd_ic_def split: prod.splits option.splits if_splits)

definition iocp_close_ring :: "'w iocp_os \<Rightarrow> iocp_ring \<Rightarrow> 'w \<Rightarrow> iocp_ring \<times> 'w" where
  "iocp_close_ring ios r w =
     (if \<not> ic_there (r_be_state r) then (r, w)
      else
        case iocp_drain ios r (fold (\<lambda>x. ios_cancel ios (ov_sock x)) (ic_flight (r_be_state r)) w) of
          (r, w) \<Rightarrow> (r\<lparr>r_be_state := zero_iocp\<rparr>, ios_cleanup ios (ios_close_port ios w)))"

definition iocp_poke :: "iocp_ring \<Rightarrow> iocp_ring" where
  "iocp_poke r = upd_ic (\<lambda>st. st\<lparr>ic_pokes := Suc (ic_pokes st)\<rparr>) r"

subsection \<open>Helpers\<close>

text \<open>The four look-ups of an extension function, each with its own static.\<close>

definition iocp_extension :: "'w iocp_os \<Rightarrow> win_extension \<Rightarrow> i32 \<Rightarrow> 'w \<Rightarrow> bool \<times> 'w" where
  "iocp_extension ios e s w =
     (if ios_kept ios e w then (True, w)
      else case ios_wsaioctl ios e s w of (ok, w) \<Rightarrow> (ok, if ok then ios_keep ios e w else w))"

definition iocp_acceptex :: "'w iocp_os \<Rightarrow> i32 \<Rightarrow> 'w \<Rightarrow> bool \<times> 'w" where
  "iocp_acceptex ios = iocp_extension ios EXT_ACCEPTEX"
definition iocp_connectex :: "'w iocp_os \<Rightarrow> i32 \<Rightarrow> 'w \<Rightarrow> bool \<times> 'w" where
  "iocp_connectex ios = iocp_extension ios EXT_CONNECTEX"
definition iocp_wsarecvmsg :: "'w iocp_os \<Rightarrow> i32 \<Rightarrow> 'w \<Rightarrow> bool \<times> 'w" where
  "iocp_wsarecvmsg ios = iocp_extension ios EXT_WSARECVMSG"
definition iocp_wsasendmsg :: "'w iocp_os \<Rightarrow> i32 \<Rightarrow> 'w \<Rightarrow> bool \<times> 'w" where
  "iocp_wsasendmsg ios = iocp_extension ios EXT_WSASENDMSG"

definition AF_INET :: i32 where "AF_INET = 2"
definition AF_INET6 :: u32 where "AF_INET6 = 23"
definition SOCK_STREAM :: i32 where "SOCK_STREAM = 1"

definition iocp_bind_wildcard :: "'w iocp_os \<Rightarrow> i32 \<Rightarrow> 'w \<Rightarrow> bool \<times> 'w" where
  "iocp_bind_wildcard ios s w =
     (if ios_getsockname ios s w then (True, w)
      else case ios_protocol ios s w of
        None \<Rightarrow> (False, w)
      | Some family \<Rightarrow> ios_bind_wildcard ios s family (family = AF_INET6) w)"

definition iocp_associate :: "'w iocp_os \<Rightarrow> i32 \<Rightarrow> 'w \<Rightarrow> bool \<times> 'w" where
  "iocp_associate ios s w =
     (case ios_assoc_sock ios s w of
        (W_OK _, w) \<Rightarrow> (True, w)
      | (W_ERR e, w) \<Rightarrow> (e = ERROR_INVALID_PARAMETER, w))"

definition iocp_msg_to_wsa :: "posix_msg option \<Rightarrow> i32 + wsa_msg" where
  "iocp_msg_to_wsa m =
     (case m of
        None \<Rightarrow> Inl (- EFAULT)
      | Some m \<Rightarrow>
          if 8 < length (pm_iov m) then Inl (- EMSGSIZE)
          else Inr \<lparr>wm_name = pm_name m, wm_namelen = pm_namelen m,
                   wm_bufs = map (\<lambda>(base, len). (ucast len, base)) (pm_iov m),
                   wm_control = (ucast (pm_controllen m), pm_control m), wm_flags = pm_flags m\<rparr>)"

text \<open>What follows each overlapped call: issued, or refused with its error and the wrapper freed.\<close>

definition issued :: "iocp_op \<Rightarrow> unit winret \<times> 'w \<Rightarrow> iocp_ring \<Rightarrow> eng_exec \<times> iocp_ring \<times> 'w" where
  "issued x ret r =
     (case ret of
        (W_OK _, w) \<Rightarrow> (EXEC_PENDING, fly x r, w)
      | (W_ERR e, w) \<Rightarrow>
          if e = WSA_IO_PENDING then (EXEC_PENDING, fly x r, w)
          else (EXEC_DONE (win_err_to_errno e), r, w))"

text \<open>\<open>Inl\<close> is the errno, \<open>Inr\<close> the ring with the accept in flight.\<close>

definition iocp_arm_accept :: "'w iocp_os \<Rightarrow> opid \<Rightarrow> iocp_ring \<Rightarrow> 'w \<Rightarrow> (i32 + iocp_ring) \<times> 'w" where
  "iocp_arm_accept ios i r w =
     (let s = sqe_of r i in
      case iocp_acceptex ios (sqe_fd s) w of
        (False, w) \<Rightarrow> (Inl (- ENOTSOCK), w)
      | (True, w) \<Rightarrow>
          (case iocp_associate ios (sqe_fd s) w of
             (False, w) \<Rightarrow> (Inl (- ENOTSOCK), w)
           | (True, w) \<Rightarrow>
               (case ios_socket ios AF_INET SOCK_STREAM 0 w of
                  (W_ERR e, w) \<Rightarrow> (Inl (win_err_to_errno e), w)
                | (W_OK child, w) \<Rightarrow>
                    (case ios_alloc ios w of
                       (False, w) \<Rightarrow> (Inl (- ENOMEM), snd (ios_closesocket ios child w))
                     | (True, w) \<Rightarrow>
                         let x = (new_wrapper i (sqe_fd s) IOCP_KIND_ACCEPT)
                           \<lparr>ov_accepted := child, ov_multishot := accept_multishot s,
                            ov_file_index := sqe_file_index s\<rparr>
                         in case ios_acceptex ios (sqe_fd s) child w of
                              (W_OK _, w) \<Rightarrow> (Inr (fly x r), w)
                            | (W_ERR e, w) \<Rightarrow>
                                if e = WSA_IO_PENDING then (Inr (fly x r), w)
                                else (Inl (win_err_to_errno e), snd (ios_closesocket ios child w))))))"

subsection \<open>What answers at once\<close>

definition win_res0 :: "unit winret \<times> 'w \<Rightarrow> i32 \<times> 'w" where
  "win_res0 x = (case x of (W_OK _, w) \<Rightarrow> (0, w) | (W_ERR e, w) \<Rightarrow> (win_err_to_errno e, w))"

definition iocp_close :: "'w iocp_os \<Rightarrow> sqe \<Rightarrow> 'w \<Rightarrow> i32 \<times> 'w" where
  "iocp_close ios s w =
     (case ios_closesocket ios (sqe_fd s) w of
        (W_OK _, w) \<Rightarrow> (0, w)
      | (W_ERR e, w) \<Rightarrow>
          if e = WSAENOTSOCK then
            (case ios_crt_close ios (sqe_fd s) w of (ok, w) \<Rightarrow> (if ok then 0 else - EBADF, w))
          else (- EBADF, w))"

definition iocp_socket :: "'w iocp_os \<Rightarrow> sqe \<Rightarrow> 'w \<Rightarrow> i32 \<times> 'w" where
  "iocp_socket ios s w =
     (case ios_socket ios (sqe_fd s) (ucast (sqe_off s)) (sqe_len s) w of
        (W_OK fd, w) \<Rightarrow> (fd, w)
      | (W_ERR e, w) \<Rightarrow> (win_err_to_errno e, w))"

definition iocp_bind :: "'w iocp_os \<Rightarrow> sqe \<Rightarrow> 'w \<Rightarrow> i32 \<times> 'w" where
  "iocp_bind ios s w = win_res0 (ios_bind ios (sqe_fd s) (sqe_addr s) (ucast (sqe_off s)) w)"

definition iocp_listen :: "'w iocp_os \<Rightarrow> sqe \<Rightarrow> 'w \<Rightarrow> i32 \<times> 'w" where
  "iocp_listen ios s w = win_res0 (ios_listen ios (sqe_fd s) (sqe_len s) w)"

definition iocp_shutdown :: "'w iocp_os \<Rightarrow> sqe \<Rightarrow> 'w \<Rightarrow> i32 \<times> 'w" where
  "iocp_shutdown ios s w = win_res0 (ios_shutdown ios (sqe_fd s) (sqe_len s) w)"

text \<open>The flags of \<open>open\<close> in the C runtime of Windows.\<close>

definition AT_FDCWD :: i32 where "AT_FDCWD = - 100"
definition o_wronly :: "u32 \<Rightarrow> bool" where "o_wronly fl \<longleftrightarrow> bit fl 0"
definition o_rdwr :: "u32 \<Rightarrow> bool" where "o_rdwr fl \<longleftrightarrow> bit fl 1"
definition o_creat :: "u32 \<Rightarrow> bool" where "o_creat fl \<longleftrightarrow> bit fl 8"
definition o_trunc :: "u32 \<Rightarrow> bool" where "o_trunc fl \<longleftrightarrow> bit fl 9"
definition o_excl :: "u32 \<Rightarrow> bool" where "o_excl fl \<longleftrightarrow> bit fl 10"
definition at_removedir :: "u32 \<Rightarrow> bool" where "at_removedir fl \<longleftrightarrow> bit fl 9"

definition open_access :: "u32 \<Rightarrow> file_access" where
  "open_access fl = (if o_wronly fl then GENERIC_WRITE else if o_rdwr fl then GENERIC_READ_WRITE else GENERIC_READ)"

definition open_disposition :: "u32 \<Rightarrow> file_disposition" where
  "open_disposition fl =
     (let d = OPEN_EXISTING;
          d = (if o_creat fl then (if o_excl fl then CREATE_NEW else OPEN_ALWAYS) else d)
      in if o_trunc fl then CREATE_ALWAYS else d)"

definition iocp_openat :: "'w iocp_os \<Rightarrow> sqe \<Rightarrow> 'w \<Rightarrow> i32 \<times> 'w" where
  "iocp_openat ios s w =
     (let flags = sqe_op_flags s in
      if sqe_addr s = 0 then (- EFAULT, w)
      else if sqe_fd s \<noteq> AT_FDCWD then (- EOPNOTSUPP, w)
      else case ios_create_file ios (sqe_addr s) (open_access flags) (open_disposition flags) w of
        (W_ERR e, w) \<Rightarrow> (win_err_to_errno e, w)
      | (W_OK h, w) \<Rightarrow>
          (case ios_open_osfhandle ios h 0 w of
             (fd, w) \<Rightarrow> if neg32 fd then (- EMFILE, ios_close_handle ios h w) else (fd, w)))"

text \<open>\<open>STATX_TYPE\<close>, \<open>MODE\<close>, \<open>NLINK\<close>, \<open>SIZE\<close> and the three times.\<close>

definition STATX_FILLED :: u32 where "STATX_FILLED = 0x2e7"

definition iocp_statx :: "'w iocp_os \<Rightarrow> sqe \<Rightarrow> 'w \<Rightarrow> i32 \<times> 'w" where
  "iocp_statx ios s w =
     (if sqe_addr s = 0 \<or> sqe_off s = 0 then (- EFAULT, w)
      else if sqe_fd s \<noteq> AT_FDCWD then (- EOPNOTSUPP, w)
      else case ios_stat64 ios (sqe_addr s) w of
        None \<Rightarrow> (- ENOENT, w)
      | Some st \<Rightarrow>
          (0, ios_st_statx ios (sqe_off s) \<lparr>sx_mask = STATX_FILLED, sx_nlink = ucast (ws_nlink st),
             sx_mode = ws_mode st, sx_size = ws_size st, sx_atime = ws_atime st,
             sx_mtime = ws_mtime st, sx_ctime = ws_ctime st\<rparr> w))"

definition iocp_unlinkat :: "'w iocp_os \<Rightarrow> sqe \<Rightarrow> 'w \<Rightarrow> i32 \<times> 'w" where
  "iocp_unlinkat ios s w =
     (if sqe_addr s = 0 then (- EFAULT, w)
      else if sqe_fd s \<noteq> AT_FDCWD then (- EOPNOTSUPP, w)
      else case (if at_removedir (sqe_op_flags s) then ios_remove_directory ios (sqe_addr s) w
                 else ios_delete_file ios (sqe_addr s) w) of
        (gone, w) \<Rightarrow> (if gone then 0 else - ENOENT, w))"

subsection \<open>What is issued\<close>

text \<open>A socket is associated and a wrapper allocated before the call proper.\<close>

definition with_wrapper ::
    "'w iocp_os \<Rightarrow> i32 \<Rightarrow> ('w \<Rightarrow> eng_exec \<times> iocp_ring \<times> 'w) \<Rightarrow> iocp_ring \<Rightarrow> 'w \<Rightarrow> eng_exec \<times> iocp_ring \<times> 'w" where
  "with_wrapper ios s issue r w =
     (case iocp_associate ios s w of
        (False, w) \<Rightarrow> (EXEC_DONE (- ENOTSOCK), r, w)
      | (True, w) \<Rightarrow>
          (case ios_alloc ios w of
             (False, w) \<Rightarrow> (EXEC_DONE (- ENOMEM), r, w)
           | (True, w) \<Rightarrow> issue w))"

definition iocp_file_io :: "'w iocp_os \<Rightarrow> opid \<Rightarrow> iocp_ring \<Rightarrow> 'w \<Rightarrow> eng_exec \<times> iocp_ring \<times> 'w" where
  "iocp_file_io ios i r w =
     (let s = sqe_of r i in
      case ios_get_osfhandle ios (sqe_fd s) w of
        None \<Rightarrow> (EXEC_DONE (- EBADF), r, w)
      | Some h \<Rightarrow>
          (case ios_assoc_file ios h w of
             (ret, w) \<Rightarrow>
               if (case ret of W_OK _ \<Rightarrow> False | W_ERR e \<Rightarrow> e \<noteq> ERROR_INVALID_PARAMETER)
               then (EXEC_DONE (- EOPNOTSUPP), r, w)
               else case ios_alloc ios w of
                 (False, w) \<Rightarrow> (EXEC_DONE (- ENOMEM), r, w)
               | (True, w) \<Rightarrow>
                   let lo = ucast (sqe_off s AND 0xffffffff); hi = ucast (drop_bit 32 (sqe_off s)) in
                   issued (new_wrapper i (sqe_fd s) IOCP_KIND_IO)
                     (if sqe_opcode s = OP_READ then ios_read_file ios h (sqe_addr s) (sqe_len s) lo hi w
                      else ios_write_file ios h (sqe_addr s) (sqe_len s) lo hi w) r))"

definition iocp_poll_add :: "'w iocp_os \<Rightarrow> opid \<Rightarrow> iocp_ring \<Rightarrow> 'w \<Rightarrow> eng_exec \<times> iocp_ring \<times> 'w" where
  "iocp_poll_add ios i r w =
     (let s = sqe_of r i in
      if poll_add_multi s then (EXEC_DONE (- EOPNOTSUPP), r, w)
      else if sqe_op_flags s AND ucast POLLIN = 0 then (EXEC_DONE (- EOPNOTSUPP), r, w)
      else with_wrapper ios (sqe_fd s)
        (\<lambda>w. issued (new_wrapper i (sqe_fd s) IOCP_KIND_POLL) (ios_wsarecv ios (sqe_fd s) 0 0 w) r) r w)"

definition iocp_accept :: "'w iocp_os \<Rightarrow> opid \<Rightarrow> iocp_ring \<Rightarrow> 'w \<Rightarrow> eng_exec \<times> iocp_ring \<times> 'w" where
  "iocp_accept ios i r w =
     (case iocp_arm_accept ios i r w of
        (Inl rc, w) \<Rightarrow> (EXEC_DONE rc, r, w)
      | (Inr r, w) \<Rightarrow> (EXEC_PENDING, r, w))"

definition iocp_connect :: "'w iocp_os \<Rightarrow> opid \<Rightarrow> iocp_ring \<Rightarrow> 'w \<Rightarrow> eng_exec \<times> iocp_ring \<times> 'w" where
  "iocp_connect ios i r w =
     (let s = sqe_of r i in
      case iocp_connectex ios (sqe_fd s) w of
        (False, w) \<Rightarrow> (EXEC_DONE (- ENOTSOCK), r, w)
      | (True, w) \<Rightarrow>
          (case iocp_associate ios (sqe_fd s) w of
             (False, w) \<Rightarrow> (EXEC_DONE (- ENOTSOCK), r, w)
           | (True, w) \<Rightarrow>
               (case iocp_bind_wildcard ios (sqe_fd s) w of
                  (False, w) \<Rightarrow> (EXEC_DONE (- EINVAL), r, w)
                | (True, w) \<Rightarrow>
                    (case ios_alloc ios w of
                       (False, w) \<Rightarrow> (EXEC_DONE (- ENOMEM), r, w)
                     | (True, w) \<Rightarrow>
                         issued (new_wrapper i (sqe_fd s) IOCP_KIND_CONNECT)
                           (ios_connectex ios (sqe_fd s) (sqe_addr s) (ucast (sqe_off s)) w) r))))"

definition iocp_msg :: "'w iocp_os \<Rightarrow> opid \<Rightarrow> iocp_ring \<Rightarrow> 'w \<Rightarrow> eng_exec \<times> iocp_ring \<times> 'w" where
  "iocp_msg ios i r w =
     (let s = sqe_of r i in
      if recv_multishot s then (EXEC_DONE (- EOPNOTSUPP), r, w)
      else with_wrapper ios (sqe_fd s)
        (\<lambda>w. case iocp_msg_to_wsa (if sqe_addr s = 0 then None else Some (ios_ld_msghdr ios (sqe_addr s) w)) of
           Inl e \<Rightarrow> (EXEC_DONE e, r, w)
         | Inr m \<Rightarrow>
             let x = (new_wrapper i (sqe_fd s) IOCP_KIND_IO)\<lparr>ov_back := Some (sqe_addr s)\<rparr> in
             if sqe_opcode s = OP_RECVMSG then
               (case iocp_wsarecvmsg ios (sqe_fd s) w of
                  (False, w) \<Rightarrow> (EXEC_DONE (- EOPNOTSUPP), r, w)
                | (True, w) \<Rightarrow> issued x (ios_wsarecvmsg ios (sqe_fd s) m w) r)
             else
               (case iocp_wsasendmsg ios (sqe_fd s) w of
                  (False, w) \<Rightarrow> (EXEC_DONE (- EOPNOTSUPP), r, w)
                | (True, w) \<Rightarrow> issued x (ios_wsasendmsg ios (sqe_fd s) m (sqe_op_flags s) w) r)) r w)"

definition iocp_stream_io :: "'w iocp_os \<Rightarrow> opid \<Rightarrow> iocp_ring \<Rightarrow> 'w \<Rightarrow> eng_exec \<times> iocp_ring \<times> 'w" where
  "iocp_stream_io ios i r w =
     (let s = sqe_of r i in
      with_wrapper ios (sqe_fd s)
        (\<lambda>w. issued (new_wrapper i (sqe_fd s) IOCP_KIND_IO)
           (if sqe_opcode s = OP_RECV then ios_wsarecv ios (sqe_fd s) (sqe_addr s) (sqe_len s) w
            else ios_wsasend ios (sqe_fd s) (sqe_addr s) (sqe_len s) w) r) r w)"

definition done_now :: "(sqe \<Rightarrow> 'w \<Rightarrow> i32 \<times> 'w) \<Rightarrow> opid \<Rightarrow> iocp_ring \<Rightarrow> 'w \<Rightarrow> eng_exec \<times> iocp_ring \<times> 'w" where
  "done_now call i r w = (case call (sqe_of r i) w of (res, w) \<Rightarrow> (EXEC_DONE res, r, w))"

definition iocp_execute :: "'w iocp_os \<Rightarrow> opid \<Rightarrow> iocp_ring \<Rightarrow> 'w \<Rightarrow> eng_exec \<times> iocp_ring \<times> 'w" where
  "iocp_execute ios i r w =
     (case sqe_opcode (sqe_of r i) of
        OP_NOP \<Rightarrow> (EXEC_DONE 0, r, w)
      | OP_CLOSE \<Rightarrow> done_now (iocp_close ios) i r w
      | OP_SOCKET \<Rightarrow> done_now (iocp_socket ios) i r w
      | OP_BIND \<Rightarrow> done_now (iocp_bind ios) i r w
      | OP_LISTEN \<Rightarrow> done_now (iocp_listen ios) i r w
      | OP_SHUTDOWN \<Rightarrow> done_now (iocp_shutdown ios) i r w
      | OP_OPENAT \<Rightarrow> done_now (iocp_openat ios) i r w
      | OP_READ \<Rightarrow> iocp_file_io ios i r w
      | OP_WRITE \<Rightarrow> iocp_file_io ios i r w
      | OP_STATX \<Rightarrow> done_now (iocp_statx ios) i r w
      | OP_UNLINKAT \<Rightarrow> done_now (iocp_unlinkat ios) i r w
      | OP_POLL_ADD \<Rightarrow> iocp_poll_add ios i r w
      | OP_ACCEPT \<Rightarrow> iocp_accept ios i r w
      | OP_CONNECT \<Rightarrow> iocp_connect ios i r w
      | OP_RECVMSG \<Rightarrow> iocp_msg ios i r w
      | OP_SENDMSG \<Rightarrow> iocp_msg ios i r w
      | OP_RECV \<Rightarrow> iocp_stream_io ios i r w
      | OP_SEND \<Rightarrow> iocp_stream_io ios i r w
      | _ \<Rightarrow> (EXEC_DONE (- EOPNOTSUPP), r, w))"

subsection \<open>What comes home\<close>

text \<open>The answer of an accepted connection: the socket, or the slot it went to.\<close>

definition accept_answer :: "'w iocp_os \<Rightarrow> iocp_op \<Rightarrow> iocp_ring \<Rightarrow> 'w \<Rightarrow> i32 \<times> iocp_ring \<times> 'w" where
  "accept_answer ios x r w =
     (if ov_file_index x \<noteq> 0 then
        case slip_fixed_install r (ov_file_index x) (ov_accepted x) of
          (slot, r) \<Rightarrow>
            if neg32 slot then (slot, r, snd (ios_closesocket ios (ov_accepted x) w))
            else (if ov_file_index x = FILE_INDEX_ALLOC then slot else 0, r, w)
      else (ov_accepted x, r, w))"

text \<open>\<open>None\<close> is no answer: the op is in flight again.\<close>

definition accept_home :: "'w iocp_os \<Rightarrow> iocp_op \<Rightarrow> iocp_ring \<Rightarrow> 'w \<Rightarrow> eng_done option \<times> iocp_ring \<times> 'w" where
  "accept_home ios x r w =
     (let i = ov_op x in
      case accept_answer ios x r (ios_accept_context ios (ov_accepted x) (ov_sock x) w) of
        (res, r, w) \<Rightarrow>
          if ov_multishot x \<and> \<not> neg32 res then
            let r = slip_engine_emit (sqe_user_data (sqe_of r i)) res CQE_F_MORE r in
            (case iocp_arm_accept ios i r w of
               (Inr r, w) \<Rightarrow> (None, r, w)
             | (Inl rc, w) \<Rightarrow> (Some (i, - ECANCELED), r, w))
          else (Some (i, res), r, w))"

definition io_home ::
    "'w iocp_os \<Rightarrow> iocp_op \<Rightarrow> u32 \<Rightarrow> u32 \<times> u32 \<times> u32 \<Rightarrow> iocp_ring \<Rightarrow> 'w \<Rightarrow> eng_done option \<times> iocp_ring \<times> 'w" where
  "io_home ios x bytes back r w =
     (Some (ov_op x, bytes), r, (case ov_back x of Some m \<Rightarrow> ios_st_msghdr ios m back w | None \<Rightarrow> w))"

definition packet_home ::
    "'w iocp_os \<Rightarrow> nat \<Rightarrow> u32 option \<Rightarrow> u32 \<Rightarrow> u32 \<times> u32 \<times> u32 \<Rightarrow> iocp_ring \<Rightarrow> 'w
     \<Rightarrow> eng_done option \<times> iocp_ring \<times> 'w" where
  "packet_home ios k err bytes back r w =
     (let x = ic_flight (r_be_state r) ! k;
          r = land k r
      in case err of
           Some e \<Rightarrow>
             (Some (ov_op x, win_err_to_errno e), r,
              if ov_kind x = IOCP_KIND_ACCEPT then snd (ios_closesocket ios (ov_accepted x) w) else w)
         | None \<Rightarrow>
             (case ov_kind x of
                IOCP_KIND_ACCEPT \<Rightarrow> accept_home ios x r w
              | IOCP_KIND_CONNECT \<Rightarrow> (Some (ov_op x, 0), r, ios_connect_context ios (ov_sock x) w)
              | IOCP_KIND_POLL \<Rightarrow> (Some (ov_op x, ucast POLLIN), r, w)
              | IOCP_KIND_IO \<Rightarrow> io_home ios x bytes back r w))"

text \<open>The loop of the wait, which goes on for as long as packets come without an answer.\<close>

partial_function (option) iocp_collect ::
    "'w iocp_os \<Rightarrow> nat \<Rightarrow> int \<Rightarrow> eng_done list \<Rightarrow> iocp_ring \<Rightarrow> 'w
     \<Rightarrow> (eng_done list \<times> iocp_ring \<times> 'w) option" where
  "iocp_collect ios cap timeout out r w =
     (if length out < cap then
        (case port_get ios timeout r w of
           (None, w) \<Rightarrow> (if timeout < 0 then None else Some (out, r, w))
         | (Some Pk_poke, w) \<Rightarrow> iocp_collect ios cap 0 out (take_poke r) w
         | (Some (Pk_io k err bytes back), w) \<Rightarrow>
             (case packet_home ios k err bytes back r w of
                (answer, r, w) \<Rightarrow>
                  iocp_collect ios cap 0 (case answer of None \<Rightarrow> out | Some d \<Rightarrow> out @ [d]) r w))
      else Some (out, r, w))"

definition iocp_wait ::
    "'w iocp_os \<Rightarrow> iocp_ring \<Rightarrow> nat \<Rightarrow> int \<Rightarrow> 'w \<Rightarrow> (eng_done list option \<times> iocp_ring \<times> 'w) option" where
  "iocp_wait ios r cap timeout_ms w =
     (case iocp_collect ios cap timeout_ms [] r w of
        None \<Rightarrow> None
      | Some (out, r, w) \<Rightarrow> Some (Some out, r, w))"

definition iocp_carried_ops :: "opcode list" where
  "iocp_carried_ops =
     [OP_NOP, OP_RECV, OP_SEND, OP_CLOSE, OP_SOCKET, OP_BIND, OP_LISTEN, OP_SHUTDOWN, OP_ACCEPT,
      OP_CONNECT, OP_POLL_ADD, OP_OPENAT, OP_READ, OP_WRITE, OP_STATX, OP_UNLINKAT, OP_RECVMSG, OP_SENDMSG]"

definition slip_backend_iocp :: "'w iocp_os \<Rightarrow> (iocp_state, 'w) eng_backend" where
  "slip_backend_iocp ios =
     \<lparr>eb_open_ring = iocp_open_ring ios, eb_close_ring = iocp_close_ring ios, eb_poke = Some iocp_poke,
      eb_execute = (\<lambda>i r w. Some (iocp_execute ios i r w)), eb_wait = iocp_wait ios,
      eb_carried_ops = iocp_carried_ops\<rparr>"

end
