(* ===== verification/Iocp_Facts.thy ===== *)
theory Iocp_Facts
  imports Iocp Engine_Chain Setup_Facts
begin

text \<open>
  What the Windows backend keeps: every op of the pool is in exactly one place, in flight being
  one of them, so the core's contract holds; when a wait comes back; what a connection of a
  multishot accept becomes; what closing a ring leaves behind; and where its ops depart from
  what the same entry asks of the other backends.
\<close>

subsection \<open>The invariant\<close>

definition in_flight :: "iocp_state \<Rightarrow> opid multiset" where
  "in_flight st = mset (map ov_op (ic_flight st))"

definition iocp_ring_inv :: "opid multiset \<Rightarrow> iocp_ring \<Rightarrow> bool" where
  "iocp_ring_inv H r \<longleftrightarrow> ring_inv (\<lambda>_. True) (in_flight (r_be_state r) + H) r"

interpretation no_waits: wait_invariant "\<lambda>_ :: iocp_ring. True"
  by unfold_locales simp

lemma iocp_ring_inv_move:
  assumes "iocp_ring_inv H r" "parked_same r s" "acct s + H' = acct r + H" "r_op_pool_n s = r_op_pool_n r"
    "ring_wf s"
  shows "iocp_ring_inv H' s"
proof -
  have "r_be_state s = r_be_state r" using assms(2) by (simp add: parked_same_def)
  moreover have "acct s + (in_flight (r_be_state r) + H') = acct r + (in_flight (r_be_state r) + H)"
    using assms(3) by (simp add: ac_simps)
  ultimately show ?thesis
    using assms(1) no_waits.R_move [OF _ assms(2) _ assms(4,5)] by (simp add: iocp_ring_inv_def)
qed

interpretation iocp_ring: ring_contract iocp_ring_inv
proof
  show "iocp_ring_inv H' s" if "iocp_ring_inv H r" "parked_same r s" "acct s + H' = acct r + H"
    "r_op_pool_n s = r_op_pool_n r" "ring_wf s" for H H' r s
    using that by (rule iocp_ring_inv_move)
  show "\<exists>X. pool_ok r (X + H)" if "iocp_ring_inv H r" for H r
    using that by (auto simp: iocp_ring_inv_def ring_inv_def)
  show "ring_wf r" if "iocp_ring_inv H r" for H r using that by (simp add: iocp_ring_inv_def ring_inv_def)
qed

text \<open>A change of the backend's state moves ops between the hands and the flight.\<close>

lemma upd_ic_inv:
  assumes "iocp_ring_inv H r" "in_flight (g (r_be_state r)) + H' = in_flight (r_be_state r) + H"
  shows "iocp_ring_inv H' (upd_ic g r)" "runs r (upd_ic g r)"
proof -
  have "ring_wf (upd_ic g r) = ring_wf r" by (rule ring_wf_cong) (simp_all add: upd_ic_def)
  then show "iocp_ring_inv H' (upd_ic g r)"
    using assms
    by (simp add: iocp_ring_inv_def ring_inv_def upd_ic_def pool_ok_def acct_def slots_ok_def the_op_def)
  show "runs r (upd_ic g r)" by (simp add: upd_ic_def runs_def)
qed

lemma fly_inv:
  assumes "iocp_ring_inv (add_mset (ov_op x) H) r"
  shows "iocp_ring_inv H (fly x r)" "runs r (fly x r)"
  using upd_ic_inv [OF assms] by (simp_all add: fly_def in_flight_def)

lemma drop_nth_mset:
  assumes "k < length xs"
  shows "mset xs = add_mset (xs ! k) (mset (take k xs @ drop (Suc k) xs))"
  using arg_cong [OF id_take_nth_drop [OF assms], of mset] by simp

lemma land_inv:
  assumes "iocp_ring_inv H r" "k < length (ic_flight (r_be_state r))"
  shows "iocp_ring_inv (add_mset (ov_op (ic_flight (r_be_state r) ! k)) H) (land k r)" "runs r (land k r)"
proof -
  let ?xs = "ic_flight (r_be_state r)"
  have "in_flight (r_be_state r) =
      add_mset (ov_op (?xs ! k)) (image_mset ov_op (mset (take k ?xs @ drop (Suc k) ?xs)))"
    using drop_nth_mset [OF assms(2)] by (simp add: in_flight_def)
  then have eq: "in_flight ((r_be_state r)\<lparr>ic_flight := take k ?xs @ drop (Suc k) ?xs\<rparr>) + add_mset (ov_op (?xs ! k)) H
      = in_flight (r_be_state r) + H"
    by (simp add: in_flight_def)
  show "iocp_ring_inv (add_mset (ov_op (?xs ! k)) H) (land k r)" "runs r (land k r)"
    unfolding land_def by (rule upd_ic_inv [OF assms(1)], rule eq)+
qed

lemma pokes_inv:
  assumes "iocp_ring_inv H r"
  shows "iocp_ring_inv H (take_poke r)" "runs r (take_poke r)" "iocp_ring_inv H (iocp_poke r)" "runs r (iocp_poke r)"
  using upd_ic_inv [OF assms] by (simp_all add: take_poke_def iocp_poke_def in_flight_def)

subsection \<open>Executing\<close>

text \<open>Either the op is done and the ring is as it was, or exactly one wrapper with it is in flight,
  of the kind its opcode asks for and on its descriptor.\<close>

fun kind_of :: "opcode \<Rightarrow> iocp_kind" where
  "kind_of OP_ACCEPT = IOCP_KIND_ACCEPT"
| "kind_of OP_CONNECT = IOCP_KIND_CONNECT"
| "kind_of OP_POLL_ADD = IOCP_KIND_POLL"
| "kind_of _ = IOCP_KIND_IO"

definition wraps :: "iocp_ring \<Rightarrow> opid \<Rightarrow> iocp_op \<Rightarrow> bool" where
  "wraps r i x \<longleftrightarrow> ov_op x = i \<and> ov_sock x = sqe_fd (sqe_of r i) \<and> ov_kind x = kind_of (sqe_opcode (sqe_of r i))"

definition issues :: "opid \<Rightarrow> iocp_ring \<Rightarrow> eng_exec \<times> iocp_ring \<times> 'w \<Rightarrow> bool" where
  "issues i r a \<longleftrightarrow> (case a of (v, r', w) \<Rightarrow>
     (\<exists>res. v = EXEC_DONE res) \<and> r' = r \<or> v = EXEC_PENDING \<and> (\<exists>x. wraps r i x \<and> r' = fly x r))"

lemma issues_done [simp]: "issues i r (EXEC_DONE res, r, w)"
  by (simp add: issues_def)

lemma issues_issued: "wraps r i x \<Longrightarrow> issues i r (issued x ret r)"
  by (auto simp: issued_def issues_def split: prod.split winret.split)

lemma issues_with_wrapper: "(\<And>w. issues i r (f w)) \<Longrightarrow> issues i r (with_wrapper ios s f r w)"
  by (simp add: with_wrapper_def split: prod.split bool.split)

lemma issues_done_now: "issues i r (done_now call i r w)"
  by (simp add: done_now_def split: prod.split)

lemma wraps_new: "kind_of (sqe_opcode (sqe_of r i)) = k \<Longrightarrow> wraps r i (new_wrapper i (sqe_fd (sqe_of r i)) k)"
  by (simp add: wraps_def new_wrapper_def)

lemma arm_accept_shape:
  assumes "iocp_arm_accept ios i r w = (Inr r', w')"
  obtains x where "r' = fly x r" "ov_op x = i" "ov_sock x = sqe_fd (sqe_of r i)" "ov_kind x = IOCP_KIND_ACCEPT"
    "ov_multishot x = accept_multishot (sqe_of r i)" "ov_file_index x = sqe_file_index (sqe_of r i)"
proof -
  obtain child where "r' = fly ((new_wrapper i (sqe_fd (sqe_of r i)) IOCP_KIND_ACCEPT)
    \<lparr>ov_accepted := child, ov_multishot := accept_multishot (sqe_of r i), ov_file_index := sqe_file_index (sqe_of r i)\<rparr>) r"
    using assms
    by (auto simp: iocp_arm_accept_def Let_def split: prod.splits bool.splits winret.splits if_splits)
  then show thesis by (rule that) (simp_all add: new_wrapper_def)
qed

lemma issues_accept:
  assumes "sqe_opcode (sqe_of r i) = OP_ACCEPT"
  shows "issues i r (iocp_accept ios i r w)"
proof -
  obtain a w' where a: "iocp_arm_accept ios i r w = (a, w')" by fastforce
  show ?thesis
  proof (cases a)
    case (Inr r')
    obtain x where "r' = fly x r" "ov_op x = i" "ov_sock x = sqe_fd (sqe_of r i)" "ov_kind x = IOCP_KIND_ACCEPT"
      by (rule arm_accept_shape [OF a [unfolded Inr]])
    then show ?thesis using assms by (auto simp: iocp_accept_def a Inr issues_def wraps_def)
  qed (simp add: iocp_accept_def a)
qed

lemma issues_file_io:
  assumes "kind_of (sqe_opcode (sqe_of r i)) = IOCP_KIND_IO"
  shows "issues i r (iocp_file_io ios i r w)"
  unfolding iocp_file_io_def Let_def
  by (auto intro!: issues_issued wraps_new [OF assms] split: option.split prod.split winret.split bool.split)

lemma issues_connect:
  assumes "sqe_opcode (sqe_of r i) = OP_CONNECT"
  shows "issues i r (iocp_connect ios i r w)"
  unfolding iocp_connect_def Let_def
  by (auto intro!: issues_issued wraps_new simp: assms split: prod.split bool.split)

lemma issues_msg:
  assumes "kind_of (sqe_opcode (sqe_of r i)) = IOCP_KIND_IO"
  shows "issues i r (iocp_msg ios i r w)"
proof -
  have "wraps r i ((new_wrapper i (sqe_fd (sqe_of r i)) IOCP_KIND_IO)\<lparr>ov_back := Some (sqe_addr (sqe_of r i))\<rparr>)"
    using assms by (simp add: wraps_def new_wrapper_def)
  then show ?thesis
    by (auto simp: iocp_msg_def Let_def intro!: issues_with_wrapper issues_issued
        split: sum.split prod.split bool.split)
qed

lemma issues_poll_add:
  assumes "sqe_opcode (sqe_of r i) = OP_POLL_ADD"
  shows "issues i r (iocp_poll_add ios i r w)"
  by (simp add: iocp_poll_add_def Let_def issues_with_wrapper issues_issued wraps_new assms)

lemma issues_stream_io:
  assumes "kind_of (sqe_opcode (sqe_of r i)) = IOCP_KIND_IO"
  shows "issues i r (iocp_stream_io ios i r w)"
  by (simp add: iocp_stream_io_def Let_def issues_with_wrapper issues_issued wraps_new assms)

lemmas issues_each = issues_done_now issues_accept issues_file_io issues_connect issues_msg issues_poll_add
  issues_stream_io

lemma iocp_execute_issues: "issues i r (iocp_execute ios i r w)"
  unfolding iocp_execute_def
  by (cases "sqe_opcode (sqe_of r i)") (simp_all only: opcode.simps issues_each issues_done kind_of.simps)

lemma iocp_execute_inv:
  assumes "iocp_execute ios i r w = (x, r', w')" "iocp_ring_inv (add_mset i H) r"
  shows "iocp_ring_inv (exec_hands i x H) r' \<and> runs r r'"
  using iocp_execute_issues [of i r ios w] assms fly_inv by (auto simp: issues_def wraps_def)

subsection \<open>Coming home\<close>

lemma install_inv:
  assumes "slip_fixed_install r ix fd = (slot, r')" "iocp_ring_inv H r"
  shows "iocp_ring_inv H r'" "runs r r'" "r_be_state r' = r_be_state r" "sqe_of r' j = sqe_of r j"
proof -
  have k: "keeps i r r'" for i using keeps_install [of i r ix fd] by (simp add: assms(1))
  show "iocp_ring_inv H r'" by (rule iocp_ring.keeps_inv [OF k assms(2)])
  show "runs r r'" using k by (rule keeps_runs)
  show "r_be_state r' = r_be_state r" "sqe_of r' j = sqe_of r j"
    using keeps_lists [OF k] keeps_sqe [OF k] by (auto simp: same_lists_def)
qed

lemma accept_answer_inv:
  assumes "accept_answer ios x r w = (res, r', w')" "iocp_ring_inv H r"
  shows "iocp_ring_inv H r'" "runs r r'" "r_be_state r' = r_be_state r" "sqe_of r' j = sqe_of r j"
proof -
  have "r' = r \<or> (\<exists>slot. slip_fixed_install r (ov_file_index x) (ov_accepted x) = (slot, r'))"
    using assms(1) by (auto simp: accept_answer_def split: if_splits prod.splits)
  then show "iocp_ring_inv H r'" "runs r r'" "r_be_state r' = r_be_state r" "sqe_of r' j = sqe_of r j"
    using install_inv [OF _ assms(2)] assms(2) by auto
qed

text \<open>An answer leaves its op in the hands of the core; without one it is in flight again.\<close>

definition homes :: "opid \<Rightarrow> opid multiset \<Rightarrow> iocp_ring \<Rightarrow> eng_done option \<times> iocp_ring \<times> 'w \<Rightarrow> bool" where
  "homes i H r a \<longleftrightarrow> (case a of (answer, r', w) \<Rightarrow> runs r r' \<and>
     (case answer of None \<Rightarrow> iocp_ring_inv H r' | Some d \<Rightarrow> fst d = i \<and> iocp_ring_inv (add_mset i H) r'))"

lemma accept_home_inv:
  assumes "iocp_ring_inv (add_mset (ov_op x) H) r"
  shows "homes (ov_op x) H r (accept_home ios x r w)"
proof -
  obtain res r1 w1 where a: "accept_answer ios x r (ios_accept_context ios (ov_accepted x) (ov_sock x) w) = (res, r1, w1)"
    by (metis prod_cases3)
  note r1 = accept_answer_inv [OF a assms]
  let ?r2 = "slip_engine_emit (sqe_user_data (sqe_of r1 (ov_op x))) res CQE_F_MORE r1"
  have r2: "iocp_ring_inv (add_mset (ov_op x) H) ?r2" "runs r ?r2"
    using iocp_ring.emit_inv [OF r1(1)] r1(2) by (auto intro: runs_trans)
  obtain b w2 where b: "iocp_arm_accept ios (ov_op x) ?r2 w1 = (b, w2)" by fastforce
  show ?thesis
  proof (cases "ov_multishot x \<and> \<not> neg32 res")
    case False
    then show ?thesis using r1(1,2) by (auto simp: homes_def accept_home_def Let_def a)
  next
    case True
    show ?thesis
    proof (cases b)
      case (Inl rc)
      then show ?thesis using True r2 by (simp add: homes_def accept_home_def Let_def a b)
    next
      case (Inr r3)
      obtain y where y: "r3 = fly y ?r2" "ov_op y = ov_op x"
        by (rule arm_accept_shape [OF b [unfolded Inr]])
      then have "iocp_ring_inv H r3" "runs r r3"
        using fly_inv [of y H ?r2] r2 by (auto intro: runs_trans)
      then show ?thesis using True Inr by (simp add: homes_def accept_home_def Let_def a b)
    qed
  qed
qed

lemma packet_home_inv:
  assumes "iocp_ring_inv H r" "k < length (ic_flight (r_be_state r))"
  shows "homes (ov_op (ic_flight (r_be_state r) ! k)) H r (packet_home ios k err bytes bk r w)"
proof -
  let ?x = "ic_flight (r_be_state r) ! k"
  note l = land_inv [OF assms]
  have "homes (ov_op ?x) H (land k r) (packet_home ios k err bytes bk r w)"
  proof (cases err)
    case (Some e)
    then show ?thesis using l by (simp add: packet_home_def Let_def homes_def)
  next
    case None
    then show ?thesis using l accept_home_inv [OF l(1)]
      by (cases "ov_kind ?x") (simp_all add: packet_home_def Let_def homes_def io_home_def)
  qed
  then show ?thesis using l(2) by (auto simp: homes_def intro: runs_trans split: prod.splits)
qed

lemma port_get_has: "port_get ios t r w = (Some p, w') \<Longrightarrow> port_has p (r_be_state r)"
  by (auto simp: port_get_def split: prod.splits option.splits if_splits)

subsection \<open>The wait\<close>

lemma iocp_collect_inv:
  assumes "iocp_collect ios cap t out r w = Some y" "iocp_ring_inv (mset (map fst out) + H) r"
  shows "iocp_ring_inv (mset (map fst (fst y)) + H) (fst (snd y)) \<and> runs r (fst (snd y))"
proof -
  define ok where "ok = (\<lambda>(out :: eng_done list) r (y :: eng_done list \<times> iocp_ring \<times> 'a).
    iocp_ring_inv (mset (map fst out) + H) r \<longrightarrow>
    iocp_ring_inv (mset (map fst (fst y)) + H) (fst (snd y)) \<and> runs r (fst (snd y)))"
  have "ok out r y"
  proof (rule iocp_collect.raw_induct [where P = "\<lambda>ios cap t out r w y. ok out r y", OF _ assms(1)])
    fix loop ios cap t out r w y
    assume IH: "\<And>ios cap t out r w y. loop ios cap t out r w = Some y \<Longrightarrow> ok out r y"
      and eq: "(if length out < cap then
        (case port_get ios t r w of
           (None, w) \<Rightarrow> (if t < 0 then None else Some (out, r, w))
         | (Some Pk_poke, w) \<Rightarrow> loop ios cap 0 out (take_poke r) w
         | (Some (Pk_io k err bytes bk), w) \<Rightarrow>
             (case packet_home ios k err bytes bk r w of
                (answer, r, w) \<Rightarrow>
                  loop ios cap 0 (case answer of None \<Rightarrow> out | Some d \<Rightarrow> out @ [d]) r w))
      else Some (out, r, w)) = Some y"
    obtain p w1 where g: "port_get ios t r w = (p, w1)" by fastforce
    show "ok out r y"
    proof (cases "length out < cap \<and> p \<noteq> None")
      case False
      then have "fst y = out \<and> fst (snd y) = r" using eq by (auto simp: g split: if_splits)
      then show ?thesis by (simp add: ok_def)
    next
      case True
      then obtain q where q: "p = Some q" by blast
      show ?thesis
      proof (cases q)
        case Pk_poke
        then have "ok out (take_poke r) y" using eq True by (intro IH) (simp add: g q)
        then show ?thesis
          using pokes_inv(1) [of "mset (map fst out) + H" r] runs_trans [OF pokes_inv(2) [of "mset (map fst out) + H" r]]
          unfolding ok_def by blast
      next
        case (Pk_io k err bytes bk)
        obtain a r1 w2 where h: "packet_home ios k err bytes bk r w1 = (a, r1, w2)" by (metis prod_cases3)
        have k: "k < length (ic_flight (r_be_state r))"
          using port_get_has [OF g [unfolded q]] by (simp add: Pk_io port_has_def)
        have one: "ok (case a of None \<Rightarrow> out | Some d \<Rightarrow> out @ [d]) r1 y"
          using eq True by (intro IH) (simp add: g q Pk_io h)
        show ?thesis
          unfolding ok_def
        proof (rule impI)
          assume "iocp_ring_inv (mset (map fst out) + H) r"
          from packet_home_inv [OF this k, of ios err bytes bk w1]
          show "iocp_ring_inv (mset (map fst (fst y)) + H) (fst (snd y)) \<and> runs r (fst (snd y))"
            using one by (cases a) (auto simp: h homes_def ok_def intro: runs_trans)
        qed
      qed
    qed
  qed
  with assms(2) show ?thesis by (simp add: ok_def)
qed

lemma iocp_wait_inv:
  assumes "iocp_wait ios r cap t w = Some (fin, r', w')" "iocp_ring_inv H r"
  shows "iocp_ring_inv (mset (map fst (case fin of None \<Rightarrow> [] | Some ds \<Rightarrow> ds)) + H) r' \<and> runs r r'"
proof -
  obtain out where "iocp_collect ios cap t [] r w = Some (out, r', w')" "fin = Some out"
    using assms(1) by (auto simp: iocp_wait_def split: option.splits)
  with iocp_collect_inv [of ios cap t "[]" r w _ H] assms(2) show ?thesis by simp
qed

interpretation iocp_engine: backend_contract iocp_ring_inv "slip_backend_iocp ios" for ios :: "'w iocp_os"
proof unfold_locales
  show "iocp_ring_inv (exec_hands i x H) r' \<and> runs r r'"
    if "eb_execute (slip_backend_iocp ios) i r w = Some (x, r', w')" "iocp_ring_inv (add_mset i H) r"
    for i r w x r' w' H
    using that by (intro iocp_execute_inv) (simp_all add: slip_backend_iocp_def)
  show "iocp_ring_inv (mset (map fst (case fin of None \<Rightarrow> [] | Some ds \<Rightarrow> ds)) + H) r' \<and> runs r r'"
    if "eb_wait (slip_backend_iocp ios) r cap t w = Some (fin, r', w')" "iocp_ring_inv H r"
    for r cap t w fin r' w' H
    using that by (intro iocp_wait_inv) (simp_all add: slip_backend_iocp_def)
  show "iocp_ring_inv H (poke r) \<and> runs r (poke r)"
    if "eb_poke (slip_backend_iocp ios) = Some poke" "iocp_ring_inv H r" for poke H r
    using that pokes_inv by (auto simp: slip_backend_iocp_def)
qed

interpretation iocp_setup: ring_opening iocp_ring_inv "slip_backend_iocp ios" for ios :: "'w iocp_os"
proof unfold_locales
  fix r :: iocp_ring and nul and w w' :: 'w and sq_n cq_n :: u32 and k
  assume op: "eb_open_ring (slip_backend_iocp ios) (sized_ring nul sq_n cq_n) w = (Some r, w')"
    and k: "unat cq_n = 2 ^ k" "k < 32"
  then have r: "r = (sized_ring nul sq_n cq_n)\<lparr>r_be_state := zero_iocp\<lparr>ic_there := True\<rparr>,
      r_ctl := r_ctl (sized_ring nul sq_n cq_n)\<rparr>"
    by (auto simp: slip_backend_iocp_def iocp_open_ring_def sized_ring_def split: prod.splits bool.splits)
  show "iocp_ring_inv {#} (ring_ready r)"
    using no_waits.opened_ring_inv [OF r TrueI k]
    by (simp add: iocp_ring_inv_def in_flight_def r ring_ready_def zero_iocp_def)
qed

text \<open>A packet of anything but a multishot accept is the last of its wrapper.\<close>

definition no_multishot :: "iocp_ring \<Rightarrow> bool" where
  "no_multishot r \<longleftrightarrow> (\<forall>x \<in> set (ic_flight (r_be_state r)). \<not> ov_multishot x)"

lemma install_be_state [simp]: "r_be_state (snd (slip_fixed_install r ix fd)) = r_be_state r"
  using keeps_lists [OF keeps_install [of 0 r ix fd]] by (simp add: same_lists_def)

lemma packet_home_once:
  assumes "packet_home ios k err bytes bk r w = (a, r', w')" "\<not> ov_multishot (ic_flight (r_be_state r) ! k)"
  shows "r_be_state r' = r_be_state (land k r)" "a \<noteq> None"
proof -
  let ?x = "ic_flight (r_be_state r) ! k"
  have ans: "r_be_state r1 = r_be_state s" if "accept_answer ios x s w1 = (res, r1, w2)" for x s w1 res r1 w2
    using that install_be_state [of s "ov_file_index x" "ov_accepted x"]
    by (auto simp: accept_answer_def simp del: install_be_state split: if_splits prod.splits)
  have "r_be_state r1 = r_be_state s \<and> b \<noteq> None" if "accept_home ios ?x s w1 = (b, r1, w2)" for s w1 b r1 w2
    using that assms(2) ans by (auto simp: accept_home_def Let_def split: prod.splits)
  then have "r_be_state r' = r_be_state (land k r) \<and> a \<noteq> None"
    using assms(1) by (auto simp: packet_home_def Let_def io_home_def split: option.splits iocp_kind.splits)
  then show "r_be_state r' = r_be_state (land k r)" "a \<noteq> None" by auto
qed

lemma land_flight [simp]:
  "ic_flight (r_be_state (land k r)) = take k (ic_flight (r_be_state r)) @ drop (Suc k) (ic_flight (r_be_state r))"
  "ic_pokes (r_be_state (land k r)) = ic_pokes (r_be_state r)"
  by (simp_all add: land_def upd_ic_def)

lemma take_poke_flight [simp]:
  "ic_flight (r_be_state (take_poke r)) = ic_flight (r_be_state r)"
  "ic_pokes (r_be_state (take_poke r)) = ic_pokes (r_be_state r) - 1"
  by (simp_all add: take_poke_def upd_ic_def)

lemma no_multishot_land: "no_multishot r \<Longrightarrow> no_multishot (land k r)"
  by (auto simp: no_multishot_def dest: in_set_takeD in_set_dropD)

lemma iocp_collect_returns:
  assumes "no_multishot r" "0 \<le> t"
  shows "iocp_collect ios cap t out r w \<noteq> None"
  using assms
proof (induction "ic_pokes (r_be_state r) + length (ic_flight (r_be_state r))" arbitrary: t out r w rule: less_induct)
  case less
  obtain p w1 where g: "port_get ios t r w = (p, w1)" by fastforce
  show ?case
  proof (cases "length out < cap \<and> p \<noteq> None")
    case False
    then show ?thesis using less.prems(2) by (subst iocp_collect.simps) (auto simp: g)
  next
    case True
    then obtain q where q: "p = Some q" by blast
    note has = port_get_has [OF g [unfolded q]]
    show ?thesis
    proof (cases q)
      case Pk_poke
      have "iocp_collect ios cap 0 out (take_poke r) w1 \<noteq> None"
        using has less.prems(1) by (intro less.hyps) (simp_all add: Pk_poke port_has_def no_multishot_def)
      then show ?thesis using True by (subst iocp_collect.simps) (simp add: g q Pk_poke)
    next
      case (Pk_io k err bytes bk)
      obtain a r1 w2 where h: "packet_home ios k err bytes bk r w1 = (a, r1, w2)" by (metis prod_cases3)
      have k: "k < length (ic_flight (r_be_state r))" using has by (simp add: Pk_io port_has_def)
      then have "\<not> ov_multishot (ic_flight (r_be_state r) ! k)" using less.prems(1) by (simp add: no_multishot_def)
      note st = packet_home_once(1) [OF h this]
      have "iocp_collect ios cap 0 (case a of None \<Rightarrow> out | Some d \<Rightarrow> out @ [d]) r1 w2 \<noteq> None"
        using k less.prems(1) no_multishot_land [of r k]
        by (intro less.hyps) (simp_all add: no_multishot_def st)
      then show ?thesis using True by (subst iocp_collect.simps) (simp add: g q Pk_io h)
    qed
  qed
qed

lemma iocp_wait_returns:
  assumes "no_multishot r"
  shows "iocp_wait ios r cap t w \<noteq> None \<longleftrightarrow> 0 \<le> t \<or> cap = 0 \<or> fst (port_get ios t r w) \<noteq> None"
proof (cases "0 \<le> t \<or> cap = 0")
  case True
  then have "iocp_collect ios cap t [] r w \<noteq> None"
    using iocp_collect_returns [OF assms, of t ios cap "[]" w]
    by (cases "cap = 0") (simp_all add: iocp_collect.simps [of ios 0])
  with True show ?thesis by (auto simp: iocp_wait_def split: option.split)
next
  case False
  obtain p w1 where g: "port_get ios t r w = (p, w1)" by fastforce
  show ?thesis
  proof (cases p)
    case None
    then have "iocp_collect ios cap t [] r w = None" using False by (subst iocp_collect.simps) (simp add: g)
    then show ?thesis using False by (simp add: iocp_wait_def g None)
  next
    case (Some q)
    have "iocp_collect ios cap t [] r w \<noteq> None"
    proof (cases q)
      case Pk_poke
      have "no_multishot (take_poke r)" using assms by (simp add: no_multishot_def)
      then show ?thesis using False iocp_collect_returns [of "take_poke r" 0]
        by (subst iocp_collect.simps) (simp add: g Some Pk_poke)
    next
      case (Pk_io k err bytes bk)
      obtain a r1 w2 where h: "packet_home ios k err bytes bk r w1 = (a, r1, w2)" by (metis prod_cases3)
      have "k < length (ic_flight (r_be_state r))"
        using port_get_has [OF g [unfolded Some]] by (simp add: Pk_io port_has_def)
      then have "\<not> ov_multishot (ic_flight (r_be_state r) ! k)" using assms by (simp add: no_multishot_def)
      from packet_home_once(1) [OF h this] have "no_multishot r1"
        using no_multishot_land [OF assms, of k] by (simp add: no_multishot_def)
      then show ?thesis using False iocp_collect_returns [of r1 0]
        by (subst iocp_collect.simps) (simp add: g Some Pk_io h)
    qed
    then show ?thesis by (auto simp: iocp_wait_def g Some split: option.split)
  qed
qed

subsection \<open>A connection of a multishot accept\<close>

lemma upd_ic_posting:
  "cq_room (upd_ic g r) = cq_room r" "op_release i (upd_ic g r) = upd_ic g (op_release i r)"
  "post_locked ud res fl (upd_ic g r) = upd_ic g (post_locked ud res fl r)"
  "r_backlog (upd_ic g r) = r_backlog r" "(upd_ic g r)\<lparr>r_backlog := bs\<rparr> = upd_ic g (r\<lparr>r_backlog := bs\<rparr>)"
  "sqe_of (upd_ic g r) = sqe_of r" "the_op (upd_ic g r) = the_op r" "r_op_free (upd_ic g r) = r_op_free r"
  by (simp_all add: upd_ic_def cq_room_def cq_avail_def op_release_def post_locked_def cq_slot_def sqe_of_def
      the_op_def Let_def fun_eq_iff)

lemma upd_ic_drain: "drain_backlog_locked (upd_ic g r) = upd_ic g (drain_backlog_locked r)"
proof (induction r rule: drain_backlog_locked.induct)
  case (1 r)
  show ?case
  proof (cases "r_backlog r = [] \<or> \<not> cq_room r")
    case True
    then show ?thesis by (auto simp: upd_ic_posting drain_backlog_locked.simps [of r]
        drain_backlog_locked.simps [of "upd_ic g r"] split: list.splits)
  next
    case False
    then obtain i bs where b: "r_backlog r = i # bs" by (cases "r_backlog r") auto
    then show ?thesis using False 1 [OF b]
      by (simp add: upd_ic_posting drain_backlog_locked.simps [of r] drain_backlog_locked.simps [of "upd_ic g r"])
  qed
qed

lemma upd_ic_stream: "cq_stream (upd_ic g r) = cq_stream r"
  by (simp add: upd_ic_def cq_stream_def unread_def cq_avail_def cq_slot_def backlog_cqe_def sqe_of_def
      the_op_def fun_eq_iff)

text \<open>What a completion with \<open>F_MORE\<close> adds, as room allows.\<close>

definition emits :: "u64 \<Rightarrow> i32 \<Rightarrow> 'b slip_ring \<Rightarrow> cqe list" where
  "emits ud res r =
     (if cq_room (drain_backlog_locked r) \<or> r_op_free (drain_backlog_locked r) \<noteq> []
      then [\<lparr>cqe_user_data = ud, cqe_res = res, cqe_flags = CQE_F_MORE\<rparr>] else [])"

lemma multishot_accept_home:
  assumes "iocp_ring_inv H r" "k < length (ic_flight (r_be_state r))" "x = ic_flight (r_be_state r) ! k"
    "ov_kind x = IOCP_KIND_ACCEPT" "ov_multishot x" "ov_file_index x = 0" "\<not> neg32 (ov_accepted x)"
    "packet_home ios k None bytes bk r w = (a, r', w')"
  shows "cq_stream r' = cq_stream r @ emits (sqe_user_data (sqe_of r (ov_op x))) (ov_accepted x) r"
    "(\<exists>y. a = None \<and> ov_op y = ov_op x \<and> ov_kind y = IOCP_KIND_ACCEPT \<and>
        ic_flight (r_be_state r') = y # ic_flight (r_be_state (land k r))) \<or>
     a = Some (ov_op x, - ECANCELED) \<and> ic_flight (r_be_state r') = ic_flight (r_be_state (land k r))"
proof -
  let ?ud = "sqe_user_data (sqe_of r (ov_op x))"
  let ?e = "slip_engine_emit ?ud (ov_accepted x) CQE_F_MORE (land k r)"
  obtain b w2 where b: "iocp_arm_accept ios (ov_op x) ?e (ios_accept_context ios (ov_accepted x) (ov_sock x) w) = (b, w2)"
    by fastforce
  have home: "packet_home ios k None bytes bk r w =
      (case b of Inr r2 \<Rightarrow> (None, r2, w2) | Inl rc \<Rightarrow> (Some (ov_op x, - ECANCELED), ?e, w2))"
    using assms(3-7) b
    by (simp add: packet_home_def accept_home_def accept_answer_def Let_def land_def upd_ic_posting split: sum.split)
  have "iocp_ring_inv (add_mset (ov_op x) H) (land k r)" using land_inv(1) [OF assms(1,2)] by (simp add: assms(3))
  then obtain X where wf: "cq_wf (land k r)" and p: "pool_ok (land k r) X"
    by (auto simp: iocp_ring_inv_def ring_inv_def ring_wf_def)
  have st: "cq_stream ?e = cq_stream r @ emits ?ud (ov_accepted x) r"
    by (simp add: emit_stream [OF wf p] emits_def) (simp add: land_def upd_ic_drain upd_ic_posting upd_ic_stream)
  have be: "r_be_state ?e = r_be_state (land k r)" by simp
  show "cq_stream r' = cq_stream r @ emits ?ud (ov_accepted x) r"
    "(\<exists>y. a = None \<and> ov_op y = ov_op x \<and> ov_kind y = IOCP_KIND_ACCEPT \<and>
        ic_flight (r_be_state r') = y # ic_flight (r_be_state (land k r))) \<or>
     a = Some (ov_op x, - ECANCELED) \<and> ic_flight (r_be_state r') = ic_flight (r_be_state (land k r))"
  proof -
    have "cq_stream r' = cq_stream ?e \<and> ((\<exists>y. a = None \<and> ov_op y = ov_op x \<and> ov_kind y = IOCP_KIND_ACCEPT \<and>
        ic_flight (r_be_state r') = y # ic_flight (r_be_state (land k r))) \<or>
      a = Some (ov_op x, - ECANCELED) \<and> ic_flight (r_be_state r') = ic_flight (r_be_state (land k r)))"
    proof (cases b)
      case (Inl rc)
      then show ?thesis using assms(8) home be by simp
    next
      case (Inr r2)
      obtain y where y: "r2 = fly y ?e" "ov_op y = ov_op x" "ov_kind y = IOCP_KIND_ACCEPT"
        by (rule arm_accept_shape [OF b [unfolded Inr]])
      have "ic_flight (r_be_state r2) = y # ic_flight (r_be_state (land k r))"
        unfolding y(1) fly_def by (simp add: upd_ic_def be [unfolded upd_ic_def])
      moreover have "cq_stream r2 = cq_stream ?e" by (simp add: y(1) fly_def upd_ic_stream)
      ultimately show ?thesis using assms(8) home Inr y(2,3) by auto
    qed
    then show "cq_stream r' = cq_stream r @ emits ?ud (ov_accepted x) r"
      "(\<exists>y. a = None \<and> ov_op y = ov_op x \<and> ov_kind y = IOCP_KIND_ACCEPT \<and>
        ic_flight (r_be_state r') = y # ic_flight (r_be_state (land k r))) \<or>
       a = Some (ov_op x, - ECANCELED) \<and> ic_flight (r_be_state r') = ic_flight (r_be_state (land k r))"
      by (simp_all add: st)
  qed
qed

subsection \<open>Connections without end\<close>

text \<open>A port that always offers the packet of the newest wrapper, and a listener that can always be
  armed again.\<close>

definition always_accepts :: "'w iocp_os \<Rightarrow> bool" where
  "always_accepts ios \<longleftrightarrow>
     (\<forall>t w. \<exists>b bk w'. ios_get ios t w = (Some (Pk_io 0 None b bk), w')) \<and>
     (\<forall>i r w. \<exists>y w'. iocp_arm_accept ios i r w = (Inr (fly y r), w') \<and> \<not> neg32 (ov_accepted y))"

text \<open>The newest wrapper is a multishot accept that answers sockets.\<close>

definition accepting :: "opid multiset \<Rightarrow> iocp_ring \<Rightarrow> bool" where
  "accepting H r \<longleftrightarrow> iocp_ring_inv H r \<and>
     (\<exists>x xs. ic_flight (r_be_state r) = x # xs \<and> ov_kind x = IOCP_KIND_ACCEPT \<and> ov_multishot x \<and>
        ov_file_index x = 0 \<and> \<not> neg32 (ov_accepted x) \<and>
        accept_multishot (sqe_of r (ov_op x)) \<and> sqe_file_index (sqe_of r (ov_op x)) = 0)"

lemma accepting_again:
  assumes "always_accepts ios" "accepting H r" "packet_home ios 0 None bytes bk r w = (a, r', w')"
  shows "a = None \<and> accepting H r'"
proof -
  obtain x xs where x: "ic_flight (r_be_state r) = x # xs" "ov_kind x = IOCP_KIND_ACCEPT" "ov_multishot x"
    "ov_file_index x = 0" "\<not> neg32 (ov_accepted x)" "accept_multishot (sqe_of r (ov_op x))"
    "sqe_file_index (sqe_of r (ov_op x)) = 0" and inv: "iocp_ring_inv H r"
    using assms(2) by (auto simp: accepting_def)
  let ?i = "ov_op x"
  let ?e = "slip_engine_emit (sqe_user_data (sqe_of r ?i)) (ov_accepted x) CQE_F_MORE (land 0 r)"
  let ?w = "ios_accept_context ios (ov_accepted x) (ov_sock x) w"
  obtain y w2 where y: "iocp_arm_accept ios ?i ?e ?w = (Inr (fly y ?e), w2)" "\<not> neg32 (ov_accepted y)"
    using assms(1) unfolding always_accepts_def by blast
  obtain z where z: "fly y ?e = fly z ?e" "ov_op z = ?i" "ov_kind z = IOCP_KIND_ACCEPT"
    "ov_multishot z = accept_multishot (sqe_of ?e ?i)" "ov_file_index z = sqe_file_index (sqe_of ?e ?i)"
    by (rule arm_accept_shape [OF y(1)])
  have "ic_flight (r_be_state (fly y ?e)) = ic_flight (r_be_state (fly z ?e))" by (simp add: z(1))
  then have yz: "y = z" by (simp add: fly_def upd_ic_def)
  have l: "iocp_ring_inv (add_mset ?i H) (land 0 r)" using land_inv(1) [OF inv, of 0] by (simp add: x(1))
  then obtain X where "pool_ok (land 0 r) (add_mset ?i (X + H))"
    using iocp_ring.R_pool_all [OF l] by auto
  then have e: "sqe_of ?e ?i = sqe_of r ?i" by (simp add: emit_sqe_of(1)) (simp add: land_def upd_ic_posting)
  have "iocp_ring_inv H (fly y ?e)" using fly_inv(1) [of y H ?e] iocp_ring.emit_inv(1) [OF l] z(2) yz by simp
  moreover have "sqe_of (fly y ?e) ?i = sqe_of r ?i" using e by (simp add: fly_def upd_ic_posting)
  ultimately have "accepting H (fly y ?e)"
    using z(2-5) x(6,7) y(2) unfolding yz by (simp add: accepting_def e) (simp add: fly_def upd_ic_def)
  moreover have "packet_home ios 0 None bytes bk r w = (None, fly y ?e, w2)"
    using x(1-5) y(1)
    by (simp add: packet_home_def accept_home_def accept_answer_def Let_def land_def upd_ic_posting)
  ultimately show ?thesis using assms(3) by simp
qed

lemma endless_accepts:
  assumes "always_accepts ios" "accepting H r" "0 < cap"
  shows "iocp_wait ios r cap t w = None"
proof -
  define never where "never = (\<lambda>(ios :: 'a iocp_os) cap (out :: eng_done list) r.
    \<not> (always_accepts ios \<and> accepting H r \<and> length out < cap))"
  have "never ios cap [] r" if "iocp_collect ios cap t [] r w = Some y" for y
  proof (rule iocp_collect.raw_induct [where P = "\<lambda>ios cap t out r w y. never ios cap out r", OF _ that])
    fix loop ios cap t out r w y
    assume IH: "\<And>ios cap t out r w y. loop ios cap t out r w = Some y \<Longrightarrow> never ios cap out r"
      and eq: "(if length out < cap then
        (case port_get ios t r w of
           (None, w) \<Rightarrow> (if t < 0 then None else Some (out, r, w))
         | (Some Pk_poke, w) \<Rightarrow> loop ios cap 0 out (take_poke r) w
         | (Some (Pk_io k err bytes bk), w) \<Rightarrow>
             (case packet_home ios k err bytes bk r w of
                (answer, r, w) \<Rightarrow>
                  loop ios cap 0 (case answer of None \<Rightarrow> out | Some d \<Rightarrow> out @ [d]) r w))
      else Some (out, r, w)) = Some y"
    show "never ios cap out r"
      unfolding never_def
    proof
      assume A: "always_accepts ios \<and> accepting H r \<and> length out < cap"
      then obtain b bk w1 where g: "ios_get ios t w = (Some (Pk_io 0 None b bk), w1)"
        unfolding always_accepts_def by blast
      have "port_get ios t r w = (Some (Pk_io 0 None b bk), w1)"
        using A by (auto simp: port_get_def g port_has_def accepting_def)
      moreover obtain a r1 w2 where h: "packet_home ios 0 None b bk r w1 = (a, r1, w2)" by (metis prod_cases3)
      moreover have "a = None \<and> accepting H r1" using accepting_again [OF _ _ h] A by blast
      ultimately have "loop ios cap 0 out r1 w2 = Some y" "accepting H r1" using eq A by simp_all
      with IH A show False unfolding never_def by blast
    qed
  qed
  then show ?thesis
    using assms by (auto simp: iocp_wait_def never_def split: option.split)
qed

subsection \<open>Closing a ring\<close>

text \<open>A drain ends with nothing in flight, or after a second in which the port was silent.\<close>

lemma iocp_drain_ends:
  assumes "iocp_drain ios r w = (r', w')"
  shows "ic_flight (r_be_state r') = [] \<or> (\<exists>w1. port_get ios 1000 r' w1 = (None, w'))"
  using assms
proof (induction ios r w rule: iocp_drain.induct)
  case (1 ios r w)
  obtain p w1 where g: "port_get ios 1000 r w = (p, w1)" by fastforce
  show ?case
  proof (cases "ic_flight (r_be_state r) = [] \<or> p = None")
    case True
    then have "r' = r \<and> (ic_flight (r_be_state r) = [] \<or> w' = w1)"
      using 1(3) by (simp add: iocp_drain.simps [of ios r] g split: if_splits)
    with True g show ?thesis by auto
  next
    case False
    then obtain q where q: "p = Some q" by blast
    show ?thesis
    proof (cases q)
      case Pk_poke
      then have "iocp_drain ios (take_poke r) w1 = (r', w')"
        using 1(3) False by (simp add: iocp_drain.simps [of ios r] g q)
      then show ?thesis using 1(1) False g q Pk_poke by metis
    next
      case (Pk_io k err bytes bk)
      then have "iocp_drain ios (land k r) w1 = (r', w')"
        using 1(3) False by (simp add: iocp_drain.simps [of ios r] g q)
      then show ?thesis using 1(2) False g q Pk_io by metis
    qed
  qed
qed

text \<open>Nothing of it closes a socket.\<close>

lemma port_get_other [simp]: "port_get (ios\<lparr>ios_closesocket := f\<rparr>) t r w = port_get ios t r w"
  by (simp add: port_get_def)

lemma iocp_drain_other: "iocp_drain (ios\<lparr>ios_closesocket := f\<rparr>) r w = iocp_drain ios r w"
proof (induction ios r w rule: iocp_drain.induct)
  case (1 ios r w)
  let ?o = "ios\<lparr>ios_closesocket := f\<rparr>"
  obtain p w1 where g: "port_get ios 1000 r w = (p, w1)" by fastforce
  note unf = iocp_drain.simps [of ios r w] iocp_drain.simps [of ?o r w]
  show ?case
  proof (cases "ic_flight (r_be_state r) = [] \<or> p = None")
    case True
    then show ?thesis unfolding unf by (auto simp: g)
  next
    case False
    then obtain q where q: "p = Some q" by blast
    show ?thesis
    proof (cases q)
      case Pk_poke
      have "iocp_drain ?o (take_poke r) w1 = iocp_drain ios (take_poke r) w1"
        using 1(1) False g q Pk_poke by metis
      then show ?thesis unfolding unf using False by (simp add: g q Pk_poke)
    next
      case (Pk_io k err bytes bk)
      have "iocp_drain ?o (land k r) w1 = iocp_drain ios (land k r) w1"
        using 1(2) False g q Pk_io by metis
      then show ?thesis unfolding unf using False by (simp add: g q Pk_io)
    qed
  qed
qed

subsection \<open>Opening a file\<close>

text \<open>What a call to open does to a file that is there or is not.  The first function is what
  \<open>CreateFile\<close> documents for each disposition, the second what \<open>open\<close> does by its flags.\<close>

datatype open_effect = OE_FAILS | OE_CREATED | OE_AS_IT_IS | OE_EMPTIED

fun create_file_effect :: "file_disposition \<Rightarrow> bool \<Rightarrow> open_effect" where
  "create_file_effect OPEN_EXISTING there = (if there then OE_AS_IT_IS else OE_FAILS)"
| "create_file_effect CREATE_NEW there = (if there then OE_FAILS else OE_CREATED)"
| "create_file_effect OPEN_ALWAYS there = (if there then OE_AS_IT_IS else OE_CREATED)"
| "create_file_effect CREATE_ALWAYS there = (if there then OE_EMPTIED else OE_CREATED)"

definition posix_open_effect :: "u32 \<Rightarrow> bool \<Rightarrow> open_effect" where
  "posix_open_effect fl there =
     (if there then
        if o_creat fl \<and> o_excl fl then OE_FAILS else if o_trunc fl then OE_EMPTIED else OE_AS_IT_IS
      else if o_creat fl then OE_CREATED else OE_FAILS)"

lemma open_effects_agree:
  "create_file_effect (open_disposition fl) there = posix_open_effect fl there \<longleftrightarrow>
     \<not> o_trunc fl \<or> (if there then \<not> (o_creat fl \<and> o_excl fl) else o_creat fl)"
  by (auto simp: open_disposition_def posix_open_effect_def Let_def)

subsection \<open>What an op does not look at\<close>

text \<open>The fields of an entry that carry direct descriptors, provided buffers and multishot.\<close>

definition same_call :: "sqe \<Rightarrow> sqe \<Rightarrow> bool" where
  "same_call s t \<longleftrightarrow> sqe_opcode t = sqe_opcode s \<and> sqe_fd t = sqe_fd s \<and> sqe_off t = sqe_off s \<and>
     sqe_addr t = sqe_addr s \<and> sqe_len t = sqe_len s"

lemma issued_flies:
  "fst (issued x ret r) = fst (issued x ret s)" "snd (snd (issued x ret r)) = snd (snd (issued x ret s))"
  "fst (snd (issued x ret r)) \<in> {r, fly x r}"
  by (auto simp: issued_def split: prod.split winret.split)

lemma fly_tables [simp]: "r_fixed (fly x r) = r_fixed r" "r_bufrings (fly x r) = r_bufrings r"
  by (simp_all add: fly_def upd_ic_def)

lemma execute_ignores:
  assumes "sqe_opcode (sqe_of r i) \<in> {OP_CLOSE, OP_SOCKET, OP_RECV, OP_SEND}"
    "same_call (sqe_of r i) (sqe_of s i)"
    "iocp_execute ios i r w = (v, r', w')" "iocp_execute ios i s w = (v2, s', w2)"
  shows "v2 = v" "w2 = w'" "r_fixed r' = r_fixed r" "r_bufrings r' = r_bufrings r"
proof -
  have tables: "r_fixed r' = r_fixed r \<and> r_bufrings r' = r_bufrings r"
    using iocp_execute_issues [of i r ios w] by (auto simp: assms(3) issues_def)
  then show "r_fixed r' = r_fixed r" "r_bufrings r' = r_bufrings r" by auto
  have now: "v2 = v \<and> w2 = w'" if "done_now c i r w = (v, r', w')" "done_now c i s w = (v2, s', w2)"
    "\<And>w. c (sqe_of s i) w = c (sqe_of r i) w" for c
    using that by (auto simp: done_now_def split: prod.splits)
  have io: "v2 = v \<and> w2 = w'"
    if "iocp_stream_io ios i r w = (v, r', w')" "iocp_stream_io ios i s w = (v2, s', w2)"
    using that assms(2)
    by (auto simp: iocp_stream_io_def Let_def with_wrapper_def same_call_def issued_def
        split: prod.splits bool.splits winret.splits if_splits)
  have c: "iocp_close ios (sqe_of s i) w = iocp_close ios (sqe_of r i) w"
    "iocp_socket ios (sqe_of s i) w = iocp_socket ios (sqe_of r i) w" for w
    using assms(2) by (simp_all add: iocp_close_def iocp_socket_def same_call_def split: prod.split winret.split)
  have op: "sqe_opcode (sqe_of s i) = sqe_opcode (sqe_of r i)" using assms(2) by (simp add: same_call_def)
  have "v2 = v \<and> w2 = w'"
    using assms(1,3,4) now [of "iocp_close ios"] now [of "iocp_socket ios"] io
    by (auto simp: iocp_execute_def op c)
  then show "v2 = v" "w2 = w'" by auto
qed

end
