(* ===== verification/Sample_Iocp.thy ===== *)
theory Sample_Iocp
  imports Sample_Dispatch Iocp_Facts
begin

text \<open>A concrete Windows for the completion-port backend, and rings with ops in flight.\<close>

text \<open>Every call succeeds, and the port always offers the packet of the newest wrapper, with five
  bytes.\<close>

definition sample_ios :: "unit iocp_os" where
  "sample_ios = \<lparr>ios_startup = (\<lambda>_. (True, ())), ios_cleanup = (\<lambda>_. ()), ios_alloc = (\<lambda>_. (True, ())),
     ios_port = (\<lambda>_. (True, ())), ios_close_port = (\<lambda>_. ()), ios_assoc_sock = (\<lambda>_ _. (W_OK (), ())),
     ios_assoc_file = (\<lambda>_ _. (W_OK (), ())), ios_get = (\<lambda>_ _. (Some (Pk_io 0 None 5 (0, 0, 0)), ())),
     ios_cancel = (\<lambda>_ _. ()), ios_kept = (\<lambda>_ _. False), ios_keep = (\<lambda>_ _. ()),
     ios_wsaioctl = (\<lambda>_ _ _. (True, ())), ios_socket = (\<lambda>_ _ _ _. (W_OK 9, ())),
     ios_bind = (\<lambda>_ _ _ _. (W_OK (), ())), ios_listen = (\<lambda>_ _ _. (W_OK (), ())),
     ios_shutdown = (\<lambda>_ _ _. (W_OK (), ())), ios_closesocket = (\<lambda>_ _. (W_ERR WSAENOTSOCK, ())),
     ios_crt_close = (\<lambda>_ _. (True, ())), ios_getsockname = (\<lambda>_ _. False),
     ios_protocol = (\<lambda>_ _. Some 2), ios_bind_wildcard = (\<lambda>_ _ _ _. (True, ())),
     ios_acceptex = (\<lambda>_ _ _. (W_ERR WSA_IO_PENDING, ())), ios_accept_context = (\<lambda>_ _ _. ()),
     ios_connectex = (\<lambda>_ _ _ _. (W_OK (), ())), ios_connect_context = (\<lambda>_ _. ()),
     ios_wsarecv = (\<lambda>_ _ _ _. (W_ERR WSA_IO_PENDING, ())), ios_wsasend = (\<lambda>_ _ _ _. (W_OK (), ())),
     ios_ld_msghdr = (\<lambda>_ _. \<lparr>pm_name = 0, pm_namelen = 0, pm_iov = [], pm_control = 0, pm_controllen = 0,
       pm_flags = 0\<rparr>), ios_st_msghdr = (\<lambda>_ _ _. ()),
     ios_wsarecvmsg = (\<lambda>_ _ _. (W_OK (), ())), ios_wsasendmsg = (\<lambda>_ _ _ _. (W_OK (), ())),
     ios_create_file = (\<lambda>_ _ _ _. (W_OK 77, ())), ios_open_osfhandle = (\<lambda>_ _ _. (3, ())),
     ios_close_handle = (\<lambda>_ _. ()), ios_get_osfhandle = (\<lambda>_ _. Some 77),
     ios_read_file = (\<lambda>_ _ _ _ _ _. (W_OK (), ())), ios_write_file = (\<lambda>_ _ _ _ _ _. (W_OK (), ())),
     ios_stat64 = (\<lambda>_ _. None), ios_st_statx = (\<lambda>_ _ _. ()),
     ios_remove_directory = (\<lambda>_ _. (True, ())), ios_delete_file = (\<lambda>_ _. (True, ()))\<rparr>"

definition opened_iocp :: iocp_state where
  "opened_iocp = zero_iocp\<lparr>ic_there := True\<rparr>"

lemma opened_iocp_flight [simp]: "ic_flight opened_iocp = []" "in_flight opened_iocp = {#}"
  "ic_pokes opened_iocp = 0"
  by (simp_all add: opened_iocp_def zero_iocp_def in_flight_def)

lemma queued_iocp_inv: "length ss \<le> 4 \<Longrightarrow> iocp_ring_inv {#} (queued_ring opened_iocp ss)"
  using queued_ring_inv [OF no_waits.wait_invariant_axioms TrueI, of ss opened_iocp]
  by (simp add: iocp_ring_inv_def)

lemma submitted_iocp_inv: "rings_inv iocp_ring_inv (\<lambda>_. {#}) [submitted_ring opened_iocp]"
  using submitted_ring_inv [OF no_waits.wait_invariant_axioms TrueI, of opened_iocp]
  by (simp add: rings_inv_def iocp_ring_inv_def)

lemma submitted_dsp_inv: "rings_inv dsp_ring_inv (\<lambda>_. {#}) [submitted_ring opened_dsp]"
proof -
  have none: "wait_invariant (\<lambda>_ :: dsp_ring. True)" by unfold_locales simp_all
  have "ring_inv (\<lambda>_. True) {#} (submitted_ring opened_dsp)" by (rule submitted_ring_inv [OF none TrueI])
  moreover have "r_op_pool_n (submitted_ring opened_dsp) = 4" by (simp add: submitted_ring_def)
  moreover have "sides_inv (fds_ring (submitted_ring opened_dsp))"
    by (rule sides_inv_nil) (simp add: opened_dsp_def zero_dsp_def)
  ultimately have "dsp_ring_inv {#} (submitted_ring opened_dsp)"
    using opened_dsp_ok by (simp add: dsp_ring_ok_def ring_inv_def) (simp add: opened_dsp_def)
  then show ?thesis by (simp add: rings_inv_def)
qed

lemma sample_enter_dispatch:
  "map_option fst (sample_enter (slip_backend_dispatch sample_os sample_dso) opened_dsp) = Some 2"
  by code_simp

declare iocp_collect.simps [code]

lemma sample_enter_iocp: "map_option fst (sample_enter (slip_backend_iocp sample_ios) opened_iocp) = Some 2"
  by code_simp

text \<open>A multishot accept in flight, and the wait on it.\<close>

definition accept_sqe :: sqe where
  "accept_sqe = zero_sqe\<lparr>sqe_opcode := OP_ACCEPT, sqe_user_data := 5, sqe_fd := 4, sqe_ioprio := 1\<rparr>"

definition accepting_ring :: iocp_ring where
  "accepting_ring = fly ((new_wrapper 0 4 IOCP_KIND_ACCEPT)\<lparr>ov_accepted := 9, ov_multishot := True\<rparr>)
     ((queued_ring opened_iocp [accept_sqe])\<lparr>r_queue := []\<rparr>)"

lemma accepting_ring_inv: "iocp_ring_inv {#} accepting_ring"
proof -
  have "iocp_ring_inv {#} (queued_ring opened_iocp [accept_sqe])" by (rule queued_iocp_inv) simp
  from iocp_ring.take_queue_inv(1) [OF this, of "[]" 0 "[]"]
  show ?thesis unfolding accepting_ring_def by (intro fly_inv) (simp add: new_wrapper_def)
qed

lemma accepting_ring_flight [simp]:
  "ic_flight (r_be_state accepting_ring) = [(new_wrapper 0 4 IOCP_KIND_ACCEPT)\<lparr>ov_accepted := 9, ov_multishot := True\<rparr>]"
  by (simp add: accepting_ring_def fly_def upd_ic_def)

lemma accepting_ring_accepts: "accepting {#} accepting_ring"
proof -
  have "accept_multishot (sqe_of accepting_ring 0) \<and> sqe_file_index (sqe_of accepting_ring 0) = 0" by code_simp
  then show ?thesis by (simp add: accepting_def accepting_ring_inv new_wrapper_def neg32_unat)
qed

lemma sample_always_accepts: "always_accepts sample_ios"
  by (simp add: always_accepts_def sample_ios_def iocp_arm_accept_def iocp_acceptex_def iocp_extension_def
      iocp_associate_def Let_def) (auto simp: neg32_unat intro!: exI)

text \<open>A port that says nothing.\<close>

definition silent_ios :: "unit iocp_os" where
  "silent_ios = sample_ios\<lparr>ios_get := \<lambda>_ _. (None, ())\<rparr>"

end
