(* ===== verification/Inotify_Queue.thy ===== *)
theory Inotify_Queue
  imports Posix_Try
begin

text \<open>
  The records of \<open>slipstream_inotify.c\<close> and the byte queue they wait in
  (\<open>name_len\<close>, \<open>emit\<close>, \<open>emit_masked\<close> and the copying loop of \<open>slipstream_inotify_read\<close>, which are the same in the kqueue and the Windows arm).
  The queue is the list of the \<open>qlen\<close> bytes in use; \<open>qcap\<close> is what was allocated for them.
  The structs are stored the way a little-endian machine stores them.
\<close>

subsection \<open>Data\<close>

text \<open>A C string, without its NUL.\<close>

type_synonym cstr = "u8 list"

record inotify_event =
  ev_wd :: i32
  ev_mask :: u32
  ev_cookie :: u32
  ev_len :: u32

text \<open>One name in a watched directory, as the last look found it.\<close>

record entry =
  e_name :: cstr
  e_ino :: u64
  e_mtime_sec :: int
  e_mtime_nsec :: int
  e_size :: u64
  e_mode :: u32
  e_seen :: bool

text \<open>What the instances and the watches of both arms have in common; an arm adds its own.\<close>

record watch_common =
  wt_wd :: i32
  wt_path :: cstr
  wt_mask :: u32
  wt_is_dir :: bool

record inst_common =
  in_used :: bool
  in_nonblock :: bool
  in_next_wd :: i32
  in_next_cookie :: u32
  in_queue :: "u8 list"
  in_qcap :: nat
  in_overflowed :: bool

text \<open>The kqueue arm.\<close>

record watch = watch_common +
  wt_fd :: i32
  wt_kids :: "entry list"

record inst = inst_common +
  in_kq :: i32
  in_watches :: "watch list"

definition QUEUE_MAX :: nat where "QUEUE_MAX = 2 ^ 20"

definition IN_MODIFY :: u32 where "IN_MODIFY = 0x2"
definition IN_ATTRIB :: u32 where "IN_ATTRIB = 0x4"
definition IN_MOVED_FROM :: u32 where "IN_MOVED_FROM = 0x40"
definition IN_MOVED_TO :: u32 where "IN_MOVED_TO = 0x80"
definition IN_CREATE :: u32 where "IN_CREATE = 0x100"
definition IN_DELETE :: u32 where "IN_DELETE = 0x200"
definition IN_DELETE_SELF :: u32 where "IN_DELETE_SELF = 0x400"
definition IN_MOVE_SELF :: u32 where "IN_MOVE_SELF = 0x800"
definition IN_UNMOUNT :: u32 where "IN_UNMOUNT = 0x2000"
definition IN_Q_OVERFLOW :: u32 where "IN_Q_OVERFLOW = 0x4000"
definition IN_IGNORED :: u32 where "IN_IGNORED = 0x8000"
definition IN_ISDIR :: u32 where "IN_ISDIR = 0x40000000"
definition IN_ALL_EVENTS :: u32 where "IN_ALL_EVENTS = 0xfff"

lemmas in_defs = IN_MODIFY_def IN_ATTRIB_def IN_MOVED_FROM_def IN_MOVED_TO_def IN_CREATE_def
  IN_DELETE_def IN_DELETE_SELF_def IN_MOVE_SELF_def IN_UNMOUNT_def IN_Q_OVERFLOW_def
  IN_IGNORED_def IN_ISDIR_def IN_ALL_EVENTS_def

subsection \<open>Structs as bytes\<close>

definition st32 :: "u32 \<Rightarrow> u8 list" where
  "st32 x = [ucast x, ucast (drop_bit 8 x), ucast (drop_bit 16 x), ucast (drop_bit 24 x)]"

definition ld32 :: "u8 list \<Rightarrow> u32" where
  "ld32 bs = ucast (bs ! 0) OR push_bit 8 (ucast (bs ! 1)) OR push_bit 16 (ucast (bs ! 2))
     OR push_bit 24 (ucast (bs ! 3))"

definition SIZEOF_EVENT :: nat where "SIZEOF_EVENT = 16"

definition st_event :: "inotify_event \<Rightarrow> u8 list" where
  "st_event ev = st32 (ev_wd ev) @ st32 (ev_mask ev) @ st32 (ev_cookie ev) @ st32 (ev_len ev)"

definition ld_event :: "u8 list \<Rightarrow> inotify_event" where
  "ld_event bs = \<lparr>ev_wd = ld32 bs, ev_mask = ld32 (drop 4 bs), ev_cookie = ld32 (drop 8 bs),
     ev_len = ld32 (drop 12 bs)\<rparr>"

subsection \<open>Emitting\<close>

definition name_len :: "cstr option \<Rightarrow> u32" where
  "name_len name = (case name of None \<Rightarrow> 0
     | Some s \<Rightarrow> of_nat ((length s + 1 + 15) div 16 * 16))"

text \<open>The name with its padding: \<open>memset\<close> to NUL, then the characters.\<close>

definition st_name :: "cstr option \<Rightarrow> u8 list" where
  "st_name name = (case name of None \<Rightarrow> []
     | Some s \<Rightarrow> s @ replicate (unat (name_len name) - length s) 0)"

text \<open>\<open>while (want < need) want *= 2\<close>, from a capacity that is not 0.\<close>

function grow_want :: "nat \<Rightarrow> nat \<Rightarrow> nat" where
  "grow_want want need = (if want = 0 \<or> need \<le> want then want else grow_want (want * 2) need)"
  by pat_completeness auto
termination by (relation "measure (\<lambda>(want, need). need - want)") auto

declare grow_want.simps [simp del]

text \<open>Making room: \<open>realloc\<close> may refuse, and then the record is not made.\<close>

definition make_room ::
    "(nat \<Rightarrow> 'w \<Rightarrow> bool \<times> 'w) \<Rightarrow> nat \<Rightarrow> 'a inst_common_scheme \<Rightarrow> 'w
     \<Rightarrow> 'a inst_common_scheme option \<times> 'w" where
  "make_room realloc need inn w =
     (if need \<le> in_qcap inn then (Some inn, w)
      else
        let want = grow_want (if in_qcap inn = 0 then 4096 else in_qcap inn * 2) need in
        case realloc want w of (ok, w) \<Rightarrow> (if ok then Some (inn\<lparr>in_qcap := want\<rparr>) else None, w))"

definition emit ::
    "(nat \<Rightarrow> 'w \<Rightarrow> bool \<times> 'w) \<Rightarrow> i32 \<Rightarrow> u32 \<Rightarrow> u32 \<Rightarrow> cstr option \<Rightarrow>
     'a inst_common_scheme \<Rightarrow> 'w \<Rightarrow> 'a inst_common_scheme \<times> 'w" where
  "emit realloc wd mk cookie name inn w =
     (let len = name_len name;
          qlen = length (in_queue inn);
          total = SIZEOF_EVENT + unat len
      in if QUEUE_MAX < qlen + total then
           if in_overflowed inn \<or> QUEUE_MAX < qlen + SIZEOF_EVENT then (inn, w)
           else (inn\<lparr>in_queue := in_queue inn @
                     st_event \<lparr>ev_wd = - 1, ev_mask = IN_Q_OVERFLOW, ev_cookie = 0, ev_len = 0\<rparr>,
                   in_overflowed := True\<rparr>, w)
         else case make_room realloc (qlen + total) inn w of
           (None, w) \<Rightarrow> (inn, w)
         | (Some inn, w) \<Rightarrow>
             (inn\<lparr>in_queue := in_queue inn @
                  st_event \<lparr>ev_wd = wd, ev_mask = mk, ev_cookie = cookie, ev_len = len\<rparr> @ st_name name,
                in_overflowed := False\<rparr>, w))"

definition emit_masked ::
    "(nat \<Rightarrow> 'w \<Rightarrow> bool \<times> 'w) \<Rightarrow> 'b watch_common_scheme \<Rightarrow> u32 \<Rightarrow> u32 \<Rightarrow> cstr option \<Rightarrow> bool \<Rightarrow>
     'a inst_common_scheme \<Rightarrow> 'w \<Rightarrow> 'a inst_common_scheme \<times> 'w" where
  "emit_masked realloc wt mk cookie name isdir inn w =
     (if mk AND (wt_mask wt OR (IN_IGNORED OR IN_Q_OVERFLOW OR IN_UNMOUNT)) = 0 then (inn, w)
      else emit realloc (wt_wd wt) (mk OR (if isdir then IN_ISDIR else 0)) cookie name inn w)"

subsection \<open>Reading whole records\<close>

function whole_records :: "nat \<Rightarrow> u8 list \<Rightarrow> nat \<Rightarrow> nat" where
  "whole_records room q out =
     (if out < length q then
        let total = SIZEOF_EVENT + unat (ev_len (ld_event (drop out q))) in
        if room < out + total then out else whole_records room q (out + total)
      else out)"
  by pat_completeness auto
termination
  by (relation "measure (\<lambda>(room, q, out). length q - out)") (auto simp: SIZEOF_EVENT_def)

declare whole_records.simps [simp del]

text \<open>What a read does to one instance; \<open>look\<close> is how an arm fills a queue that is empty.  The
  answer and the bytes copied to the caller.\<close>

definition read_records ::
    "('a inst_common_scheme \<Rightarrow> 'w \<Rightarrow> ('a inst_common_scheme \<times> 'w) option) \<Rightarrow> nat \<Rightarrow>
     'a inst_common_scheme \<Rightarrow> 'w \<Rightarrow> (i32 \<times> u8 list \<times> 'a inst_common_scheme \<times> 'w) option" where
  "read_records look room inn w =
     Option.bind (if in_queue inn = [] then look inn w else Some (inn, w))
       (\<lambda>(inn, w).
         let q = in_queue inn; out = whole_records room q 0 in
         Some (if q = [] then (0, [], inn, w)
               else if out = 0 then (- EINVAL, [], inn, w)
               else (of_nat out, take out q, inn\<lparr>in_queue := drop out q\<rparr>, w)))"

subsection \<open>Records, abstractly\<close>

text \<open>A record as its reader sees it, and its bytes.\<close>

datatype ino_rec = Rec i32 u32 u32 "cstr option"

fun enc :: "ino_rec \<Rightarrow> u8 list" where
  "enc (Rec wd mk cookie name) =
     st_event \<lparr>ev_wd = wd, ev_mask = mk, ev_cookie = cookie, ev_len = name_len name\<rparr> @ st_name name"

definition overflow_rec :: ino_rec where
  "overflow_rec = Rec (- 1) IN_Q_OVERFLOW 0 None"

text \<open>The names the code handles: no NUL inside, and short enough for its 4096-byte path.\<close>

definition name_ok :: "cstr option \<Rightarrow> bool" where
  "name_ok name \<longleftrightarrow> (case name of None \<Rightarrow> True | Some s \<Rightarrow> 0 \<notin> set s \<and> length s < 4096)"

fun rec_ok :: "ino_rec \<Rightarrow> bool" where
  "rec_ok (Rec wd mk cookie name) = name_ok name"

text \<open>What the queue of an instance holds: whole records, no more than the bound, inside what
  was allocated, and an allocation that doubles.\<close>

definition holds :: "'a inst_common_scheme \<Rightarrow> ino_rec list \<Rightarrow> bool" where
  "holds inn rs \<longleftrightarrow> in_queue inn = concat (map enc rs) \<and> (\<forall>r \<in> set rs. rec_ok r) \<and>
     length (in_queue inn) \<le> QUEUE_MAX \<and> length (in_queue inn) \<le> in_qcap inn \<and>
     (in_qcap inn = 0 \<or> (\<exists>k. in_qcap inn = 4096 * 2 ^ k))"

text \<open>The longest prefix of records that fits a buffer.\<close>

fun fitting :: "nat \<Rightarrow> ino_rec list \<Rightarrow> ino_rec list" where
  "fitting room [] = []"
| "fitting room (r # rs) =
     (if length (enc r) \<le> room then r # fitting (room - length (enc r)) rs else [])"

subsection \<open>Bytes and back\<close>

lemma st32_length [simp]: "length (st32 x) = 4"
  by (simp add: st32_def)

lemma st_event_length [simp]: "length (st_event ev) = SIZEOF_EVENT"
  by (simp add: st_event_def SIZEOF_EVENT_def)

lemma ld32_st32 [simp]: "ld32 (st32 x @ rest) = x"
proof (rule bit_word_eqI)
  fix n assume "n < LENGTH(32)"
  then consider "n < 8" | "8 \<le> n" "n < 16" | "16 \<le> n" "n < 24" | "24 \<le> n" "n < 32" by simp linarith
  then show "bit (ld32 (st32 x @ rest)) n = bit x n"
    by cases (auto simp: ld32_def st32_def bit_simps)
qed

lemma ld_st_event [simp]: "ld_event (st_event ev @ rest) = ev"
proof -
  have "drop 4 (st32 a @ ys) = ys" for a ys by simp
  moreover have "drop 8 (st32 a @ st32 b @ ys) = ys" for a b ys by simp
  moreover have "drop 12 (st32 a @ st32 b @ st32 c @ ys) = ys" for a b c ys by simp
  ultimately show ?thesis by (simp add: ld_event_def st_event_def)
qed

lemma name_len_unat:
  assumes "name_ok name"
  shows "unat (name_len name) = (case name of None \<Rightarrow> 0 | Some s \<Rightarrow> (length s + 16) div 16 * 16)"
proof (cases name)
  case (Some s)
  then have "length s < 4096" using assms by (simp add: name_ok_def)
  then have "(length s + 16) div 16 * 16 < 2 ^ 32" by (simp add: less_mult_imp_div_less)
  then have "unat (of_nat ((length s + 16) div 16 * 16) :: u32) = (length s + 16) div 16 * 16"
    unfolding unat_of_nat by (intro mod_less) simp
  then show ?thesis using Some by (simp add: name_len_def add.commute del: of_nat_mult)
qed (simp add: name_len_def)

lemma st_name_length:
  assumes "name_ok name"
  shows "length (st_name name) = unat (name_len name)"
proof (cases name)
  case (Some s)
  have "length s \<le> (length s + 16) div 16 * 16" by presburger
  then show ?thesis using name_len_unat [OF assms] Some by (simp add: st_name_def)
qed (simp add: st_name_def name_len_def)

lemma name_len_bound:
  assumes "name_ok name"
  shows "unat (name_len name) \<le> 4112" "16 dvd unat (name_len name)"
proof -
  show "16 dvd unat (name_len name)" by (simp add: name_len_unat [OF assms] split: option.split)
  show "unat (name_len name) \<le> 4112"
    using assms by (auto simp: name_len_unat [OF assms] name_ok_def split: option.split)
qed

lemma enc_length: "rec_ok r \<Longrightarrow> length (enc r) = SIZEOF_EVENT + unat (ev_len (ld_event (enc r @ rest)))"
  by (cases r) (simp add: st_name_length)

lemma enc_bound: "rec_ok r \<Longrightarrow> length (enc r) \<le> 4128"
  using name_len_bound(1) by (cases r) (simp add: st_name_length SIZEOF_EVENT_def)

lemma enc_nonempty: "0 < length (enc r)"
  by (cases r) (simp add: SIZEOF_EVENT_def)

lemma enc_overflow: "enc overflow_rec =
    st_event \<lparr>ev_wd = - 1, ev_mask = IN_Q_OVERFLOW, ev_cookie = 0, ev_len = 0\<rparr>" "rec_ok overflow_rec"
  by (simp_all add: overflow_rec_def name_len_def st_name_def name_ok_def)

text \<open>A reader gets back what was written: the fields, and the name up to its first NUL.\<close>

lemma takeWhile_name: "0 \<notin> set s \<Longrightarrow> takeWhile (\<lambda>b. b \<noteq> 0) (s @ replicate n 0) = s"
  by (induction s) (auto simp: takeWhile_replicate)

lemma read_back:
  assumes "name_ok name" "bs = enc (Rec wd mk cookie name) @ rest"
  shows "ld_event bs = \<lparr>ev_wd = wd, ev_mask = mk, ev_cookie = cookie, ev_len = name_len name\<rparr>"
    "takeWhile (\<lambda>b. b \<noteq> 0) (take (unat (name_len name)) (drop SIZEOF_EVENT bs)) =
       (case name of None \<Rightarrow> [] | Some s \<Rightarrow> s)"
    "drop (SIZEOF_EVENT + unat (name_len name)) bs = rest"
  using assms st_name_length [OF assms(1)] takeWhile_name
  by (auto simp: st_name_def name_ok_def split: option.splits)

subsection \<open>The queue\<close>

lemma grow_want_ge: "want \<noteq> 0 \<Longrightarrow> need \<le> grow_want want need"
  by (induction want need rule: grow_want.induct) (subst grow_want.simps, auto)

lemma grow_want_pow2: "want = 4096 * 2 ^ k \<Longrightarrow> \<exists>k. grow_want want need = 4096 * 2 ^ k"
proof (induction want need arbitrary: k rule: grow_want.induct)
  case (1 want need)
  show ?case
  proof (cases "want = 0 \<or> need \<le> want")
    case False
    moreover have "want * 2 = 4096 * 2 ^ Suc k" using "1.prems" by simp
    ultimately have "\<exists>k. grow_want (want * 2) need = 4096 * 2 ^ k" using "1.IH" by blast
    then show ?thesis using False by (subst grow_want.simps) simp
  qed (use "1.prems" in \<open>subst grow_want.simps, auto\<close>)
qed

lemma make_room_ok:
  assumes "make_room realloc need inn w = (Some inn', w')"
    "in_qcap inn = 0 \<or> (\<exists>k. in_qcap inn = 4096 * 2 ^ k)"
  shows "need \<le> in_qcap inn'" "in_qcap inn' = 0 \<or> (\<exists>k. in_qcap inn' = 4096 * 2 ^ k)"
    "inn' = inn\<lparr>in_qcap := in_qcap inn'\<rparr>"
proof -
  let ?start = "if in_qcap inn = 0 then 4096 else in_qcap inn * 2"
  obtain k where k: "?start = 4096 * 2 ^ k"
  proof (cases "in_qcap inn = 0")
    case True
    then show ?thesis using that [of 0] by simp
  next
    case False
    then have "\<exists>k. in_qcap inn = 4096 * 2 ^ k" using assms(2) by simp
    then show ?thesis using that [of "Suc _"] False by auto
  qed
  have "?start \<noteq> 0" by simp
  note g = grow_want_ge [OF this, of need] grow_want_pow2 [OF k, of need]
  show "need \<le> in_qcap inn'" "in_qcap inn' = 0 \<or> (\<exists>k. in_qcap inn' = 4096 * 2 ^ k)"
    "inn' = inn\<lparr>in_qcap := in_qcap inn'\<rparr>"
    using assms g by (auto simp: make_room_def Let_def split: if_splits prod.splits)
qed

text \<open>Where the queue is nearly full it was grown to its bound: the overflow record, written
  without growing, fits.\<close>

lemma near_full_cap:
  assumes "QUEUE_MAX < q + 4128" "q \<le> c" "c = 0 \<or> (\<exists>k. c = 4096 * 2 ^ k)"
  shows "QUEUE_MAX \<le> c"
proof -
  obtain k where k: "c = 4096 * 2 ^ k" using assms by (auto simp: QUEUE_MAX_def)
  have "\<not> k < 8"
  proof
    assume "k < 8"
    then have "(2::nat) ^ k \<le> 2 ^ 7" by (intro power_increasing) auto
    then show False using assms k by (simp add: QUEUE_MAX_def)
  qed
  then have "(2::nat) ^ 8 \<le> 2 ^ k" by (intro power_increasing) auto
  then show ?thesis using k by (simp add: QUEUE_MAX_def)
qed

text \<open>What emitting one record may do to a queue of whole records.\<close>

lemma emit_record_cases:
  assumes "holds inn rs" "name_ok name"
  obtains (made) w' c where "emit realloc wd mk cookie name inn w =
        (inn\<lparr>in_queue := in_queue inn @ enc (Rec wd mk cookie name), in_qcap := c, in_overflowed := False\<rparr>, w')"
      "holds (fst (emit realloc wd mk cookie name inn w)) (rs @ [Rec wd mk cookie name])"
    | (overflow) "emit realloc wd mk cookie name inn w =
        (inn\<lparr>in_queue := in_queue inn @ enc overflow_rec, in_overflowed := True\<rparr>, w)"
      "holds (fst (emit realloc wd mk cookie name inn w)) (rs @ [overflow_rec])" "\<not> in_overflowed inn"
      "QUEUE_MAX < length (in_queue inn) + length (enc (Rec wd mk cookie name))"
    | (lost) w' where "emit realloc wd mk cookie name inn w = (inn, w')"
proof -
  let ?r = "Rec wd mk cookie name" and ?q = "length (in_queue inn)"
  have ok: "rec_ok ?r" using assms(2) by simp
  note nl = st_name_length [OF assms(2)]
  have len: "length (enc ?r) = SIZEOF_EVENT + unat (name_len name)" by (simp add: nl)
  show ?thesis
  proof (cases "QUEUE_MAX < ?q + length (enc ?r)")
    case True
    show ?thesis
    proof (cases "in_overflowed inn \<or> QUEUE_MAX < ?q + SIZEOF_EVENT")
      case True
      then have "emit realloc wd mk cookie name inn w = (inn, w)"
        using \<open>QUEUE_MAX < ?q + length (enc ?r)\<close> by (simp add: emit_def Let_def nl)
      then show ?thesis by (rule lost)
    next
      case False
      then have e: "emit realloc wd mk cookie name inn w =
          (inn\<lparr>in_queue := in_queue inn @ enc overflow_rec, in_overflowed := True\<rparr>, w)"
        using True by (simp add: emit_def Let_def nl enc_overflow)
      have "QUEUE_MAX < ?q + 4128" using True enc_bound [OF ok] by linarith
      then have "QUEUE_MAX \<le> in_qcap inn"
        using assms(1) unfolding holds_def by (intro near_full_cap [of ?q]) blast+
      then have "holds (fst (emit realloc wd mk cookie name inn w)) (rs @ [overflow_rec])"
        using assms(1) False by (auto simp: e holds_def enc_overflow)
      with e False True show ?thesis by (intro overflow) auto
    qed
  next
    case False
    note fits = this
    show ?thesis
    proof (cases "make_room realloc (?q + length (enc ?r)) inn w")
      case (Pair x w')
      show ?thesis
      proof (cases x)
        case None
        then have "emit realloc wd mk cookie name inn w = (inn, w')"
          using fits Pair by (simp add: emit_def Let_def nl)
        then show ?thesis by (rule lost)
      next
        case (Some inn')
        note m = make_room_ok [OF Pair [unfolded Some]]
        have cap: "in_qcap inn = 0 \<or> (\<exists>k. in_qcap inn = 4096 * 2 ^ k)" using assms(1) by (simp add: holds_def)
        obtain c where c: "inn' = inn\<lparr>in_qcap := c\<rparr>" using m(3) [OF cap] by blast
        have e: "emit realloc wd mk cookie name inn w =
            (inn\<lparr>in_queue := in_queue inn @ enc ?r, in_qcap := c, in_overflowed := False\<rparr>, w')"
          using fits Pair Some by (simp add: emit_def Let_def nl c)
        moreover have "holds (fst (emit realloc wd mk cookie name inn w)) (rs @ [?r])"
          using m(1,2) [OF cap] fits assms by (simp add: e holds_def c)
        ultimately show ?thesis by (rule made)
      qed
    qed
  qed
qed

subsection \<open>Reading\<close>

lemma whole_records_fitting:
  assumes "\<forall>r \<in> set rs. rec_ok r"
  shows "whole_records room (pre @ concat (map enc rs)) (length pre) =
    length pre + length (concat (map enc (fitting (room - length pre) rs)))"
  using assms
proof (induction rs arbitrary: pre)
  case Nil
  then show ?case by (simp add: whole_records.simps)
next
  case (Cons r rs)
  let ?q = "pre @ concat (map enc (r # rs))"
  have total: "SIZEOF_EVENT + unat (ev_len (ld_event (drop (length pre) ?q))) = length (enc r)"
    using enc_length [of r "concat (map enc rs)"] Cons.prems by simp
  have in_q: "length pre < length ?q" using enc_nonempty [of r] by simp
  show ?case
  proof (cases "room < length pre + length (enc r)")
    case True
    have "whole_records room ?q (length pre) = length pre"
      using in_q total True by (subst whole_records.simps) (simp add: Let_def del: concat.simps list.map)
    moreover have "\<not> length (enc r) \<le> room - length pre"
      using True enc_nonempty [of r] by linarith
    ultimately show ?thesis by simp
  next
    case False
    have "whole_records room ?q (length pre) = whole_records room ((pre @ enc r) @ concat (map enc rs)) (length (pre @ enc r))"
      using in_q total False by (subst whole_records.simps) (simp add: Let_def)
    also have "\<dots> = length (pre @ enc r) + length (concat (map enc (fitting (room - length (pre @ enc r)) rs)))"
      using Cons.prems by (intro Cons.IH) simp
    finally show ?thesis using False by (simp add: diff_diff_add le_diff_conv2)
  qed
qed

lemma fitting_prefix: "\<exists>k. fitting room rs = take k rs"
proof (induction rs arbitrary: room)
  case (Cons r rs)
  obtain k where "fitting (room - length (enc r)) rs = take k rs" using Cons by blast
  then have "fitting room (r # rs) = take (if length (enc r) \<le> room then Suc k else 0) (r # rs)" by simp
  then show ?case by blast
qed simp

lemma fitting_bound: "length (concat (map enc (fitting room rs))) \<le> room"
proof (induction rs arbitrary: room)
  case (Cons r rs)
  from Cons.IH [of "room - length (enc r)"] show ?case by auto
qed simp

lemma fitting_maximal:
  assumes "fitting room rs = take k rs" "k < length rs"
  shows "room < length (concat (map enc (take (Suc k) rs)))"
  using assms
proof (induction rs arbitrary: room k)
  case (Cons r rs)
  show ?case
  proof (cases k)
    case (Suc j)
    then have f: "length (enc r) \<le> room" "fitting (room - length (enc r)) rs = take j rs" "j < length rs"
      using Cons.prems by (auto split: if_splits)
    from Cons.IH [OF f(2,3)] f(1) show ?thesis by (simp add: Suc)
  qed (use Cons.prems in \<open>auto split: if_splits\<close>)
qed simp

end
