(* ===== verification/Inotify_Tell.thy ===== *)
theory Inotify_Tell
  imports Inotify_Queue
begin

text \<open>
  What making records does to an instance, whichever arm makes them: they are appended whole to
  its queue, in their order, as far as memory and the bound allow, and nothing else of it changes.
\<close>

subsection \<open>Telling\<close>

fun emit_all :: "(nat \<Rightarrow> 'w \<Rightarrow> bool \<times> 'w) \<Rightarrow> ino_rec list \<Rightarrow> 'a inst_common_scheme \<Rightarrow> 'w
     \<Rightarrow> 'a inst_common_scheme \<times> 'w" where
  "emit_all realloc [] inn w = (inn, w)"
| "emit_all realloc (Rec wd mk cookie name # rs) inn w =
     (case emit realloc wd mk cookie name inn w of (inn, w) \<Rightarrow> emit_all realloc rs inn w)"

text \<open>From one state to another by emitting \<open>rs\<close> in their order, the cookie aside.\<close>

definition says :: "(nat \<Rightarrow> 'w \<Rightarrow> bool \<times> 'w) \<Rightarrow> 'a inst_common_scheme \<Rightarrow> 'w \<Rightarrow>
     ino_rec list \<Rightarrow> 'a inst_common_scheme \<Rightarrow> 'w \<Rightarrow> bool" where
  "says realloc inn w rs inn' w' \<longleftrightarrow>
     (\<exists>c i'. emit_all realloc rs inn w = (i', w') \<and> inn' = i'\<lparr>in_next_cookie := c\<rparr>)"

lemma make_room_cookie: "make_room realloc n (inn\<lparr>in_next_cookie := c\<rparr>) w =
    map_prod (map_option (\<lambda>i. i\<lparr>in_next_cookie := c\<rparr>)) id (make_room realloc n inn w)"
  by (auto simp: make_room_def Let_def split: prod.split)

lemma emit_cookie: "emit realloc wd mk ck name (inn\<lparr>in_next_cookie := c\<rparr>) w =
    map_prod (\<lambda>i. i\<lparr>in_next_cookie := c\<rparr>) id (emit realloc wd mk ck name inn w)"
  by (auto simp: emit_def Let_def make_room_cookie split: prod.split option.split)

lemma emit_all_cookie: "emit_all realloc rs (inn\<lparr>in_next_cookie := c\<rparr>) w =
    map_prod (\<lambda>i. i\<lparr>in_next_cookie := c\<rparr>) id (emit_all realloc rs inn w)"
proof (induction rs arbitrary: inn w)
  case (Cons r rs)
  then show ?case by (cases r) (auto simp: emit_cookie split: prod.split)
qed simp

lemma emit_all_append:
  "emit_all realloc (rs @ rs') inn w = (case emit_all realloc rs inn w of (inn, w) \<Rightarrow> emit_all realloc rs' inn w)"
proof (induction rs arbitrary: inn w)
  case (Cons r rs)
  then show ?case by (cases r) (simp split: prod.split)
qed simp

lemma says_refl [simp]: "says realloc inn w [] inn w"
  unfolding says_def by (intro exI [of _ "in_next_cookie inn"]) simp

lemma says_cookie: "says realloc inn w [] (inn\<lparr>in_next_cookie := c\<rparr>) w"
  by (auto simp: says_def)

lemma says_trans [trans]:
  assumes "says realloc inn w rs i1 w1" "says realloc i1 w1 rs' i2 w2"
  shows "says realloc inn w (rs @ rs') i2 w2"
proof -
  obtain c a where a: "emit_all realloc rs inn w = (a, w1)" "i1 = a\<lparr>in_next_cookie := c\<rparr>"
    using assms(1) by (auto simp: says_def)
  obtain d b where b: "emit_all realloc rs' i1 w1 = (b, w2)" "i2 = b\<lparr>in_next_cookie := d\<rparr>"
    using assms(2) by (auto simp: says_def)
  obtain b0 where "emit_all realloc rs' a w1 = (b0, w2)" "b = b0\<lparr>in_next_cookie := c\<rparr>"
    using b(1) by (cases "emit_all realloc rs' a w1") (auto simp: a(2) emit_all_cookie)
  then show ?thesis using a(1) b(2) by (auto simp: says_def emit_all_append)
qed

lemma says_emit: "emit realloc wd mk ck name inn w = (i', w') \<Longrightarrow> says realloc inn w [Rec wd mk ck name] i' w'"
  unfolding says_def by (intro exI [of _ "in_next_cookie i'"]) simp

text \<open>The records a masked emission makes.\<close>

definition told :: "'b watch_common_scheme \<Rightarrow> u32 \<Rightarrow> u32 \<Rightarrow> cstr option \<Rightarrow> bool \<Rightarrow> ino_rec list" where
  "told wt mk cookie name isdir =
     (if mk AND (wt_mask wt OR (IN_IGNORED OR IN_Q_OVERFLOW OR IN_UNMOUNT)) = 0 then []
      else [Rec (wt_wd wt) (mk OR (if isdir then IN_ISDIR else 0)) cookie name])"

lemma says_masked:
  "emit_masked realloc wt mk ck name isdir inn w = (i', w') \<Longrightarrow> says realloc inn w (told wt mk ck name isdir) i' w'"
  by (auto simp: emit_masked_def told_def intro: says_emit split: if_splits)

lemma told_ok [simp]: "name_ok name \<Longrightarrow> r \<in> set (told wt mk ck name isdir) \<Longrightarrow> rec_ok r"
  by (auto simp: told_def split: if_splits)

subsection \<open>What telling leaves alone\<close>

definition same_inst :: "'a inst_common_scheme \<Rightarrow> 'a inst_common_scheme \<Rightarrow> bool" where
  "same_inst a b \<longleftrightarrow> in_used b = in_used a \<and> in_nonblock b = in_nonblock a \<and>
     in_next_wd b = in_next_wd a \<and> inst_common.more b = inst_common.more a"

lemma emit_says_holds:
  assumes "emit realloc wd mk ck name inn w = (i', w')" "holds inn rs" "name_ok name"
  shows "\<exists>rs'. holds i' (rs @ rs') \<and> same_inst inn i'"
  by (rule emit_record_cases [OF assms(2,3), of realloc wd mk ck w])
    (use assms in \<open>auto simp: same_inst_def intro: exI [of _ "[]"]\<close>)

lemma says_holds:
  assumes "says realloc inn w rs i' w'" "holds inn old" "\<forall>r \<in> set rs. rec_ok r"
  shows "(\<exists>new. holds i' (old @ new)) \<and> same_inst inn i'"
proof -
  have "(\<exists>new. holds a (old @ new)) \<and> same_inst inn a"
    if "emit_all realloc rs inn w = (a, w')" "holds inn old" "\<forall>r \<in> set rs. rec_ok r" for a
    using that
  proof (induction rs arbitrary: inn w old)
    case Nil
    then show ?case by (auto simp: same_inst_def intro: exI [of _ "[]"])
  next
    case (Cons r rs)
    obtain wd mk ck name where r: "r = Rec wd mk ck name" by (cases r)
    obtain i1 w1 where e: "emit realloc wd mk ck name inn w = (i1, w1)"
      by (cases "emit realloc wd mk ck name inn w")
    obtain rs1 where h: "holds i1 (old @ rs1)" "same_inst inn i1"
      using emit_says_holds [OF e Cons.prems(2)] Cons.prems(3) by (auto simp: r)
    have "emit_all realloc rs i1 w1 = (a, w')" using Cons.prems(1) by (simp add: r e)
    from Cons.IH [OF this h(1)] Cons.prems(3) h(2) show ?case by (auto simp: same_inst_def)
  qed
  moreover obtain c a where "emit_all realloc rs inn w = (a, w')" "i' = a\<lparr>in_next_cookie := c\<rparr>"
    using assms(1) by (auto simp: says_def)
  ultimately show ?thesis using assms by (auto simp: holds_def same_inst_def)
qed

text \<open>Where memory and the queue suffice, every record arrives.\<close>

lemma holds_next_cookie: "holds (inn\<lparr>in_next_cookie := c\<rparr>) rs = holds inn rs"
  by (simp add: holds_def)

lemma emit_grows:
  assumes "\<forall>n w. fst (realloc n w)" "length (in_queue inn) + (SIZEOF_EVENT + unat (name_len name)) \<le> QUEUE_MAX"
  shows "length (in_queue inn) < length (in_queue (fst (emit realloc wd mk ck name inn w)))"
proof -
  let ?n = "length (in_queue inn) + (SIZEOF_EVENT + unat (name_len name))"
  obtain i1 w1 where "make_room realloc ?n inn w = (Some i1, w1)" "in_queue i1 = in_queue inn"
    using assms(1) by (cases "?n \<le> in_qcap inn") (auto simp: make_room_def Let_def case_prod_beta)
  then show ?thesis using assms(2) by (simp add: emit_def Let_def SIZEOF_EVENT_def)
qed

lemma emit_all_made:
  assumes "emit_all realloc rs inn w = (i', w')" "holds inn old" "\<forall>r \<in> set rs. rec_ok r"
    "\<forall>n w. fst (realloc n w)" "length (in_queue inn) + length (concat (map enc rs)) \<le> QUEUE_MAX"
  shows "holds i' (old @ rs)"
  using assms
proof (induction rs arbitrary: inn w old)
  case (Cons r rs)
  obtain wd mk ck name where r: "r = Rec wd mk ck name" by (cases r)
  have ok: "name_ok name" using Cons.prems(3) r by simp
  obtain i1 w1 where e: "emit realloc wd mk ck name inn w = (i1, w1)"
    by (cases "emit realloc wd mk ck name inn w")
  have rest: "emit_all realloc rs i1 w1 = (i', w')" using Cons.prems(1) by (simp add: r e)
  from Cons.prems(2) ok have "holds i1 (old @ [r]) \<and> in_queue i1 = in_queue inn @ enc r"
  proof (cases rule: emit_record_cases [where realloc = realloc and wd = wd and mk = mk and cookie = ck and w = w])
    case made
    then show ?thesis using e by (simp add: r)
  next
    case overflow
    then show ?thesis using Cons.prems(5) by (simp add: r)
  next
    case (lost v)
    have "length (in_queue inn) + (SIZEOF_EVENT + unat (name_len name)) \<le> QUEUE_MAX"
      using Cons.prems(5) st_name_length [OF ok] by (simp add: r)
    from emit_grows [OF Cons.prems(4) this, of wd mk ck w] show ?thesis using lost by simp
  qed
  then show ?case using Cons.IH [OF rest, of "old @ [r]"] Cons.prems(3-5) by simp
qed simp

lemma says_made:
  assumes "says realloc inn w rs i' w'" "holds inn old" "\<forall>r \<in> set rs. rec_ok r"
    "\<forall>n w. fst (realloc n w)" "length (in_queue inn) + length (concat (map enc rs)) \<le> QUEUE_MAX"
  shows "holds i' (old @ rs)"
proof -
  obtain c a where a: "emit_all realloc rs inn w = (a, w')" "i' = a\<lparr>in_next_cookie := c\<rparr>"
    using assms(1) by (auto simp: says_def)
  from emit_all_made [OF a(1) assms(2-5)] show ?thesis unfolding a(2) holds_next_cookie .
qed

end
