(* ===== verification/Inotify_Win.thy ===== *)
theory Inotify_Win
  imports Inotify_Tell
begin

text \<open>
  The Windows arm of \<open>src/src/slipstream_inotify.c\<close>, over \<open>ReadDirectoryChangesW\<close> and a completion
  port, and the last arm, which has no mechanism.  The records and their queue are those of
  \<open>Inotify_Queue\<close>.  A buffer that a read has filled comes with its packet, as the list of its
  notifications (empty where the byte count is 0); the \<open>OVERLAPPED\<close>s carry nothing the code reads.
  The system underneath is the record \<open>wino_os\<close>.  The table \<open>g_inst[]\<close> is a list of instances.
\<close>

subsection \<open>The system underneath\<close>

type_synonym handle = u64

definition INVALID_HANDLE :: handle where "INVALID_HANDLE = - 1"

datatype file_action = FA_ADDED | FA_REMOVED | FA_MODIFIED | FA_RENAMED_OLD | FA_RENAMED_NEW | FA_OTHER

record notification =
  nt_action :: file_action
  nt_name :: "u16 list"

text \<open>A packet: its key, whether the read succeeded, and what it brought.\<close>

record win_packet =
  pk_key :: i32
  pk_ok :: bool
  pk_chain :: "notification list"

record 'w wino_os =
  wi_malloc :: "nat \<Rightarrow> 'w \<Rightarrow> bool \<times> 'w"          \<comment> \<open>\<open>calloc\<close>, \<open>realloc\<close> and \<open>_strdup\<close>\<close>
  wi_attrs :: "cstr \<Rightarrow> 'w \<Rightarrow> u32 option"
  wi_new_port :: "'w \<Rightarrow> handle option \<times> 'w"
  wi_open :: "cstr \<Rightarrow> 'w \<Rightarrow> handle \<times> 'w"
  wi_assoc :: "handle \<Rightarrow> handle \<Rightarrow> i32 \<Rightarrow> 'w \<Rightarrow> bool \<times> 'w"
  wi_read_changes :: "handle \<Rightarrow> u32 \<Rightarrow> 'w \<Rightarrow> bool \<times> 'w"
  wi_cancel :: "handle \<Rightarrow> 'w \<Rightarrow> 'w"
  wi_close :: "handle \<Rightarrow> 'w \<Rightarrow> 'w"
  wi_get :: "handle \<Rightarrow> nat \<Rightarrow> 'w \<Rightarrow> win_packet option \<times> 'w"
  wi_delete_pending :: "handle \<Rightarrow> 'w \<Rightarrow> bool option"
  wi_find :: "cstr \<Rightarrow> 'w \<Rightarrow> (cstr \<times> u32) list option \<times> 'w"
  wi_utf8 :: "u16 list \<Rightarrow> int \<Rightarrow> 'w \<Rightarrow> u8 list"   \<comment> \<open>nothing where it fails\<close>

definition EACCES :: i32 where "EACCES = 13"

definition FILE_ATTRIBUTE_DIRECTORY_BIT :: nat where "FILE_ATTRIBUTE_DIRECTORY_BIT = 4"

text \<open>What the two reads ask for.\<close>

definition NOTIFY_NAMES :: u32 where "NOTIFY_NAMES = 0x3"
definition NOTIFY_ALL :: u32 where "NOTIFY_ALL = 0x5f"

subsection \<open>Data\<close>

record wwatch = watch_common +
  ww_dir :: handle
  ww_up :: handle
  ww_only :: "cstr option"
  ww_self_name :: "cstr option"
  ww_pending :: bool
  ww_dirs :: "cstr list"

record winst = inst_common +
  wn_port :: handle
  wn_key :: i32
  wn_open_cookie :: u32
  wn_watches :: "wwatch list"

definition UP_KEY :: "i32 \<Rightarrow> i32" where "UP_KEY wd = wd + 0x40000000"

definition INST_MAX :: nat where "INST_MAX = 64"

definition winst_of :: "winst list \<Rightarrow> i32 \<Rightarrow> nat option" where
  "winst_of tbl fd = List.find (\<lambda>i. in_used (tbl ! i) \<and> wn_key (tbl ! i) = fd) [0..<INST_MAX]"

subsection \<open>Names\<close>

definition BACKSLASH :: u8 where "BACKSLASH = 92"
definition FSLASH :: u8 where "FSLASH = 47"

text \<open>\<open>snprintf\<close> with \<open>%s\\%s\<close> into an array of 4096.\<close>

definition joined :: "cstr \<Rightarrow> cstr \<Rightarrow> cstr" where
  "joined path name = take 4095 (path @ BACKSLASH # name)"

definition to_lower :: "u8 \<Rightarrow> u8" where
  "to_lower b = (if 65 \<le> b \<and> b \<le> 90 then b + 32 else b)"

definition stricmp_equal :: "cstr \<Rightarrow> cstr \<Rightarrow> bool" where
  "stricmp_equal a b \<longleftrightarrow> map to_lower a = map to_lower b"

text \<open>The place of the last separator of either kind.\<close>

definition last_cut :: "cstr \<Rightarrow> nat option" where
  "last_cut p = List.find (\<lambda>i. p ! i = BACKSLASH \<or> p ! i = FSLASH) (rev [0..<length p])"

definition path_is_dir :: "'w wino_os \<Rightarrow> cstr \<Rightarrow> 'w \<Rightarrow> bool" where
  "path_is_dir wi path w =
     (case wi_attrs wi path w of None \<Rightarrow> False | Some a \<Rightarrow> bit a FILE_ATTRIBUTE_DIRECTORY_BIT)"

text \<open>A name as the code goes on with it: the characters up to the first NUL, none where the
  conversion fails.\<close>

definition utf8_of :: "'w wino_os \<Rightarrow> u16 list \<Rightarrow> int \<Rightarrow> 'w \<Rightarrow> u8 list option" where
  "utf8_of wi wide room w =
     (let out = take (nat (room - 1)) (wi_utf8 wi wide (room - 1) w) in if out = [] then None else Some out)"

definition notified_name :: "'w wino_os \<Rightarrow> notification \<Rightarrow> 'w \<Rightarrow> cstr" where
  "notified_name wi nt w =
     (case utf8_of wi (nt_name nt) 512 w of None \<Rightarrow> [] | Some out \<Rightarrow> takeWhile (\<lambda>b. b \<noteq> 0) out)"

subsection \<open>The names that are directories\<close>

definition is_known_dir :: "wwatch \<Rightarrow> cstr \<Rightarrow> bool" where
  "is_known_dir wt name \<longleftrightarrow> name \<in> set (ww_dirs wt)"

definition remember_dir :: "'w wino_os \<Rightarrow> cstr \<Rightarrow> wwatch \<Rightarrow> 'w \<Rightarrow> wwatch \<times> 'w" where
  "remember_dir wi name wt w =
     (if is_known_dir wt name then (wt, w)
      else case wi_malloc wi (length (ww_dirs wt) + 1) w of
        (False, w) \<Rightarrow> (wt, w)
      | (True, w) \<Rightarrow>
          (case wi_malloc wi (length name + 1) w of
             (False, w) \<Rightarrow> (wt, w)
           | (True, w) \<Rightarrow> (wt\<lparr>ww_dirs := ww_dirs wt @ [name]\<rparr>, w)))"

definition forget_dir :: "cstr \<Rightarrow> wwatch \<Rightarrow> wwatch" where
  "forget_dir name wt = wt\<lparr>ww_dirs := remove1 name (ww_dirs wt)\<rparr>"

subsection \<open>Reads and their end\<close>

definition arm_up_read :: "'w wino_os \<Rightarrow> wwatch \<Rightarrow> 'w \<Rightarrow> bool \<times> 'w" where
  "arm_up_read wi wt w =
     (if ww_up wt = INVALID_HANDLE then (True, w) else wi_read_changes wi (ww_up wt) NOTIFY_NAMES w)"

definition arm_read :: "'w wino_os \<Rightarrow> wwatch \<Rightarrow> 'w \<Rightarrow> bool \<times> wwatch \<times> 'w" where
  "arm_read wi wt w =
     (case wi_read_changes wi (ww_dir wt) NOTIFY_ALL w of (ok, w) \<Rightarrow> (ok, wt\<lparr>ww_pending := ok\<rparr>, w))"

definition close_handle :: "'w wino_os \<Rightarrow> handle \<Rightarrow> 'w \<Rightarrow> 'w" where
  "close_handle wi h w = (if h = INVALID_HANDLE then w else wi_close wi h (wi_cancel wi h w))"

definition watch_free :: "'w wino_os \<Rightarrow> wwatch \<Rightarrow> 'w \<Rightarrow> 'w" where
  "watch_free wi wt w = close_handle wi (ww_up wt) (close_handle wi (ww_dir wt) w)"

definition win_forget :: "'w wino_os \<Rightarrow> nat \<Rightarrow> winst \<Rightarrow> 'w \<Rightarrow> winst \<times> 'w" where
  "win_forget wi at inn w =
     (inn\<lparr>wn_watches := take at (wn_watches inn) @ drop (Suc at) (wn_watches inn)\<rparr>,
      watch_free wi (wn_watches inn ! at) w)"

subsection \<open>Notifications\<close>

text \<open>What is said of a name of the watched directory.  The watch is asked for a file where
  \<open>ww_only\<close> is a name.\<close>

definition say_action ::
    "'w wino_os \<Rightarrow> wwatch \<Rightarrow> file_action \<Rightarrow> cstr \<Rightarrow> bool \<Rightarrow> winst \<Rightarrow> 'w \<Rightarrow> wwatch \<times> winst \<times> 'w" where
  "say_action wi wt act name isdir inn w =
     (let one_file = (ww_only wt \<noteq> None);
          say = (if one_file then None else Some name);
          tell = emit_masked (wi_malloc wi) wt
      in case act of
           FA_ADDED \<Rightarrow> (case tell IN_CREATE 0 say isdir inn w of (inn, w) \<Rightarrow> (wt, inn, w))
         | FA_REMOVED \<Rightarrow>
             (case (if one_file then
                      (case tell IN_DELETE_SELF 0 None (wt_is_dir wt) inn w of
                         (inn, w) \<Rightarrow> emit (wi_malloc wi) (wt_wd wt) IN_IGNORED 0 None inn w)
                    else tell IN_DELETE 0 say isdir inn w) of
                (inn, w) \<Rightarrow> (forget_dir name wt, inn, w))
         | FA_MODIFIED \<Rightarrow> (case tell IN_MODIFY 0 say isdir inn w of (inn, w) \<Rightarrow> (wt, inn, w))
         | FA_RENAMED_OLD \<Rightarrow>
             (let cookie = in_next_cookie inn + 1;
                  inn = inn\<lparr>in_next_cookie := cookie, wn_open_cookie := cookie\<rparr>
              in case (if one_file then tell IN_MOVE_SELF 0 None (wt_is_dir wt) inn w
                       else tell IN_MOVED_FROM cookie say isdir inn w) of
                   (inn, w) \<Rightarrow> (forget_dir name wt, inn, w))
         | FA_RENAMED_NEW \<Rightarrow>
             (case (if one_file then (inn, w) else tell IN_MOVED_TO (wn_open_cookie inn) say isdir inn w) of
                (inn, w) \<Rightarrow> (wt, inn\<lparr>wn_open_cookie := 0\<rparr>, w))
         | FA_OTHER \<Rightarrow> (wt, inn, w))"

definition translate_one ::
    "'w wino_os \<Rightarrow> notification \<Rightarrow> wwatch \<Rightarrow> winst \<Rightarrow> 'w \<Rightarrow> wwatch \<times> winst \<times> 'w" where
  "translate_one wi nt wt inn w =
     (let name = notified_name wi nt w; act = nt_action nt in
      if BACKSLASH \<in> set name \<or> name = [] then (wt, inn, w)
      else
        let (isdir, wt, w) =
          (if act = FA_REMOVED \<or> act = FA_RENAMED_OLD then (is_known_dir wt name, wt, w)
           else if path_is_dir wi (joined (wt_path wt) name) w
           then (case remember_dir wi name wt w of (wt, w) \<Rightarrow> (True, wt, w))
           else (False, wt, w))
        in if (case ww_only wt of None \<Rightarrow> False | Some only \<Rightarrow> only \<noteq> name) then (wt, inn, w)
           else say_action wi wt act name isdir inn w)"

fun win_translate ::
    "'w wino_os \<Rightarrow> notification list \<Rightarrow> wwatch \<Rightarrow> winst \<Rightarrow> 'w \<Rightarrow> wwatch \<times> winst \<times> 'w" where
  "win_translate wi [] wt inn w = (wt, inn, w)"
| "win_translate wi (nt # nts) wt inn w =
     (case translate_one wi nt wt inn w of (wt, inn, w) \<Rightarrow> win_translate wi nts wt inn w)"

text \<open>What the directory above says of the watch's own name; the answer is whether it is gone.\<close>

fun up_loop ::
    "'w wino_os \<Rightarrow> wwatch \<Rightarrow> cstr \<Rightarrow> notification list \<Rightarrow> bool \<Rightarrow> winst \<Rightarrow> 'w \<Rightarrow> bool \<times> winst \<times> 'w" where
  "up_loop wi wt self [] gone inn w = (gone, inn, w)"
| "up_loop wi wt self (nt # nts) gone inn w =
     (let tell = emit_masked (wi_malloc wi) wt in
      if \<not> stricmp_equal (notified_name wi nt w) self then up_loop wi wt self nts gone inn w
      else if nt_action nt = FA_REMOVED then
        (case tell IN_DELETE_SELF 0 None (wt_is_dir wt) inn w of
           (inn, w) \<Rightarrow>
             (case emit (wi_malloc wi) (wt_wd wt) IN_IGNORED 0 None inn w of
                (inn, w) \<Rightarrow> up_loop wi wt self nts True inn w))
      else if nt_action nt = FA_RENAMED_OLD then
        (case tell IN_MOVE_SELF 0 None (wt_is_dir wt) inn w of
           (inn, w) \<Rightarrow> up_loop wi wt self nts gone inn w)
      else if nt_action nt = FA_MODIFIED \<and> ww_only wt \<noteq> None then
        (case tell IN_MODIFY 0 None False inn w of (inn, w) \<Rightarrow> up_loop wi wt self nts gone inn w)
      else up_loop wi wt self nts gone inn w)"

definition translate_up ::
    "'w wino_os \<Rightarrow> notification list \<Rightarrow> wwatch \<Rightarrow> winst \<Rightarrow> 'w \<Rightarrow> bool \<times> winst \<times> 'w" where
  "translate_up wi chain wt inn w =
     (case ww_self_name wt of
        None \<Rightarrow> (False, inn, w)
      | Some self \<Rightarrow> up_loop wi wt self chain False inn w)"

subsection \<open>What Windows does not report\<close>

definition still_there :: "'w wino_os \<Rightarrow> wwatch \<Rightarrow> 'w \<Rightarrow> bool" where
  "still_there wi wt w =
     (case ww_only wt of
        None \<Rightarrow>
          (case wi_delete_pending wi (ww_dir wt) w of
             Some pending \<Rightarrow> \<not> pending \<and> path_is_dir wi (wt_path wt) w
           | None \<Rightarrow> path_is_dir wi (wt_path wt) w)
      | Some only \<Rightarrow> wi_attrs wi (joined (wt_path wt) only) w \<noteq> None)"

text \<open>The watch at \<open>at\<close> is told gone and forgotten.\<close>

definition tell_gone :: "'w wino_os \<Rightarrow> nat \<Rightarrow> winst \<Rightarrow> 'w \<Rightarrow> winst \<times> 'w" where
  "tell_gone wi at inn w =
     (let wt = wn_watches inn ! at in
      case emit_masked (wi_malloc wi) wt IN_DELETE_SELF 0 None (wt_is_dir wt) inn w of
        (inn, w) \<Rightarrow>
          (case emit (wi_malloc wi) (wt_wd wt) IN_IGNORED 0 None inn w of
             (inn, w) \<Rightarrow> win_forget wi at inn w))"

fun check_gone_from :: "'w wino_os \<Rightarrow> nat \<Rightarrow> winst \<Rightarrow> 'w \<Rightarrow> winst \<times> 'w" where
  "check_gone_from wi 0 inn w = (inn, w)"
| "check_gone_from wi (Suc i) inn w =
     (if still_there wi (wn_watches inn ! i) w then check_gone_from wi i inn w
      else case tell_gone wi i inn w of (inn, w) \<Rightarrow> check_gone_from wi i inn w)"

definition check_gone :: "'w wino_os \<Rightarrow> winst \<Rightarrow> 'w \<Rightarrow> winst \<times> 'w" where
  "check_gone wi inn w = check_gone_from wi (length (wn_watches inn)) inn w"

subsection \<open>Taking what the port has\<close>

text \<open>The first watch with that key, and whether it is the key of the read above.\<close>

definition watch_of_key :: "winst \<Rightarrow> i32 \<Rightarrow> (nat \<times> bool) option" where
  "watch_of_key inn key =
     map_option (\<lambda>i. (i, wt_wd (wn_watches inn ! i) \<noteq> key))
       (List.find (\<lambda>i. wt_wd (wn_watches inn ! i) = key \<or> UP_KEY (wt_wd (wn_watches inn ! i)) = key)
          [0..<length (wn_watches inn)])"

definition packet_taken :: "'w wino_os \<Rightarrow> win_packet \<Rightarrow> winst \<Rightarrow> 'w \<Rightarrow> winst \<times> 'w" where
  "packet_taken wi p inn w =
     (case watch_of_key inn (pk_key p) of
        None \<Rightarrow> (inn, w)
      | Some (at, True) \<Rightarrow>
          (case (if pk_ok p then translate_up wi (pk_chain p) (wn_watches inn ! at) inn w else (True, inn, w)) of
             (gone, inn, w) \<Rightarrow>
               if gone then win_forget wi at inn w
               else (inn, snd (arm_up_read wi (wn_watches inn ! at) w)))
      | Some (at, False) \<Rightarrow>
          (let wt = (wn_watches inn ! at)\<lparr>ww_pending := False\<rparr>;
               inn = inn\<lparr>wn_watches := (wn_watches inn)[at := wt]\<rparr>
           in if \<not> pk_ok p \<or> \<not> path_is_dir wi (wt_path wt) w then tell_gone wi at inn w
              else case win_translate wi (pk_chain p) wt inn w of
                (wt, inn, w) \<Rightarrow>
                  (case arm_read wi wt w of
                     (_, wt, w) \<Rightarrow> (inn\<lparr>wn_watches := (wn_watches inn)[at := wt]\<rparr>, w))))"

partial_function (option) win_take_events :: "'w wino_os \<Rightarrow> nat \<Rightarrow> winst \<Rightarrow> 'w \<Rightarrow> (winst \<times> 'w) option" where
  "win_take_events wi wait_ms inn w =
     (case wi_get wi (wn_port inn) wait_ms w of
        (None, w) \<Rightarrow> Some (inn, w)
      | (Some p, w) \<Rightarrow>
          (case packet_taken wi p inn w of (inn, w) \<Rightarrow> win_take_events wi 0 inn w))"

text \<open>A pass: what the port has, and the question where that was nothing.\<close>

definition win_look :: "'w wino_os \<Rightarrow> nat \<Rightarrow> winst \<Rightarrow> 'w \<Rightarrow> (winst \<times> 'w) option" where
  "win_look wi wait_ms inn w =
     Option.bind (win_take_events wi wait_ms inn w)
       (\<lambda>(inn, w). Some (if in_queue inn = [] then check_gone wi inn w else (inn, w)))"

partial_function (option) win_block :: "'w wino_os \<Rightarrow> winst \<Rightarrow> 'w \<Rightarrow> (winst \<times> 'w) option" where
  "win_block wi inn w =
     (if in_queue inn = [] \<and> \<not> in_nonblock inn then
        Option.bind (win_look wi 200 inn w) (\<lambda>(inn, w). win_block wi inn w)
      else Some (inn, w))"

subsection \<open>The calls\<close>

definition zero_winst :: winst where
  "zero_winst = \<lparr>in_used = False, in_nonblock = False, in_next_wd = 0, in_next_cookie = 0, in_queue = [],
     in_qcap = 0, in_overflowed = False, wn_port = 0, wn_key = 0, wn_open_cookie = 0, wn_watches = []\<rparr>"

definition WIN_CLOEXEC_BIT :: nat where "WIN_CLOEXEC_BIT = 19"
definition WIN_NONBLOCK_BIT :: nat where "WIN_NONBLOCK_BIT = 11"

definition win_inotify_init1 :: "'w wino_os \<Rightarrow> i32 \<Rightarrow> winst list \<Rightarrow> 'w \<Rightarrow> i32 \<times> winst list \<times> 'w" where
  "win_inotify_init1 wi flags tbl w =
     (if unset_bit WIN_NONBLOCK_BIT (unset_bit WIN_CLOEXEC_BIT flags) \<noteq> 0 then (- EINVAL, tbl, w)
      else case List.find (\<lambda>i. \<not> in_used (tbl ! i)) [0..<INST_MAX] of
        None \<Rightarrow> (- EMFILE, tbl, w)
      | Some i \<Rightarrow>
          (case wi_new_port wi w of
             (None, w) \<Rightarrow> (- EMFILE, tbl, w)
           | (Some port, w) \<Rightarrow>
               let key = of_nat i + 1000 in
               (key, tbl[i := zero_winst\<lparr>wn_port := port, in_used := True, in_next_wd := 1,
                              in_nonblock := bit flags WIN_NONBLOCK_BIT, wn_key := key\<rparr>], w)))"

text \<open>The path a watch was asked for.\<close>

definition asked_path :: "wwatch \<Rightarrow> cstr" where
  "asked_path wt = (case ww_only wt of None \<Rightarrow> take 4095 (wt_path wt) | Some only \<Rightarrow> joined (wt_path wt) only)"

text \<open>The directory Windows watches, and the one name.  \<open>Inl\<close> is the errno.\<close>

definition watched_dir :: "'w wino_os \<Rightarrow> cstr \<Rightarrow> bool \<Rightarrow> 'w \<Rightarrow> (i32 + cstr \<times> cstr option) \<times> 'w" where
  "watched_dir wi path is_dir w =
     (case wi_malloc wi (length path + 1) w of
        (False, w) \<Rightarrow> (Inl (- ENOMEM), w)
      | (True, w) \<Rightarrow>
          if is_dir then (Inr (path, None), w)
          else case last_cut path of
            None \<Rightarrow> (Inl (- EINVAL), w)
          | Some k \<Rightarrow>
              (case wi_malloc wi (length path - k) w of
                 (False, w) \<Rightarrow> (Inl (- ENOMEM), w)
               | (True, w) \<Rightarrow> (Inr (take k path, Some (drop (Suc k) path)), w)))"

text \<open>What the watch is called in the directory above, and that directory's handle.\<close>

definition found_above :: "'w wino_os \<Rightarrow> wwatch \<Rightarrow> 'w \<Rightarrow> wwatch \<times> 'w" where
  "found_above wi wt w =
     (let wt = wt\<lparr>ww_up := INVALID_HANDLE\<rparr> in
      case ww_only wt of
        Some only \<Rightarrow>
          (case wi_malloc wi (length only + 1) w of
             (ok, w) \<Rightarrow> (wt\<lparr>ww_self_name := if ok then Some only else None\<rparr>, w))
      | None \<Rightarrow>
          let above = take 4095 (wt_path wt) in
          (case last_cut above of
             None \<Rightarrow> (wt, w)
           | Some k \<Rightarrow>
               if k = 0 then (wt, w)
               else let leaf = drop (Suc k) above in
                 case wi_malloc wi (length leaf + 1) w of
                   (ok, w) \<Rightarrow>
                     (case wi_open wi (take k above) w of
                        (h, w) \<Rightarrow> (wt\<lparr>ww_self_name := if ok then Some leaf else None, ww_up := h\<rparr>, w))))"

text \<open>The read on the directory above in flight, or the directory closed again.\<close>

definition open_above :: "'w wino_os \<Rightarrow> handle \<Rightarrow> wwatch \<Rightarrow> 'w \<Rightarrow> wwatch \<times> 'w" where
  "open_above wi port wt w =
     (case found_above wi wt w of
        (wt, w) \<Rightarrow>
          if ww_up wt = INVALID_HANDLE then (wt, w)
          else case wi_assoc wi (ww_up wt) port (UP_KEY (wt_wd wt)) w of
            (ok, w) \<Rightarrow>
              (case (if ok then arm_up_read wi wt w else (False, w)) of
                 (True, w) \<Rightarrow> (wt, w)
               | (False, w) \<Rightarrow> (wt\<lparr>ww_up := INVALID_HANDLE\<rparr>, wi_close wi (ww_up wt) w)))"

text \<open>The names that are directories to begin with.\<close>

fun remember_found :: "'w wino_os \<Rightarrow> (cstr \<times> u32) list \<Rightarrow> wwatch \<Rightarrow> 'w \<Rightarrow> wwatch \<times> 'w" where
  "remember_found wi [] wt w = (wt, w)"
| "remember_found wi ((name, attrs) # fs) wt w =
     (if name = [46] \<or> name = [46, 46] \<or> \<not> bit attrs FILE_ATTRIBUTE_DIRECTORY_BIT
      then remember_found wi fs wt w
      else case remember_dir wi name wt w of (wt, w) \<Rightarrow> remember_found wi fs wt w)"

definition list_dirs :: "'w wino_os \<Rightarrow> wwatch \<Rightarrow> 'w \<Rightarrow> wwatch \<times> 'w" where
  "list_dirs wi wt w =
     (if \<not> wt_is_dir wt then (wt, w)
      else case wi_find wi (joined (wt_path wt) [42]) w of
        (None, w) \<Rightarrow> (wt, w)
      | (Some fs, w) \<Rightarrow> remember_found wi fs wt w)"

text \<open>A watch from its handle on: both directories at the port, and the read in flight.  \<open>Inl\<close> is
  the errno, with everything the watch had given back.\<close>

definition started_watch :: "'w wino_os \<Rightarrow> handle \<Rightarrow> wwatch \<Rightarrow> 'w \<Rightarrow> (i32 + wwatch) \<times> 'w" where
  "started_watch wi port wt w =
     (case wi_assoc wi (ww_dir wt) port (wt_wd wt) w of
        (False, w) \<Rightarrow> (Inl (- EACCES), watch_free wi wt w)
      | (True, w) \<Rightarrow>
          (case open_above wi port wt w of
             (wt, w) \<Rightarrow>
               (case list_dirs wi wt w of
                  (wt, w) \<Rightarrow>
                    (case arm_read wi wt w of
                       (False, wt, w) \<Rightarrow> (Inl (- EACCES), watch_free wi wt w)
                     | (True, wt, w) \<Rightarrow> (Inr wt, w)))))"

definition made_watch :: "'w wino_os \<Rightarrow> winst \<Rightarrow> cstr \<Rightarrow> u32 \<Rightarrow> bool \<Rightarrow> 'w \<Rightarrow> (i32 + wwatch) \<times> 'w" where
  "made_watch wi inn path mk is_dir w =
     (case watched_dir wi path is_dir w of
        (Inl e, w) \<Rightarrow> (Inl e, w)
      | (Inr (dirpath, only), w) \<Rightarrow>
          (case wi_malloc wi 1 w of
             (False, w) \<Rightarrow> (Inl (- ENOMEM), w)
           | (True, w) \<Rightarrow>
               (case wi_open wi dirpath w of
                  (h, w) \<Rightarrow>
                    if h = INVALID_HANDLE then (Inl (- EACCES), w)
                    else started_watch wi (wn_port inn)
                      \<lparr>wt_wd = in_next_wd inn, wt_path = dirpath, wt_mask = mk, wt_is_dir = is_dir,
                       ww_dir = h, ww_up = 0, ww_only = only, ww_self_name = None, ww_pending = False,
                       ww_dirs = []\<rparr> w)))"

definition win_inotify_add_watch ::
    "'w wino_os \<Rightarrow> i32 \<Rightarrow> cstr option \<Rightarrow> u32 \<Rightarrow> winst list \<Rightarrow> 'w \<Rightarrow> i32 \<times> winst list \<times> 'w" where
  "win_inotify_add_watch wi fd path mk tbl w =
     (case path of
        None \<Rightarrow> (- EFAULT, tbl, w)
      | Some path \<Rightarrow>
          if mk AND IN_ALL_EVENTS = 0 then (- EINVAL, tbl, w)
          else case winst_of tbl fd of
            None \<Rightarrow> (- EBADF, tbl, w)
          | Some i \<Rightarrow>
              let inn = tbl ! i; ws = wn_watches inn in
              case wi_attrs wi path w of
                None \<Rightarrow> (- ENOENT, tbl, w)
              | Some attrs \<Rightarrow>
                  (case List.find (\<lambda>k. stricmp_equal (asked_path (ws ! k)) path) [0..<length ws] of
                     Some k \<Rightarrow>
                       (wt_wd (ws ! k), tbl[i := inn\<lparr>wn_watches := ws[k := (ws ! k)\<lparr>wt_mask := mk\<rparr>]\<rparr>], w)
                   | None \<Rightarrow>
                       (case made_watch wi inn path mk (bit attrs FILE_ATTRIBUTE_DIRECTORY_BIT) w of
                          (Inl e, w) \<Rightarrow> (e, tbl, w)
                        | (Inr wt, w) \<Rightarrow>
                            (case wi_malloc wi (length ws + 1) w of
                               (False, w) \<Rightarrow> (- ENOMEM, tbl, watch_free wi wt w)
                             | (True, w) \<Rightarrow>
                                 (wt_wd wt,
                                  tbl[i := inn\<lparr>wn_watches := ws @ [wt], in_next_wd := in_next_wd inn + 1\<rparr>],
                                  w)))))"

definition win_inotify_rm_watch :: "'w wino_os \<Rightarrow> i32 \<Rightarrow> i32 \<Rightarrow> winst list \<Rightarrow> 'w \<Rightarrow> i32 \<times> winst list \<times> 'w" where
  "win_inotify_rm_watch wi fd wd tbl w =
     (case winst_of tbl fd of
        None \<Rightarrow> (- EBADF, tbl, w)
      | Some i \<Rightarrow>
          let inn = tbl ! i; ws = wn_watches inn in
          case List.find (\<lambda>k. wt_wd (ws ! k) = wd) [0..<length ws] of
            None \<Rightarrow> (- EINVAL, tbl, w)
          | Some k \<Rightarrow>
              (case emit (wi_malloc wi) wd IN_IGNORED 0 None inn w of
                 (inn, w) \<Rightarrow> (case win_forget wi k inn w of (inn, w) \<Rightarrow> (0, tbl[i := inn], w))))"

definition win_inotify_read ::
    "'w wino_os \<Rightarrow> i32 \<Rightarrow> bool \<Rightarrow> u32 \<Rightarrow> winst list \<Rightarrow> 'w \<Rightarrow> (i32 \<times> u8 list \<times> winst list \<times> 'w) option" where
  "win_inotify_read wi fd has_buf len tbl w =
     (if \<not> has_buf then Some (- EFAULT, [], tbl, w)
      else case winst_of tbl fd of
        None \<Rightarrow> Some (- EBADF, [], tbl, w)
      | Some i \<Rightarrow>
          if unat len < SIZEOF_EVENT then Some (- EINVAL, [], tbl, w)
          else map_option (\<lambda>(res, bs, inn, w). (res, bs, tbl[i := inn], w))
            (read_records
               (\<lambda>inn w. Option.bind (win_look wi 0 inn w) (\<lambda>(inn, w). win_block wi inn w))
               (unat len) (tbl ! i) w))"

fun win_forget_all :: "'w wino_os \<Rightarrow> nat \<Rightarrow> winst \<Rightarrow> 'w \<Rightarrow> winst \<times> 'w" where
  "win_forget_all wi 0 inn w = (inn, w)"
| "win_forget_all wi (Suc n) inn w =
     (case win_forget wi n inn w of (inn, w) \<Rightarrow> win_forget_all wi n inn w)"

definition win_inotify_close :: "'w wino_os \<Rightarrow> i32 \<Rightarrow> winst list \<Rightarrow> 'w \<Rightarrow> i32 \<times> winst list \<times> 'w" where
  "win_inotify_close wi fd tbl w =
     (case winst_of tbl fd of
        None \<Rightarrow> (- EBADF, tbl, w)
      | Some i \<Rightarrow>
          (case win_forget_all wi (length (wn_watches (tbl ! i))) (tbl ! i) w of
             (inn, w) \<Rightarrow> (0, tbl[i := zero_winst], wi_close wi (wn_port inn) w)))"

text \<open>The arm of a system that has nothing of the kind: each of its five calls.\<close>

definition no_inotify :: i32 where "no_inotify = - ENOSYS"

end
