(* ===== verification/Inotify_Read.thy ===== *)
theory Inotify_Read
  imports Inotify_Tell
begin

text \<open>
  Reading, whichever arm fills the queue: the locale \<open>record_source\<close> says what an arm promises of
  its way to look for news, and what a reader then gets.
\<close>

subsection \<open>Bytes and records\<close>

lemma concat_take_drop:
  "take (length (concat (map f (take k rs)))) (concat (map f rs)) = concat (map f (take k rs))"
  "drop (length (concat (map f (take k rs)))) (concat (map f rs)) = concat (map f (drop k rs))"
proof -
  have "concat (map f rs) = concat (map f (take k rs)) @ concat (map f (drop k rs))"
    by (metis append_take_drop_id concat_append map_append)
  then show "take (length (concat (map f (take k rs)))) (concat (map f rs)) = concat (map f (take k rs))"
    "drop (length (concat (map f (take k rs)))) (concat (map f rs)) = concat (map f (drop k rs))"
    by simp_all
qed

lemma holds_drop:
  assumes "holds inn rs"
  shows "holds (inn\<lparr>in_queue := concat (map enc (drop k rs))\<rparr>) (drop k rs)"
proof -
  define q where "q = concat (map enc (drop k rs))"
  have h: "in_queue inn = concat (map enc rs)" "\<forall>r \<in> set rs. rec_ok r" "length (in_queue inn) \<le> QUEUE_MAX"
    "length (in_queue inn) \<le> in_qcap inn" "in_qcap inn = 0 \<or> (\<exists>k. in_qcap inn = 4096 * 2 ^ k)"
    using assms unfolding holds_def by blast+
  have "length q \<le> length (in_queue inn)"
    unfolding q_def h(1) by (metis append_take_drop_id concat_append map_append length_append le_add2)
  then have "length q \<le> QUEUE_MAX" "length q \<le> in_qcap inn" using h(3,4) by linarith+
  then show ?thesis
    unfolding holds_def q_def [symmetric] using h(2,5) by (auto dest: in_set_dropD simp: q_def [symmetric])
qed

text \<open>One read over a queue \<open>rs\<close>: \<open>k\<close> records go to the caller.\<close>

lemma read_queue:
  fixes room :: nat
  assumes "holds inn rs"
  defines "out \<equiv> whole_records room (in_queue inn) 0"
  obtains k where "take out (in_queue inn) = concat (map enc (take k rs))" "k \<le> length rs"
    "holds (inn\<lparr>in_queue := drop out (in_queue inn)\<rparr>) (drop k rs)" "out = length (concat (map enc (take k rs)))"
    "out \<le> room" "k < length rs \<longrightarrow> room < length (concat (map enc (take (Suc k) rs)))"
    "out = 0 \<longleftrightarrow> k = 0" "out < 2 ^ 31"
proof -
  have q: "in_queue inn = concat (map enc rs)" "\<forall>r \<in> set rs. rec_ok r" using assms(1) by (auto simp: holds_def)
  have f: "out = length (concat (map enc (fitting room rs)))"
    using whole_records_fitting [OF q(2), of room "[]"] by (simp add: out_def q(1))
  obtain k0 where "fitting room rs = take k0 rs" using fitting_prefix by blast
  then have k: "fitting room rs = take (min k0 (length rs)) rs" by (simp add: min_def)
  let ?k = "min k0 (length rs)"
  have out: "out = length (concat (map enc (take ?k rs)))" using f k by simp
  have zero: "out = 0 \<longleftrightarrow> ?k = 0"
  proof
    assume "out = 0"
    show "?k = 0"
    proof (rule ccontr)
      assume "?k \<noteq> 0"
      then obtain r rs' j where "rs = r # rs'" "?k = Suc j" by (cases rs; cases ?k) auto
      then have "out = length (enc r) + length (concat (map enc (take j rs')))" using out by simp
      then show False using \<open>out = 0\<close> enc_nonempty [of r] by linarith
    qed
  qed (simp add: out)
  have "out \<le> length (in_queue inn)"
    using concat_take_drop(1) [of enc ?k rs] out q(1) by (metis length_take min.cobounded1)
  moreover have "length (in_queue inn) \<le> QUEUE_MAX" using assms(1) unfolding holds_def by blast
  ultimately have small: "out < 2 ^ 31" by (simp add: QUEUE_MAX_def)
  show ?thesis
  proof (rule that [of ?k])
    show "take out (in_queue inn) = concat (map enc (take ?k rs))"
      by (simp only: out q(1) concat_take_drop)
    show "holds (inn\<lparr>in_queue := drop out (in_queue inn)\<rparr>) (drop ?k rs)"
      unfolding q(1) unfolding out concat_take_drop by (rule holds_drop [OF assms(1)])
    show "out \<le> room" using fitting_bound [of room rs] f by simp
    show "?k < length rs \<longrightarrow> room < length (concat (map enc (take (Suc ?k) rs)))"
      using fitting_maximal [OF k] by blast
  qed (use out zero small in auto)
qed

subsection \<open>A source of records\<close>

locale record_source =
  fixes look :: "'a inst_common_scheme \<Rightarrow> 'w \<Rightarrow> ('a inst_common_scheme \<times> 'w) option"
    and ok :: "'a inst_common_scheme \<Rightarrow> bool"
  assumes look_appends: "look inn w = Some (inn', w') \<Longrightarrow> ok inn \<Longrightarrow> holds inn old \<Longrightarrow>
      ok inn' \<and> (\<exists>new. holds inn' (old @ new))"
    and ok_queue: "ok (inn\<lparr>in_queue := q\<rparr>) = ok inn"
begin

lemma reads:
  assumes "read_records look room inn w = Some (res, bs, inn', w')" "ok inn" "holds inn old"
  obtains new k where "old = [] \<or> new = []" "bs = concat (map enc (take k (old @ new)))"
    "holds inn' (drop k (old @ new))" "ok inn'"
    "if old @ new = [] then res = 0
     else if room < length (enc (hd (old @ new))) then res = - EINVAL \<and> k = 0
     else unat res = length bs \<and> 0 < k \<and> length bs \<le> room \<and>
       (k < length (old @ new) \<longrightarrow> room < length (concat (map enc (take (Suc k) (old @ new)))))"
proof -
  obtain i1 w1 where t: "(if in_queue inn = [] then look inn w else Some (inn, w)) = Some (i1, w1)"
    using assms(1) by (auto simp: read_records_def bind_eq_Some_conv)
  have empty: "in_queue inn = [] \<longleftrightarrow> old = []"
    using assms(3) enc_nonempty by (cases old) (auto simp: holds_def)
  obtain new where new: "holds i1 (old @ new)" "old = [] \<or> new = []" "ok i1"
  proof (cases "old = []")
    case True
    then have "look inn w = Some (i1, w1)" using t empty by simp
    then show ?thesis using look_appends [OF _ assms(2,3)] that True by blast
  next
    case False
    then have "i1 = inn" using t empty by simp
    then show ?thesis using that [of "[]"] assms(2,3) by simp
  qed
  let ?rs = "old @ new" and ?q = "in_queue i1" and ?out = "whole_records room (in_queue i1) 0"
  have res: "(res, bs, inn', w') = (if ?q = [] then (0, [], i1, w1)
                    else if ?out = 0 then (- EINVAL, [], i1, w1)
                    else (of_nat ?out, take ?out ?q, i1\<lparr>in_queue := drop ?out ?q\<rparr>, w1))"
    using assms(1) t by (simp add: read_records_def Let_def)
  have q: "?q = [] \<longleftrightarrow> ?rs = []"
    using new(1) enc_nonempty by (cases ?rs) (auto simp: holds_def)
  obtain k where k: "take ?out ?q = concat (map enc (take k ?rs))" "k \<le> length ?rs"
    "holds (i1\<lparr>in_queue := drop ?out ?q\<rparr>) (drop k ?rs)" "?out = length (concat (map enc (take k ?rs)))"
    "?out \<le> room" "k < length ?rs \<longrightarrow> room < length (concat (map enc (take (Suc k) ?rs)))"
    "?out = 0 \<longleftrightarrow> k = 0" "?out < 2 ^ 31"
    by (rule read_queue [OF new(1), of room])
  consider (none) "?rs = []" | (small) "?rs \<noteq> []" "k = 0" | (some) "?rs \<noteq> []" "k \<noteq> 0" by blast
  then show ?thesis
  proof cases
    case none
    then have "res = 0" "bs = []" "inn' = i1" using res q by auto
    then show ?thesis using that [of new 0] none new by simp
  next
    case small
    then have r: "res = - EINVAL" "bs = []" "inn' = i1" using res q k(7) by auto
    have "room < length (enc (hd ?rs))" using k(6) small by (cases ?rs) auto
    then show ?thesis
      using r(1) small(2)
      by (intro that [of new 0], unfold if_not_P [OF small(1)]) (use r new in simp_all)
  next
    case some
    then have r: "res = of_nat ?out" "bs = take ?out ?q" "inn' = i1\<lparr>in_queue := drop ?out ?q\<rparr>"
      using res q k(7) by auto
    have "unat res = ?out" using k(8) by (simp add: r(1) unat_of_nat)
    moreover have "\<not> room < length (enc (hd ?rs))"
    proof -
      obtain r0 rs0 j where "?rs = r0 # rs0" "k = Suc j" using some by (cases ?rs; cases k) auto
      then show ?thesis using k(4,5) by simp
    qed
    moreover have "ok inn'" using new(3) by (simp add: r(3) ok_queue)
    ultimately show ?thesis using that [of new k] some r k new(2) by simp
  qed
qed

end

end
