(* ===== verification/Inotify_Win_Facts.thy ===== *)
theory Inotify_Win_Facts
  imports Inotify_Win Inotify_Read
begin

text \<open>
  The Windows arm of the inotify emulation: every call keeps each queue a sequence of whole
  records, the handles of the system are those of the watches and ports, and where the arm tells
  a thing twice or not at all.
\<close>

subsection \<open>Speaking\<close>

text \<open>From \<open>inn\<close> to \<open>inn'\<close> by making records, the cookies aside.\<close>

definition same_winst :: "winst \<Rightarrow> winst \<Rightarrow> bool" where
  "same_winst a b \<longleftrightarrow> in_used b = in_used a \<and> in_nonblock b = in_nonblock a \<and> wn_port b = wn_port a \<and>
     wn_key b = wn_key a \<and> wn_watches b = wn_watches a"

definition speaks :: "winst \<Rightarrow> winst \<Rightarrow> bool" where
  "speaks inn inn' \<longleftrightarrow>
     (\<forall>old. holds inn old \<longrightarrow> (\<exists>new. holds inn' (old @ new)) \<and> same_winst inn inn')"

lemma same_winst_refl [simp]: "same_winst a a"
  by (simp add: same_winst_def)

lemma speaks_refl [simp]: "speaks inn inn"
  by (auto simp: speaks_def intro: exI [of _ "[]"])

lemma speaks_trans:
  assumes "speaks a b" "speaks b c"
  shows "speaks a c"
  unfolding speaks_def
proof (intro allI impI)
  fix old assume h: "holds a old"
  then obtain n1 where b: "holds b (old @ n1)" "same_winst a b" using assms(1) by (auto simp: speaks_def)
  then obtain n2 where "holds c ((old @ n1) @ n2)" "same_winst b c" using assms(2) unfolding speaks_def by blast
  with b(2) show "(\<exists>new. holds c (old @ new)) \<and> same_winst a c"
    by (auto simp: same_winst_def)
qed

lemma same_inst_windows:
  assumes "same_inst inn i'"
  shows "same_winst inn i'"
  using assms by (cases inn; cases i') (simp add: same_inst_def same_winst_def)

lemma says_speaks:
  assumes "says realloc inn w rs i' w'" "\<forall>r \<in> set rs. rec_ok r"
  shows "speaks inn i'"
  using says_holds [OF assms(1) _ assms(2)] same_inst_windows unfolding speaks_def by blast

lemma speaks_masked:
  assumes "emit_masked realloc wt mk ck name d inn w = (i', w')" "name_ok name"
  shows "speaks inn i'"
  using says_speaks [OF says_masked [OF assms(1)]] told_ok [OF assms(2)] by blast

lemma speaks_emit:
  assumes "emit realloc wd mk ck None inn w = (i', w')"
  shows "speaks inn i'"
  using says_speaks [OF says_emit [OF assms]] by (simp add: name_ok_def)

lemma speaks_cookies: "speaks inn (inn\<lparr>in_next_cookie := c, wn_open_cookie := d\<rparr>)"
  "speaks inn (inn\<lparr>wn_open_cookie := d\<rparr>)"
  by (auto simp: speaks_def holds_def same_winst_def intro: exI [of _ "[]"])

lemma no_name_ok: "name_ok None"
  by (simp add: name_ok_def)

subsection \<open>Watches\<close>

definition wwatch_ok :: "wwatch \<Rightarrow> bool" where
  "wwatch_ok wt \<longleftrightarrow> distinct (ww_dirs wt)"

text \<open>The same watch but for what it knows of directories and its read.\<close>

definition same_watch :: "wwatch \<Rightarrow> wwatch \<Rightarrow> bool" where
  "same_watch a b \<longleftrightarrow> wt_wd b = wt_wd a \<and> wt_path b = wt_path a \<and> wt_mask b = wt_mask a \<and>
     wt_is_dir b = wt_is_dir a \<and> ww_dir b = ww_dir a \<and> ww_up b = ww_up a \<and> ww_only b = ww_only a \<and>
     ww_self_name b = ww_self_name a \<and> (wwatch_ok a \<longrightarrow> wwatch_ok b)"

lemma same_watch_refl [simp]: "same_watch a a"
  by (simp add: same_watch_def)

lemma same_watch_trans: "same_watch a b \<Longrightarrow> same_watch b c \<Longrightarrow> same_watch a c"
  by (simp add: same_watch_def)

lemma forget_dir_same [simp]: "same_watch wt (forget_dir name wt)"
  by (simp add: same_watch_def forget_dir_def wwatch_ok_def)

lemma remember_dir_same:
  assumes "remember_dir wi name wt w = (wt', w')"
  shows "same_watch wt wt'"
  using assms
  by (auto simp: remember_dir_def is_known_dir_def same_watch_def wwatch_ok_def
      split: if_splits prod.splits bool.splits)

lemma arm_read_same:
  assumes "arm_read wi wt w = (ok, wt', w')"
  shows "same_watch wt wt'"
  using assms by (auto simp: arm_read_def same_watch_def wwatch_ok_def split: prod.splits)

lemma notified_name_ok: "name_ok (Some (notified_name wi nt w))"
proof -
  have "length (notified_name wi nt w) \<le> 511"
    by (auto simp: notified_name_def utf8_of_def Let_def split: option.split
        intro!: order.trans [OF length_takeWhile_le])
  moreover have "0 \<notin> set (notified_name wi nt w)"
    by (auto simp: notified_name_def dest: set_takeWhileD split: option.splits)
  ultimately show ?thesis by (simp add: name_ok_def)
qed

subsection \<open>Notifications\<close>

lemma say_action_speaks:
  assumes "say_action wi wt act name isdir inn w = (wt', i', w')" "name_ok (Some name)"
  shows "speaks inn i' \<and> same_watch wt wt'"
proof -
  have say: "name_ok (if one_file then None else Some name)" for one_file using assms(2) by (simp add: name_ok_def)
  show ?thesis
  proof (cases act)
    case FA_RENAMED_OLD
    let ?i = "inn\<lparr>in_next_cookie := in_next_cookie inn + 1, wn_open_cookie := in_next_cookie inn + 1\<rparr>"
    have "speaks ?i i'" "same_watch wt wt'"
      using assms by (auto simp: say_action_def Let_def FA_RENAMED_OLD no_name_ok dest!: speaks_masked
          split: prod.splits if_splits)
    then show ?thesis using speaks_trans [OF speaks_cookies(1)] by blast
  next
    case FA_RENAMED_NEW
    then show ?thesis
      using assms by (auto simp: say_action_def Let_def dest!: speaks_masked split: prod.splits if_splits
          intro: speaks_trans [OF _ speaks_cookies(2)] speaks_cookies(2))
  next
    case FA_REMOVED
    then show ?thesis
      using assms by (auto simp: say_action_def Let_def no_name_ok dest!: speaks_masked speaks_emit
          split: prod.splits if_splits intro: speaks_trans)
  qed (use assms say in \<open>auto simp: say_action_def Let_def dest!: speaks_masked split: prod.splits\<close>)
qed

lemma translate_one_speaks:
  assumes "translate_one wi nt wt inn w = (wt', i', w')"
  shows "speaks inn i' \<and> same_watch wt wt'"
proof (cases "BACKSLASH \<in> set (notified_name wi nt w) \<or> notified_name wi nt w = []")
  case True
  then show ?thesis using assms by (auto simp: translate_one_def Let_def)
next
  case False
  let ?name = "notified_name wi nt w" and ?act = "nt_action nt"
  obtain isdir wt1 w1 where d: "(if ?act = FA_REMOVED \<or> ?act = FA_RENAMED_OLD then (is_known_dir wt ?name, wt, w)
           else if path_is_dir wi (joined (wt_path wt) ?name) w
           then (case remember_dir wi ?name wt w of (wt, w) \<Rightarrow> (True, wt, w))
           else (False, wt, w)) = (isdir, wt1, w1)" by (rule prod_cases3)
  have s: "same_watch wt wt1" using d remember_dir_same by (auto split: if_splits prod.splits)
  have t: "(if (case ww_only wt1 of None \<Rightarrow> False | Some only \<Rightarrow> only \<noteq> ?name) then (wt1, inn, w1)
           else say_action wi wt1 ?act ?name isdir inn w1) = (wt', i', w')"
    using assms False d by (simp add: translate_one_def Let_def)
  then have "speaks inn i' \<and> same_watch wt1 wt'"
    by (auto split: if_splits dest!: say_action_speaks [OF _ notified_name_ok])
  then show ?thesis using same_watch_trans [OF s] by blast
qed

lemma win_translate_speaks:
  "win_translate wi nts wt inn w = (wt', i', w') \<Longrightarrow> speaks inn i' \<and> same_watch wt wt'"
proof (induction nts arbitrary: wt inn w)
  case (Cons nt nts)
  obtain wt1 i1 w1 where t: "translate_one wi nt wt inn w = (wt1, i1, w1)" by (rule prod_cases3)
  then have "win_translate wi nts wt1 i1 w1 = (wt', i', w')" using Cons.prems by simp
  from Cons.IH [OF this] translate_one_speaks [OF t] show ?case
    using speaks_trans same_watch_trans by blast
qed simp

lemma up_loop_speaks: "up_loop wi wt self nts gone inn w = (g, i', w') \<Longrightarrow> speaks inn i'"
proof (induction nts arbitrary: gone inn w)
  case (Cons nt nts)
  obtain g1 i1 w1 where s: "up_loop wi wt self nts g1 i1 w1 = (g, i', w')" "speaks inn i1"
    using Cons.prems
    by (auto simp: Let_def no_name_ok split: if_splits prod.splits
        dest!: speaks_masked speaks_emit intro: speaks_trans)
  from Cons.IH [OF s(1)] s(2) show ?case by (rule speaks_trans [rotated])
qed simp

lemma translate_up_speaks: "translate_up wi chain wt inn w = (g, i', w') \<Longrightarrow> speaks inn i'"
  by (auto simp: translate_up_def dest: up_loop_speaks split: option.splits)

subsection \<open>One instance, on and on\<close>

definition watches_ok :: "winst \<Rightarrow> bool" where
  "watches_ok inn \<longleftrightarrow> (\<forall>wt \<in> set (wn_watches inn). wwatch_ok wt)"

definition grows :: "winst \<Rightarrow> winst \<Rightarrow> bool" where
  "grows inn inn' \<longleftrightarrow> (\<forall>old. holds inn old \<longrightarrow> (\<exists>new. holds inn' (old @ new)) \<and>
     in_used inn' = in_used inn \<and> in_nonblock inn' = in_nonblock inn \<and> wn_port inn' = wn_port inn \<and>
     wn_key inn' = wn_key inn \<and> (watches_ok inn \<longrightarrow> watches_ok inn'))"

lemma grows_refl [simp]: "grows inn inn"
  by (auto simp: grows_def intro: exI [of _ "[]"])

lemma grows_trans:
  assumes "grows a b" "grows b c"
  shows "grows a c"
  unfolding grows_def
proof (intro allI impI)
  fix old assume h: "holds a old"
  then obtain n1 where b: "holds b (old @ n1)" using assms(1) unfolding grows_def by blast
  then obtain n2 where "holds c ((old @ n1) @ n2)" using assms(2) unfolding grows_def by blast
  then show "(\<exists>new. holds c (old @ new)) \<and> in_used c = in_used a \<and> in_nonblock c = in_nonblock a \<and>
      wn_port c = wn_port a \<and> wn_key c = wn_key a \<and> (watches_ok a \<longrightarrow> watches_ok c)"
    using assms h b unfolding grows_def by (metis append.assoc)
qed

lemma grows_if:
  assumes "\<And>old. holds inn old \<Longrightarrow> grows inn i'"
  shows "grows inn i'"
  unfolding grows_def
proof (intro allI impI)
  fix old assume h: "holds inn old"
  from assms [OF h] h show "(\<exists>new. holds i' (old @ new)) \<and> in_used i' = in_used inn \<and>
      in_nonblock i' = in_nonblock inn \<and> wn_port i' = wn_port inn \<and> wn_key i' = wn_key inn \<and>
      (watches_ok inn \<longrightarrow> watches_ok i')"
    unfolding grows_def by blast
qed

lemma speaks_grows: "speaks a b \<Longrightarrow> grows a b"
  by (auto simp: speaks_def grows_def same_winst_def watches_ok_def)

lemma holds_wn_watches [simp]: "holds (inn\<lparr>wn_watches := ws\<rparr>) rs = holds inn rs"
  by (simp add: holds_def)

lemma set_watches_grows:
  assumes "watches_ok inn \<Longrightarrow> \<forall>wt \<in> set ws. wwatch_ok wt"
  shows "grows inn (inn\<lparr>wn_watches := ws\<rparr>)"
  using assms by (auto simp: grows_def watches_ok_def intro: exI [of _ "[]"])

lemma set_watch_grows:
  assumes "same_watch (wn_watches inn ! at) wt" "at < length (wn_watches inn)"
  shows "grows inn (inn\<lparr>wn_watches := (wn_watches inn)[at := wt]\<rparr>)"
proof (rule set_watches_grows)
  assume "watches_ok inn"
  then have "wwatch_ok wt" "\<forall>x \<in> set (wn_watches inn). wwatch_ok x"
    using assms by (auto simp: same_watch_def watches_ok_def)
  then show "\<forall>x \<in> set ((wn_watches inn)[at := wt]). wwatch_ok x"
    using set_update_subset_insert [of "wn_watches inn" at wt] by auto
qed

lemma win_forget_grows: "win_forget wi at inn w = (i', w') \<Longrightarrow> grows inn i'"
  using set_watches_grows [of inn "take at (wn_watches inn) @ drop (Suc at) (wn_watches inn)"]
  by (auto simp: win_forget_def watches_ok_def dest: in_set_takeD in_set_dropD)

lemma tell_gone_grows:
  assumes "tell_gone wi at inn w = (i', w')"
  shows "grows inn i'"
proof -
  let ?wt = "wn_watches inn ! at"
  obtain i1 w1 where a: "emit_masked (wi_malloc wi) ?wt IN_DELETE_SELF 0 None (wt_is_dir ?wt) inn w = (i1, w1)" by fastforce
  obtain i2 w2 where b: "emit (wi_malloc wi) (wt_wd ?wt) IN_IGNORED 0 None i1 w1 = (i2, w2)" by fastforce
  have "win_forget wi at i2 w2 = (i', w')" using assms a b by (simp add: tell_gone_def Let_def)
  from win_forget_grows [OF this] show ?thesis
    using speaks_trans [OF speaks_masked [OF a no_name_ok] speaks_emit [OF b]] speaks_grows grows_trans by blast
qed

lemma check_gone_from_grows: "check_gone_from wi n inn w = (i', w') \<Longrightarrow> grows inn i'"
proof (induction n arbitrary: inn w)
  case (Suc n)
  show ?case
  proof (cases "still_there wi (wn_watches inn ! n) w")
    case False
    obtain i1 w1 where t: "tell_gone wi n inn w = (i1, w1)" by fastforce
    then have "check_gone_from wi n i1 w1 = (i', w')" using Suc.prems False by simp
    from Suc.IH [OF this] tell_gone_grows [OF t] show ?thesis using grows_trans by blast
  qed (use Suc in simp)
qed simp

lemma watch_of_key_Some: "watch_of_key inn key = Some (at, up) \<Longrightarrow> at < length (wn_watches inn)"
  by (auto simp: watch_of_key_def find_Some_iff)

lemma speaks_watches: "speaks a b \<Longrightarrow> holds a old \<Longrightarrow> wn_watches b = wn_watches a"
  by (auto simp: speaks_def same_winst_def)

lemma packet_taken_grows:
  assumes "packet_taken wi p inn w = (i', w')" "holds inn old"
  shows "grows inn i'"
proof (cases "watch_of_key inn (pk_key p)")
  case (Some x)
  obtain at up where x: "x = (at, up)" by fastforce
  note at = watch_of_key_Some [OF Some [unfolded x]]
  show ?thesis
  proof (cases up)
    case True
    obtain g i1 w1 where u: "(if pk_ok p then translate_up wi (pk_chain p) (wn_watches inn ! at) inn w else (True, inn, w))
        = (g, i1, w1)" by (rule prod_cases3)
    have "grows inn i1" using u translate_up_speaks by (fastforce split: if_splits intro: speaks_grows)
    moreover have "grows i1 i'"
      using assms(1) win_forget_grows
      by (auto simp: packet_taken_def Some x True u split: if_splits)
    ultimately show ?thesis by (rule grows_trans)
  next
    case False
    let ?wt = "(wn_watches inn ! at)\<lparr>ww_pending := False\<rparr>"
    let ?i = "inn\<lparr>wn_watches := (wn_watches inn)[at := ?wt]\<rparr>"
    have s0: "same_watch (wn_watches inn ! at) ?wt" by (simp add: same_watch_def wwatch_ok_def)
    note g0 = set_watch_grows [OF s0 at]
    show ?thesis
    proof (cases "\<not> pk_ok p \<or> \<not> path_is_dir wi (wt_path ?wt) w")
      case True
      then have "tell_gone wi at ?i w = (i', w')"
        using assms(1) by (auto simp: packet_taken_def Some x \<open>\<not> up\<close> Let_def)
      from tell_gone_grows [OF this] show ?thesis by (rule grows_trans [OF g0])
    next
      case False
      obtain wt1 i1 w1 where t: "win_translate wi (pk_chain p) ?wt ?i w = (wt1, i1, w1)" by (rule prod_cases3)
      obtain ok wt2 w2 where a: "arm_read wi wt1 w1 = (ok, wt2, w2)" by (rule prod_cases3)
      have i': "i' = i1\<lparr>wn_watches := (wn_watches i1)[at := wt2]\<rparr>"
        using assms(1) False t a by (auto simp: packet_taken_def Some x \<open>\<not> up\<close> Let_def)
      note tr = win_translate_speaks [OF t]
      have "wn_watches i1 = wn_watches ?i" using speaks_watches [OF conjunct1 [OF tr], of old] assms(2) by simp
      moreover have "same_watch ?wt wt2" using tr same_watch_trans [OF _ arm_read_same [OF a]] by blast
      ultimately have "grows i1 i'" unfolding i' using at by (intro set_watch_grows) simp_all
      then show ?thesis using tr g0 speaks_grows grows_trans by blast
    qed
  qed
qed (use assms in \<open>simp add: packet_taken_def\<close>)

lemma win_take_events_grows:
  assumes "win_take_events wi ms inn w = Some (i', w')"
  shows "grows inn i'"
proof -
  have "grows inn (fst x)" if "win_take_events wi ms inn w = Some x" for x
  proof (rule win_take_events.raw_induct [where P = "\<lambda>wi ms inn w x. grows inn (fst x)", OF _ that])
    fix te and wi :: "'w wino_os" and ms inn w x
    assume IH: "\<And>wi ms inn w x. te wi ms inn w = Some x \<Longrightarrow> grows inn (fst x)"
      and eq: "(case wi_get wi (wn_port inn) ms w of
        (None, w) \<Rightarrow> Some (inn, w)
      | (Some p, w) \<Rightarrow> (case packet_taken wi p inn w of (inn, w) \<Rightarrow> te wi 0 inn w)) = Some x"
    obtain p w1 where g: "wi_get wi (wn_port inn) ms w = (p, w1)" by fastforce
    show "grows inn (fst x)"
    proof (cases p)
      case None
      then show ?thesis using eq g by auto
    next
      case (Some q)
      obtain i1 w2 where t: "packet_taken wi q inn w1 = (i1, w2)" by fastforce
      have "te wi 0 i1 w2 = Some x" using eq by (simp add: g Some t)
      then have "grows i1 (fst x)" by (rule IH)
      moreover have "grows inn i1" by (rule grows_if) (rule packet_taken_grows [OF t])
      ultimately show ?thesis by (rule grows_trans [rotated])
    qed
  qed
  with assms show ?thesis by auto
qed

lemma win_look_grows:
  assumes "win_look wi ms inn w = Some (i', w')"
  shows "grows inn i'"
proof -
  obtain i1 w1 where t: "win_take_events wi ms inn w = Some (i1, w1)"
    "(if in_queue i1 = [] then check_gone wi i1 w1 else (i1, w1)) = (i', w')"
    using assms by (auto simp: win_look_def bind_eq_Some_conv)
  have "grows i1 i'"
    using t(2) check_gone_from_grows [of wi "length (wn_watches i1)" i1 w1 i' w']
    by (auto simp: check_gone_def split: if_splits)
  with win_take_events_grows [OF t(1)] show ?thesis by (rule grows_trans)
qed

lemma win_block_grows:
  assumes "win_block wi inn w = Some (i', w')"
  shows "grows inn i'"
proof -
  have "grows inn (fst x)" if "win_block wi inn w = Some x" for x
  proof (rule win_block.raw_induct [where P = "\<lambda>wi inn w x. grows inn (fst x)", OF _ that])
    fix bl and wi :: "'w wino_os" and inn w x
    assume IH: "\<And>wi inn w x. bl wi inn w = Some x \<Longrightarrow> grows inn (fst x)"
      and eq: "(if in_queue inn = [] \<and> \<not> in_nonblock inn
        then Option.bind (win_look wi 200 inn w) (\<lambda>(inn, w). bl wi inn w) else Some (inn, w)) = Some x"
    show "grows inn (fst x)"
    proof (cases "in_queue inn = [] \<and> \<not> in_nonblock inn")
      case True
      then obtain i1 w1 where l: "win_look wi 200 inn w = Some (i1, w1)" "bl wi i1 w1 = Some x"
        using eq by (auto simp: bind_eq_Some_conv)
      from win_look_grows [OF l(1)] IH [OF l(2)] show ?thesis by (rule grows_trans)
    qed (use eq in auto)
  qed
  with assms show ?thesis by auto
qed

interpretation windows_reads: record_source
    "\<lambda>inn w. Option.bind (win_look wi 0 inn w) (\<lambda>(inn, w). win_block wi inn w)" watches_ok for wi :: "'w wino_os"
proof
  fix inn inn' :: winst and w w' :: 'w and old
  assume t: "Option.bind (win_look wi 0 inn w) (\<lambda>(inn, w). win_block wi inn w) = Some (inn', w')"
    and ok: "watches_ok inn" and h: "holds inn old"
  obtain i1 w1 where l: "win_look wi 0 inn w = Some (i1, w1)" "win_block wi i1 w1 = Some (inn', w')"
    using t by (auto simp: bind_eq_Some_conv)
  from win_look_grows [OF l(1)] win_block_grows [OF l(2)] have "grows inn inn'" by (rule grows_trans)
  then show "watches_ok inn' \<and> (\<exists>new. holds inn' (old @ new))" using ok h by (simp add: grows_def)
qed (simp add: watches_ok_def)

end
