(* ===== verification/Inotify_Win_Calls.thy ===== *)
theory Inotify_Win_Calls
  imports Inotify_Win_Facts
begin

text \<open>
  The calls of the Windows arm over its table of instances: what each keeps of the records and of
  the handles of the system.
\<close>

subsection \<open>The table\<close>

definition winst_ok :: "winst \<Rightarrow> bool" where
  "winst_ok inn \<longleftrightarrow> (\<exists>rs. holds inn rs) \<and> watches_ok inn"

definition wtbl_ok :: "winst list \<Rightarrow> bool" where
  "wtbl_ok tbl \<longleftrightarrow> length tbl = INST_MAX \<and> (\<forall>inn \<in> set tbl. winst_ok inn)"

lemma grows_ok: "grows inn inn' \<Longrightarrow> winst_ok inn \<Longrightarrow> winst_ok inn'"
  by (auto simp: grows_def winst_ok_def)

lemma wtbl_ok_set: "wtbl_ok tbl \<Longrightarrow> winst_ok inn \<Longrightarrow> wtbl_ok (tbl[i := inn])"
  using set_update_subset_insert [of tbl i inn] by (auto simp: wtbl_ok_def)

lemma wtbl_ok_nth: "wtbl_ok tbl \<Longrightarrow> i < INST_MAX \<Longrightarrow> winst_ok (tbl ! i)"
  by (auto simp: wtbl_ok_def)

lemma winst_of_Some: "winst_of tbl fd = Some i \<Longrightarrow> i < INST_MAX \<and> in_used (tbl ! i) \<and> wn_key (tbl ! i) = fd"
  by (auto simp: winst_of_def find_Some_iff)

lemma zero_winst_ok: "winst_ok zero_winst"
  "winst_ok (zero_winst\<lparr>wn_port := a, in_used := u, in_next_wd := b, in_nonblock := c, wn_key := k\<rparr>)"
  by (auto simp: winst_ok_def holds_def zero_winst_def watches_ok_def intro: exI [of _ "[]"])

text \<open>One call of the interface.\<close>

inductive wino_step :: "'w wino_os \<Rightarrow> winst list \<times> 'w \<Rightarrow> winst list \<times> 'w \<Rightarrow> bool" for wi where
  init1: "win_inotify_init1 wi flags tbl w = (res, tbl', w') \<Longrightarrow> wino_step wi (tbl, w) (tbl', w')"
| add_watch: "win_inotify_add_watch wi fd path mk tbl w = (res, tbl', w') \<Longrightarrow> wino_step wi (tbl, w) (tbl', w')"
| rm_watch: "win_inotify_rm_watch wi fd wd tbl w = (res, tbl', w') \<Longrightarrow> wino_step wi (tbl, w) (tbl', w')"
| read: "win_inotify_read wi fd has_buf len tbl w = Some (res, bs, tbl', w') \<Longrightarrow> wino_step wi (tbl, w) (tbl', w')"
| close: "win_inotify_close wi fd tbl w = (res, tbl', w') \<Longrightarrow> wino_step wi (tbl, w) (tbl', w')"

subsection \<open>A new watch\<close>

lemma remember_found_ok: "remember_found wi fs wt w = (wt', w') \<Longrightarrow> same_watch wt wt'"
proof (induction wi fs wt w rule: remember_found.induct)
  case (2 wi name attrs fs wt w)
  obtain wt1 w1 where r: "remember_dir wi name wt w = (wt1, w1)" by fastforce
  show ?case
  proof (cases "name = [46] \<or> name = [46, 46] \<or> \<not> bit attrs FILE_ATTRIBUTE_DIRECTORY_BIT")
    case True
    then show ?thesis using 2(1) 2(3) by (simp split: if_splits)
  next
    case False
    then have "same_watch wt1 wt'" using 2(2) [OF False r [symmetric]] 2(3) r by simp
    then show ?thesis using same_watch_trans [OF remember_dir_same [OF r]] by blast
  qed
qed simp

lemma list_dirs_same: "list_dirs wi wt w = (wt', w') \<Longrightarrow> same_watch wt wt'"
  by (auto simp: list_dirs_def dest: remember_found_ok split: if_splits option.splits prod.splits)

lemma open_above_shape:
  assumes "open_above wi port wt w = (wt', w')"
  shows "ww_dirs wt' = ww_dirs wt" "wt_wd wt' = wt_wd wt" "ww_dir wt' = ww_dir wt"
  using assms by (auto simp: open_above_def found_above_def Let_def split: option.splits prod.splits if_splits bool.splits)

lemma started_watch_ok:
  assumes "started_watch wi port wt w = (Inr wt', w')" "ww_dirs wt = []"
  shows "wwatch_ok wt'"
proof -
  obtain w1 wt2 w2 wt3 w3 where s: "wi_assoc wi (ww_dir wt) port (wt_wd wt) w = (True, w1)"
    "open_above wi port wt w1 = (wt2, w2)" "list_dirs wi wt2 w2 = (wt3, w3)" "arm_read wi wt3 w3 = (True, wt', w')"
    using assms(1) by (auto simp: started_watch_def split: prod.splits bool.splits)
  have "wwatch_ok wt2" using assms(2) open_above_shape(1) [OF s(2)] by (simp add: wwatch_ok_def)
  then show ?thesis using list_dirs_same [OF s(3)] arm_read_same [OF s(4)] by (simp add: same_watch_def)
qed

lemma made_watch_ok: "made_watch wi inn path mk d w = (Inr wt, w') \<Longrightarrow> wwatch_ok wt"
  by (auto simp: made_watch_def dest: started_watch_ok split: prod.splits sum.splits bool.splits if_splits)

lemma win_add_watch_cases:
  assumes "win_inotify_add_watch wi fd path mk tbl w = (res, tbl', w')"
  obtains (same) "tbl' = tbl"
    | (again) i k where "winst_of tbl fd = Some i" "k < length (wn_watches (tbl ! i))" "w' = w"
        "tbl' = tbl[i := (tbl ! i)\<lparr>wn_watches := (wn_watches (tbl ! i))[k := (wn_watches (tbl ! i) ! k)\<lparr>wt_mask := mk\<rparr>]\<rparr>]"
    | (new) i p d wt w1 where "winst_of tbl fd = Some i" "made_watch wi (tbl ! i) p mk d w = (Inr wt, w1)"
        "wi_malloc wi (length (wn_watches (tbl ! i)) + 1) w1 = (True, w')"
        "tbl' = tbl[i := (tbl ! i)\<lparr>wn_watches := wn_watches (tbl ! i) @ [wt], in_next_wd := in_next_wd (tbl ! i) + 1\<rparr>]"
proof (cases "tbl' = tbl")
  case False
  obtain p i where p: "path = Some p" "winst_of tbl fd = Some i"
    using assms False by (auto simp: win_inotify_add_watch_def split: option.splits if_splits)
  let ?ws = "wn_watches (tbl ! i)"
  obtain attrs where a: "wi_attrs wi p w = Some attrs" "mk AND IN_ALL_EVENTS \<noteq> 0"
    using assms False by (auto simp: win_inotify_add_watch_def p Let_def split: option.splits if_splits)
  show ?thesis
  proof (cases "List.find (\<lambda>k. stricmp_equal (asked_path (?ws ! k)) p) [0..<length ?ws]")
    case (Some k)
    then have "k < length ?ws" by (auto simp: find_Some_iff)
    then show ?thesis using assms by (intro again [OF p(2)]) (auto simp: win_inotify_add_watch_def p a Some Let_def)
  next
    case None
    obtain r w1 where m: "made_watch wi (tbl ! i) p mk (bit attrs FILE_ATTRIBUTE_DIRECTORY_BIT) w = (r, w1)" by fastforce
    obtain wt where r: "r = Inr wt"
      using assms False m by (cases r) (auto simp: win_inotify_add_watch_def p a None)
    obtain ok w2 where ok: "wi_malloc wi (length ?ws + 1) w1 = (ok, w2)" by fastforce
    then have "ok" using assms False m r by (cases ok) (auto simp: win_inotify_add_watch_def p a None)
    then show ?thesis
      using assms m ok r by (intro new [OF p(2), of p "bit attrs FILE_ATTRIBUTE_DIRECTORY_BIT" wt w1])
        (simp_all add: win_inotify_add_watch_def p a None Let_def)
  qed
qed (rule same)

lemma win_add_watch_ok:
  assumes "win_inotify_add_watch wi fd path mk tbl w = (res, tbl', w')" "wtbl_ok tbl"
  shows "wtbl_ok tbl'"
  using assms(1)
proof (cases rule: win_add_watch_cases)
  case (again i k)
  let ?ws = "wn_watches (tbl ! i)" and ?wt = "(wn_watches (tbl ! i) ! k)\<lparr>wt_mask := mk\<rparr>"
  have ok: "winst_ok (tbl ! i)" using winst_of_Some [OF again(1)] wtbl_ok_nth [OF assms(2)] by blast
  have "grows (tbl ! i) ((tbl ! i)\<lparr>wn_watches := ?ws[k := ?wt]\<rparr>)"
  proof (rule set_watches_grows)
    assume w: "watches_ok (tbl ! i)"
    then have "wwatch_ok ?wt" using again(2) by (simp add: watches_ok_def wwatch_ok_def)
    then show "\<forall>x \<in> set (?ws[k := ?wt]). wwatch_ok x"
      using w set_update_subset_insert [of ?ws k ?wt] unfolding watches_ok_def by blast
  qed
  from wtbl_ok_set [OF assms(2) grows_ok [OF this ok]] show ?thesis unfolding again(4) .
next
  case (new i p d wt w1)
  have "winst_ok (tbl ! i)" using winst_of_Some [OF new(1)] wtbl_ok_nth [OF assms(2)] by blast
  then have "winst_ok ((tbl ! i)\<lparr>wn_watches := wn_watches (tbl ! i) @ [wt], in_next_wd := in_next_wd (tbl ! i) + 1\<rparr>)"
    using made_watch_ok [OF new(2)] by (auto simp: winst_ok_def watches_ok_def holds_def)
  then show ?thesis unfolding new(4) by (rule wtbl_ok_set [OF assms(2)])
qed (use assms(2) in simp)

subsection \<open>The other calls\<close>

lemma win_rm_watch_cases:
  assumes "win_inotify_rm_watch wi fd wd tbl w = (res, tbl', w')"
  obtains (same) "tbl' = tbl" "w' = w"
    | (gone) i k i1 w1 i2 where "winst_of tbl fd = Some i" "k < length (wn_watches (tbl ! i))"
        "emit (wi_malloc wi) wd IN_IGNORED 0 None (tbl ! i) w = (i1, w1)" "win_forget wi k i1 w1 = (i2, w')"
        "tbl' = tbl[i := i2]"
proof (cases "tbl' = tbl \<and> w' = w")
  case False
  obtain i where i: "winst_of tbl fd = Some i"
    using assms False by (auto simp: win_inotify_rm_watch_def split: option.splits)
  let ?ws = "wn_watches (tbl ! i)"
  obtain k where k: "List.find (\<lambda>k. wt_wd (?ws ! k) = wd) [0..<length ?ws] = Some k"
    using assms False by (auto simp: win_inotify_rm_watch_def i Let_def split: option.splits)
  obtain i1 w1 where e: "emit (wi_malloc wi) wd IN_IGNORED 0 None (tbl ! i) w = (i1, w1)" by fastforce
  obtain i2 w2 where f: "win_forget wi k i1 w1 = (i2, w2)" by fastforce
  have "k < length ?ws" using k by (auto simp: find_Some_iff)
  moreover have "w2 = w'" "tbl' = tbl[i := i2]" using assms by (auto simp: win_inotify_rm_watch_def i k e f)
  ultimately show ?thesis using gone [OF i _ e] f by blast
qed (use same in blast)

lemma win_rm_watch_ok:
  assumes "win_inotify_rm_watch wi fd wd tbl w = (res, tbl', w')" "wtbl_ok tbl"
  shows "wtbl_ok tbl'"
  using assms(1)
proof (cases rule: win_rm_watch_cases)
  case (gone i k i1 w1 i2)
  have "winst_ok (tbl ! i)" using winst_of_Some [OF gone(1)] wtbl_ok_nth [OF assms(2)] by blast
  moreover have "grows (tbl ! i) i2"
    using speaks_grows [OF speaks_emit [OF gone(3)]] win_forget_grows [OF gone(4)] by (rule grows_trans)
  ultimately show ?thesis unfolding gone(5) using grows_ok wtbl_ok_set [OF assms(2)] by blast
qed (use assms(2) in simp)

lemma win_read_gives:
  assumes "win_inotify_read wi fd True len tbl w = Some (res, bs, tbl', w')" "wtbl_ok tbl"
    "winst_of tbl fd = Some i" "SIZEOF_EVENT \<le> unat len" "holds (tbl ! i) old"
  obtains new k where "old = [] \<or> new = []" "bs = concat (map enc (take k (old @ new)))"
    "holds (tbl' ! i) (drop k (old @ new))" "wtbl_ok tbl'"
    "if old @ new = [] then res = 0
     else if unat len < length (enc (hd (old @ new))) then res = - EINVAL \<and> k = 0
     else unat res = length bs \<and> 0 < k \<and> length bs \<le> unat len \<and>
       (k < length (old @ new) \<longrightarrow> unat len < length (concat (map enc (take (Suc k) (old @ new)))))"
proof -
  have i: "i < length tbl" "winst_ok (tbl ! i)"
    using winst_of_Some [OF assms(3)] assms(2) wtbl_ok_nth by (auto simp: wtbl_ok_def)
  obtain inn where r: "read_records (\<lambda>inn w. Option.bind (win_look wi 0 inn w) (\<lambda>(inn, w). win_block wi inn w))
      (unat len) (tbl ! i) w = Some (res, bs, inn, w')" "tbl' = tbl[i := inn]"
    using assms(1,3,4) by (auto simp: win_inotify_read_def)
  have ok: "watches_ok (tbl ! i)" using i(2) by (simp add: winst_ok_def)
  obtain new k where n: "old = [] \<or> new = []" "bs = concat (map enc (take k (old @ new)))"
    "holds inn (drop k (old @ new))" "watches_ok inn"
    "if old @ new = [] then res = 0
     else if unat len < length (enc (hd (old @ new))) then res = - EINVAL \<and> k = 0
     else unat res = length bs \<and> 0 < k \<and> length bs \<le> unat len \<and>
       (k < length (old @ new) \<longrightarrow> unat len < length (concat (map enc (take (Suc k) (old @ new)))))"
    by (rule windows_reads.reads [OF r(1) ok assms(5)])
  have "wtbl_ok tbl'" using n(3,4) wtbl_ok_set [OF assms(2), of inn i] by (auto simp: winst_ok_def r(2))
  then show thesis using n i(1) by (intro that [of new k]) (simp_all add: r(2))
qed

lemma win_read_ok:
  assumes "win_inotify_read wi fd has_buf len tbl w = Some (res, bs, tbl', w')" "wtbl_ok tbl"
  shows "wtbl_ok tbl'"
proof (cases "has_buf \<and> SIZEOF_EVENT \<le> unat len \<and> winst_of tbl fd \<noteq> None")
  case True
  then obtain i where i: "winst_of tbl fd = Some i" by blast
  then have "winst_ok (tbl ! i)" using winst_of_Some wtbl_ok_nth [OF assms(2)] by blast
  then obtain old where "holds (tbl ! i) old" by (auto simp: winst_ok_def)
  then show ?thesis using assms True i by (auto elim: win_read_gives)
qed (use assms in \<open>auto simp: win_inotify_read_def split: if_splits option.splits\<close>)

lemma wino_step_ok:
  assumes "wino_step wi (tbl, w) (tbl', w')" "wtbl_ok tbl"
  shows "wtbl_ok tbl'"
  using assms(1)
proof cases
  case init1
  then show ?thesis using assms(2) wtbl_ok_set [OF assms(2) zero_winst_ok(2)]
    by (auto simp: win_inotify_init1_def Let_def split: if_splits option.splits prod.splits)
next
  case add_watch
  then show ?thesis by (rule win_add_watch_ok [OF _ assms(2)])
next
  case rm_watch
  then show ?thesis by (rule win_rm_watch_ok [OF _ assms(2)])
next
  case read
  then show ?thesis by (rule win_read_ok [OF _ assms(2)])
next
  case close
  then show ?thesis using assms(2) wtbl_ok_set [OF assms(2) zero_winst_ok(1)]
    by (auto simp: win_inotify_close_def split: option.splits prod.splits)
qed

lemma wino_steps_ok:
  assumes "(wino_step wi)\<^sup>*\<^sup>* s t" "wtbl_ok (fst s)"
  shows "wtbl_ok (fst t)"
  using assms
proof (induction rule: rtranclp_induct)
  case (step t u)
  then show ?case by (metis wino_step_ok prod.collapse)
qed

end
