(* ===== verification/Inotify_Win_Handles.thy ===== *)
theory Inotify_Win_Handles
  imports Inotify_Win_Calls
begin

text \<open>
  The handles of the Windows arm: whatever is called and whatever fails, those the system counts
  open for the arm are those of its ports and of the two directories of each watch.
\<close>

subsection \<open>What the system counts\<close>

definition handle_laws :: "'w wino_os \<Rightarrow> ('w \<Rightarrow> handle multiset) \<Rightarrow> bool" where
  "handle_laws wi hs \<longleftrightarrow>
     (\<forall>w. 0 \<notin># hs w \<and> INVALID_HANDLE \<notin># hs w) \<and>
     (\<forall>w p w'. wi_new_port wi w = (p, w') \<longrightarrow> hs w' = (case p of None \<Rightarrow> hs w | Some h \<Rightarrow> add_mset h (hs w))) \<and>
     (\<forall>p w h w'. wi_open wi p w = (h, w') \<longrightarrow> hs w' = (if h = INVALID_HANDLE then hs w else add_mset h (hs w))) \<and>
     (\<forall>h w. hs (wi_close wi h w) = hs w - {#h#}) \<and> (\<forall>h w. hs (wi_cancel wi h w) = hs w) \<and>
     (\<forall>n w b w'. wi_malloc wi n w = (b, w') \<longrightarrow> hs w' = hs w) \<and>
     (\<forall>h p k w b w'. wi_assoc wi h p k w = (b, w') \<longrightarrow> hs w' = hs w) \<and>
     (\<forall>h f w b w'. wi_read_changes wi h f w = (b, w') \<longrightarrow> hs w' = hs w) \<and>
     (\<forall>h n w p w'. wi_get wi h n w = (p, w') \<longrightarrow> hs w' = hs w) \<and>
     (\<forall>p w fs w'. wi_find wi p w = (fs, w') \<longrightarrow> hs w' = hs w)"

lemma handle_lawsD:
  assumes "handle_laws wi hs"
  shows "0 \<notin># hs w" "INVALID_HANDLE \<notin># hs w"
    "wi_new_port wi w = (p, w') \<Longrightarrow> hs w' = (case p of None \<Rightarrow> hs w | Some h \<Rightarrow> add_mset h (hs w))"
    "wi_open wi pa w = (h, w') \<Longrightarrow> hs w' = (if h = INVALID_HANDLE then hs w else add_mset h (hs w))"
    "hs (wi_close wi h w) = hs w - {#h#}" "hs (wi_cancel wi h w) = hs w"
    "wi_malloc wi n w = (b, w') \<Longrightarrow> hs w' = hs w"
    "wi_assoc wi h po k w = (b, w') \<Longrightarrow> hs w' = hs w"
    "wi_read_changes wi h f w = (b, w') \<Longrightarrow> hs w' = hs w"
    "wi_get wi h n w = (pk, w') \<Longrightarrow> hs w' = hs w"
    "wi_find wi pa w = (fs, w') \<Longrightarrow> hs w' = hs w"
proof -
  note laws = assms [unfolded handle_laws_def]
  show "0 \<notin># hs w" "INVALID_HANDLE \<notin># hs w" using laws [THEN conjunct1, rule_format] by simp_all
  show "hs w' = (case p of None \<Rightarrow> hs w | Some h \<Rightarrow> add_mset h (hs w))" if "wi_new_port wi w = (p, w')"
    by (rule laws [THEN conjunct2, THEN conjunct1, rule_format, OF that])
  show "hs w' = (if h = INVALID_HANDLE then hs w else add_mset h (hs w))" if "wi_open wi pa w = (h, w')"
    by (rule laws [THEN conjunct2, THEN conjunct2, THEN conjunct1, rule_format, OF that])
  show "hs (wi_close wi h w) = hs w - {#h#}" by (rule laws [THEN conjunct2, THEN conjunct2, THEN conjunct2, THEN conjunct1, rule_format])
  show "hs (wi_cancel wi h w) = hs w" by (rule laws [THEN conjunct2, THEN conjunct2, THEN conjunct2, THEN conjunct2, THEN conjunct1, rule_format])
  show "hs w' = hs w" if "wi_malloc wi n w = (b, w')" by (rule laws [THEN conjunct2, THEN conjunct2, THEN conjunct2, THEN conjunct2, THEN conjunct2, THEN conjunct1, rule_format, OF that])
  show "hs w' = hs w" if "wi_assoc wi h po k w = (b, w')" by (rule laws [THEN conjunct2, THEN conjunct2, THEN conjunct2, THEN conjunct2, THEN conjunct2, THEN conjunct2, THEN conjunct1, rule_format, OF that])
  show "hs w' = hs w" if "wi_read_changes wi h f w = (b, w')" by (rule laws [THEN conjunct2, THEN conjunct2, THEN conjunct2, THEN conjunct2, THEN conjunct2, THEN conjunct2, THEN conjunct2, THEN conjunct1, rule_format, OF that])
  show "hs w' = hs w" if "wi_get wi h n w = (pk, w')" by (rule laws [THEN conjunct2, THEN conjunct2, THEN conjunct2, THEN conjunct2, THEN conjunct2, THEN conjunct2, THEN conjunct2, THEN conjunct2, THEN conjunct1, rule_format, OF that])
  show "hs w' = hs w" if "wi_find wi pa w = (fs, w')" by (rule laws [THEN conjunct2, THEN conjunct2, THEN conjunct2, THEN conjunct2, THEN conjunct2, THEN conjunct2, THEN conjunct2, THEN conjunct2, THEN conjunct2, rule_format, OF that])
qed

definition held_watch :: "wwatch \<Rightarrow> handle multiset" where
  "held_watch wt = {#ww_dir wt#} + (if ww_up wt = INVALID_HANDLE then {#} else {#ww_up wt#})"

definition held_inst :: "winst \<Rightarrow> handle multiset" where
  "held_inst inn = (if in_used inn then {#wn_port inn#} + sum_list (map held_watch (wn_watches inn)) else {#})"

definition held_all :: "winst list \<Rightarrow> handle multiset" where
  "held_all tbl = sum_list (map held_inst tbl)"

lemma sum_list_update:
  fixes xs :: "'a multiset list"
  assumes "i < length xs"
  shows "sum_list (xs[i := y]) + xs ! i = sum_list xs + y"
  using assms
proof (induction xs arbitrary: i)
  case (Cons x xs)
  show ?case
  proof (cases i)
    case (Suc j)
    then show ?thesis using Cons.IH [of j] Cons.prems by (simp add: add.assoc)
  qed (simp add: ac_simps)
qed simp

lemma held_all_update: "i < length tbl \<Longrightarrow> held_all (tbl[i := inn]) + held_inst (tbl ! i) = held_all tbl + held_inst inn"
  using sum_list_update [of i "map held_inst tbl" "held_inst inn"] by (simp add: held_all_def map_update)

subsection \<open>Speaking opens nothing\<close>

definition calm :: "('w \<Rightarrow> handle multiset) \<Rightarrow> winst \<times> 'w \<Rightarrow> winst \<times> 'w \<Rightarrow> bool" where
  "calm hs a b \<longleftrightarrow> in_used (fst b) = in_used (fst a) \<and> wn_port (fst b) = wn_port (fst a) \<and>
     wn_watches (fst b) = wn_watches (fst a) \<and> hs (snd b) = hs (snd a)"

lemma calm_refl [simp]: "calm hs a a"
  by (simp add: calm_def)

lemma calm_trans: "calm hs a b \<Longrightarrow> calm hs b c \<Longrightarrow> calm hs a c"
  by (simp add: calm_def)

lemma calm_cookies [simp]: "calm hs a (i\<lparr>in_next_cookie := c, wn_open_cookie := d\<rparr>, w) = calm hs a (i, w)"
  "calm hs a (i\<lparr>wn_open_cookie := d\<rparr>, w) = calm hs a (i, w)"
  "calm hs (i\<lparr>in_next_cookie := c, wn_open_cookie := d\<rparr>, w) a = calm hs (i, w) a"
  by (simp_all add: calm_def)

lemma make_room_calm:
  assumes "make_room (wi_malloc wi) n inn w = (Some i', w')" "handle_laws wi hs"
  shows "calm hs (inn, w) (i', w')"
  using assms(1) handle_lawsD(7) [OF assms(2)]
  by (auto simp: make_room_def Let_def calm_def split: if_splits prod.splits)

lemma emit_calm:
  assumes "emit (wi_malloc wi) wd mk ck name inn w = (i', w')" "handle_laws wi hs"
  shows "calm hs (inn, w) (i', w')"
proof (cases "QUEUE_MAX < length (in_queue inn) + (SIZEOF_EVENT + unat (name_len name))")
  case True
  then show ?thesis using assms(1) by (auto simp: emit_def Let_def calm_def split: if_splits)
next
  case False
  obtain x w1 where m: "make_room (wi_malloc wi) (length (in_queue inn) + (SIZEOF_EVENT + unat (name_len name))) inn w = (x, w1)"
    by fastforce
  show ?thesis
  proof (cases x)
    case None
    have "hs w1 = hs w" using m handle_lawsD(7) [OF assms(2)]
      by (auto simp: make_room_def Let_def split: if_splits prod.splits)
    then show ?thesis using assms(1) False m None by (simp add: emit_def Let_def calm_def)
  next
    case (Some i1)
    from make_room_calm [OF m [unfolded Some] assms(2)] show ?thesis
      using assms(1) False m Some by (auto simp: emit_def Let_def calm_def)
  qed
qed

lemma masked_calm:
  assumes "emit_masked (wi_malloc wi) wt mk ck name d inn w = (i', w')" "handle_laws wi hs"
  shows "calm hs (inn, w) (i', w')"
  using assms emit_calm by (auto simp: emit_masked_def split: if_splits)

lemma remember_dir_calm:
  assumes "remember_dir wi name wt w = (wt', w')" "handle_laws wi hs"
  shows "hs w' = hs w"
  using assms(1) handle_lawsD(7) [OF assms(2)]
  by (auto simp: remember_dir_def split: if_splits prod.splits bool.splits)

lemma say_action_calm:
  assumes "say_action wi wt act name isdir inn w = (wt', i', w')" "handle_laws wi hs"
  shows "calm hs (inn, w) (i', w')"
proof (cases act)
  case FA_REMOVED
  show ?thesis
  proof (cases "ww_only wt = None")
    case True
    then show ?thesis using assms masked_calm [OF _ assms(2)]
      by (auto simp: say_action_def Let_def FA_REMOVED split: prod.splits)
  next
    case False
    obtain i1 w1 where a: "emit_masked (wi_malloc wi) wt IN_DELETE_SELF 0 None (wt_is_dir wt) inn w = (i1, w1)" by fastforce
    have "emit (wi_malloc wi) (wt_wd wt) IN_IGNORED 0 None i1 w1 = (i', w')"
      using assms(1) False a by (auto simp: say_action_def Let_def FA_REMOVED split: prod.splits)
    from emit_calm [OF this assms(2)] show ?thesis using masked_calm [OF a assms(2)] calm_trans by blast
  qed
next
  case FA_RENAMED_OLD
  let ?i = "inn\<lparr>in_next_cookie := in_next_cookie inn + 1, wn_open_cookie := in_next_cookie inn + 1\<rparr>"
  have "calm hs (?i, w) (i', w')"
    using assms(1) masked_calm [OF _ assms(2), of _ _ _ _ _ ?i w i' w']
    by (auto simp: say_action_def Let_def FA_RENAMED_OLD split: prod.splits if_splits)
  then show ?thesis by simp
qed (use assms masked_calm [OF _ assms(2)] in \<open>auto simp: say_action_def Let_def split: prod.splits if_splits\<close>)

lemma translate_one_calm:
  assumes "translate_one wi nt wt inn w = (wt', i', w')" "handle_laws wi hs"
  shows "calm hs (inn, w) (i', w')"
proof (cases "BACKSLASH \<in> set (notified_name wi nt w) \<or> notified_name wi nt w = []")
  case True
  then show ?thesis using assms by (auto simp: translate_one_def Let_def)
next
  case False
  let ?name = "notified_name wi nt w" and ?act = "nt_action nt"
  obtain isdir wt1 w1 where d: "(if ?act = FA_REMOVED \<or> ?act = FA_RENAMED_OLD then (is_known_dir wt ?name, wt, w)
           else if path_is_dir wi (joined (wt_path wt) ?name) w
           then (case remember_dir wi ?name wt w of (wt, w) \<Rightarrow> (True, wt, w))
           else (False, wt, w)) = (isdir, wt1, w1)" by (rule prod_cases3)
  have s: "calm hs (inn, w) (inn, w1)"
    using d remember_dir_calm [OF _ assms(2)] by (auto simp: calm_def split: if_splits prod.splits)
  have t: "(if (case ww_only wt1 of None \<Rightarrow> False | Some only \<Rightarrow> only \<noteq> ?name) then (wt1, inn, w1)
           else say_action wi wt1 ?act ?name isdir inn w1) = (wt', i', w')"
    using assms(1) False d by (simp add: translate_one_def Let_def)
  then have "calm hs (inn, w1) (i', w')" using say_action_calm [OF _ assms(2)] by (auto split: if_splits)
  with s show ?thesis by (rule calm_trans)
qed

lemma win_translate_calm:
  "win_translate wi nts wt inn w = (wt', i', w') \<Longrightarrow> handle_laws wi hs \<Longrightarrow> calm hs (inn, w) (i', w')"
proof (induction nts arbitrary: wt inn w)
  case (Cons nt nts)
  obtain wt1 i1 w1 where t: "translate_one wi nt wt inn w = (wt1, i1, w1)" by (rule prod_cases3)
  then have "win_translate wi nts wt1 i1 w1 = (wt', i', w')" using Cons.prems by simp
  from Cons.IH [OF this Cons.prems(2)] translate_one_calm [OF t Cons.prems(2)] show ?case
    using calm_trans by blast
qed simp

lemma up_loop_calm:
  "up_loop wi wt self nts gone inn w = (g, i', w') \<Longrightarrow> handle_laws wi hs \<Longrightarrow> calm hs (inn, w) (i', w')"
proof (induction nts arbitrary: gone inn w)
  case (Cons nt nts)
  obtain g1 i1 w1 where s: "up_loop wi wt self nts g1 i1 w1 = (g, i', w')" "calm hs (inn, w) (i1, w1)"
    using Cons.prems(1)
    by (auto simp: Let_def split: if_splits prod.splits
        dest!: masked_calm [OF _ Cons.prems(2)] emit_calm [OF _ Cons.prems(2)] intro: calm_trans)
  from Cons.IH [OF s(1) Cons.prems(2)] s(2) show ?case by (rule calm_trans [rotated])
qed simp

lemma translate_up_calm:
  "translate_up wi chain wt inn w = (g, i', w') \<Longrightarrow> handle_laws wi hs \<Longrightarrow> calm hs (inn, w) (i', w')"
  by (auto simp: translate_up_def dest: up_loop_calm split: option.splits)

subsection \<open>Accounts\<close>

text \<open>What an instance in use holds is what the system counts, beside \<open>B\<close>.\<close>

definition even_with :: "('w \<Rightarrow> handle multiset) \<Rightarrow> handle multiset \<Rightarrow> winst \<times> 'w \<Rightarrow> bool" where
  "even_with hs B a \<longleftrightarrow> in_used (fst a) \<and> hs (snd a) = held_inst (fst a) + B"

lemma calm_even: "calm hs a b \<Longrightarrow> even_with hs B a \<Longrightarrow> even_with hs B b"
  by (simp add: calm_def even_with_def held_inst_def)

lemma same_watch_held: "same_watch a b \<Longrightarrow> held_watch b = held_watch a"
  by (simp add: same_watch_def held_watch_def)

lemma set_watch_even:
  assumes "even_with hs B (inn, w)" "at < length (wn_watches inn)" "same_watch (wn_watches inn ! at) wt"
    "hs w' = hs w"
  shows "even_with hs B (inn\<lparr>wn_watches := (wn_watches inn)[at := wt]\<rparr>, w')"
proof -
  have "map held_watch ((wn_watches inn)[at := wt]) = map held_watch (wn_watches inn)"
    using same_watch_held [OF assms(3)] assms(2) by (metis list_update_id map_update nth_map)
  then show ?thesis using assms(1,4) by (simp add: even_with_def held_inst_def)
qed

lemma watch_free_hs:
  assumes "handle_laws wi hs" "hs w = held_watch wt + B"
  shows "hs (watch_free wi wt w) = B"
proof -
  have "ww_dir wt \<in># hs w" using assms(2) by (simp add: held_watch_def)
  then have "ww_dir wt \<noteq> INVALID_HANDLE" using handle_lawsD(2) [OF assms(1), of w] by metis
  then show ?thesis
    using assms(2) handle_lawsD(5,6) [OF assms(1)]
    by (simp add: watch_free_def close_handle_def held_watch_def)
qed

lemma win_forget_even:
  assumes "win_forget wi at inn w = (i', w')" "handle_laws wi hs" "even_with hs B (inn, w)"
    "at < length (wn_watches inn)"
  shows "even_with hs B (i', w')"
proof -
  let ?ws = "wn_watches inn"
  let ?rest = "sum_list (map held_watch (take at ?ws @ drop (Suc at) ?ws))"
  have "sum_list (map held_watch ?ws) = held_watch (?ws ! at) + ?rest"
    using arg_cong [OF id_take_nth_drop [OF assms(4)], of "\<lambda>xs. sum_list (map held_watch xs)"]
    by (simp add: ac_simps)
  then have "hs w = held_watch (?ws ! at) + ({#wn_port inn#} + ?rest + B)"
    using assms(3) by (simp add: even_with_def held_inst_def ac_simps)
  from watch_free_hs [OF assms(2) this] show ?thesis
    using assms(1,3) by (auto simp: win_forget_def even_with_def held_inst_def)
qed

lemma tell_gone_even:
  assumes "tell_gone wi at inn w = (i', w')" "handle_laws wi hs" "even_with hs B (inn, w)"
    "at < length (wn_watches inn)"
  shows "even_with hs B (i', w')"
proof -
  let ?wt = "wn_watches inn ! at"
  obtain i1 w1 where a: "emit_masked (wi_malloc wi) ?wt IN_DELETE_SELF 0 None (wt_is_dir ?wt) inn w = (i1, w1)" by fastforce
  obtain i2 w2 where b: "emit (wi_malloc wi) (wt_wd ?wt) IN_IGNORED 0 None i1 w1 = (i2, w2)" by fastforce
  have c: "calm hs (inn, w) (i2, w2)"
    using masked_calm [OF a assms(2)] emit_calm [OF b assms(2)] by (rule calm_trans)
  have "win_forget wi at i2 w2 = (i', w')" using assms(1) a b by (simp add: tell_gone_def Let_def)
  moreover have "at < length (wn_watches i2)" using c assms(4) by (simp add: calm_def)
  ultimately show ?thesis using win_forget_even [OF _ assms(2) calm_even [OF c assms(3)]] by blast
qed

lemma check_gone_from_even:
  "check_gone_from wi n inn w = (i', w') \<Longrightarrow> handle_laws wi hs \<Longrightarrow> even_with hs B (inn, w) \<Longrightarrow>
   n \<le> length (wn_watches inn) \<Longrightarrow> even_with hs B (i', w')"
proof (induction n arbitrary: inn w)
  case (Suc n)
  show ?case
  proof (cases "still_there wi (wn_watches inn ! n) w")
    case False
    obtain i1 w1 where t: "tell_gone wi n inn w = (i1, w1)" by fastforce
    have l: "n \<le> length (wn_watches i1)"
    proof -
      let ?wt = "wn_watches inn ! n"
      obtain a v where a: "emit_masked (wi_malloc wi) ?wt IN_DELETE_SELF 0 None (wt_is_dir ?wt) inn w = (a, v)" by fastforce
      obtain b u where b: "emit (wi_malloc wi) (wt_wd ?wt) IN_IGNORED 0 None a v = (b, u)" by fastforce
      have "wn_watches b = wn_watches inn"
        using masked_calm [OF a Suc.prems(2)] emit_calm [OF b Suc.prems(2)] by (simp add: calm_def)
      then show ?thesis using t a b Suc.prems(4) by (auto simp: tell_gone_def Let_def win_forget_def)
    qed
    have "check_gone_from wi n i1 w1 = (i', w')" using Suc.prems(1) False t by simp
    then show ?thesis
      using Suc.IH [OF _ Suc.prems(2) _ l] tell_gone_even [OF t Suc.prems(2,3)] Suc.prems(4) by simp
  qed (use Suc in simp)
qed simp

subsection \<open>Taking and waiting\<close>

lemma packet_taken_even:
  assumes "packet_taken wi p inn w = (i', w')" "handle_laws wi hs" "even_with hs B (inn, w)"
  shows "even_with hs B (i', w')"
proof (cases "watch_of_key inn (pk_key p)")
  case (Some x)
  obtain at up where x: "x = (at, up)" by fastforce
  note at = watch_of_key_Some [OF Some [unfolded x]]
  show ?thesis
  proof (cases up)
    case True
    obtain g i1 w1 where u: "(if pk_ok p then translate_up wi (pk_chain p) (wn_watches inn ! at) inn w else (True, inn, w))
        = (g, i1, w1)" by (rule prod_cases3)
    have c: "calm hs (inn, w) (i1, w1)" using u translate_up_calm [OF _ assms(2)] by (auto split: if_splits)
    note e = calm_even [OF c assms(3)]
    show ?thesis
    proof (cases g)
      case True
      then have "win_forget wi at i1 w1 = (i', w')" using assms(1) by (simp add: packet_taken_def Some x \<open>up\<close> u)
      then show ?thesis using c at by (intro win_forget_even [OF _ assms(2) e]) (simp_all add: calm_def)
    next
      case False
      then have "i' = i1" "w' = snd (arm_up_read wi (wn_watches i1 ! at) w1)"
        using assms(1) by (auto simp: packet_taken_def Some x \<open>up\<close> u)
      moreover have "hs (snd (arm_up_read wi (wn_watches i1 ! at) w1)) = hs w1"
        using handle_lawsD(9) [OF assms(2)] by (simp add: arm_up_read_def) (metis prod.collapse)
      ultimately show ?thesis using e by (simp add: even_with_def)
    qed
  next
    case False
    let ?wt = "(wn_watches inn ! at)\<lparr>ww_pending := False\<rparr>"
    let ?i = "inn\<lparr>wn_watches := (wn_watches inn)[at := ?wt]\<rparr>"
    have s0: "same_watch (wn_watches inn ! at) ?wt" by (simp add: same_watch_def wwatch_ok_def)
    note e0 = set_watch_even [OF assms(3) at s0 refl]
    show ?thesis
    proof (cases "\<not> pk_ok p \<or> \<not> path_is_dir wi (wt_path ?wt) w")
      case True
      then have "tell_gone wi at ?i w = (i', w')"
        using assms(1) by (auto simp: packet_taken_def Some x \<open>\<not> up\<close> Let_def)
      then show ?thesis using at by (intro tell_gone_even [OF _ assms(2) e0]) simp_all
    next
      case False
      obtain wt1 i1 w1 where t: "win_translate wi (pk_chain p) ?wt ?i w = (wt1, i1, w1)" by (rule prod_cases3)
      obtain ok wt2 w2 where a: "arm_read wi wt1 w1 = (ok, wt2, w2)" by (rule prod_cases3)
      have r: "i' = i1\<lparr>wn_watches := (wn_watches i1)[at := wt2]\<rparr>" "w' = w2"
        using assms(1) False t a by (auto simp: packet_taken_def Some x \<open>\<not> up\<close> Let_def)
      note c = win_translate_calm [OF t assms(2)]
      have ws: "wn_watches i1 = wn_watches ?i" using c by (simp add: calm_def)
      have "same_watch ?wt wt2"
        using win_translate_speaks [OF t] same_watch_trans [OF _ arm_read_same [OF a]] by blast
      then have "same_watch (wn_watches i1 ! at) wt2" using at by (simp add: ws)
      moreover have "hs w2 = hs w1" using a handle_lawsD(9) [OF assms(2)] by (auto simp: arm_read_def split: prod.splits)
      ultimately show ?thesis
        unfolding r using at by (intro set_watch_even [OF calm_even [OF c e0]]) (simp_all add: ws)
    qed
  qed
qed (use assms in \<open>simp add: packet_taken_def\<close>)

lemma win_take_events_even:
  assumes "win_take_events wi ms inn w = Some (i', w')" "handle_laws wi hs" "even_with hs B (inn, w)"
  shows "even_with hs B (i', w')"
proof -
  define ok where "ok = (\<lambda>wi inn w x. handle_laws wi hs \<longrightarrow> even_with hs B (inn, w) \<longrightarrow> even_with hs B x)"
  have "ok wi inn w x" if "win_take_events wi ms inn w = Some x" for x
  proof (rule win_take_events.raw_induct [where P = "\<lambda>wi ms inn w x. ok wi inn w x", OF _ that])
    fix te and wi :: "'a wino_os" and ms inn w x
    assume IH: "\<And>wi ms inn w x. te wi ms inn w = Some x \<Longrightarrow> ok wi inn w x"
      and eq: "(case wi_get wi (wn_port inn) ms w of
        (None, w) \<Rightarrow> Some (inn, w)
      | (Some p, w) \<Rightarrow> (case packet_taken wi p inn w of (inn, w) \<Rightarrow> te wi 0 inn w)) = Some x"
    show "ok wi inn w x"
      unfolding ok_def
    proof (intro impI)
      assume L: "handle_laws wi hs" and e: "even_with hs B (inn, w)"
      obtain p w1 where g: "wi_get wi (wn_port inn) ms w = (p, w1)" by fastforce
      have e1: "even_with hs B (inn, w1)" using e handle_lawsD(10) [OF L g] by (simp add: even_with_def)
      show "even_with hs B x"
      proof (cases p)
        case None
        then show ?thesis using eq g e1 by auto
      next
        case (Some q)
        obtain i1 w2 where t: "packet_taken wi q inn w1 = (i1, w2)" by fastforce
        have "te wi 0 i1 w2 = Some x" using eq by (simp add: g Some t)
        from IH [OF this] show ?thesis using packet_taken_even [OF t L e1] L unfolding ok_def by blast
      qed
    qed
  qed
  with assms show ?thesis unfolding ok_def by blast
qed

lemma win_look_even:
  assumes "win_look wi ms inn w = Some (i', w')" "handle_laws wi hs" "even_with hs B (inn, w)"
  shows "even_with hs B (i', w')"
proof -
  obtain i1 w1 where t: "win_take_events wi ms inn w = Some (i1, w1)"
    "(if in_queue i1 = [] then check_gone wi i1 w1 else (i1, w1)) = (i', w')"
    using assms(1) by (auto simp: win_look_def bind_eq_Some_conv)
  note e = win_take_events_even [OF t(1) assms(2,3)]
  show ?thesis
    using t(2) e check_gone_from_even [OF _ assms(2) e order.refl] by (auto simp: check_gone_def split: if_splits)
qed

lemma win_block_even:
  assumes "win_block wi inn w = Some (i', w')" "handle_laws wi hs" "even_with hs B (inn, w)"
  shows "even_with hs B (i', w')"
proof -
  define ok where "ok = (\<lambda>wi inn w x. handle_laws wi hs \<longrightarrow> even_with hs B (inn, w) \<longrightarrow> even_with hs B x)"
  have "ok wi inn w x" if "win_block wi inn w = Some x" for x
  proof (rule win_block.raw_induct [where P = "\<lambda>wi inn w x. ok wi inn w x", OF _ that])
    fix bl and wi :: "'a wino_os" and inn w x
    assume IH: "\<And>wi inn w x. bl wi inn w = Some x \<Longrightarrow> ok wi inn w x"
      and eq: "(if in_queue inn = [] \<and> \<not> in_nonblock inn
        then Option.bind (win_look wi 200 inn w) (\<lambda>(inn, w). bl wi inn w) else Some (inn, w)) = Some x"
    show "ok wi inn w x"
    proof (cases "in_queue inn = [] \<and> \<not> in_nonblock inn")
      case True
      then obtain i1 w1 where l: "win_look wi 200 inn w = Some (i1, w1)" "bl wi i1 w1 = Some x"
        using eq by (auto simp: bind_eq_Some_conv)
      from IH [OF l(2)] win_look_even [OF l(1)] show ?thesis unfolding ok_def by blast
    qed (use eq in \<open>auto simp: ok_def\<close>)
  qed
  with assms show ?thesis unfolding ok_def by blast
qed

subsection \<open>The calls\<close>

lemma remember_found_hs:
  "remember_found wi fs wt w = (wt', w') \<Longrightarrow> handle_laws wi hs \<Longrightarrow> hs w' = hs w"
proof (induction wi fs wt w rule: remember_found.induct)
  case (2 wi name attrs fs wt w)
  obtain wt1 w1 where r: "remember_dir wi name wt w = (wt1, w1)" by fastforce
  show ?case
  proof (cases "name = [46] \<or> name = [46, 46] \<or> \<not> bit attrs FILE_ATTRIBUTE_DIRECTORY_BIT")
    case True
    then show ?thesis using 2(1) 2(3,4) by (simp split: if_splits)
  next
    case False
    have "remember_found wi fs wt1 w1 = (wt', w')" using 2(3) False r by simp
    from 2(2) [OF False r [symmetric] this 2(4)] remember_dir_calm [OF r 2(4)] show ?thesis by simp
  qed
qed simp

lemma list_dirs_hs:
  assumes "list_dirs wi wt w = (wt', w')" "handle_laws wi hs"
  shows "hs w' = hs w"
  using assms(1) remember_found_hs [OF _ assms(2)] handle_lawsD(11) [OF assms(2)]
  by (fastforce simp: list_dirs_def split: if_splits option.splits prod.splits)

lemma open_above_hs:
  assumes "open_above wi port wt w = (wt', w')" "handle_laws wi hs"
  shows "hs w' = hs w + (if ww_up wt' = INVALID_HANDLE then {#} else {#ww_up wt'#})"
proof -
  obtain wt1 w1 where a: "found_above wi wt w = (wt1, w1)" by fastforce
  have h1: "hs w1 = hs w + (if ww_up wt1 = INVALID_HANDLE then {#} else {#ww_up wt1#})"
    using a by (auto simp: found_above_def Let_def split: option.splits prod.splits if_splits
        dest!: handle_lawsD(7) [OF assms(2)] handle_lawsD(4) [OF assms(2)])
  have r: "open_above wi port wt w =
      (if ww_up wt1 = INVALID_HANDLE then (wt1, w1)
         else case wi_assoc wi (ww_up wt1) port (UP_KEY (wt_wd wt1)) w1 of
           (ok, w) \<Rightarrow>
             (case (if ok then arm_up_read wi wt1 w else (False, w)) of
                (True, w) \<Rightarrow> (wt1, w)
              | (False, w) \<Rightarrow> (wt1\<lparr>ww_up := INVALID_HANDLE\<rparr>, wi_close wi (ww_up wt1) w)))"
    by (simp add: open_above_def a)
  show ?thesis
  proof (cases "ww_up wt1 = INVALID_HANDLE")
    case True
    then show ?thesis using assms(1) h1 by (simp add: r)
  next
    case False
    obtain ok w2 where b: "wi_assoc wi (ww_up wt1) port (UP_KEY (wt_wd wt1)) w1 = (ok, w2)" by fastforce
    obtain go w3 where c: "(if ok then arm_up_read wi wt1 w2 else (False, w2)) = (go, w3)" by fastforce
    have "hs w2 = hs w1" by (rule handle_lawsD(8) [OF assms(2) b])
    moreover have "hs w3 = hs w2"
      using c handle_lawsD(9) [OF assms(2)] by (auto simp: arm_up_read_def split: if_splits)
    ultimately show ?thesis
      using assms(1) False h1 b c by (cases go) (auto simp: r handle_lawsD(5) [OF assms(2)])
  qed
qed

lemma started_watch_hs:
  assumes "started_watch wi port wt w = (r, w')" "handle_laws wi hs" "hs w = add_mset (ww_dir wt) B" "ww_up wt = 0"
  shows "hs w' = (case r of Inl _ \<Rightarrow> B | Inr wt' \<Rightarrow> held_watch wt' + B)"
proof -
  obtain ok w1 where a: "wi_assoc wi (ww_dir wt) port (wt_wd wt) w = (ok, w1)" by fastforce
  have h1: "hs w1 = hs w" by (rule handle_lawsD(8) [OF assms(2) a])
  show ?thesis
  proof (cases ok)
    case False
    then have r: "r = Inl (- EACCES)" "w' = watch_free wi wt w1" using assms(1) a by (auto simp: started_watch_def)
    have "ww_dir wt \<noteq> INVALID_HANDLE" using handle_lawsD(2) [OF assms(2), of w] assms(3) by auto
    moreover have "0 \<notin># B" using handle_lawsD(1) [OF assms(2), of w] assms(3) by auto
    ultimately show ?thesis
      using h1 assms(3,4) handle_lawsD(5,6) [OF assms(2)]
      by (simp add: r watch_free_def close_handle_def INVALID_HANDLE_def diff_single_trivial)
  next
    case True
    obtain wt2 w2 where b: "open_above wi port wt w1 = (wt2, w2)" by fastforce
    obtain wt3 w3 where c: "list_dirs wi wt2 w2 = (wt3, w3)" by fastforce
    obtain go wt4 w4 where d: "arm_read wi wt3 w3 = (go, wt4, w4)" by (rule prod_cases3)
    have "held_watch wt4 = held_watch wt2"
      using same_watch_held [OF list_dirs_same [OF c]] same_watch_held [OF arm_read_same [OF d]] by simp
    moreover have "hs w4 = hs w2"
      using d list_dirs_hs [OF c assms(2)] handle_lawsD(9) [OF assms(2)] by (auto simp: arm_read_def split: prod.splits)
    ultimately have h4: "hs w4 = held_watch wt4 + B"
      using open_above_hs [OF b assms(2)] open_above_shape(3) [OF b] h1 assms(3) by (simp add: held_watch_def)
    show ?thesis
      using assms(1) a b c d True h4 watch_free_hs [OF assms(2) h4]
      by (cases go) (auto simp: started_watch_def)
  qed
qed

lemma made_watch_hs:
  assumes "made_watch wi inn path mk d w = (r, w')" "handle_laws wi hs"
  shows "hs w' = (case r of Inl _ \<Rightarrow> hs w | Inr wt \<Rightarrow> held_watch wt + hs w)"
proof -
  obtain x w1 where a: "watched_dir wi path d w = (x, w1)" by fastforce
  have h1: "hs w1 = hs w"
    using a handle_lawsD(7) [OF assms(2)]
    by (fastforce simp: watched_dir_def split: prod.splits bool.splits if_splits option.splits)
  show ?thesis
  proof (cases x)
    case (Inl e)
    then show ?thesis using assms(1) a h1 by (auto simp: made_watch_def)
  next
    case (Inr y)
    obtain dirpath only where y: "y = (dirpath, only)" by fastforce
    obtain ok w2 where m: "wi_malloc wi 1 w1 = (ok, w2)" by fastforce
    have h2: "hs w2 = hs w" using handle_lawsD(7) [OF assms(2) m] h1 by simp
    obtain h w3 where o: "wi_open wi dirpath w2 = (h, w3)" by fastforce
    note h3 = handle_lawsD(4) [OF assms(2) o]
    show ?thesis
    proof (cases "ok \<and> h \<noteq> INVALID_HANDLE")
      case True
      let ?wt = "\<lparr>wt_wd = in_next_wd inn, wt_path = dirpath, wt_mask = mk, wt_is_dir = d,
                       ww_dir = h, ww_up = 0, ww_only = only, ww_self_name = None, ww_pending = False,
                       ww_dirs = []\<rparr>"
      have "started_watch wi (wn_port inn) ?wt w3 = (r, w')"
        using assms(1) a Inr y m o True by (simp add: made_watch_def)
      from started_watch_hs [OF this assms(2), of "hs w"] show ?thesis using h3 h2 True by simp
    next
      case False
      then show ?thesis
        using assms(1) a Inr y m o h2 h3 by (cases ok) (auto simp: made_watch_def)
    qed
  qed
qed

subsection \<open>The table\<close>

lemma held_zero [simp]: "held_inst zero_winst = {#}"
  by (simp add: held_inst_def zero_winst_def)

lemma held_all_at:
  assumes "i < length tbl"
  shows "held_all (tbl[i := x]) = held_inst x + held_all (tbl[i := zero_winst])"
    "held_all tbl = held_inst (tbl ! i) + held_all (tbl[i := zero_winst])"
proof -
  show "held_all (tbl[i := x]) = held_inst x + held_all (tbl[i := zero_winst])" for x
    using held_all_update [of i "tbl[i := zero_winst]" x] assms by (simp add: ac_simps)
  from this [of "tbl ! i"] show "held_all tbl = held_inst (tbl ! i) + held_all (tbl[i := zero_winst])" by simp
qed

text \<open>The accounts of the table, from and to those of one instance in use.\<close>

lemma even_at:
  assumes "hs w = held_all tbl + B" "winst_of tbl fd = Some i" "length tbl = INST_MAX"
  obtains R where "even_with hs R (tbl ! i, w)"
    "\<forall>inn w'. even_with hs R (inn, w') \<longrightarrow> hs w' = held_all (tbl[i := inn]) + B"
    "\<forall>w'. hs w' = R \<longrightarrow> hs w' = held_all (tbl[i := zero_winst]) + B" "i < length tbl"
proof -
  have i: "i < length tbl" "in_used (tbl ! i)" using winst_of_Some [OF assms(2)] assms(3) by auto
  let ?R = "held_all (tbl[i := zero_winst]) + B"
  have "hs w = held_inst (tbl ! i) + ?R" unfolding assms(1) held_all_at(2) [OF i(1)] by (simp add: ac_simps)
  then have "even_with hs ?R (tbl ! i, w)" using i(2) by (simp add: even_with_def)
  moreover have "hs w' = held_all (tbl[i := inn]) + B" if "even_with hs ?R (inn, w')" for inn w'
    using that unfolding held_all_at(1) [OF i(1), of inn] by (simp add: even_with_def ac_simps)
  ultimately show ?thesis using that [of ?R] i(1) by blast
qed

lemma win_forget_all_even:
  "win_forget_all wi n inn w = (i', w') \<Longrightarrow> handle_laws wi hs \<Longrightarrow> even_with hs B (inn, w) \<Longrightarrow>
   n = length (wn_watches inn) \<Longrightarrow> even_with hs B (i', w') \<and> wn_watches i' = []"
proof (induction n arbitrary: inn w)
  case (Suc n)
  obtain i1 w1 where f: "win_forget wi n inn w = (i1, w1)" by fastforce
  have "even_with hs B (i1, w1)" using Suc.prems(4) by (intro win_forget_even [OF f Suc.prems(2,3)]) simp
  moreover have "n = length (wn_watches i1)" using f Suc.prems(4) by (auto simp: win_forget_def)
  moreover have "win_forget_all wi n i1 w1 = (i', w')" using Suc.prems(1) f by simp
  ultimately show ?case using Suc.IH [OF _ Suc.prems(2)] by blast
qed simp

lemma even_queue: "even_with hs B (inn\<lparr>in_queue := q\<rparr>, w) = even_with hs B (inn, w)"
  by (simp add: even_with_def held_inst_def)

lemma win_init1_hs:
  assumes "win_inotify_init1 wi flags tbl w = (res, tbl', w')" "handle_laws wi hs" "hs w = held_all tbl + B"
    "length tbl = INST_MAX"
  shows "hs w' = held_all tbl' + B"
proof (cases "List.find (\<lambda>i. \<not> in_used (tbl ! i)) [0..<INST_MAX]")
  case None
  then show ?thesis using assms by (auto simp: win_inotify_init1_def split: if_splits)
next
  case (Some i)
  then have i: "i < length tbl" "held_inst (tbl ! i) = {#}" using assms(4) by (auto simp: find_Some_iff held_inst_def)
  obtain p w1 where p: "wi_new_port wi w = (p, w1)" by fastforce
  note h = handle_lawsD(3) [OF assms(2) p]
  show ?thesis
  proof (cases "unset_bit WIN_NONBLOCK_BIT (unset_bit WIN_CLOEXEC_BIT flags) = 0 \<and> p \<noteq> None")
    case True
    then obtain q where q: "p = Some q" by blast
    let ?new = "zero_winst\<lparr>wn_port := q, in_used := True, in_next_wd := 1,
      in_nonblock := bit flags WIN_NONBLOCK_BIT, wn_key := of_nat i + 1000\<rparr>"
    have r: "tbl' = tbl[i := ?new]" "w' = w1"
      using assms(1) True p by (auto simp: win_inotify_init1_def Some q Let_def)
    have "hs w' = {#q#} + (held_all tbl + B)" using h q assms(3) r(2) by simp
    also have "held_all tbl = held_all (tbl[i := zero_winst])" using held_all_at(2) [OF i(1)] i(2) by simp
    also have "{#q#} + (\<dots> + B) = held_all tbl' + B"
      unfolding r(1) held_all_at(1) [OF i(1), of ?new] by (simp add: held_inst_def zero_winst_def)
    finally show ?thesis .
  next
    case False
    then have "tbl' = tbl" "hs w' = hs w"
      using assms(1) p h by (auto simp: win_inotify_init1_def Some Let_def split: if_splits)
    then show ?thesis using assms(3) by simp
  qed
qed

lemma win_add_watch_hs:
  assumes "win_inotify_add_watch wi fd path mk tbl w = (res, tbl', w')" "handle_laws wi hs"
    "hs w = held_all tbl + B" "length tbl = INST_MAX"
  shows "hs w' = held_all tbl' + B"
proof (cases "\<exists>p i attrs. path = Some p \<and> mk AND IN_ALL_EVENTS \<noteq> 0 \<and> winst_of tbl fd = Some i \<and> wi_attrs wi p w = Some attrs")
  case False
  then have "tbl' = tbl \<and> w' = w"
    using assms(1) by (auto simp: win_inotify_add_watch_def Let_def split: option.splits if_splits)
  then show ?thesis using assms(3) by simp
next
  case True
  then obtain p i attrs where p: "path = Some p" "mk AND IN_ALL_EVENTS \<noteq> 0" "winst_of tbl fd = Some i"
    "wi_attrs wi p w = Some attrs" by blast
  let ?ws = "wn_watches (tbl ! i)"
  obtain R where e: "even_with hs R (tbl ! i, w)"
    and out: "\<forall>inn w'. even_with hs R (inn, w') \<longrightarrow> hs w' = held_all (tbl[i := inn]) + B"
    and empty: "\<forall>w'. hs w' = R \<longrightarrow> hs w' = held_all (tbl[i := zero_winst]) + B" and il: "i < length tbl"
    by (rule even_at [of hs w tbl B, OF assms(3) p(3) assms(4)])
  show ?thesis
  proof (cases "List.find (\<lambda>k. stricmp_equal (asked_path (?ws ! k)) p) [0..<length ?ws]")
    case (Some k)
    then have k: "k < length ?ws" by (auto simp: find_Some_iff)
    have r: "tbl' = tbl[i := (tbl ! i)\<lparr>wn_watches := ?ws[k := (?ws ! k)\<lparr>wt_mask := mk\<rparr>]\<rparr>]" "w' = w"
      using assms(1) by (auto simp: win_inotify_add_watch_def p Some Let_def)
    have "held_watch ((?ws ! k)\<lparr>wt_mask := mk\<rparr>) = held_watch (?ws ! k)" by (simp add: held_watch_def)
    then have "map held_watch (?ws[k := (?ws ! k)\<lparr>wt_mask := mk\<rparr>]) = map held_watch ?ws"
      using k by (metis list_update_id map_update nth_map)
    then show ?thesis unfolding r using e by (intro out [rule_format]) (simp add: even_with_def held_inst_def)
  next
    case None
    obtain x w1 where m: "made_watch wi (tbl ! i) p mk (bit attrs FILE_ATTRIBUTE_DIRECTORY_BIT) w = (x, w1)" by fastforce
    note h = made_watch_hs [OF m assms(2)]
    show ?thesis
    proof (cases x)
      case (Inl err)
      then have "tbl' = tbl" "w' = w1" using assms(1) by (auto simp: win_inotify_add_watch_def p None m Let_def)
      then show ?thesis using h Inl assms(3) by simp
    next
      case (Inr wt)
      obtain ok w2 where ok: "wi_malloc wi (length ?ws + 1) w1 = (ok, w2)" by fastforce
      have h2: "hs w2 = held_watch wt + hs w" using handle_lawsD(7) [OF assms(2) ok] h Inr by simp
      show ?thesis
      proof (cases ok)
        case True
        then have "tbl' = tbl[i := (tbl ! i)\<lparr>wn_watches := ?ws @ [wt], in_next_wd := in_next_wd (tbl ! i) + 1\<rparr>]" "w' = w2"
          using assms(1) ok by (auto simp: win_inotify_add_watch_def p None m Inr Let_def)
        moreover have "even_with hs R ((tbl ! i)\<lparr>wn_watches := ?ws @ [wt], in_next_wd := in_next_wd (tbl ! i) + 1\<rparr>, w2)"
          using e h2 by (simp add: even_with_def held_inst_def ac_simps)
        ultimately show ?thesis using out by simp
      next
        case False
        then have "tbl' = tbl" "w' = watch_free wi wt w2"
          using assms(1) ok by (auto simp: win_inotify_add_watch_def p None m Inr Let_def)
        then show ?thesis using watch_free_hs [OF assms(2) h2] assms(3) by simp
      qed
    qed
  qed
qed

lemma win_read_hs:
  assumes "win_inotify_read wi fd has_buf len tbl w = Some (res, bs, tbl', w')" "handle_laws wi hs"
    "hs w = held_all tbl + B" "length tbl = INST_MAX"
  shows "hs w' = held_all tbl' + B"
proof (cases "tbl' = tbl \<and> w' = w")
  case False
  obtain i where i: "winst_of tbl fd = Some i" "has_buf" "SIZEOF_EVENT \<le> unat len"
    using assms(1) False by (auto simp: win_inotify_read_def not_less split: if_splits option.splits)
  let ?look = "\<lambda>inn w. Option.bind (win_look wi 0 inn w) (\<lambda>(inn, w). win_block wi inn w)"
  obtain inn where r: "read_records ?look (unat len) (tbl ! i) w = Some (res, bs, inn, w')" "tbl' = tbl[i := inn]"
    using assms(1) i by (auto simp: win_inotify_read_def)
  obtain R where e: "even_with hs R (tbl ! i, w)"
    and out: "\<forall>inn w'. even_with hs R (inn, w') \<longrightarrow> hs w' = held_all (tbl[i := inn]) + B"
    and empty: "\<forall>w'. hs w' = R \<longrightarrow> hs w' = held_all (tbl[i := zero_winst]) + B" and il: "i < length tbl"
    by (rule even_at [of hs w tbl B, OF assms(3) i(1) assms(4)])
  obtain i1 w1 where t: "(if in_queue (tbl ! i) = [] then ?look (tbl ! i) w else Some (tbl ! i, w)) = Some (i1, w1)"
    using r(1) by (auto simp: read_records_def bind_eq_Some_conv)
  have e1: "even_with hs R (i1, w1)"
  proof (cases "in_queue (tbl ! i) = []")
    case True
    then obtain i2 w2 where l: "win_look wi 0 (tbl ! i) w = Some (i2, w2)" "win_block wi i2 w2 = Some (i1, w1)"
      using t by (auto simp: bind_eq_Some_conv)
    show ?thesis by (rule win_block_even [OF l(2) assms(2) win_look_even [OF l(1) assms(2) e]])
  qed (use t e in auto)
  have "even_with hs R (inn, w')"
    using r(1) t e1 by (auto simp: read_records_def Let_def even_queue split: if_splits)
  from out [rule_format, OF this] show ?thesis by (simp add: r(2))
qed (use assms(3) in simp)

lemma win_rm_watch_hs:
  assumes "win_inotify_rm_watch wi fd wd tbl w = (res, tbl', w')" "handle_laws wi hs"
    "hs w = held_all tbl + B" "length tbl = INST_MAX"
  shows "hs w' = held_all tbl' + B"
  using assms(1)
proof (cases rule: win_rm_watch_cases)
  case (gone i k i1 w1 i2)
  obtain R where e: "even_with hs R (tbl ! i, w)"
    and out: "\<forall>inn w'. even_with hs R (inn, w') \<longrightarrow> hs w' = held_all (tbl[i := inn]) + B"
    and empty: "\<forall>w'. hs w' = R \<longrightarrow> hs w' = held_all (tbl[i := zero_winst]) + B" and il: "i < length tbl"
    by (rule even_at [of hs w tbl B, OF assms(3) gone(1) assms(4)])
  note c = emit_calm [OF gone(3) assms(2)]
  have "even_with hs R (i2, w')"
    using c gone(2) by (intro win_forget_even [OF gone(4) assms(2) calm_even [OF c e]]) (simp add: calm_def)
  then show ?thesis unfolding gone(5) by (rule out [rule_format])
qed (use assms(3) in simp)

lemma win_close_hs:
  assumes "win_inotify_close wi fd tbl w = (res, tbl', w')" "handle_laws wi hs" "hs w = held_all tbl + B"
    "length tbl = INST_MAX"
  shows "hs w' = held_all tbl' + B"
proof (cases "winst_of tbl fd")
  case None
  then show ?thesis using assms by (simp add: win_inotify_close_def)
next
  case (Some i)
  obtain R where e: "even_with hs R (tbl ! i, w)"
    and out: "\<forall>inn w'. even_with hs R (inn, w') \<longrightarrow> hs w' = held_all (tbl[i := inn]) + B"
    and empty: "\<forall>w'. hs w' = R \<longrightarrow> hs w' = held_all (tbl[i := zero_winst]) + B" and il: "i < length tbl"
    by (rule even_at [of hs w tbl B, OF assms(3) Some assms(4)])
  obtain i1 w1 where f: "win_forget_all wi (length (wn_watches (tbl ! i))) (tbl ! i) w = (i1, w1)" by fastforce
  have "hs w1 = {#wn_port i1#} + R"
    using win_forget_all_even [OF f assms(2) e refl] by (simp add: even_with_def held_inst_def)
  then have "hs (wi_close wi (wn_port i1) w1) = R" by (simp add: handle_lawsD(5) [OF assms(2)])
  from empty [rule_format, OF this] show ?thesis using assms(1) f Some by (auto simp: win_inotify_close_def)
qed

lemma wino_steps_hs:
  assumes "(wino_step wi)\<^sup>*\<^sup>* s t" "handle_laws wi hs" "wtbl_ok (fst s)" "hs (snd s) = held_all (fst s) + B"
  shows "wtbl_ok (fst t) \<and> hs (snd t) = held_all (fst t) + B"
  using assms
proof (induction rule: rtranclp_induct)
  case (step t u)
  obtain tbl w tbl' w' where tu: "t = (tbl, w)" "u = (tbl', w')" by (cases t; cases u) auto
  have ok: "wtbl_ok tbl" "hs w = held_all tbl + B" using step.IH [OF step.prems] by (simp_all add: tu)
  have l: "length tbl = INST_MAX" using ok(1) by (simp add: wtbl_ok_def)
  note s = step.hyps(2) [unfolded tu]
  have "hs w' = held_all tbl' + B"
    using s
  proof cases
    case init1
    then show ?thesis by (rule win_init1_hs [OF _ assms(2) ok(2) l])
  next
    case add_watch
    then show ?thesis by (rule win_add_watch_hs [OF _ assms(2) ok(2) l])
  next
    case rm_watch
    then show ?thesis by (rule win_rm_watch_hs [OF _ assms(2) ok(2) l])
  next
    case read
    then show ?thesis by (rule win_read_hs [OF _ assms(2) ok(2) l])
  next
    case close
    then show ?thesis by (rule win_close_hs [OF _ assms(2) ok(2) l])
  qed
  then show ?case using wino_step_ok [OF s ok(1)] by (simp add: tu)
qed simp

end
