(* ===== verification/Inotify_Win_Gone.thy ===== *)
theory Inotify_Win_Gone
  imports Inotify_Win_Handles
begin

text \<open>
  What the Windows arm tells of a watch whose subject went away: the two records of its end, and
  which of the ways there tells them.
\<close>

definition farewell :: "wwatch \<Rightarrow> ino_rec list" where
  "farewell wt = told wt IN_DELETE_SELF 0 None (wt_is_dir wt) @ [Rec (wt_wd wt) IN_IGNORED 0 None]"

lemma farewell_ok: "\<forall>r \<in> set (farewell wt). rec_ok r"
  using told_ok [of None] by (auto simp: farewell_def no_name_ok)

lemma told_length: "length (concat (map enc (told wt mk ck None isdir))) \<le> 16"
  by (simp add: told_def SIZEOF_EVENT_def st_name_def)

lemma farewell_length: "length (concat (map enc (farewell wt))) \<le> 32"
  using told_length [of wt IN_DELETE_SELF 0 "wt_is_dir wt"]
  by (simp add: farewell_def SIZEOF_EVENT_def st_name_def)

text \<open>Both records made, one after the other.\<close>

lemma farewell_said:
  fixes inn i1 i2 :: winst
  assumes "emit_masked (wi_malloc wi) wt IN_DELETE_SELF 0 None (wt_is_dir wt) inn w = (i1, w1)"
    "emit (wi_malloc wi) (wt_wd wt) IN_IGNORED 0 None i1 w1 = (i2, w2)"
    "holds inn rs" "\<forall>n w. fst (wi_malloc wi n w)" "length (in_queue inn) + 32 \<le> QUEUE_MAX"
  shows "holds i2 (rs @ farewell wt)" "wn_watches i2 = wn_watches inn"
proof -
  have s: "says (wi_malloc wi) inn w (farewell wt) i2 w2"
    unfolding farewell_def by (rule says_trans [OF says_masked [OF assms(1)] says_emit [OF assms(2)]])
  have "length (in_queue inn) + length (concat (map enc (farewell wt))) \<le> QUEUE_MAX"
    using assms(5) farewell_length [of wt] by linarith
  then show "holds i2 (rs @ farewell wt)" using says_made [OF s assms(3) farewell_ok assms(4)] by blast
  show "wn_watches i2 = wn_watches inn"
    by (rule speaks_watches [OF says_speaks [OF s farewell_ok] assms(3)])
qed

text \<open>A removed file, as its directory reports it: told, and the watch stays.\<close>

lemma removed_file_told:
  assumes "translate_one wi nt wt inn w = (wt', i', w')" "ww_only wt = Some (notified_name wi nt w)"
    "nt_action nt = FA_REMOVED" "BACKSLASH \<notin> set (notified_name wi nt w)" "notified_name wi nt w \<noteq> []"
    "holds inn rs" "\<forall>n w. fst (wi_malloc wi n w)" "length (in_queue inn) + 32 \<le> QUEUE_MAX"
  shows "holds i' (rs @ farewell wt)" "wn_watches i' = wn_watches inn"
    "wt' = forget_dir (notified_name wi nt w) wt"
proof -
  obtain i1 w1 where a: "emit_masked (wi_malloc wi) wt IN_DELETE_SELF 0 None (wt_is_dir wt) inn w = (i1, w1)"
    by fastforce
  obtain i2 w2 where b: "emit (wi_malloc wi) (wt_wd wt) IN_IGNORED 0 None i1 w1 = (i2, w2)" by fastforce
  have "i' = i2" "wt' = forget_dir (notified_name wi nt w) wt"
    using assms(1-5) a b by (simp_all add: translate_one_def say_action_def Let_def)
  then show "holds i' (rs @ farewell wt)" "wn_watches i' = wn_watches inn"
    "wt' = forget_dir (notified_name wi nt w) wt"
    using farewell_said [OF a b assms(6-8)] by simp_all
qed

lemma removed_file_packet:
  assumes "packet_taken wi p inn w = (i', w')" "wn_watches inn = [wt]" "pk_key p = wt_wd wt" "pk_ok p"
    "pk_chain p = [nt]" "ww_only wt = Some (notified_name wi nt w)"
    "nt_action nt = FA_REMOVED" "BACKSLASH \<notin> set (notified_name wi nt w)" "notified_name wi nt w \<noteq> []"
    "path_is_dir wi (wt_path wt) w"
    "holds inn rs" "\<forall>n w. fst (wi_malloc wi n w)" "length (in_queue inn) + 32 \<le> QUEUE_MAX"
  shows "holds i' (rs @ farewell wt)"
    "\<exists>wt'. wn_watches i' = [wt'] \<and> farewell wt' = farewell wt \<and> wt_path wt' = wt_path wt \<and> ww_only wt' = ww_only wt"
proof -
  let ?wt = "wt\<lparr>ww_pending := False\<rparr>" and ?i = "inn\<lparr>wn_watches := [wt\<lparr>ww_pending := False\<rparr>]\<rparr>"
  have k: "watch_of_key inn (pk_key p) = Some (0, False)" by (simp add: watch_of_key_def assms(2,3))
  obtain wt1 i1 w1 where t: "translate_one wi nt ?wt ?i w = (wt1, i1, w1)" by (rule prod_cases3)
  have h: "holds ?i rs" "ww_only ?wt = Some (notified_name wi nt w)" "length (in_queue ?i) + 32 \<le> QUEUE_MAX"
    using assms by simp_all
  note said = removed_file_told [OF t h(2) assms(7-9) h(1) assms(12) h(3)]
  obtain ok wt2 w2 where r: "arm_read wi wt1 w1 = (ok, wt2, w2)" by (rule prod_cases3)
  have i': "i' = i1\<lparr>wn_watches := (wn_watches i1)[0 := wt2]\<rparr>"
    using assms(1,2,4,5,10) k t r by (simp add: packet_taken_def)
  have "farewell ?wt = farewell wt" by (simp add: farewell_def told_def)
  then show "holds i' (rs @ farewell wt)" using said(1) by (simp add: i')
  have "wt2 = wt1\<lparr>ww_pending := ok\<rparr>" using r by (auto simp: arm_read_def split: prod.splits)
  then show "\<exists>wt'. wn_watches i' = [wt'] \<and> farewell wt' = farewell wt \<and> wt_path wt' = wt_path wt \<and> ww_only wt' = ww_only wt"
    using said(2,3) by (simp add: i' forget_dir_def farewell_def told_def)
qed

text \<open>The same file, found missing by the question.\<close>

lemma missing_told:
  assumes "check_gone wi inn w = (i', w')" "wn_watches inn = [wt]" "\<not> still_there wi wt w"
    "holds inn rs" "\<forall>n w. fst (wi_malloc wi n w)" "length (in_queue inn) + 32 \<le> QUEUE_MAX"
  shows "holds i' (rs @ farewell wt)" "wn_watches i' = []"
proof -
  obtain i1 w1 where a: "emit_masked (wi_malloc wi) wt IN_DELETE_SELF 0 None (wt_is_dir wt) inn w = (i1, w1)"
    by fastforce
  obtain i2 w2 where b: "emit (wi_malloc wi) (wt_wd wt) IN_IGNORED 0 None i1 w1 = (i2, w2)" by fastforce
  note said = farewell_said [OF a b assms(4-6)]
  have "i' = fst (win_forget wi 0 i2 w2)"
    using assms(1-3) a b by (simp add: check_gone_def tell_gone_def Let_def split: prod.splits)
  then show "holds i' (rs @ farewell wt)" "wn_watches i' = []"
    using said assms(2) by (simp_all add: win_forget_def)
qed

text \<open>A read on the directory above that fails, and a buffer that the kernel could not fill.\<close>

lemma failed_up_read:
  assumes "watch_of_key inn (pk_key p) = Some (at, True)" "\<not> pk_ok p"
  shows "packet_taken wi p inn w =
    (inn\<lparr>wn_watches := take at (wn_watches inn) @ drop (Suc at) (wn_watches inn)\<rparr>,
     watch_free wi (wn_watches inn ! at) w)"
  using assms by (simp add: packet_taken_def win_forget_def)

lemma unfilled_buffer:
  assumes "packet_taken wi p inn w = (i', w')" "watch_of_key inn (pk_key p) = Some (at, False)" "pk_ok p"
    "pk_chain p = []" "path_is_dir wi (wt_path (wn_watches inn ! at)) w"
  shows "\<exists>ok. i' = inn\<lparr>wn_watches := (wn_watches inn)[at := (wn_watches inn ! at)\<lparr>ww_pending := ok\<rparr>]\<rparr>"
  using assms by (auto simp: packet_taken_def arm_read_def split: prod.splits)

end
