(* ===== verification/Inotify_Linux.thy ===== *)
theory Inotify_Linux
  imports Inotify_Queue
begin

text \<open>
  The Linux arm of \<open>src/src/slipstream_inotify.c\<close>: the arguments checked, the flags renamed, the
  call handed to the kernel and its errno negated.  Each call of the kernel answers a number or
  \<open>Inl\<close> its errno.
\<close>

record 'w inotify_kernel =
  ik_init1 :: "i32 \<Rightarrow> 'w \<Rightarrow> (i32 + i32) \<times> 'w"
  ik_add_watch :: "i32 \<Rightarrow> cstr \<Rightarrow> u32 \<Rightarrow> 'w \<Rightarrow> (i32 + i32) \<times> 'w"
  ik_rm_watch :: "i32 \<Rightarrow> i32 \<Rightarrow> 'w \<Rightarrow> i32 option \<times> 'w"
  ik_close :: "i32 \<Rightarrow> 'w \<Rightarrow> i32 option \<times> 'w"
  ik_read :: "i32 \<Rightarrow> u32 \<Rightarrow> 'w \<Rightarrow> (i32 + u8 list) \<times> 'w"
  ik_CLOEXEC :: i32
  ik_NONBLOCK :: i32

definition K_CLOEXEC_BIT :: nat where "K_CLOEXEC_BIT = 19"
definition K_NONBLOCK_BIT :: nat where "K_NONBLOCK_BIT = 11"

definition kernel_answer :: "(i32 + i32) \<times> 'w \<Rightarrow> i32 \<times> 'w" where
  "kernel_answer a = (case a of (Inl e, w) \<Rightarrow> (- e, w) | (Inr n, w) \<Rightarrow> (n, w))"

definition kernel_done :: "i32 option \<times> 'w \<Rightarrow> i32 \<times> 'w" where
  "kernel_done a = (case a of (None, w) \<Rightarrow> (0, w) | (Some e, w) \<Rightarrow> (- e, w))"

definition linux_inotify_init1 :: "'w inotify_kernel \<Rightarrow> i32 \<Rightarrow> 'w \<Rightarrow> i32 \<times> 'w" where
  "linux_inotify_init1 ik flags w =
     (if unset_bit K_NONBLOCK_BIT (unset_bit K_CLOEXEC_BIT flags) \<noteq> 0 then (- EINVAL, w)
      else kernel_answer (ik_init1 ik
        ((if bit flags K_CLOEXEC_BIT then ik_CLOEXEC ik else 0) OR
         (if bit flags K_NONBLOCK_BIT then ik_NONBLOCK ik else 0)) w))"

definition linux_inotify_add_watch ::
    "'w inotify_kernel \<Rightarrow> i32 \<Rightarrow> cstr option \<Rightarrow> u32 \<Rightarrow> 'w \<Rightarrow> i32 \<times> 'w" where
  "linux_inotify_add_watch ik fd path mk w =
     (case path of None \<Rightarrow> (- EFAULT, w) | Some path \<Rightarrow> kernel_answer (ik_add_watch ik fd path mk w))"

definition linux_inotify_rm_watch :: "'w inotify_kernel \<Rightarrow> i32 \<Rightarrow> i32 \<Rightarrow> 'w \<Rightarrow> i32 \<times> 'w" where
  "linux_inotify_rm_watch ik fd wd w = kernel_done (ik_rm_watch ik fd wd w)"

definition linux_inotify_close :: "'w inotify_kernel \<Rightarrow> i32 \<Rightarrow> 'w \<Rightarrow> i32 \<times> 'w" where
  "linux_inotify_close ik fd w = kernel_done (ik_close ik fd w)"

text \<open>The bytes are those the kernel put into the buffer.\<close>

definition linux_inotify_read ::
    "'w inotify_kernel \<Rightarrow> i32 \<Rightarrow> bool \<Rightarrow> u32 \<Rightarrow> 'w \<Rightarrow> i32 \<times> u8 list \<times> 'w" where
  "linux_inotify_read ik fd has_buf len w =
     (if \<not> has_buf then (- EFAULT, [], w)
      else if unat len < SIZEOF_EVENT then (- EINVAL, [], w)
      else case ik_read ik fd len w of
        (Inr bs, w) \<Rightarrow> (of_nat (length bs), bs, w)
      | (Inl e, w) \<Rightarrow> (if e = EAGAIN then 0 else - e, [], w))"

end
