(* ===== verification/Tmpfile.thy ===== *)
theory Tmpfile
  imports Inotify_Queue
begin

text \<open>
  Files with no name (\<open>src/src/slipstream_tmpfile.c\<close>, in its Linux build): the nameless open,
  the named file that is unlinked at once where a file system has no such open, and the name
  given later.  Paths are C strings; the system calls are the record \<open>tmp_os\<close>.
\<close>

subsection \<open>The code\<close>

record 'w tmp_os =
  tm_getenv :: "'w \<Rightarrow> cstr option"                           \<comment> \<open>\<open>TMPDIR\<close>\<close>
  tm_open_tmpfile :: "cstr \<Rightarrow> 'w \<Rightarrow> (i32 + i32) \<times> 'w"
  tm_mkstemp :: "cstr \<Rightarrow> 'w \<Rightarrow> (i32 + i32 \<times> cstr) \<times> 'w"    \<comment> \<open>the name it made in place of the template\<close>
  tm_fchmod :: "i32 \<Rightarrow> 'w \<Rightarrow> i32 option \<times> 'w"
  tm_getfd :: "i32 \<Rightarrow> 'w \<Rightarrow> (i32 + i32) \<times> 'w"
  tm_setfd :: "i32 \<Rightarrow> i32 \<Rightarrow> 'w \<Rightarrow> i32 option \<times> 'w"
  tm_unlink :: "cstr \<Rightarrow> 'w \<Rightarrow> i32 option \<times> 'w"
  tm_close :: "i32 \<Rightarrow> 'w \<Rightarrow> 'w"
  tm_linkat :: "cstr \<Rightarrow> cstr \<Rightarrow> 'w \<Rightarrow> i32 option \<times> 'w"

definition EISDIR :: i32 where "EISDIR = 21"
definition ENAMETOOLONG :: i32 where "ENAMETOOLONG = 36"

text \<open>The bytes of \<open>/slipstream-XXXXXX\<close> and of \<open>/tmp\<close>.\<close>

definition TMPFILE_LEAF :: cstr where
  "TMPFILE_LEAF = [47, 115, 108, 105, 112, 115, 116, 114, 101, 97, 109, 45, 88, 88, 88, 88, 88, 88]"

definition SLASH_TMP :: cstr where "SLASH_TMP = [47, 116, 109, 112]"

definition PATH_BUF :: nat where "PATH_BUF = 4096"

definition slip_tmpfile_anon :: "'w tmp_os \<Rightarrow> cstr \<Rightarrow> 'w \<Rightarrow> i32 \<times> 'w" where
  "slip_tmpfile_anon tm dir w = (case tm_open_tmpfile tm dir w of
      (Inl e, w) \<Rightarrow> (- e, w) | (Inr fd, w) \<Rightarrow> (fd, w))"

definition tmp_dir :: "'w tmp_os \<Rightarrow> cstr option \<Rightarrow> 'w \<Rightarrow> cstr" where
  "tmp_dir tm dir w = (case (case dir of None \<Rightarrow> tm_getenv tm w | Some d \<Rightarrow> Some d) of
      None \<Rightarrow> SLASH_TMP | Some d \<Rightarrow> if d = [] then SLASH_TMP else d)"

text \<open>The path the buffer takes, with its NUL; \<open>None\<close> where it does not fit.\<close>

definition tmp_path :: "cstr \<Rightarrow> cstr option" where
  "tmp_path dir = (if PATH_BUF < length dir + (length TMPFILE_LEAF + 1) then None else Some (dir @ TMPFILE_LEAF))"

text \<open>\<open>goto fail\<close>: the name and the descriptor go, the answer is the errno of what failed.\<close>

definition tmp_fail :: "'w tmp_os \<Rightarrow> cstr \<Rightarrow> i32 \<Rightarrow> i32 \<Rightarrow> 'w \<Rightarrow> i32 \<times> 'w" where
  "tmp_fail tm path fd e w = (- e, tm_close tm fd (snd (tm_unlink tm path w)))"

definition FD_CLOEXEC :: i32 where "FD_CLOEXEC = 1"

text \<open>The second half: a named file, made private and unlinked.\<close>

definition tmp_named :: "'w tmp_os \<Rightarrow> cstr \<Rightarrow> 'w \<Rightarrow> i32 \<times> 'w" where
  "tmp_named tm template w =
     (case tm_mkstemp tm template w of
        (Inl e, w) \<Rightarrow> (- e, w)
      | (Inr (fd, path), w) \<Rightarrow>
          (case tm_fchmod tm fd w of
             (Some e, w) \<Rightarrow> tmp_fail tm path fd e w
           | (None, w) \<Rightarrow>
               (case tm_getfd tm fd w of
                  (Inl e, w) \<Rightarrow> tmp_fail tm path fd e w
                | (Inr flags, w) \<Rightarrow>
                    (case tm_setfd tm fd (flags OR FD_CLOEXEC) w of
                       (Some e, w) \<Rightarrow> tmp_fail tm path fd e w
                     | (None, w) \<Rightarrow>
                         (case tm_unlink tm path w of
                            (Some e, w) \<Rightarrow> tmp_fail tm path fd e w
                          | (None, w) \<Rightarrow> (fd, w))))))"

definition slipstream_tmpfile :: "'w tmp_os \<Rightarrow> cstr option \<Rightarrow> 'w \<Rightarrow> i32 \<times> 'w" where
  "slipstream_tmpfile tm dir w =
     (let dir = tmp_dir tm dir w in
      case slip_tmpfile_anon tm dir w of
        (anon, w) \<Rightarrow>
          if \<not> neg32 anon then (anon, w)
          else if anon \<noteq> - EOPNOTSUPP \<and> anon \<noteq> - EISDIR \<and> anon \<noteq> - EINVAL \<and> anon \<noteq> - ENOSYS then (anon, w)
          else case tmp_path dir of
            None \<Rightarrow> (- ENAMETOOLONG, w)
          | Some path \<Rightarrow> tmp_named tm path w)"

text \<open>\<open>snprintf(proc, 64, "/proc/self/fd/%d", fd)\<close> for a descriptor that is not negative.\<close>

fun decimal :: "nat \<Rightarrow> u8 list" where
  "decimal n = (if n < 10 then [of_nat (48 + n)] else decimal (n div 10) @ [of_nat (48 + n mod 10)])"

declare decimal.simps [simp del]

definition PROC_FD :: cstr where
  "PROC_FD = [47, 112, 114, 111, 99, 47, 115, 101, 108, 102, 47, 102, 100, 47]"

definition PROC_BUF :: nat where "PROC_BUF = 64"

definition slipstream_tmpfile_link :: "'w tmp_os \<Rightarrow> i32 \<Rightarrow> cstr option \<Rightarrow> 'w \<Rightarrow> i32 \<times> 'w" where
  "slipstream_tmpfile_link tm fd path w =
     (if neg32 fd \<or> path = None \<or> path = Some [] then (- EINVAL, w)
      else case tm_linkat tm (take (PROC_BUF - 1) (PROC_FD @ decimal (unat fd))) (the path) w of
        (None, w) \<Rightarrow> (0, w) | (Some e, w) \<Rightarrow> (- e, w))"

subsection \<open>What the system is relied on for\<close>

text \<open>
  Names and descriptors: a nameless open gives a descriptor and no name; \<open>mkstemp\<close> gives both,
  new; unlinking a name that is there removes it; closing gives the descriptor back; nothing
  else touches either.  Errnos are positive.
\<close>

definition pos_errno :: "i32 \<Rightarrow> bool" where "pos_errno e \<longleftrightarrow> e \<noteq> 0 \<and> \<not> neg32 e"

definition untouched :: "('w \<Rightarrow> cstr set) \<Rightarrow> ('w \<Rightarrow> i32 set) \<Rightarrow> 'w \<Rightarrow> 'w \<Rightarrow> bool" where
  "untouched nms fds w w' \<longleftrightarrow> nms w' = nms w \<and> fds w' = fds w"

definition files_laws :: "'w tmp_os \<Rightarrow> ('w \<Rightarrow> cstr set) \<Rightarrow> ('w \<Rightarrow> i32 set) \<Rightarrow> bool" where
  "files_laws tm nms fds \<longleftrightarrow>
     (\<forall>dir w w' e. tm_open_tmpfile tm dir w = (Inl e, w') \<longrightarrow> pos_errno e \<and> untouched nms fds w w') \<and>
     (\<forall>dir w w' fd. tm_open_tmpfile tm dir w = (Inr fd, w') \<longrightarrow>
        \<not> neg32 fd \<and> fd \<notin> fds w \<and> nms w' = nms w \<and> fds w' = insert fd (fds w)) \<and>
     (\<forall>t w w' e. tm_mkstemp tm t w = (Inl e, w') \<longrightarrow> pos_errno e \<and> untouched nms fds w w') \<and>
     (\<forall>t w w' fd n. tm_mkstemp tm t w = (Inr (fd, n), w') \<longrightarrow>
        \<not> neg32 fd \<and> fd \<notin> fds w \<and> n \<notin> nms w \<and> nms w' = insert n (nms w) \<and> fds w' = insert fd (fds w)) \<and>
     (\<forall>fd w w' e. tm_fchmod tm fd w = (e, w') \<longrightarrow> pred_option pos_errno e \<and> untouched nms fds w w') \<and>
     (\<forall>fd w w' e. tm_getfd tm fd w = (e, w') \<longrightarrow> pred_sum pos_errno (\<lambda>_. True) e \<and> untouched nms fds w w') \<and>
     (\<forall>fd fl w w' e. tm_setfd tm fd fl w = (e, w') \<longrightarrow> pred_option pos_errno e \<and> untouched nms fds w w') \<and>
     (\<forall>n w w' e. tm_unlink tm n w = (e, w') \<longrightarrow> n \<in> nms w \<longrightarrow> e = None \<and> nms w' = nms w - {n} \<and> fds w' = fds w) \<and>
     (\<forall>fd w. nms (tm_close tm fd w) = nms w \<and> fds (tm_close tm fd w) = fds w - {fd})"

lemma files_lawsD:
  assumes "files_laws tm nms fds"
  shows "tm_open_tmpfile tm dir w = (Inl e, w') \<Longrightarrow> pos_errno e \<and> untouched nms fds w w'"
    "tm_open_tmpfile tm dir w = (Inr fd, w') \<Longrightarrow>
       \<not> neg32 fd \<and> fd \<notin> fds w \<and> nms w' = nms w \<and> fds w' = insert fd (fds w)"
    "tm_mkstemp tm dir w = (Inl e, w') \<Longrightarrow> pos_errno e \<and> untouched nms fds w w'"
    "tm_mkstemp tm dir w = (Inr (fd, n), w') \<Longrightarrow>
       \<not> neg32 fd \<and> fd \<notin> fds w \<and> n \<notin> nms w \<and> nms w' = insert n (nms w) \<and> fds w' = insert fd (fds w)"
    "tm_fchmod tm fd w = (eo, w') \<Longrightarrow> pred_option pos_errno eo \<and> untouched nms fds w w'"
    "tm_getfd tm fd w = (es, w') \<Longrightarrow> pred_sum pos_errno (\<lambda>_. True) es \<and> untouched nms fds w w'"
    "tm_setfd tm fd fl w = (eo, w') \<Longrightarrow> pred_option pos_errno eo \<and> untouched nms fds w w'"
    "tm_unlink tm n w = (eo, w') \<Longrightarrow> n \<in> nms w \<Longrightarrow> eo = None \<and> nms w' = nms w - {n} \<and> fds w' = fds w"
    "nms (tm_close tm fd w) = nms w \<and> fds (tm_close tm fd w) = fds w - {fd}"
proof -
  note L = assms [unfolded files_laws_def]
  show "tm_open_tmpfile tm dir w = (Inl e, w') \<Longrightarrow> pos_errno e \<and> untouched nms fds w w'"
    using conjunct1 [OF L] by blast
  show "tm_open_tmpfile tm dir w = (Inr fd, w') \<Longrightarrow> \<not> neg32 fd \<and> fd \<notin> fds w \<and> nms w' = nms w \<and> fds w' = insert fd (fds w)"
    using conjunct1 [OF conjunct2 [OF L]] by blast
  show "tm_mkstemp tm dir w = (Inl e, w') \<Longrightarrow> pos_errno e \<and> untouched nms fds w w'"
    using conjunct1 [OF conjunct2 [OF conjunct2 [OF L]]] by blast
  show "tm_mkstemp tm dir w = (Inr (fd, n), w') \<Longrightarrow> \<not> neg32 fd \<and> fd \<notin> fds w \<and> n \<notin> nms w \<and> nms w' = insert n (nms w) \<and> fds w' = insert fd (fds w)"
    using conjunct1 [OF conjunct2 [OF conjunct2 [OF conjunct2 [OF L]]]] by blast
  show "tm_fchmod tm fd w = (eo, w') \<Longrightarrow> pred_option pos_errno eo \<and> untouched nms fds w w'"
    using conjunct1 [OF conjunct2 [OF conjunct2 [OF conjunct2 [OF conjunct2 [OF L]]]]] by blast
  show "tm_getfd tm fd w = (es, w') \<Longrightarrow> pred_sum pos_errno (\<lambda>_. True) es \<and> untouched nms fds w w'"
    using conjunct1 [OF conjunct2 [OF conjunct2 [OF conjunct2 [OF conjunct2 [OF conjunct2 [OF L]]]]]] by blast
  show "tm_setfd tm fd fl w = (eo, w') \<Longrightarrow> pred_option pos_errno eo \<and> untouched nms fds w w'"
    using conjunct1 [OF conjunct2 [OF conjunct2 [OF conjunct2 [OF conjunct2 [OF conjunct2 [OF conjunct2 [OF L]]]]]]] by blast
  show "tm_unlink tm n w = (eo, w') \<Longrightarrow> n \<in> nms w \<Longrightarrow> eo = None \<and> nms w' = nms w - {n} \<and> fds w' = fds w"
    using conjunct1 [OF conjunct2 [OF conjunct2 [OF conjunct2 [OF conjunct2 [OF conjunct2 [OF conjunct2 [OF conjunct2 [OF L]]]]]]]] by blast
  show "nms (tm_close tm fd w) = nms w \<and> fds (tm_close tm fd w) = fds w - {fd}"
    using conjunct2 [OF conjunct2 [OF conjunct2 [OF conjunct2 [OF conjunct2 [OF conjunct2 [OF conjunct2 [OF conjunct2 [OF L]]]]]]]] by blast
qed

subsection \<open>No name stays, no descriptor leaks\<close>

text \<open>What a caller finds after a call that answered \<open>res\<close>.\<close>

definition nameless :: "('w \<Rightarrow> cstr set) \<Rightarrow> ('w \<Rightarrow> i32 set) \<Rightarrow> 'w \<Rightarrow> i32 \<Rightarrow> 'w \<Rightarrow> bool" where
  "nameless nms fds w res w' \<longleftrightarrow> nms w' = nms w \<and>
     (if neg32 res then fds w' = fds w else res \<notin> fds w \<and> fds w' = insert res (fds w))"

lemma neg_errno:
  assumes "pos_errno e"
  shows "neg32 (- e)"
proof (rule ccontr)
  assume "\<not> neg32 (- e)"
  then have "unat (- e) < 2 ^ 31" "unat e < 2 ^ 31" using assms by (simp_all add: neg32_unat pos_errno_def)
  moreover have "unat (- e + e) = (unat (- e) + unat e) mod 2 ^ LENGTH(32)" by (rule unat_word_ariths(1))
  ultimately have "unat e = 0" by simp
  then show False using assms by (simp add: pos_errno_def unat_eq_0)
qed

text \<open>A named file under way: its name and its descriptor are all that is new.\<close>

definition named_file ::
    "('w \<Rightarrow> cstr set) \<Rightarrow> ('w \<Rightarrow> i32 set) \<Rightarrow> 'w \<Rightarrow> cstr \<Rightarrow> i32 \<Rightarrow> 'w \<Rightarrow> bool" where
  "named_file nms fds w n fd v \<longleftrightarrow> \<not> neg32 fd \<and> fd \<notin> fds w \<and> n \<notin> nms w \<and>
     nms v = insert n (nms w) \<and> fds v = insert fd (fds w)"

lemma named_untouched: "named_file nms fds w n fd v \<Longrightarrow> untouched nms fds v v' \<Longrightarrow> named_file nms fds w n fd v'"
  by (simp add: named_file_def untouched_def)

lemma named_unlink:
  assumes "files_laws tm nms fds" "named_file nms fds w n fd v" "tm_unlink tm n v = (e, v')"
  shows "e = None" "nms v' = nms w" "fds v' = insert fd (fds w)"
  using files_lawsD(8) [OF assms(1,3)] assms(2) by (auto simp: named_file_def)

lemma tmp_fail_nameless:
  assumes "files_laws tm nms fds" "named_file nms fds w n fd v" "tmp_fail tm n fd e v = (res, w')" "pos_errno e"
  shows "nameless nms fds w res w'"
proof -
  obtain x v' where u: "tm_unlink tm n v = (x, v')" by fastforce
  note l = named_unlink [OF assms(1,2) u]
  have "res = - e" "w' = tm_close tm fd v'" using assms(3) u by (auto simp: tmp_fail_def)
  moreover have "fd \<notin> fds w" using assms(2) by (simp add: named_file_def)
  ultimately show ?thesis
    using files_lawsD(9) [OF assms(1), of fd v'] l neg_errno [OF assms(4)] by (simp add: nameless_def)
qed

lemma tmp_named_nameless:
  assumes "files_laws tm nms fds" "tmp_named tm t w = (res, w')"
  shows "nameless nms fds w res w'"
proof -
  note law = files_lawsD [OF assms(1)] and fail = tmp_fail_nameless [OF assms(1)]
  obtain m v where m: "tm_mkstemp tm t w = (m, v)" by fastforce
  show ?thesis
  proof (cases m)
    case (Inl e)
    then show ?thesis
      using law(3) [OF m [unfolded Inl]] assms(2) m neg_errno by (auto simp: tmp_named_def nameless_def untouched_def)
  next
    case (Inr p)
    obtain fd n where p: "p = (fd, n)" by fastforce
    have v: "named_file nms fds w n fd v" using law(4) [OF m [unfolded Inr p]] by (simp add: named_file_def)
    obtain a v1 where a: "tm_fchmod tm fd v = (a, v1)" by fastforce
    obtain b v2 where b: "tm_getfd tm fd v1 = (b, v2)" by fastforce
    note v1 = named_untouched [OF v conjunct2 [OF law(5) [OF a]]]
    note v2 = named_untouched [OF v1 conjunct2 [OF law(6) [OF b]]]
    show ?thesis
    proof (cases a)
      case (Some e)
      then have "tmp_fail tm n fd e v1 = (res, w')" using assms(2) m Inr p a by (simp add: tmp_named_def)
      from fail [OF v1 this] law(5) [OF a] Some show ?thesis by simp
    next
      case None
      show ?thesis
      proof (cases b)
        case (Inl e)
        then have "tmp_fail tm n fd e v2 = (res, w')" using assms(2) m Inr p a b None by (simp add: tmp_named_def)
        from fail [OF v2 this] law(6) [OF b] Inl show ?thesis by simp
      next
        case flags: (Inr flags)
        obtain c v3 where c: "tm_setfd tm fd (flags OR FD_CLOEXEC) v2 = (c, v3)" by fastforce
        note v3 = named_untouched [OF v2 conjunct2 [OF law(7) [OF c]]]
        show ?thesis
        proof (cases c)
          case (Some e)
          then have "tmp_fail tm n fd e v3 = (res, w')"
            using assms(2) m Inr p a b None flags c by (simp add: tmp_named_def)
          from fail [OF v3 this] law(7) [OF c] Some show ?thesis by simp
        next
          case c0: None
          obtain u v4 where u: "tm_unlink tm n v3 = (u, v4)" by fastforce
          note l = named_unlink [OF assms(1) v3 u]
          have "res = fd" "w' = v4"
            using assms(2) m Inr p a b None flags c c0 u l(1) by (simp_all add: tmp_named_def)
          then show ?thesis using l v by (simp add: nameless_def named_file_def)
        qed
      qed
    qed
  qed
qed

lemma slipstream_tmpfile_nameless:
  assumes "files_laws tm nms fds" "slipstream_tmpfile tm dir w = (res, w')"
  shows "nameless nms fds w res w'"
proof -
  note law = files_lawsD [OF assms(1)]
  let ?d = "tmp_dir tm dir w"
  obtain x v where o: "tm_open_tmpfile tm ?d w = (x, v)" by fastforce
  show ?thesis
  proof (cases x)
    case (Inr fd)
    note l = law(2) [OF o [unfolded Inr]]
    have "res = fd" "w' = v"
      using assms(2) o Inr l by (simp_all add: slipstream_tmpfile_def slip_tmpfile_anon_def Let_def)
    then show ?thesis using l by (simp add: nameless_def)
  next
    case (Inl e)
    have e: "pos_errno e" "nms v = nms w" "fds v = fds w"
      using law(1) [OF o [unfolded Inl]] by (simp_all add: untouched_def)
    have same: "nameless nms fds v = nameless nms fds w" using e by (simp add: nameless_def fun_eq_iff)
    have a: "slip_tmpfile_anon tm ?d w = (- e, v)" using o Inl by (simp add: slip_tmpfile_anon_def)
    have long: "neg32 (- ENAMETOOLONG)" by (simp add: neg32_def ENAMETOOLONG_def)
    show ?thesis
    proof (cases "- e \<noteq> - EOPNOTSUPP \<and> - e \<noteq> - EISDIR \<and> - e \<noteq> - EINVAL \<and> - e \<noteq> - ENOSYS")
      case True
      then have "res = - e" "w' = v"
        using assms(2) a neg_errno [OF e(1)] by (simp_all add: slipstream_tmpfile_def Let_def)
      then show ?thesis using e neg_errno [OF e(1)] by (simp add: nameless_def)
    next
      case False
      then have r: "(case tmp_path ?d of None \<Rightarrow> (- ENAMETOOLONG, v) | Some path \<Rightarrow> tmp_named tm path v) = (res, w')"
        using assms(2) a neg_errno [OF e(1)] unfolding slipstream_tmpfile_def Let_def by (simp split: if_splits)
      show ?thesis
      proof (cases "tmp_path ?d")
        case None
        then show ?thesis using r e long by (auto simp: nameless_def)
      next
        case (Some path)
        then have "tmp_named tm path v = (res, w')" using r by simp
        from tmp_named_nameless [OF assms(1) this] show ?thesis by (simp add: same)
      qed
    qed
  qed
qed

subsection \<open>The buffers\<close>

lemma tmp_path_fits: "tmp_path dir = Some p \<Longrightarrow> length p + 1 \<le> PATH_BUF \<and> (\<exists>x. p = dir @ x)"
  by (auto simp: tmp_path_def split: if_splits)

lemma decimal_length: "n < 10 ^ k \<Longrightarrow> 0 < k \<Longrightarrow> length (decimal n) \<le> k"
proof (induction k arbitrary: n)
  case (Suc k)
  show ?case
  proof (cases "n < 10")
    case True
    then show ?thesis by (simp add: decimal.simps [of n])
  next
    case False
    have "n div 10 < 10 ^ k" using Suc.prems(1) by (simp add: less_mult_imp_div_less mult.commute)
    moreover have "0 < k" using False Suc.prems(1) by (cases k) auto
    ultimately show ?thesis using Suc.IH False by (simp add: decimal.simps [of n])
  qed
qed simp

lemma proc_path_whole: "take (PROC_BUF - 1) (PROC_FD @ decimal (unat (fd :: i32))) = PROC_FD @ decimal (unat fd)"
proof -
  have "unat fd < 2 ^ LENGTH(32)" by (rule unsigned_less)
  then have "unat fd < 10 ^ 10" by simp
  then have "length (decimal (unat fd)) \<le> 10" by (rule decimal_length) simp
  then show ?thesis by (simp add: PROC_BUF_def PROC_FD_def)
qed

end
