(* ===== verification/Tmpfile_Win.thy ===== *)
theory Tmpfile_Win
  imports Tmpfile Inotify_Win
begin

text \<open>
  The Windows arm of \<open>src/src/slipstream_tmpfile.c\<close>: a named file that goes with its last handle.
  The calls of the system are the record \<open>tmpw_os\<close>; wide strings are lists of 16-bit units.
\<close>

subsection \<open>The code\<close>

record 'w tmpw_os =
  tw_temp_path :: "'w \<Rightarrow> nat \<times> u16 list"
  tw_to_wide :: "cstr \<Rightarrow> nat \<Rightarrow> 'w \<Rightarrow> u16 list option"
  tw_temp_name :: "u16 list \<Rightarrow> 'w \<Rightarrow> u16 list option \<times> 'w"
  tw_create :: "u16 list \<Rightarrow> 'w \<Rightarrow> handle \<times> 'w"
  tw_delete :: "u16 list \<Rightarrow> 'w \<Rightarrow> 'w"
  tw_osfhandle :: "handle \<Rightarrow> 'w \<Rightarrow> i32 \<times> 'w"
  tw_close :: "handle \<Rightarrow> 'w \<Rightarrow> 'w"

definition MAX_PATH :: nat where "MAX_PATH = 260"

text \<open>The directory, as a wide string; \<open>Inl\<close> is the errno.\<close>

definition wide_dir :: "'w tmpw_os \<Rightarrow> cstr option \<Rightarrow> 'w \<Rightarrow> i32 + u16 list" where
  "wide_dir tw dir w =
     (case dir of
        None \<Rightarrow> (case tw_temp_path tw w of (n, p) \<Rightarrow> if n = 0 \<or> MAX_PATH < n then Inl (- ENOENT) else Inr p)
      | Some d \<Rightarrow> (case tw_to_wide tw d MAX_PATH w of None \<Rightarrow> Inl (- ENAMETOOLONG) | Some p \<Rightarrow> Inr p))"

definition win_tmpfile :: "'w tmpw_os \<Rightarrow> cstr option \<Rightarrow> 'w \<Rightarrow> i32 \<times> 'w" where
  "win_tmpfile tw dir w =
     (case wide_dir tw dir w of
        Inl e \<Rightarrow> (e, w)
      | Inr dirw \<Rightarrow>
          (case tw_temp_name tw dirw w of
             (None, w) \<Rightarrow> (- EACCES, w)
           | (Some name, w) \<Rightarrow>
               (case tw_create tw name w of
                  (h, w) \<Rightarrow>
                    if h = INVALID_HANDLE then (- EACCES, tw_delete tw name w)
                    else case tw_osfhandle tw h w of
                      (fd, w) \<Rightarrow> if neg32 fd then (- EMFILE, tw_close tw h w) else (fd, w))))"

subsection \<open>What the system is relied on for\<close>

text \<open>
  \<open>nms\<close> are the names there are, \<open>fds\<close> the descriptors, and \<open>dels\<close> the handles that take a name
  with them when they close (\<open>FILE_FLAG_DELETE_ON_CLOSE\<close>).
\<close>

definition win_files_laws ::
    "'w tmpw_os \<Rightarrow> ('w \<Rightarrow> u16 list set) \<Rightarrow> ('w \<Rightarrow> i32 set) \<Rightarrow> ('w \<Rightarrow> handle \<Rightarrow> u16 list option) \<Rightarrow> bool" where
  "win_files_laws tw nms fds dels \<longleftrightarrow>
     (\<forall>d w w'. tw_temp_name tw d w = (None, w') \<longrightarrow> nms w' = nms w \<and> fds w' = fds w \<and> dels w' = dels w) \<and>
     (\<forall>d w w' n. tw_temp_name tw d w = (Some n, w') \<longrightarrow>
        n \<notin> nms w \<and> nms w' = insert n (nms w) \<and> fds w' = fds w \<and> dels w' = dels w) \<and>
     (\<forall>n w w' h. tw_create tw n w = (h, w') \<longrightarrow> nms w' = nms w \<and> fds w' = fds w \<and>
        (if h = INVALID_HANDLE then dels w' = dels w else dels w h = None \<and> dels w' = (dels w)(h \<mapsto> n))) \<and>
     (\<forall>n w. nms (tw_delete tw n w) = nms w - {n} \<and> fds (tw_delete tw n w) = fds w \<and>
        dels (tw_delete tw n w) = dels w) \<and>
     (\<forall>h w w' fd. tw_osfhandle tw h w = (fd, w') \<longrightarrow> nms w' = nms w \<and> dels w' = dels w \<and>
        (if neg32 fd then fds w' = fds w else fd \<notin> fds w \<and> fds w' = insert fd (fds w))) \<and>
     (\<forall>h w n. dels w h = Some n \<longrightarrow> nms (tw_close tw h w) = nms w - {n} \<and>
        fds (tw_close tw h w) = fds w \<and> dels (tw_close tw h w) = (dels w)(h := None))"

lemma win_files_lawsD:
  assumes "win_files_laws tw nms fds dels"
  shows "tw_temp_name tw d w = (None, w') \<Longrightarrow> nms w' = nms w \<and> fds w' = fds w \<and> dels w' = dels w"
    "tw_temp_name tw d w = (Some n, w') \<Longrightarrow> n \<notin> nms w \<and> nms w' = insert n (nms w) \<and> fds w' = fds w \<and> dels w' = dels w"
    "tw_create tw n w = (h, w') \<Longrightarrow> nms w' = nms w \<and> fds w' = fds w \<and>
       (if h = INVALID_HANDLE then dels w' = dels w else dels w h = None \<and> dels w' = (dels w)(h \<mapsto> n))"
    "nms (tw_delete tw n w) = nms w - {n} \<and> fds (tw_delete tw n w) = fds w \<and> dels (tw_delete tw n w) = dels w"
    "tw_osfhandle tw h w = (fd, w') \<Longrightarrow> nms w' = nms w \<and> dels w' = dels w \<and>
       (if neg32 fd then fds w' = fds w else fd \<notin> fds w \<and> fds w' = insert fd (fds w))"
    "dels w h = Some n \<Longrightarrow> nms (tw_close tw h w) = nms w - {n} \<and>
       fds (tw_close tw h w) = fds w \<and> dels (tw_close tw h w) = (dels w)(h := None)"
proof -
  note laws = assms [unfolded win_files_laws_def]
  show "nms w' = nms w \<and> fds w' = fds w \<and> dels w' = dels w" if "tw_temp_name tw d w = (None, w')"
    by (rule laws [THEN conjunct1, rule_format, OF that])
  show "n \<notin> nms w \<and> nms w' = insert n (nms w) \<and> fds w' = fds w \<and> dels w' = dels w" if "tw_temp_name tw d w = (Some n, w')"
    by (rule laws [THEN conjunct2, THEN conjunct1, rule_format, OF that])
  show "nms w' = nms w \<and> fds w' = fds w \<and> (if h = INVALID_HANDLE then dels w' = dels w else dels w h = None \<and> dels w' = (dels w)(h \<mapsto> n))"
    if "tw_create tw n w = (h, w')"
    by (rule laws [THEN conjunct2, THEN conjunct2, THEN conjunct1, rule_format, OF that])
  show "nms (tw_delete tw n w) = nms w - {n} \<and> fds (tw_delete tw n w) = fds w \<and> dels (tw_delete tw n w) = dels w"
    by (rule laws [THEN conjunct2, THEN conjunct2, THEN conjunct2, THEN conjunct1, rule_format])
  show "nms w' = nms w \<and> dels w' = dels w \<and> (if neg32 fd then fds w' = fds w else fd \<notin> fds w \<and> fds w' = insert fd (fds w))"
    if "tw_osfhandle tw h w = (fd, w')"
    by (rule laws [THEN conjunct2, THEN conjunct2, THEN conjunct2, THEN conjunct2, THEN conjunct1, rule_format, OF that])
  show "nms (tw_close tw h w) = nms w - {n} \<and> fds (tw_close tw h w) = fds w \<and> dels (tw_close tw h w) = (dels w)(h := None)"
    if "dels w h = Some n"
    by (rule laws [THEN conjunct2, THEN conjunct2, THEN conjunct2, THEN conjunct2, THEN conjunct2, rule_format, OF that])
qed

subsection \<open>What a caller finds\<close>

text \<open>A failure leaves names, descriptors and handles as they were; a success one name, which goes
  with the one handle that was opened on it.\<close>

definition goes_with_its_handle where
  "goes_with_its_handle nms fds dels w res w' \<longleftrightarrow>
     (if neg32 res then nms w' = nms w \<and> fds w' = fds w \<and> dels w' = dels w
      else \<exists>n h. n \<notin> nms w \<and> nms w' = insert n (nms w) \<and> dels w h = None \<and> dels w' = (dels w)(h \<mapsto> n) \<and>
        res \<notin> fds w \<and> fds w' = insert res (fds w))"

lemma win_errnos: "neg32 (- EACCES)" "neg32 (- EMFILE)" "neg32 (- ENOENT)" "neg32 (- ENAMETOOLONG)"
  by (simp_all add: neg32_def EACCES_def ENAMETOOLONG_def errno_defs)

lemma wide_dir_errno: "wide_dir tw dir w = Inl e \<Longrightarrow> neg32 e"
  using win_errnos by (auto simp: wide_dir_def split: option.splits prod.splits if_splits)

lemma win_tmpfile_goes:
  assumes "win_files_laws tw nms fds dels" "win_tmpfile tw dir w = (res, w')"
  shows "goes_with_its_handle nms fds dels w res w'"
proof (cases "wide_dir tw dir w")
  case (Inl e)
  then show ?thesis using assms(2) wide_dir_errno [OF Inl] by (simp add: win_tmpfile_def goes_with_its_handle_def)
next
  case (Inr dirw)
  note law = win_files_lawsD [OF assms(1)]
  obtain x w1 where x: "tw_temp_name tw dirw w = (x, w1)" by fastforce
  show ?thesis
  proof (cases x)
    case None
    then show ?thesis using assms(2) x law(1) [OF x [unfolded None]] win_errnos Inr
      by (auto simp: win_tmpfile_def goes_with_its_handle_def)
  next
    case (Some n)
    note l1 = law(2) [OF x [unfolded Some]]
    obtain h w2 where h: "tw_create tw n w1 = (h, w2)" by fastforce
    note l2 = law(3) [OF h]
    show ?thesis
    proof (cases "h = INVALID_HANDLE")
      case True
      then have "res = - EACCES" "w' = tw_delete tw n w2"
        using assms(2) x h Some Inr by (simp_all add: win_tmpfile_def)
      then show ?thesis using l1 l2 law(4) [of n w2] True win_errnos by (simp add: goes_with_its_handle_def)
    next
      case False
      obtain fd w3 where fd: "tw_osfhandle tw h w2 = (fd, w3)" by fastforce
      note l3 = law(5) [OF fd]
      have d: "dels w h = None" "dels w3 = (dels w)(h \<mapsto> n)" using l1 l2 l3 False by auto
      show ?thesis
      proof (cases "neg32 fd")
        case True
        then have r: "res = - EMFILE" "w' = tw_close tw h w3"
          using assms(2) x h fd Some Inr False by (simp_all add: win_tmpfile_def)
        have "dels w3 h = Some n" "(dels w3)(h := None) = dels w" using d by (simp_all add: fun_upd_idem)
        with law(6) [OF this(1)] show ?thesis
          using l1 l2 l3 r True win_errnos by (simp add: goes_with_its_handle_def)
      next
        case fd_ok: False
        then have r: "res = fd" "w' = w3"
          using assms(2) x h fd Some Inr False by (simp_all add: win_tmpfile_def)
        then show ?thesis using l1 l2 l3 fd_ok d
          by (auto simp: goes_with_its_handle_def intro!: exI [of _ n] exI [of _ h])
      qed
    qed
  qed
qed

end
