(* ===== verification/Inotify.thy ===== *)
theory Inotify
  imports Inotify_Queue
begin

text \<open>
  The kqueue arm of \<open>src/src/slipstream_inotify.c\<close>: looking at a directory, telling what changed
  since the last look, translating kernel events, and the five calls of the interface.  The
  system underneath is the record \<open>ino_os\<close>.  A read that waits for a kernel event that never
  comes is \<open>None\<close>.  The table \<open>g_inst[]\<close> is a list of instances, and an instance is its index.
\<close>

subsection \<open>The system underneath\<close>

record fstat =
  st_ino :: u64
  st_mtime_sec :: int
  st_mtime_nsec :: int
  st_size :: u64
  st_mode :: u32

record kevent_vnode =
  kv_ident :: i32
  kv_fflags :: u32

record 'w ino_os =
  io_malloc :: "nat \<Rightarrow> 'w \<Rightarrow> bool \<times> 'w"                \<comment> \<open>\<open>realloc\<close> and \<open>strdup\<close>\<close>
  io_opendir :: "cstr \<Rightarrow> 'w \<Rightarrow> cstr list option \<times> 'w"  \<comment> \<open>the names \<open>readdir\<close> then gives\<close>
  io_lstat :: "cstr \<Rightarrow> 'w \<Rightarrow> fstat option \<times> 'w"
  io_stat :: "cstr \<Rightarrow> 'w \<Rightarrow> (i32 + fstat) \<times> 'w"
  io_open :: "cstr \<Rightarrow> 'w \<Rightarrow> (i32 + i32) \<times> 'w"           \<comment> \<open>an errno, or a descriptor\<close>
  io_close :: "i32 \<Rightarrow> 'w \<Rightarrow> i32 option \<times> 'w"
  io_kqueue :: "'w \<Rightarrow> (i32 + i32) \<times> 'w"
  io_kev_add :: "i32 \<Rightarrow> i32 \<Rightarrow> 'w \<Rightarrow> i32 option \<times> 'w"
  io_kevent :: "i32 \<Rightarrow> bool \<Rightarrow> 'w \<Rightarrow> (kevent_vnode list option \<times> 'w) option"
    \<comment> \<open>at most 32 events, waiting for one if asked to\<close>

definition NOTE_DELETE_BIT :: nat where "NOTE_DELETE_BIT = 0"
definition NOTE_WRITE_BIT :: nat where "NOTE_WRITE_BIT = 1"
definition NOTE_EXTEND_BIT :: nat where "NOTE_EXTEND_BIT = 2"
definition NOTE_ATTRIB_BIT :: nat where "NOTE_ATTRIB_BIT = 3"
definition NOTE_LINK_BIT :: nat where "NOTE_LINK_BIT = 4"
definition NOTE_RENAME_BIT :: nat where "NOTE_RENAME_BIT = 5"
definition NOTE_REVOKE_BIT :: nat where "NOTE_REVOKE_BIT = 6"

definition s_isdir :: "u32 \<Rightarrow> bool" where
  "s_isdir mode \<longleftrightarrow> mode AND 0xF000 = 0x4000"

subsection \<open>Instances and names\<close>

definition INOTIFY_MAX :: nat where "INOTIFY_MAX = 64"

definition inst_of :: "inst list \<Rightarrow> i32 \<Rightarrow> nat option" where
  "inst_of tbl fd = List.find (\<lambda>i. in_used (tbl ! i) \<and> in_kq (tbl ! i) = fd) [0..<INOTIFY_MAX]"

definition kid_by_name :: "entry list \<Rightarrow> cstr \<Rightarrow> nat option" where
  "kid_by_name kids name = List.find (\<lambda>i. e_name (kids ! i) = name) [0..<length kids]"

subsection \<open>Looking at a directory\<close>

definition fill :: "cstr \<Rightarrow> fstat \<Rightarrow> entry" where
  "fill name st = \<lparr>e_name = name, e_ino = st_ino st, e_mtime_sec = st_mtime_sec st,
     e_mtime_nsec = st_mtime_nsec st, e_size = st_size st, e_mode = st_mode st, e_seen = False\<rparr>"

definition DOT :: u8 where "DOT = 46"
definition SLASH :: u8 where "SLASH = 47"

definition listed :: "entry list option \<Rightarrow> entry list" where
  "listed es = (case es of None \<Rightarrow> [] | Some es \<Rightarrow> es)"

lemma listed_simps [simp]: "listed None = []" "listed (Some es) = es"
  by (simp_all add: listed_def)

text \<open>The loop of \<open>scan\<close>.  The array is null (\<open>None\<close>) until the first name is kept; \<open>cap\<close> is
  its capacity.  A name whose path does not fit, or that is gone, is skipped; running out of
  memory ends the look.\<close>

fun scan_names ::
    "'w ino_os \<Rightarrow> cstr \<Rightarrow> cstr list \<Rightarrow> nat \<Rightarrow> entry list option \<Rightarrow> 'w \<Rightarrow> entry list option \<times> 'w" where
  "scan_names io path [] cap fresh w = (fresh, w)"
| "scan_names io path (d # ds) cap fresh w =
     (if d = [DOT] \<or> d = [DOT, DOT] then scan_names io path ds cap fresh w
      else let full = path @ SLASH # d in
      if 4096 \<le> length full then scan_names io path ds cap fresh w
      else case io_lstat io full w of
        (None, w) \<Rightarrow> scan_names io path ds cap fresh w
      | (Some st, w) \<Rightarrow>
          let es = listed fresh;
              want = (if cap = 0 then 16 else cap * 2)
          in case (if length es = cap then io_malloc io want w else (True, w)) of
            (False, w) \<Rightarrow> (fresh, w)
          | (True, w) \<Rightarrow>
              (case io_malloc io (length d + 1) w of
                 (False, w) \<Rightarrow> (Some es, w)
               | (True, w) \<Rightarrow>
                   scan_names io path ds (if length es = cap then want else cap)
                     (Some (es @ [fill d st])) w))"

definition scan :: "'w ino_os \<Rightarrow> cstr \<Rightarrow> 'w \<Rightarrow> entry list option \<times> 'w" where
  "scan io path w = (case io_opendir io path w of
      (None, w) \<Rightarrow> (None, w)
    | (Some ds, w) \<Rightarrow> scan_names io path ds 0 None w)"

subsection \<open>What changed\<close>

definition see :: "entry \<Rightarrow> entry" where "see e = e\<lparr>e_seen := True\<rparr>"
definition unsee :: "entry \<Rightarrow> entry" where "unsee e = e\<lparr>e_seen := False\<rparr>"

text \<open>The first loop: what became of the names that are still there.  \<open>k\<close> counts through the
  fresh listing; both listings are marked.\<close>

definition tell_kept ::
    "'w ino_os \<Rightarrow> watch \<Rightarrow> entry \<Rightarrow> entry \<Rightarrow> inst \<Rightarrow> 'w \<Rightarrow> inst \<times> 'w" where
  "tell_kept io wt had now inn w =
     (if e_ino had \<noteq> e_ino now then
        case emit_masked (io_malloc io) wt IN_DELETE 0 (Some (e_name had)) (s_isdir (e_mode had)) inn w of
          (inn, w) \<Rightarrow> emit_masked (io_malloc io) wt IN_CREATE 0 (Some (e_name now)) (s_isdir (e_mode now)) inn w
      else if e_mtime_sec had \<noteq> e_mtime_sec now \<or> e_mtime_nsec had \<noteq> e_mtime_nsec now \<or> e_size had \<noteq> e_size now
      then emit_masked (io_malloc io) wt IN_MODIFY 0 (Some (e_name now)) (s_isdir (e_mode now)) inn w
      else if e_mode had \<noteq> e_mode now
      then emit_masked (io_malloc io) wt IN_ATTRIB 0 (Some (e_name now)) (s_isdir (e_mode now)) inn w
      else (inn, w))"

fun kept_loop ::
    "'w ino_os \<Rightarrow> watch \<Rightarrow> entry list \<Rightarrow> nat list \<Rightarrow> entry list \<Rightarrow> inst \<Rightarrow> 'w
     \<Rightarrow> entry list \<times> entry list \<times> inst \<times> 'w" where
  "kept_loop io wt kids [] fresh inn w = (kids, fresh, inn, w)"
| "kept_loop io wt kids (k # ks) fresh inn w =
     (case kid_by_name kids (e_name (fresh ! k)) of
        None \<Rightarrow> kept_loop io wt kids ks fresh inn w
      | Some h \<Rightarrow>
          (case tell_kept io wt (kids ! h) (fresh ! k) inn w of
             (inn, w) \<Rightarrow> kept_loop io wt (kids[h := see (kids ! h)]) ks (fresh[k := see (fresh ! k)]) inn w))"

text \<open>The second loop: a name that is gone is the leaving half of a rename if an unclaimed new
  name has its inode, and a deletion otherwise.\<close>

definition landed :: "entry \<Rightarrow> entry list \<Rightarrow> nat option" where
  "landed old fresh =
     List.find (\<lambda>k. \<not> e_seen (fresh ! k) \<and> e_ino (fresh ! k) = e_ino old) [0..<length fresh]"

fun gone_loop ::
    "'w ino_os \<Rightarrow> watch \<Rightarrow> entry list \<Rightarrow> entry list \<Rightarrow> inst \<Rightarrow> 'w \<Rightarrow> entry list \<times> inst \<times> 'w" where
  "gone_loop io wt [] fresh inn w = (fresh, inn, w)"
| "gone_loop io wt (old # olds) fresh inn w =
     (if e_seen old then gone_loop io wt olds fresh inn w
      else let isdir = s_isdir (e_mode old) in
      case landed old fresh of
        Some k \<Rightarrow>
          let cookie = in_next_cookie inn + 1;
              inn = inn\<lparr>in_next_cookie := cookie\<rparr>
          in (case emit_masked (io_malloc io) wt IN_MOVED_FROM cookie (Some (e_name old)) isdir inn w of
                (inn, w) \<Rightarrow>
                  (case emit_masked (io_malloc io) wt IN_MOVED_TO cookie (Some (e_name (fresh ! k))) isdir inn w of
                     (inn, w) \<Rightarrow> gone_loop io wt olds (fresh[k := see (fresh ! k)]) inn w))
      | None \<Rightarrow>
          (case emit_masked (io_malloc io) wt IN_DELETE 0 (Some (e_name old)) isdir inn w of
             (inn, w) \<Rightarrow> gone_loop io wt olds fresh inn w))"

text \<open>The third loop: the names that are new.\<close>

fun new_loop :: "'w ino_os \<Rightarrow> watch \<Rightarrow> entry list \<Rightarrow> inst \<Rightarrow> 'w \<Rightarrow> inst \<times> 'w" where
  "new_loop io wt [] inn w = (inn, w)"
| "new_loop io wt (e # es) inn w =
     (if e_seen e then new_loop io wt es inn w
      else case emit_masked (io_malloc io) wt IN_CREATE 0 (Some (e_name e)) (s_isdir (e_mode e)) inn w of
        (inn, w) \<Rightarrow> new_loop io wt es inn w)"

definition directory_changed :: "'w ino_os \<Rightarrow> watch \<Rightarrow> inst \<Rightarrow> 'w \<Rightarrow> watch \<times> inst \<times> 'w" where
  "directory_changed io wt inn w =
     (case scan io (wt_path wt) w of
        (None, w) \<Rightarrow> (wt, inn, w)
      | (Some fresh, w) \<Rightarrow>
          (case kept_loop io wt (map unsee (wt_kids wt)) [0..<length fresh] fresh inn w of
             (kids, fresh, inn, w) \<Rightarrow>
               (case gone_loop io wt kids fresh inn w of
                  (fresh, inn, w) \<Rightarrow>
                    (case new_loop io wt fresh inn w of
                       (inn, w) \<Rightarrow> (wt\<lparr>wt_kids := fresh\<rparr>, inn, w)))))"

subsection \<open>Kernel events\<close>

definition forget :: "'w ino_os \<Rightarrow> nat \<Rightarrow> inst \<Rightarrow> 'w \<Rightarrow> inst \<times> 'w" where
  "forget io at inn w =
     (let wt = in_watches inn ! at;
          w = (if neg32 (wt_fd wt) then w else snd (io_close io (wt_fd wt) w))
      in (inn\<lparr>in_watches := take at (in_watches inn) @ drop (Suc at) (in_watches inn)\<rparr>, w))"

definition watch_of_fd :: "inst \<Rightarrow> i32 \<Rightarrow> nat option" where
  "watch_of_fd inn fd = List.find (\<lambda>i. wt_fd (in_watches inn ! i) = fd) [0..<length (in_watches inn)]"

text \<open>A watched thing was written: a directory is looked at again, a file is told as it is.\<close>

definition on_write :: "'w ino_os \<Rightarrow> watch \<Rightarrow> inst \<Rightarrow> 'w \<Rightarrow> watch \<times> inst \<times> 'w" where
  "on_write io wt inn w =
     (if wt_is_dir wt then directory_changed io wt inn w
      else case emit_masked (io_malloc io) wt IN_MODIFY 0 None False inn w of (inn, w) \<Rightarrow> (wt, inn, w))"

definition translate :: "'w ino_os \<Rightarrow> kevent_vnode \<Rightarrow> inst \<Rightarrow> 'w \<Rightarrow> inst \<times> 'w" where
  "translate io ke inn w =
     (case watch_of_fd inn (kv_ident ke) of
        None \<Rightarrow> (inn, w)
      | Some at \<Rightarrow>
          let wt = in_watches inn ! at;
              says = (\<lambda>k. bit (kv_fflags ke) k);
              (wt, inn, w) =
                (if says NOTE_WRITE_BIT \<or> says NOTE_EXTEND_BIT \<or> says NOTE_LINK_BIT
                 then on_write io wt inn w else (wt, inn, w));
              inn = inn\<lparr>in_watches := (in_watches inn)[at := wt]\<rparr>;
              (inn, w) = (if says NOTE_ATTRIB_BIT
                          then emit_masked (io_malloc io) wt IN_ATTRIB 0 None (wt_is_dir wt) inn w else (inn, w));
              (inn, w) = (if says NOTE_RENAME_BIT
                          then emit_masked (io_malloc io) wt IN_MOVE_SELF 0 None (wt_is_dir wt) inn w else (inn, w))
          in if says NOTE_DELETE_BIT \<or> says NOTE_REVOKE_BIT then
               (case emit_masked (io_malloc io) wt IN_DELETE_SELF 0 None (wt_is_dir wt) inn w of
                  (inn, w) \<Rightarrow>
                    (case emit (io_malloc io) (wt_wd wt) IN_IGNORED 0 None inn w of
                       (inn, w) \<Rightarrow> forget io at inn w))
             else (inn, w))"

fun translate_all :: "'w ino_os \<Rightarrow> kevent_vnode list \<Rightarrow> inst \<Rightarrow> 'w \<Rightarrow> inst \<times> 'w" where
  "translate_all io [] inn w = (inn, w)"
| "translate_all io (ke # kes) inn w =
     (case translate io ke inn w of (inn, w) \<Rightarrow> translate_all io kes inn w)"

text \<open>Only the first pass may wait; a full batch asks for another.\<close>

partial_function (option) take_events :: "'w ino_os \<Rightarrow> bool \<Rightarrow> inst \<Rightarrow> 'w \<Rightarrow> (inst \<times> 'w) option" where
  "take_events io waits inn w =
     (case io_kevent io (in_kq inn) waits w of
        None \<Rightarrow> None
      | Some (None, w) \<Rightarrow> Some (inn, w)
      | Some (Some evs, w) \<Rightarrow>
          if evs = [] then Some (inn, w)
          else case translate_all io evs inn w of
            (inn, w) \<Rightarrow> if length evs = 32 then take_events io False inn w else Some (inn, w))"

subsection \<open>The calls\<close>

definition CLOEXEC_BIT :: nat where "CLOEXEC_BIT = 19"
definition NONBLOCK_BIT :: nat where "NONBLOCK_BIT = 11"

definition zero_inst :: inst where
  "zero_inst = \<lparr>in_used = False, in_nonblock = False, in_next_wd = 0, in_next_cookie = 0, in_queue = [],
     in_qcap = 0, in_overflowed = False, in_kq = 0, in_watches = []\<rparr>"

definition slipstream_inotify_init1 :: "'w ino_os \<Rightarrow> i32 \<Rightarrow> inst list \<Rightarrow> 'w \<Rightarrow> i32 \<times> inst list \<times> 'w" where
  "slipstream_inotify_init1 io flags tbl w =
     (if unset_bit NONBLOCK_BIT (unset_bit CLOEXEC_BIT flags) \<noteq> 0 then (- EINVAL, tbl, w)
      else case List.find (\<lambda>i. \<not> in_used (tbl ! i)) [0..<INOTIFY_MAX] of
        None \<Rightarrow> (- EMFILE, tbl, w)
      | Some i \<Rightarrow>
          (case io_kqueue io w of
             (Inl e, w) \<Rightarrow> (- e, tbl, w)
           | (Inr kq, w) \<Rightarrow>
               (kq, tbl[i := zero_inst\<lparr>in_kq := kq, in_used := True, in_next_wd := 1,
                             in_nonblock := bit flags NONBLOCK_BIT\<rparr>], w)))"

definition slipstream_inotify_add_watch ::
    "'w ino_os \<Rightarrow> i32 \<Rightarrow> cstr option \<Rightarrow> u32 \<Rightarrow> inst list \<Rightarrow> 'w \<Rightarrow> i32 \<times> inst list \<times> 'w" where
  "slipstream_inotify_add_watch io fd path mk tbl w =
     (case path of
        None \<Rightarrow> (- EFAULT, tbl, w)
      | Some path \<Rightarrow>
          if mk AND IN_ALL_EVENTS = 0 then (- EINVAL, tbl, w)
          else case inst_of tbl fd of
            None \<Rightarrow> (- EBADF, tbl, w)
          | Some i \<Rightarrow>
              let inn = tbl ! i; ws = in_watches inn in
              case io_stat io path w of
                (Inl e, w) \<Rightarrow> (- e, tbl, w)
              | (Inr st, w) \<Rightarrow>
                  (case List.find (\<lambda>k. wt_path (ws ! k) = path) [0..<length ws] of
                     Some k \<Rightarrow>
                       (wt_wd (ws ! k), tbl[i := inn\<lparr>in_watches := ws[k := (ws ! k)\<lparr>wt_mask := mk\<rparr>]\<rparr>], w)
                   | None \<Rightarrow>
                       (case io_open io path w of
                          (Inl e, w) \<Rightarrow> (- e, tbl, w)
                        | (Inr wfd, w) \<Rightarrow>
                            (case io_malloc io (length path + 1) w of
                               (False, w) \<Rightarrow> (- ENOMEM, tbl, snd (io_close io wfd w))
                             | (True, w) \<Rightarrow>
                                 let is_dir = s_isdir (st_mode st);
                                     (kids, w) = (if is_dir then
                                          (case scan io path w of (es, w) \<Rightarrow> (listed es, w))
                                        else ([], w));
                                     wt = \<lparr>wt_wd = in_next_wd inn, wt_path = path, wt_mask = mk, wt_is_dir = is_dir,
                                           wt_fd = wfd, wt_kids = kids\<rparr>
                                 in case io_kev_add io (in_kq inn) wfd w of
                                   (Some why, w) \<Rightarrow> (- why, tbl, snd (io_close io wfd w))
                                 | (None, w) \<Rightarrow>
                                     (case io_malloc io (length ws + 1) w of
                                        (False, w) \<Rightarrow> (- ENOMEM, tbl, snd (io_close io wfd w))
                                      | (True, w) \<Rightarrow>
                                          (wt_wd wt, tbl[i := inn\<lparr>in_watches := ws @ [wt],
                                                          in_next_wd := in_next_wd inn + 1\<rparr>], w))))))"

definition slipstream_inotify_rm_watch ::
    "'w ino_os \<Rightarrow> i32 \<Rightarrow> i32 \<Rightarrow> inst list \<Rightarrow> 'w \<Rightarrow> i32 \<times> inst list \<times> 'w" where
  "slipstream_inotify_rm_watch io fd wd tbl w =
     (case inst_of tbl fd of
        None \<Rightarrow> (- EBADF, tbl, w)
      | Some i \<Rightarrow>
          let inn = tbl ! i; ws = in_watches inn in
          case List.find (\<lambda>k. wt_wd (ws ! k) = wd) [0..<length ws] of
            None \<Rightarrow> (- EINVAL, tbl, w)
          | Some k \<Rightarrow>
              (case emit (io_malloc io) wd IN_IGNORED 0 None inn w of
                 (inn, w) \<Rightarrow> (case forget io k inn w of (inn, w) \<Rightarrow> (0, tbl[i := inn], w))))"

text \<open>The answer and the bytes copied to the caller.\<close>

definition slipstream_inotify_read ::
    "'w ino_os \<Rightarrow> i32 \<Rightarrow> bool \<Rightarrow> u32 \<Rightarrow> inst list \<Rightarrow> 'w \<Rightarrow> (i32 \<times> u8 list \<times> inst list \<times> 'w) option" where
  "slipstream_inotify_read io fd has_buf len tbl w =
     (if \<not> has_buf then Some (- EFAULT, [], tbl, w)
      else case inst_of tbl fd of
        None \<Rightarrow> Some (- EBADF, [], tbl, w)
      | Some i \<Rightarrow>
          if unat len < SIZEOF_EVENT then Some (- EINVAL, [], tbl, w)
          else map_option (\<lambda>(res, bs, inn, w). (res, bs, tbl[i := inn], w))
            (read_records (take_events io (\<not> in_nonblock (tbl ! i))) (unat len) (tbl ! i) w))"

fun forget_all :: "'w ino_os \<Rightarrow> nat \<Rightarrow> inst \<Rightarrow> 'w \<Rightarrow> inst \<times> 'w" where
  "forget_all io 0 inn w = (inn, w)"
| "forget_all io (Suc n) inn w =
     (case forget io n inn w of (inn, w) \<Rightarrow> forget_all io n inn w)"

definition slipstream_inotify_close :: "'w ino_os \<Rightarrow> i32 \<Rightarrow> inst list \<Rightarrow> 'w \<Rightarrow> i32 \<times> inst list \<times> 'w" where
  "slipstream_inotify_close io fd tbl w =
     (case inst_of tbl fd of
        None \<Rightarrow> (- EBADF, tbl, w)
      | Some i \<Rightarrow>
          (case forget_all io (length (in_watches (tbl ! i))) (tbl ! i) w of
             (inn, w) \<Rightarrow>
               (case io_close io (in_kq inn) w of
                  (None, w) \<Rightarrow> (0, tbl[i := zero_inst], w)
                | (Some e, w) \<Rightarrow> (- e, tbl[i := zero_inst], w))))"

end
