(* ===== verification/Inotify_Facts.thy ===== *)
theory Inotify_Facts
  imports Inotify Inotify_Tell
begin

text \<open>
  What the kqueue arm of the inotify emulation tells: the records about a directory turn the names
  of the last look into those of this one.
\<close>

lemma same_inst_kqueue:
  assumes "same_inst inn i'"
  shows "in_kq i' = in_kq inn" "in_watches i' = in_watches inn"
  using assms by (cases inn; cases i'; simp add: same_inst_def)+

subsection \<open>Following a directory\<close>

text \<open>What a reader of the records makes of the names it knows.\<close>

fun replay :: "ino_rec list \<Rightarrow> cstr set \<Rightarrow> cstr set" where
  "replay [] S = S"
| "replay (Rec wd mk cookie name # rs) S = replay rs
     (case name of None \<Rightarrow> S
      | Some n \<Rightarrow> if mk AND (IN_CREATE OR IN_MOVED_TO) \<noteq> 0 then insert n S
                 else if mk AND (IN_DELETE OR IN_MOVED_FROM) \<noteq> 0 then S - {n} else S)"

lemma replay_append: "replay (rs @ rs') S = replay rs' (replay rs S)"
proof (induction rs arbitrary: S)
  case (Cons r rs)
  then show ?case by (cases r) simp
qed simp

text \<open>A watch that asks for the coming and going of names.\<close>

definition asks_names :: "watch \<Rightarrow> bool" where
  "asks_names wt \<longleftrightarrow> (\<forall>mk \<in> {IN_CREATE, IN_DELETE, IN_MOVED_FROM, IN_MOVED_TO}. wt_mask wt AND mk = mk)"

definition unseen :: "entry list \<Rightarrow> cstr set" where
  "unseen es = e_name ` {e \<in> set es. \<not> e_seen e}"

definition names :: "entry list \<Rightarrow> cstr set" where
  "names es = e_name ` set es"

definition names_ok :: "entry list \<Rightarrow> bool" where
  "names_ok es \<longleftrightarrow> (\<forall>e \<in> set es. name_ok (Some (e_name e)))"

lemma told_asked:
  assumes "asks_names wt" "mk \<in> {IN_CREATE, IN_DELETE, IN_MOVED_FROM, IN_MOVED_TO}"
  shows "told wt mk ck name isdir = [Rec (wt_wd wt) (mk OR (if isdir then IN_ISDIR else 0)) ck name]"
proof -
  have "wt_mask wt AND mk = mk" using assms unfolding asks_names_def by blast
  then have "bit (wt_mask wt) n" if "bit mk n" for n using that by (metis bit_and_iff)
  then have "mk AND (wt_mask wt OR x) = mk" for x
    by (intro bit_word_eqI) (auto simp: bit_simps)
  moreover have "mk \<noteq> 0" using assms(2) by (auto simp: in_defs)
  ultimately show ?thesis by (simp add: told_def)
qed

lemma replay_told:
  assumes "asks_names wt"
  shows "replay (told wt IN_CREATE ck (Some n) d) S = insert n S"
    "replay (told wt IN_MOVED_TO ck (Some n) d) S = insert n S"
    "replay (told wt IN_DELETE ck (Some n) d) S = S - {n}"
    "replay (told wt IN_MOVED_FROM ck (Some n) d) S = S - {n}"
    "replay (told wt IN_MODIFY ck (Some n) d) S = S"
    "replay (told wt IN_ATTRIB ck (Some n) d) S = S"
  using told_asked [OF assms] by (auto simp: told_def in_defs)

lemma see_simps [simp]: "e_name (see e) = e_name e" "e_seen (see e)" "e_name (unsee e) = e_name e"
  "\<not> e_seen (unsee e)"
  by (simp_all add: see_def unsee_def)

lemma unseen_names: "unseen es \<subseteq> names es"
  by (auto simp: unseen_def names_def)

lemma names_update: "k < length es \<Longrightarrow> map e_name (es[k := see (es ! k)]) = map e_name es"
  using list_update_id [of "map e_name es" k] by (simp add: map_update)

lemma names_map: "names es = set (map e_name es)"
  by (simp add: names_def)

lemma names_ok_cong: "map e_name es = map e_name es' \<Longrightarrow> names_ok es = names_ok es'"
proof -
  have "names_ok es \<longleftrightarrow> (\<forall>n \<in> set (map e_name es). name_ok (Some n))" for es by (simp add: names_ok_def)
  then show "map e_name es = map e_name es' \<Longrightarrow> names_ok es = names_ok es'" by presburger
qed

lemma unseen_nth: "n \<in> unseen es \<longleftrightarrow> (\<exists>i < length es. \<not> e_seen (es ! i) \<and> e_name (es ! i) = n)"
  unfolding unseen_def image_iff mem_Collect_eq in_set_conv_nth by blast

lemma unseen_update:
  assumes "distinct (map e_name es)" "k < length es"
  shows "unseen (es[k := see (es ! k)]) = unseen es - {e_name (es ! k)}"
proof -
  have name: "e_name (es ! i) = e_name (es ! k) \<longleftrightarrow> i = k" if "i < length es" for i
    using nth_eq_iff_index_eq [OF assms(1), of i k] assms(2) that by simp
  show ?thesis
  proof (rule set_eqI)
    fix n
    show "n \<in> unseen (es[k := see (es ! k)]) \<longleftrightarrow> n \<in> unseen es - {e_name (es ! k)}"
      unfolding unseen_nth Diff_iff singleton_iff using name
      by (auto simp: nth_list_update assms(2) split: if_splits) metis
  qed
qed

lemma kid_by_name_cases:
  obtains (none) "kid_by_name kids n = None" "n \<notin> names kids"
    | (some) h where "kid_by_name kids n = Some h" "h < length kids" "e_name (kids ! h) = n"
proof (cases "kid_by_name kids n")
  case None
  then have "n \<notin> names kids" by (auto simp: kid_by_name_def find_None_iff names_def in_set_conv_nth)
  with None show ?thesis by (rule none)
next
  case (Some h)
  then show ?thesis by (intro some [of h]) (auto simp: kid_by_name_def find_Some_iff)
qed

lemma tell_kept_says:
  assumes "tell_kept io wt had now inn w = (i', w')" "e_name had = e_name now" "name_ok (Some (e_name had))"
  shows "\<exists>rs. says (io_malloc io) inn w rs i' w' \<and> (\<forall>r \<in> set rs. rec_ok r) \<and>
    (asks_names wt \<longrightarrow> e_name now \<in> S \<longrightarrow> replay rs S = S)"
proof -
  let ?n = "Some (e_name now)"
  have ok: "name_ok ?n" using assms(2,3) by simp
  consider (other) "e_ino had \<noteq> e_ino now"
    | (same) mk where "tell_kept io wt had now inn w = emit_masked (io_malloc io) wt mk 0 ?n (s_isdir (e_mode now)) inn w"
        "mk = IN_MODIFY \<or> mk = IN_ATTRIB"
    | (none) "tell_kept io wt had now inn w = (inn, w)"
    unfolding tell_kept_def by metis
  then show ?thesis
  proof cases
    case other
    obtain i1 w1 where d: "emit_masked (io_malloc io) wt IN_DELETE 0 ?n (s_isdir (e_mode had)) inn w = (i1, w1)"
      by (cases "emit_masked (io_malloc io) wt IN_DELETE 0 ?n (s_isdir (e_mode had)) inn w")
    then have c: "emit_masked (io_malloc io) wt IN_CREATE 0 ?n (s_isdir (e_mode now)) i1 w1 = (i', w')"
      using assms(1,2) other by (simp add: tell_kept_def)
    show ?thesis
      by (intro exI conjI, rule says_trans [OF says_masked [OF d] says_masked [OF c]])
        (auto simp: ok replay_append replay_told insert_absorb dest: told_ok [OF ok])
  next
    case same
    then have "emit_masked (io_malloc io) wt mk 0 ?n (s_isdir (e_mode now)) inn w = (i', w')" using assms(1) by simp
    from says_masked [OF this] same(2) show ?thesis
      by (intro exI [of _ "told wt mk 0 ?n (s_isdir (e_mode now))"])
        (auto simp: replay_told dest: told_ok [OF ok])
  next
    case none
    then show ?thesis using assms(1) by (intro exI [of _ "[]"]) simp
  qed
qed

lemma kept_loop_says:
  assumes "kept_loop io wt kids ks fresh inn w = (kids', fresh', i', w')"
    "set ks \<subseteq> {..<length fresh}" "distinct (map e_name kids)" "distinct (map e_name fresh)" "names_ok kids"
  shows "\<exists>rs. says (io_malloc io) inn w rs i' w' \<and> (\<forall>r \<in> set rs. rec_ok r) \<and>
    (asks_names wt \<longrightarrow> names kids \<subseteq> S \<longrightarrow> replay rs S = S) \<and>
    map e_name kids' = map e_name kids \<and> map e_name fresh' = map e_name fresh \<and>
    unseen kids' = unseen kids - (\<lambda>k. e_name (fresh ! k)) ` set ks \<and>
    unseen fresh' = unseen fresh - (\<lambda>k. e_name (fresh ! k)) ` set ks \<inter> names kids"
  using assms
proof (induction ks arbitrary: kids fresh inn w)
  case Nil
  then show ?case by (auto intro: exI [of _ "[]"])
next
  case (Cons k ks)
  have k: "k < length fresh" using Cons.prems(2) by simp
  show ?case
  proof (cases rule: kid_by_name_cases [of kids "e_name (fresh ! k)", case_names none some])
    case none
    then have "kept_loop io wt kids ks fresh inn w = (kids', fresh', i', w')" using Cons.prems(1) by simp
    from Cons.IH [OF this _ Cons.prems(3-5)] Cons.prems(2) none(2) show ?thesis
      using unseen_names [of kids] by (auto 0 3)
  next
    case (some h)
    obtain i1 w1 where t: "tell_kept io wt (kids ! h) (fresh ! k) inn w = (i1, w1)"
      by (cases "tell_kept io wt (kids ! h) (fresh ! k) inn w")
    let ?kids = "kids[h := see (kids ! h)]" and ?fresh = "fresh[k := see (fresh ! k)]"
    have names: "map e_name ?kids = map e_name kids" "map e_name ?fresh = map e_name fresh"
      using names_update some(2) k by auto
    then have sets: "names ?kids = names kids" "names_ok ?kids"
      using Cons.prems(5) names_ok_cong [OF names(1)] by (simp_all only: names_map)
    have fn: "e_name (?fresh ! j) = e_name (fresh ! j)" for j using k by (cases "j = k") auto
    have "kept_loop io wt ?kids ks ?fresh i1 w1 = (kids', fresh', i', w')"
      using Cons.prems(1) some(1) t by simp
    from Cons.IH [OF this] Cons.prems(2-5) names sets obtain rs where rs: "says (io_malloc io) i1 w1 rs i' w'"
      "\<forall>r \<in> set rs. rec_ok r" "asks_names wt \<longrightarrow> names kids \<subseteq> S \<longrightarrow> replay rs S = S"
      "map e_name kids' = map e_name kids" "map e_name fresh' = map e_name fresh"
      "unseen kids' = unseen ?kids - (\<lambda>k. e_name (fresh ! k)) ` set ks"
      "unseen fresh' = unseen ?fresh - (\<lambda>k. e_name (fresh ! k)) ` set ks \<inter> names kids"
      by (auto simp: fn)
    have "kids ! h \<in> set kids" using some(2) by simp
    then have h: "name_ok (Some (e_name (kids ! h)))" "e_name (fresh ! k) \<in> names kids"
      using Cons.prems(5) some(3) unfolding names_ok_def names_def by (blast, metis imageI)
    obtain rs0 where rs0: "says (io_malloc io) inn w rs0 i1 w1" "\<forall>r \<in> set rs0. rec_ok r"
      "asks_names wt \<longrightarrow> e_name (fresh ! k) \<in> S \<longrightarrow> replay rs0 S = S"
      using tell_kept_says [OF t some(3) h(1), of S] by blast
    have u: "unseen ?kids = unseen kids - {e_name (fresh ! k)}" "unseen ?fresh = unseen fresh - {e_name (fresh ! k)}"
      using unseen_update [OF Cons.prems(3) some(2)] unseen_update [OF Cons.prems(4) k] some(3) by simp_all
    show ?thesis
      by (intro exI [of _ "rs0 @ rs"] conjI)
        (use rs rs0 h(2) u in \<open>auto simp: replay_append intro: says_trans\<close>)
  qed
qed

lemma landed_Some:
  assumes "landed old fresh = Some k"
  shows "k < length fresh" "\<not> e_seen (fresh ! k)" "e_name (fresh ! k) \<in> unseen fresh"
  using assms by (auto simp: landed_def find_Some_iff unseen_def)

lemma gone_loop_says:
  assumes "gone_loop io wt olds fresh inn w = (fresh', i', w')" "distinct (map e_name fresh)"
    "unseen fresh \<inter> names olds = {}" "names_ok olds" "names_ok fresh"
  shows "\<exists>rs. says (io_malloc io) inn w rs i' w' \<and> (\<forall>r \<in> set rs. rec_ok r) \<and>
    (asks_names wt \<longrightarrow> replay rs S = (S - unseen olds) \<union> (unseen fresh - unseen fresh')) \<and>
    map e_name fresh' = map e_name fresh \<and> unseen fresh' \<subseteq> unseen fresh"
  using assms
proof (induction olds arbitrary: fresh inn w S)
  case Nil
  then show ?case by (auto simp: unseen_def intro: exI [of _ "[]"])
next
  case (Cons old olds)
  let ?n = "Some (e_name old)" and ?d = "s_isdir (e_mode old)"
  have ok: "name_ok ?n" "names_ok olds" using Cons.prems(4) by (auto simp: names_ok_def)
  have disj: "unseen fresh \<inter> names olds = {}" "e_name old \<notin> unseen fresh"
    using Cons.prems(3) by (auto simp: names_def)
  show ?case
  proof (cases "e_seen old")
    case True
    then have u: "unseen (old # olds) = unseen olds" by (auto simp: unseen_def)
    have "gone_loop io wt olds fresh inn w = (fresh', i', w')" using Cons.prems(1) True by simp
    from Cons.IH [OF this Cons.prems(2) disj(1) ok(2) Cons.prems(5), of S] show ?thesis unfolding u .
  next
    case False
    then have u: "unseen (old # olds) = insert (e_name old) (unseen olds)" by (auto simp: unseen_def)
    show ?thesis
    proof (cases "landed old fresh")
      case None
      obtain i1 w1 where d: "emit_masked (io_malloc io) wt IN_DELETE 0 ?n ?d inn w = (i1, w1)"
        by (cases "emit_masked (io_malloc io) wt IN_DELETE 0 ?n ?d inn w")
      have "gone_loop io wt olds fresh i1 w1 = (fresh', i', w')" using Cons.prems(1) False None d by simp
      from Cons.IH [OF this Cons.prems(2) disj(1) ok(2) Cons.prems(5), of "S - {e_name old}"]
      obtain rs where rs: "says (io_malloc io) i1 w1 rs i' w'" "\<forall>r \<in> set rs. rec_ok r"
        "asks_names wt \<longrightarrow> replay rs (S - {e_name old}) = (S - {e_name old} - unseen olds) \<union> (unseen fresh - unseen fresh')"
        "map e_name fresh' = map e_name fresh" "unseen fresh' \<subseteq> unseen fresh" by blast
      show ?thesis
        by (intro exI [of _ "told wt IN_DELETE 0 ?n ?d @ rs"] conjI)
          (use rs u in \<open>auto simp: replay_append replay_told intro: says_trans [OF says_masked [OF d]] dest: told_ok [OF ok(1)]\<close>)
    next
      case (Some k)
      note l = landed_Some [OF Some]
      let ?m = "e_name (fresh ! k)" and ?fresh = "fresh[k := see (fresh ! k)]" and ?c = "in_next_cookie inn + 1"
      have "fresh ! k \<in> set fresh" using l(1) by simp
      then have okm: "name_ok (Some ?m)" using Cons.prems(5) by (simp add: names_ok_def)
      obtain i1 w1 where f: "emit_masked (io_malloc io) wt IN_MOVED_FROM ?c ?n ?d (inn\<lparr>in_next_cookie := ?c\<rparr>) w = (i1, w1)"
        by (cases "emit_masked (io_malloc io) wt IN_MOVED_FROM ?c ?n ?d (inn\<lparr>in_next_cookie := ?c\<rparr>) w")
      obtain i2 w2 where t: "emit_masked (io_malloc io) wt IN_MOVED_TO ?c (Some ?m) ?d i1 w1 = (i2, w2)"
        by (cases "emit_masked (io_malloc io) wt IN_MOVED_TO ?c (Some ?m) ?d i1 w1")
      have g: "gone_loop io wt olds ?fresh i2 w2 = (fresh', i', w')"
        using Cons.prems(1) False Some f t by (simp add: Let_def)
      have names: "map e_name ?fresh = map e_name fresh" using names_update [OF l(1)] .
      have un: "unseen ?fresh = unseen fresh - {?m}" by (rule unseen_update [OF Cons.prems(2) l(1)])
      have okf: "names_ok ?fresh" using Cons.prems(5) names_ok_cong [OF names] by simp
      have mo: "?m \<notin> unseen olds" using disj(1) l(3) unseen_names [of olds] by blast
      let ?S = "insert ?m (S - {e_name old})"
      obtain rs where rs: "says (io_malloc io) i2 w2 rs i' w'" "\<forall>r \<in> set rs. rec_ok r"
        "asks_names wt \<longrightarrow> replay rs ?S = (?S - unseen olds) \<union> (unseen ?fresh - unseen fresh')"
        "map e_name fresh' = map e_name fresh" "unseen fresh' \<subseteq> unseen ?fresh"
        using Cons.IH [OF g _ _ ok(2) okf, of ?S] Cons.prems(2) disj(1) names un by auto
      have s: "says (io_malloc io) inn w ([] @ told wt IN_MOVED_FROM ?c ?n ?d @ told wt IN_MOVED_TO ?c (Some ?m) ?d @ rs) i' w'"
        by (rule says_trans [OF says_cookie says_trans [OF says_masked [OF f] says_trans [OF says_masked [OF t] rs(1)]]])
      show ?thesis
      proof (intro exI conjI, rule s)
        show "asks_names wt \<longrightarrow> replay ([] @ told wt IN_MOVED_FROM ?c ?n ?d @ told wt IN_MOVED_TO ?c (Some ?m) ?d @ rs) S =
            (S - unseen (old # olds)) \<union> (unseen fresh - unseen fresh')"
          using rs(3,5) mo l(3) un u by (auto simp: replay_append replay_told)
      qed (use rs un ok(1) okm in \<open>auto dest: told_ok\<close>)
    qed
  qed
qed

lemma new_loop_says:
  assumes "new_loop io wt es inn w = (i', w')" "names_ok es"
  shows "\<exists>rs. says (io_malloc io) inn w rs i' w' \<and> (\<forall>r \<in> set rs. rec_ok r) \<and>
    (asks_names wt \<longrightarrow> replay rs S = S \<union> unseen es)"
  using assms
proof (induction es arbitrary: inn w S)
  case Nil
  then show ?case by (auto simp: unseen_def intro: exI [of _ "[]"])
next
  case (Cons e es)
  have ok: "name_ok (Some (e_name e))" "names_ok es" using Cons.prems(2) by (auto simp: names_ok_def)
  show ?case
  proof (cases "e_seen e")
    case True
    then have u: "unseen (e # es) = unseen es" by (auto simp: unseen_def)
    have "new_loop io wt es inn w = (i', w')" using Cons.prems(1) True by simp
    from Cons.IH [OF this ok(2), of S] show ?thesis unfolding u .
  next
    case False
    let ?d = "s_isdir (e_mode e)"
    have u: "unseen (e # es) = insert (e_name e) (unseen es)" using False by (auto simp: unseen_def)
    obtain i1 w1 where d: "emit_masked (io_malloc io) wt IN_CREATE 0 (Some (e_name e)) ?d inn w = (i1, w1)"
      by (cases "emit_masked (io_malloc io) wt IN_CREATE 0 (Some (e_name e)) ?d inn w")
    have "new_loop io wt es i1 w1 = (i', w')" using Cons.prems(1) False d by simp
    from Cons.IH [OF this ok(2), of "insert (e_name e) S"] obtain rs where rs: "says (io_malloc io) i1 w1 rs i' w'"
      "\<forall>r \<in> set rs. rec_ok r" "asks_names wt \<longrightarrow> replay rs (insert (e_name e) S) = insert (e_name e) S \<union> unseen es"
      by blast
    show ?thesis
      by (intro exI [of _ "told wt IN_CREATE 0 (Some (e_name e)) ?d @ rs"] conjI)
        (use rs u in \<open>auto simp: replay_append replay_told intro: says_trans [OF says_masked [OF d]] dest: told_ok [OF ok(1)]\<close>)
  qed
qed

subsection \<open>A directory that changed\<close>

text \<open>What \<open>readdir\<close> is relied on for: names are C strings, each once.\<close>

definition c_dirs :: "'w ino_os \<Rightarrow> bool" where
  "c_dirs io \<longleftrightarrow> (\<forall>path w ds w'. io_opendir io path w = (Some ds, w') \<longrightarrow> distinct ds \<and> (\<forall>d \<in> set ds. 0 \<notin> set d))"

definition watch_ok :: "watch \<Rightarrow> bool" where
  "watch_ok wt \<longleftrightarrow> distinct (map e_name (wt_kids wt)) \<and> names_ok (wt_kids wt)"

lemma e_name_fill [simp]: "e_name (fill d st) = d"
  by (simp add: fill_def)

lemma scan_names_cases:
  assumes "scan_names io path (d # ds) cap fresh w = (es, w')"
  obtains (skip) cap' w1 where "scan_names io path ds cap' fresh w1 = (es, w')"
    | (stop) "listed es = listed fresh"
    | (keep) cap' st w1 where "length d < 4096"
        "scan_names io path ds cap' (Some (listed fresh @ [fill d st])) w1 = (es, w')"
proof (cases "d = [DOT] \<or> d = [DOT, DOT] \<or> 4096 \<le> length (path @ SLASH # d)")
  case True
  then have "scan_names io path ds cap fresh w = (es, w')"
    using assms by (simp add: Let_def split: if_splits)
  then show ?thesis by (rule skip)
next
  case False
  obtain st w1 where l: "io_lstat io (path @ SLASH # d) w = (st, w1)" by fastforce
  show ?thesis
  proof (cases st)
    case None
    then have "scan_names io path ds cap fresh w1 = (es, w')" using False assms l by (simp add: Let_def)
    then show ?thesis by (rule skip)
  next
    case (Some st)
    have "length d < 4096" using False by simp
    then show ?thesis
      using assms False l Some stop keep
      by (auto simp: Let_def split: prod.splits bool.splits if_splits)
  qed
qed

text \<open>A listing under way: names each once, none marked.\<close>

definition scanned :: "entry list option \<Rightarrow> cstr list \<Rightarrow> bool" where
  "scanned es ds \<longleftrightarrow> distinct (map e_name (listed es) @ ds) \<and> names_ok (listed es) \<and>
     (\<forall>e \<in> set (listed es). \<not> e_seen e) \<and> (\<forall>d \<in> set ds. 0 \<notin> set d)"

lemma scan_names_ok:
  "scan_names io path ds cap fresh w = (es, w') \<Longrightarrow> scanned fresh ds \<Longrightarrow> scanned es []"
proof (induction ds arbitrary: cap fresh w)
  case (Cons d ds)
  from Cons.prems(1) show ?case
  proof (cases rule: scan_names_cases)
    case (skip cap' w1)
    have "scanned fresh ds" using Cons.prems(2) by (auto simp: scanned_def)
    with skip show ?thesis by (rule Cons.IH)
  next
    case stop
    then show ?thesis using Cons.prems(2) by (simp add: scanned_def)
  next
    case (keep cap' st w1)
    have "scanned (Some (listed fresh @ [fill d st])) ds"
      using Cons.prems(2) keep(1) by (auto simp: scanned_def names_ok_def name_ok_def fill_def)
    with keep(2) show ?thesis by (rule Cons.IH)
  qed
qed simp

lemma scan_ok:
  assumes "scan io path w = (es, w')" "c_dirs io"
  shows "scanned es []"
proof (cases "io_opendir io path w")
  case (Pair ds w1)
  show ?thesis
  proof (cases ds)
    case None
    with Pair assms(1) show ?thesis by (simp add: scan_def scanned_def names_ok_def)
  next
    case (Some ds)
    then have "scan_names io path ds 0 None w1 = (es, w')" using Pair assms(1) by (simp add: scan_def)
    moreover have "scanned None ds" using assms(2) Pair Some by (auto simp: c_dirs_def scanned_def names_ok_def)
    ultimately show ?thesis by (rule scan_names_ok)
  qed
qed

lemma directory_changed_says:
  assumes "directory_changed io wt inn w = (wt', i', w')" "scan io (wt_path wt) w = (Some fresh, w1)"
    "c_dirs io" "watch_ok wt"
  shows "\<exists>rs. says (io_malloc io) inn w1 rs i' w' \<and> (\<forall>r \<in> set rs. rec_ok r) \<and>
    (asks_names wt \<longrightarrow> replay rs (names (wt_kids wt)) = names fresh) \<and>
    map e_name (wt_kids wt') = map e_name fresh \<and> wt' = wt\<lparr>wt_kids := wt_kids wt'\<rparr>"
proof -
  let ?kids = "map unsee (wt_kids wt)" and ?K = "names (wt_kids wt)"
  have fresh: "distinct (map e_name fresh)" "names_ok fresh" "unseen fresh = names fresh"
    using scan_ok [OF assms(2,3)] by (auto simp: scanned_def unseen_def names_def)
  have un: "unseen ?kids = ?K" "names ?kids = ?K" "names_ok ?kids" "distinct (map e_name ?kids)"
    using assms(4) by (force simp: unseen_def names_def names_ok_def watch_ok_def comp_def image_iff)+
  obtain kids1 fresh1 i1 v1 where k: "kept_loop io wt ?kids [0..<length fresh] fresh inn w1 = (kids1, fresh1, i1, v1)"
    by (cases "kept_loop io wt ?kids [0..<length fresh] fresh inn w1")
  obtain fresh2 i2 v2 where g: "gone_loop io wt kids1 fresh1 i1 v1 = (fresh2, i2, v2)"
    by (cases "gone_loop io wt kids1 fresh1 i1 v1")
  have n: "new_loop io wt fresh2 i2 v2 = (i', w')" "wt' = wt\<lparr>wt_kids := fresh2\<rparr>"
    using assms(1,2) k g by (auto simp: directory_changed_def split: prod.splits)
  have "map e_name fresh = map (\<lambda>k. e_name (fresh ! k)) [0..<length fresh]"
    by (rule nth_equalityI) simp_all
  from arg_cong [OF this, of set]
  have all: "(\<lambda>k. e_name (fresh ! k)) ` set [0..<length fresh] = names fresh"
    unfolding names_map set_map by (rule sym)
  obtain rs1 where rs1: "says (io_malloc io) inn w1 rs1 i1 v1" "\<forall>r \<in> set rs1. rec_ok r" "asks_names wt \<longrightarrow> replay rs1 ?K = ?K"
    "map e_name kids1 = map e_name ?kids" "map e_name fresh1 = map e_name fresh"
    "unseen kids1 = ?K - names fresh" "unseen fresh1 = unseen fresh - names fresh \<inter> ?K"
    using kept_loop_says [OF k _ un(4) fresh(1) un(3), of ?K] all un by (auto simp: lessThan_atLeast0)
  have names1: "names kids1 = ?K" "names fresh1 = names fresh" "names_ok kids1" "names_ok fresh1" "distinct (map e_name fresh1)"
    using rs1(4,5) un fresh names_ok_cong [OF rs1(4)] names_ok_cong [OF rs1(5)] by (simp_all only: names_map)
  have "unseen fresh1 \<inter> names kids1 = {}" using rs1(7) unseen_names [of fresh] names1(1) by blast
  from gone_loop_says [OF g names1(5) this names1(3,4), of ?K]
  obtain rs2 where rs2: "says (io_malloc io) i1 v1 rs2 i2 v2" "\<forall>r \<in> set rs2. rec_ok r"
    "asks_names wt \<longrightarrow> replay rs2 ?K = (?K - unseen kids1) \<union> (unseen fresh1 - unseen fresh2)"
    "map e_name fresh2 = map e_name fresh1" "unseen fresh2 \<subseteq> unseen fresh1" by blast
  have ok2: "names_ok fresh2" using names1(4) names_ok_cong [OF rs2(4)] by simp
  obtain rs3 where rs3: "says (io_malloc io) i2 v2 rs3 i' w'" "\<forall>r \<in> set rs3. rec_ok r"
    "asks_names wt \<longrightarrow> replay rs3 ((?K - unseen kids1) \<union> (unseen fresh1 - unseen fresh2)) =
       (?K - unseen kids1) \<union> (unseen fresh1 - unseen fresh2) \<union> unseen fresh2"
    using new_loop_says [OF n(1) ok2] by blast
  show ?thesis
  proof (intro exI conjI)
    show "says (io_malloc io) inn w1 (rs1 @ rs2 @ rs3) i' w'"
      by (rule says_trans [OF rs1(1) says_trans [OF rs2(1) rs3(1)]])
    show "asks_names wt \<longrightarrow> replay (rs1 @ rs2 @ rs3) ?K = names fresh"
      using rs1(3,6,7) rs2(3,5) rs3(3) fresh(3) by (auto simp: replay_append)
  qed (use rs1 rs2 rs3 n(2) in auto)
qed

text \<open>A directory that holds nothing any more is not looked into further: the early return is
  meant for one that could not be listed.\<close>

lemma scan_names_dots:
  "set ds \<subseteq> {[DOT], [DOT, DOT]} \<Longrightarrow> scan_names io path ds cap fresh w = (fresh, w)"
  by (induction ds) auto

lemma directory_emptied:
  assumes "io_opendir io (wt_path wt) w = (Some ds, w1)" "set ds \<subseteq> {[DOT], [DOT, DOT]}"
  shows "directory_changed io wt inn w = (wt, inn, w1)"
  using assms by (simp add: directory_changed_def scan_def scan_names_dots)

end
