(* ===== verification/Inotify_Calls.thy ===== *)
theory Inotify_Calls
  imports Inotify_Facts Inotify_Read
begin

text \<open>
  The calls of the inotify emulation over its table of instances: what each keeps, and what a
  reader gets.
\<close>

subsection \<open>One instance\<close>

definition inst_ok :: "inst \<Rightarrow> bool" where
  "inst_ok inn \<longleftrightarrow> (\<exists>rs. holds inn rs) \<and> (\<forall>wt \<in> set (in_watches inn). watch_ok wt)"

text \<open>From \<open>inn\<close> to \<open>inn'\<close> by making records and nothing else to the queue; it is still the same
  instance, and its watches are as they should be.\<close>

definition goes_on :: "inst \<Rightarrow> inst \<Rightarrow> bool" where
  "goes_on inn inn' \<longleftrightarrow> (\<forall>old. holds inn old \<longrightarrow> (\<exists>new. holds inn' (old @ new))) \<and>
     in_kq inn' = in_kq inn \<and> in_used inn' = in_used inn \<and> in_nonblock inn' = in_nonblock inn \<and>
     (\<forall>wt \<in> set (in_watches inn'). watch_ok wt)"

lemma goes_on_refl: "\<forall>wt \<in> set (in_watches inn). watch_ok wt \<Longrightarrow> goes_on inn inn"
  by (auto simp: goes_on_def intro: exI [of _ "[]"])

lemma goes_on_trans: "goes_on a b \<Longrightarrow> goes_on b c \<Longrightarrow> goes_on a c"
  unfolding goes_on_def by (metis append.assoc)

lemma goes_on_ok: "goes_on inn inn' \<Longrightarrow> inst_ok inn \<Longrightarrow> inst_ok inn'"
  by (auto simp: goes_on_def inst_ok_def)

lemma says_goes_on:
  assumes "says (io_malloc io) inn w rs i' w'" "\<forall>r \<in> set rs. rec_ok r" "\<forall>wt \<in> set (in_watches inn). watch_ok wt"
    "\<exists>old. holds inn old"
  shows "goes_on inn i'" "in_watches i' = in_watches inn"
proof -
  obtain old where "holds inn old" using assms(4) by blast
  from says_holds [OF assms(1) this assms(2)] have same: "same_inst inn i'" by blast
  show "in_watches i' = in_watches inn" by (rule same_inst_kqueue [OF same])
  with same show "goes_on inn i'"
    using says_holds [OF assms(1) _ assms(2)] assms(3)
    by (auto simp: goes_on_def same_inst_def same_inst_kqueue [OF same])
qed

lemma emit_masked_goes_on:
  assumes "emit_masked (io_malloc io) wt mk ck None d inn w = (i', w')" "inst_ok inn"
  shows "goes_on inn i'" "in_watches i' = in_watches inn"
  using says_goes_on [OF says_masked [OF assms(1)]] assms(2)
  by (auto simp: inst_ok_def told_def name_ok_def split: if_splits)

lemma holds_watches [simp]: "holds (inn\<lparr>in_watches := ws\<rparr>) rs = holds inn rs"
  by (simp add: holds_def)

lemma set_watches_goes_on: "\<forall>wt \<in> set ws. watch_ok wt \<Longrightarrow> goes_on inn (inn\<lparr>in_watches := ws\<rparr>)"
  by (auto simp: goes_on_def intro: exI [of _ "[]"])

lemma set_watch_goes_on:
  assumes "inst_ok inn" "watch_ok wt"
  shows "goes_on inn (inn\<lparr>in_watches := (in_watches inn)[k := wt]\<rparr>)"
  using assms set_update_subset_insert [of "in_watches inn" k wt]
  by (intro set_watches_goes_on) (auto simp: inst_ok_def)

lemma forget_goes_on:
  assumes "forget io k inn w = (i', w')" "inst_ok inn"
  shows "goes_on inn i'"
proof -
  have "\<forall>wt \<in> set (take k (in_watches inn) @ drop (Suc k) (in_watches inn)). watch_ok wt"
    using assms(2) set_take_subset [of k "in_watches inn"] set_drop_subset [of "Suc k" "in_watches inn"]
    by (auto simp: inst_ok_def)
  from set_watches_goes_on [OF this] assms(1) show ?thesis by (auto simp: forget_def Let_def)
qed

lemma directory_changed_goes_on:
  assumes "directory_changed io wt inn w = (wt', i', w')" "c_dirs io" "inst_ok inn" "watch_ok wt"
  shows "goes_on inn i'" "watch_ok wt'" "in_watches i' = in_watches inn"
proof -
  have "goes_on inn i' \<and> watch_ok wt' \<and> in_watches i' = in_watches inn"
  proof (cases "scan io (wt_path wt) w")
    case (Pair es w1)
    show ?thesis
    proof (cases es)
      case None
      with Pair assms show ?thesis by (simp add: directory_changed_def goes_on_refl inst_ok_def)
    next
      case (Some fresh)
      from directory_changed_says [OF assms(1) Pair [unfolded Some] assms(2,4)]
      obtain rs where rs: "says (io_malloc io) inn w1 rs i' w'" "\<forall>r \<in> set rs. rec_ok r"
        "map e_name (wt_kids wt') = map e_name fresh" by blast
      have "watch_ok wt'"
        using scan_ok [OF Pair assms(2)] rs(3) names_ok_cong [OF rs(3)] by (simp add: Some scanned_def watch_ok_def)
      then show ?thesis using says_goes_on [OF rs(1,2)] assms(3) by (simp add: inst_ok_def)
    qed
  qed
  then show "goes_on inn i'" "watch_ok wt'" "in_watches i' = in_watches inn" by auto
qed

lemma on_write_goes_on:
  assumes "on_write io wt inn w = (wt', i', w')" "c_dirs io" "inst_ok inn" "watch_ok wt"
  shows "goes_on inn i'" "watch_ok wt'" "in_watches i' = in_watches inn"
proof -
  have "goes_on inn i' \<and> watch_ok wt' \<and> in_watches i' = in_watches inn"
  proof (cases "wt_is_dir wt")
    case True
    then have "directory_changed io wt inn w = (wt', i', w')" using assms(1) by (simp add: on_write_def)
    from directory_changed_goes_on [OF this assms(2-4)] show ?thesis by simp
  next
    case False
    obtain i1 w1 where e: "emit_masked (io_malloc io) wt IN_MODIFY 0 None False inn w = (i1, w1)" by fastforce
    then have "wt' = wt" "i' = i1" using assms(1) False by (auto simp: on_write_def)
    then show ?thesis using emit_masked_goes_on [OF e assms(3)] assms(4) by simp
  qed
  then show "goes_on inn i'" "watch_ok wt'" "in_watches i' = in_watches inn" by auto
qed

lemma translate_goes_on:
  assumes "translate io ke inn w = (i', w')" "c_dirs io" "inst_ok inn"
  shows "goes_on inn i'"
proof (cases "watch_of_fd inn (kv_ident ke)")
  case None
  then show ?thesis using assms by (simp add: translate_def goes_on_refl inst_ok_def)
next
  case (Some at)
  let ?wt = "in_watches inn ! at" and ?says = "\<lambda>k. bit (kv_fflags ke) k"
  have "at < length (in_watches inn)" using Some by (auto simp: watch_of_fd_def find_Some_iff)
  then have wt: "watch_ok ?wt" using assms(3) by (auto simp: inst_ok_def)
  obtain wt1 i1 w1 where s1: "(if ?says NOTE_WRITE_BIT \<or> ?says NOTE_EXTEND_BIT \<or> ?says NOTE_LINK_BIT
      then on_write io ?wt inn w else (?wt, inn, w)) = (wt1, i1, w1)" by (rule prod_cases3)
  have g1: "goes_on inn i1" "watch_ok wt1" "in_watches i1 = in_watches inn"
  proof -
    have refl: "goes_on inn inn" using assms(3) by (simp add: goes_on_refl inst_ok_def)
    have "goes_on inn i1 \<and> watch_ok wt1 \<and> in_watches i1 = in_watches inn"
    proof (cases "?says NOTE_WRITE_BIT \<or> ?says NOTE_EXTEND_BIT \<or> ?says NOTE_LINK_BIT")
      case True
      have "on_write io ?wt inn w = (wt1, i1, w1)" using s1 unfolding if_P [OF True] .
      from on_write_goes_on [OF this assms(2,3) wt] show ?thesis by simp
    next
      case False
      have "(?wt, inn, w) = (wt1, i1, w1)" using s1 unfolding if_not_P [OF False] .
      then have "wt1 = ?wt \<and> i1 = inn" by (metis Pair_inject)
      with wt refl show ?thesis by metis
    qed
    then show "goes_on inn i1" "watch_ok wt1" "in_watches i1 = in_watches inn" by auto
  qed
  let ?i1 = "i1\<lparr>in_watches := (in_watches i1)[at := wt1]\<rparr>"
  have g2: "goes_on inn ?i1" "inst_ok ?i1"
    using goes_on_trans [OF g1(1) set_watch_goes_on] goes_on_ok [OF g1(1) assms(3)] g1(2)
      goes_on_ok [OF set_watch_goes_on] by auto
  obtain i2 w2 where s2: "(if ?says NOTE_ATTRIB_BIT
        then emit_masked (io_malloc io) wt1 IN_ATTRIB 0 None (wt_is_dir wt1) ?i1 w1 else (?i1, w1)) = (i2, w2)" by (rule prod.exhaust)
  have g3: "goes_on inn i2" "inst_ok i2"
    using s2 g2 emit_masked_goes_on [of io wt1 IN_ATTRIB 0 "wt_is_dir wt1" ?i1 w1 i2 w2]
      goes_on_trans [OF g2(1), of i2] goes_on_ok [of ?i1 i2] by (auto split: if_splits)
  obtain i3 w3 where s3: "(if ?says NOTE_RENAME_BIT
        then emit_masked (io_malloc io) wt1 IN_MOVE_SELF 0 None (wt_is_dir wt1) i2 w2 else (i2, w2)) = (i3, w3)" by (rule prod.exhaust)
  have g4: "goes_on inn i3" "inst_ok i3"
    using s3 g3 emit_masked_goes_on [of io wt1 IN_MOVE_SELF 0 "wt_is_dir wt1" i2 w2 i3 w3]
      goes_on_trans [OF g3(1), of i3] goes_on_ok [of i2 i3] by (auto split: if_splits)
  have t: "translate io ke inn w =
      (if ?says NOTE_DELETE_BIT \<or> ?says NOTE_REVOKE_BIT then
               (case emit_masked (io_malloc io) wt1 IN_DELETE_SELF 0 None (wt_is_dir wt1) i3 w3 of
                  (inn, w) \<Rightarrow>
                    (case emit (io_malloc io) (wt_wd wt1) IN_IGNORED 0 None inn w of
                       (inn, w) \<Rightarrow> forget io at inn w))
             else (i3, w3))"
    using s1 s2 s3 by (simp add: translate_def Some Let_def)
  show ?thesis
  proof (cases "?says NOTE_DELETE_BIT \<or> ?says NOTE_REVOKE_BIT")
    case True
    obtain i4 w4 where e: "emit_masked (io_malloc io) wt1 IN_DELETE_SELF 0 None (wt_is_dir wt1) i3 w3 = (i4, w4)" by fastforce
    obtain i5 w5 where e2: "emit (io_malloc io) (wt_wd wt1) IN_IGNORED 0 None i4 w4 = (i5, w5)" by fastforce
    have g5: "goes_on inn i4" "inst_ok i4"
      using emit_masked_goes_on(1) [OF e g4(2)] g4 goes_on_trans goes_on_ok by blast+
    have "goes_on i4 i5"
      using says_goes_on(1) [OF says_emit [OF e2]] g5(2) by (simp add: inst_ok_def name_ok_def)
    then have g6: "goes_on inn i5" "inst_ok i5" using g5 goes_on_trans goes_on_ok by blast+
    have "forget io at i5 w5 = (i', w')" using assms(1) t True e e2 by simp
    from forget_goes_on [OF this g6(2)] show ?thesis using g6(1) goes_on_trans by blast
  qed (use assms(1) t g4 in simp)
qed

lemma translate_all_goes_on:
  "translate_all io kes inn w = (i', w') \<Longrightarrow> c_dirs io \<Longrightarrow> inst_ok inn \<Longrightarrow> goes_on inn i'"
proof (induction kes arbitrary: inn w)
  case (Cons ke kes)
  obtain i1 w1 where t: "translate io ke inn w = (i1, w1)" by fastforce
  note g = translate_goes_on [OF t Cons.prems(2,3)]
  have "translate_all io kes i1 w1 = (i', w')" using Cons.prems(1) t by simp
  from Cons.IH [OF this Cons.prems(2) goes_on_ok [OF g Cons.prems(3)]] g goes_on_trans show ?case by blast
qed (simp add: goes_on_refl inst_ok_def)

lemma take_events_goes_on:
  assumes "take_events io waits inn w = Some (i', w')" "c_dirs io" "inst_ok inn"
  shows "goes_on inn i'"
proof -
  have "inst_ok inn \<longrightarrow> goes_on inn (fst x)" if "take_events io waits inn w = Some x" for x
  proof (rule take_events.raw_induct [where P = "\<lambda>io waits inn w x. c_dirs io \<longrightarrow> inst_ok inn \<longrightarrow> goes_on inn (fst x)",
        OF _ that, THEN mp, OF _ assms(2)])
    fix te and io :: "'w ino_os" and waits inn w x
    assume IH: "\<And>io waits inn w x. te io waits inn w = Some x \<Longrightarrow> c_dirs io \<longrightarrow> inst_ok inn \<longrightarrow> goes_on inn (fst x)"
      and eq: "(case io_kevent io (in_kq inn) waits w of
        None \<Rightarrow> None
      | Some (None, w) \<Rightarrow> Some (inn, w)
      | Some (Some evs, w) \<Rightarrow>
          if evs = [] then Some (inn, w)
          else case translate_all io evs inn w of
            (inn, w) \<Rightarrow> if length evs = 32 then te io False inn w else Some (inn, w)) = Some x"
    show "c_dirs io \<longrightarrow> inst_ok inn \<longrightarrow> goes_on inn (fst x)"
    proof (intro impI)
      assume ok: "c_dirs io" "inst_ok inn"
      have refl: "goes_on inn inn" using ok(2) by (simp add: goes_on_refl inst_ok_def)
      show "goes_on inn (fst x)"
      proof (cases "io_kevent io (in_kq inn) waits w")
        case (Some y)
        then obtain evs w1 where y: "io_kevent io (in_kq inn) waits w = Some (evs, w1)" by (cases y) auto
        show ?thesis
        proof (cases "evs = None \<or> evs = Some []")
          case False
          then obtain es where es: "evs = Some es" "es \<noteq> []" by auto
          obtain i1 w2 where t: "translate_all io es inn w1 = (i1, w2)" by fastforce
          note g = translate_all_goes_on [OF t ok]
          have "goes_on i1 (fst x)"
            using eq IH [of io False i1 w2 x] ok(1) goes_on_ok [OF g ok(2)] goes_on_refl [of i1]
            by (auto simp: y es t inst_ok_def split: if_splits)
          with g show ?thesis by (rule goes_on_trans)
        qed (use eq y refl in auto)
      qed (use eq in simp)
    qed
  qed
  with assms show ?thesis by auto
qed

subsection \<open>The calls\<close>

definition tbl_ok :: "inst list \<Rightarrow> bool" where
  "tbl_ok tbl \<longleftrightarrow> length tbl = INOTIFY_MAX \<and> (\<forall>inn \<in> set tbl. inst_ok inn)"

lemma tbl_ok_set: "tbl_ok tbl \<Longrightarrow> inst_ok inn \<Longrightarrow> tbl_ok (tbl[i := inn])"
  using set_update_subset_insert [of tbl i inn] by (auto simp: tbl_ok_def)

lemma tbl_ok_nth: "tbl_ok tbl \<Longrightarrow> i < INOTIFY_MAX \<Longrightarrow> inst_ok (tbl ! i)"
  by (auto simp: tbl_ok_def)

lemma inst_of_Some: "inst_of tbl fd = Some i \<Longrightarrow> i < INOTIFY_MAX \<and> in_used (tbl ! i) \<and> in_kq (tbl ! i) = fd"
  by (auto simp: inst_of_def find_Some_iff)

lemma fresh_inst_ok: "inst_ok (zero_inst\<lparr>in_kq := a, in_used := u, in_next_wd := b, in_nonblock := c\<rparr>)"
  by (auto simp: inst_ok_def holds_def zero_inst_def intro: exI [of _ "[]"])

lemma zero_inst_ok: "inst_ok zero_inst"
  by (auto simp: inst_ok_def holds_def zero_inst_def intro: exI [of _ "[]"])

text \<open>One call of the interface.\<close>

inductive ino_step :: "'w ino_os \<Rightarrow> inst list \<times> 'w \<Rightarrow> inst list \<times> 'w \<Rightarrow> bool" for io where
  init1: "slipstream_inotify_init1 io flags tbl w = (res, tbl', w') \<Longrightarrow> ino_step io (tbl, w) (tbl', w')"
| add_watch: "slipstream_inotify_add_watch io fd path mk tbl w = (res, tbl', w') \<Longrightarrow> ino_step io (tbl, w) (tbl', w')"
| rm_watch: "slipstream_inotify_rm_watch io fd wd tbl w = (res, tbl', w') \<Longrightarrow> ino_step io (tbl, w) (tbl', w')"
| read: "slipstream_inotify_read io fd has_buf len tbl w = Some (res, bs, tbl', w') \<Longrightarrow> ino_step io (tbl, w) (tbl', w')"
| close: "slipstream_inotify_close io fd tbl w = (res, tbl', w') \<Longrightarrow> ino_step io (tbl, w) (tbl', w')"

lemma init1_ok:
  assumes "slipstream_inotify_init1 io flags tbl w = (res, tbl', w')" "tbl_ok tbl"
  shows "tbl_ok tbl'"
  using assms tbl_ok_set [OF assms(2) fresh_inst_ok]
  by (auto simp: slipstream_inotify_init1_def split: if_splits option.splits prod.splits sum.splits)

lemma add_watch_inst_ok:
  assumes "inst_ok inn" "\<forall>wt \<in> set ws. watch_ok wt"
  shows "inst_ok (inn\<lparr>in_watches := ws\<rparr>)" "inst_ok (inn\<lparr>in_watches := ws, in_next_wd := b\<rparr>)"
  using assms by (auto simp: inst_ok_def holds_def)

lemma scan_watch_ok:
  assumes "c_dirs io"
  shows "watch_ok \<lparr>wt_wd = wd, wt_path = p, wt_mask = mk, wt_is_dir = d, wt_fd = fd,
           wt_kids = listed (fst (scan io path w))\<rparr>"
  using scan_ok [OF prod.collapse [symmetric] assms, of path w] by (simp add: scanned_def watch_ok_def)

lemma file_watch_ok:
  "watch_ok \<lparr>wt_wd = wd, wt_path = p, wt_mask = mk, wt_is_dir = d, wt_fd = fd, wt_kids = []\<rparr>"
  by (simp add: watch_ok_def names_ok_def)

lemma add_watch_ok:
  assumes "slipstream_inotify_add_watch io fd path mk tbl w = (res, tbl', w')" "tbl_ok tbl" "c_dirs io"
  shows "tbl_ok tbl'"
proof (cases "tbl' = tbl")
  case False
  then obtain p i where p: "path = Some p" "inst_of tbl fd = Some i"
    using assms(1) by (auto simp: slipstream_inotify_add_watch_def split: option.splits if_splits)
  note ok = tbl_ok_nth [OF assms(2)] inst_of_Some [OF p(2)]
  let ?inn = "tbl ! i" and ?ws = "in_watches (tbl ! i)"
  have i: "inst_ok ?inn" using ok by blast
  consider (again) k where "k < length ?ws" "tbl' = tbl[i := ?inn\<lparr>in_watches := ?ws[k := (?ws ! k)\<lparr>wt_mask := mk\<rparr>]\<rparr>]"
    | (fresh) wt where "watch_ok wt" "tbl' = tbl[i := ?inn\<lparr>in_watches := ?ws @ [wt], in_next_wd := in_next_wd ?inn + 1\<rparr>]"
    using assms(1) False
    by (auto simp: slipstream_inotify_add_watch_def p Let_def find_Some_iff case_prod_beta
        intro: scan_watch_ok [OF assms(3)] file_watch_ok
        split: if_splits option.splits sum.splits bool.splits)
  then show ?thesis
  proof cases
    case again
    have "watch_ok ((?ws ! k)\<lparr>wt_mask := mk\<rparr>)" using i again(1) by (simp add: inst_ok_def watch_ok_def)
    then show ?thesis
      using again(2) goes_on_ok [OF set_watch_goes_on [OF i] i] tbl_ok_set [OF assms(2)] by simp
  next
    case fresh
    have ws: "\<forall>wt \<in> set (?ws @ [wt]). watch_ok wt" using fresh(1) i by (auto simp: inst_ok_def)
    show ?thesis unfolding fresh(2) by (rule tbl_ok_set [OF assms(2) add_watch_inst_ok(2) [OF i ws]])
  qed
qed (use assms in simp)

lemma rm_watch_ok:
  assumes "slipstream_inotify_rm_watch io fd wd tbl w = (res, tbl', w')" "tbl_ok tbl"
  shows "tbl_ok tbl'"
proof (cases "tbl' = tbl")
  case False
  then obtain i where i: "inst_of tbl fd = Some i"
    using assms(1) by (auto simp: slipstream_inotify_rm_watch_def split: option.splits)
  have ok: "inst_ok (tbl ! i)" using tbl_ok_nth [OF assms(2)] inst_of_Some [OF i] by blast
  obtain i1 w1 where e: "emit (io_malloc io) wd IN_IGNORED 0 None (tbl ! i) w = (i1, w1)" by fastforce
  have "goes_on (tbl ! i) i1"
    using says_goes_on(1) [OF says_emit [OF e]] ok by (simp add: inst_ok_def name_ok_def)
  then have ok1: "inst_ok i1" using ok goes_on_ok by blast
  obtain k i2 where f: "forget io k i1 w1 = (i2, w')" "tbl' = tbl[i := i2]"
    using assms(1) False e i by (auto simp: slipstream_inotify_rm_watch_def Let_def split: option.splits prod.splits)
  show ?thesis
    using tbl_ok_set [OF assms(2)] goes_on_ok [OF forget_goes_on [OF f(1) ok1] ok1] f(2) by simp
qed (use assms in simp)

lemma close_ok:
  assumes "slipstream_inotify_close io fd tbl w = (res, tbl', w')" "tbl_ok tbl"
  shows "tbl_ok tbl'"
  using assms tbl_ok_set [OF assms(2) zero_inst_ok]
  by (auto simp: slipstream_inotify_close_def split: option.splits prod.splits)

subsection \<open>What a reader gets\<close>

interpretation kqueue_reads: record_source "take_events io waits"
    "\<lambda>inn. c_dirs io \<and> (\<forall>wt \<in> set (in_watches inn). watch_ok wt)" for io :: "'w ino_os" and waits
proof
  fix inn inn' :: inst and w w' :: 'w and old
  assume t: "take_events io waits inn w = Some (inn', w')" and ok: "c_dirs io \<and> (\<forall>wt \<in> set (in_watches inn). watch_ok wt)"
    and h: "holds inn old"
  have "goes_on inn inn'" using take_events_goes_on [OF t] ok h by (auto simp: inst_ok_def)
  then show "(c_dirs io \<and> (\<forall>wt \<in> set (in_watches inn'). watch_ok wt)) \<and> (\<exists>new. holds inn' (old @ new))"
    using ok h by (simp add: goes_on_def)
qed simp

lemma read_gives:
  assumes "slipstream_inotify_read io fd True len tbl w = Some (res, bs, tbl', w')" "tbl_ok tbl" "c_dirs io"
    "inst_of tbl fd = Some i" "SIZEOF_EVENT \<le> unat len" "holds (tbl ! i) old"
  obtains new k where "old = [] \<or> new = []" "bs = concat (map enc (take k (old @ new)))"
    "holds (tbl' ! i) (drop k (old @ new))" "tbl_ok tbl'"
    "if old @ new = [] then res = 0
     else if unat len < length (enc (hd (old @ new))) then res = - EINVAL \<and> k = 0
     else unat res = length bs \<and> 0 < k \<and> length bs \<le> unat len \<and>
       (k < length (old @ new) \<longrightarrow> unat len < length (concat (map enc (take (Suc k) (old @ new)))))"
proof -
  have i: "i < length tbl" "inst_ok (tbl ! i)"
    using inst_of_Some [OF assms(4)] assms(2) tbl_ok_nth by (auto simp: tbl_ok_def)
  obtain inn where r: "read_records (take_events io (\<not> in_nonblock (tbl ! i))) (unat len) (tbl ! i) w = Some (res, bs, inn, w')"
    "tbl' = tbl[i := inn]"
    using assms(1,4,5) by (auto simp: slipstream_inotify_read_def)
  have ok: "c_dirs io \<and> (\<forall>wt \<in> set (in_watches (tbl ! i)). watch_ok wt)"
    using assms(3) i(2) by (simp add: inst_ok_def)
  obtain new k where n: "old = [] \<or> new = []" "bs = concat (map enc (take k (old @ new)))"
    "holds inn (drop k (old @ new))" "c_dirs io \<and> (\<forall>wt \<in> set (in_watches inn). watch_ok wt)"
    "if old @ new = [] then res = 0
     else if unat len < length (enc (hd (old @ new))) then res = - EINVAL \<and> k = 0
     else unat res = length bs \<and> 0 < k \<and> length bs \<le> unat len \<and>
       (k < length (old @ new) \<longrightarrow> unat len < length (concat (map enc (take (Suc k) (old @ new)))))"
    by (rule kqueue_reads.reads [OF r(1) ok assms(6)])
  have "tbl_ok tbl'" using n(3,4) tbl_ok_set [OF assms(2), of inn i] by (auto simp: inst_ok_def r(2))
  then show thesis using n i(1) by (intro that [of new k]) (simp_all add: r(2))
qed

lemma read_ok:
  assumes "slipstream_inotify_read io fd has_buf len tbl w = Some (res, bs, tbl', w')" "tbl_ok tbl" "c_dirs io"
  shows "tbl_ok tbl'"
proof (cases "has_buf \<and> SIZEOF_EVENT \<le> unat len \<and> inst_of tbl fd \<noteq> None")
  case True
  then obtain i where i: "inst_of tbl fd = Some i" by blast
  then have "inst_ok (tbl ! i)" using inst_of_Some tbl_ok_nth [OF assms(2)] by blast
  then obtain old where "holds (tbl ! i) old" by (auto simp: inst_ok_def)
  then show ?thesis using assms True i by (auto elim: read_gives)
qed (use assms in \<open>auto simp: slipstream_inotify_read_def split: if_splits option.splits\<close>)

lemma ino_step_ok:
  assumes "ino_step io (tbl, w) (tbl', w')" "tbl_ok tbl" "c_dirs io"
  shows "tbl_ok tbl'"
  using assms(1)
proof cases
  case init1
  then show ?thesis by (rule init1_ok [OF _ assms(2)])
next
  case add_watch
  then show ?thesis by (rule add_watch_ok [OF _ assms(2,3)])
next
  case rm_watch
  then show ?thesis by (rule rm_watch_ok [OF _ assms(2)])
next
  case read
  then show ?thesis by (rule read_ok [OF _ assms(2,3)])
next
  case close
  then show ?thesis by (rule close_ok [OF _ assms(2)])
qed

lemma ino_steps_ok:
  assumes "(ino_step io)\<^sup>*\<^sup>* s t" "tbl_ok (fst s)" "c_dirs io"
  shows "tbl_ok (fst t)"
  using assms
proof (induction rule: rtranclp_induct)
  case (step t u)
  then show ?case by (metis ino_step_ok prod.collapse)
qed

end
