(* ===== verification/Sample_Files.thy ===== *)
theory Sample_Files
  imports Inotify_Calls Tmpfile
begin

text \<open>
  Concrete systems under the inotify emulation and the nameless files, and tables of
  instances over them, on which the theorems of the root theory are exercised.
\<close>

subsection \<open>A directory\<close>

text \<open>The world is what the one directory holds; its files are empty and never change, and a
  file's inode is the length of its name.\<close>

definition sample_stat :: "u32 \<Rightarrow> cstr \<Rightarrow> fstat" where
  "sample_stat mode path = \<lparr>st_ino = of_nat (length path), st_mtime_sec = 0, st_mtime_nsec = 0, st_size = 0,
     st_mode = mode\<rparr>"

definition sample_io :: "cstr list ino_os" where
  "sample_io = \<lparr>io_malloc = (\<lambda>_ w. (True, w)), io_opendir = (\<lambda>_ w. (Some ([DOT] # [DOT, DOT] # w), w)),
     io_lstat = (\<lambda>p w. (Some (sample_stat 0x8000 p), w)), io_stat = (\<lambda>p w. (Inr (sample_stat 0x4000 p), w)),
     io_open = (\<lambda>_ w. (Inr 60, w)), io_close = (\<lambda>_ w. (None, w)), io_kqueue = (\<lambda>w. (Inr 50, w)),
     io_kev_add = (\<lambda>_ _ w. (None, w)), io_kevent = (\<lambda>_ _ w. Some (Some [], w))\<rparr>"

text \<open>The same, with names as \<open>readdir\<close> gives them: the laws hold of every world.\<close>

definition sample_dir_io :: "bool ino_os" where
  "sample_dir_io = \<lparr>io_malloc = (\<lambda>_ w. (True, w)),
     io_opendir = (\<lambda>_ w. (Some ([DOT] # [DOT, DOT] # (if w then [[97], [98, 98]] else [])), w)),
     io_lstat = (\<lambda>p w. (Some (sample_stat 0x8000 p), w)), io_stat = (\<lambda>p w. (Inr (sample_stat 0x4000 p), w)),
     io_open = (\<lambda>_ w. (Inr 60, w)), io_close = (\<lambda>_ w. (None, w)), io_kqueue = (\<lambda>w. (Inr 50, w)),
     io_kev_add = (\<lambda>_ _ w. (None, w)), io_kevent = (\<lambda>_ _ w. Some (Some [], w))\<rparr>"

lemma sample_dir_laws: "c_dirs sample_dir_io"
  by (auto simp: c_dirs_def sample_dir_io_def DOT_def split: if_splits)

definition empty_table :: "inst list" where
  "empty_table = replicate INOTIFY_MAX zero_inst"

lemma empty_table_ok: "tbl_ok empty_table"
  using zero_inst_ok by (simp add: tbl_ok_def empty_table_def)

text \<open>An instance in use, with a queue that holds \<open>rs\<close>.\<close>

definition queue_inst :: "ino_rec list \<Rightarrow> nat \<Rightarrow> inst" where
  "queue_inst rs cap = zero_inst\<lparr>in_kq := 50, in_used := True, in_next_wd := 1,
     in_queue := concat (map enc rs), in_qcap := cap\<rparr>"

definition queue_table :: "ino_rec list \<Rightarrow> inst list" where
  "queue_table rs = empty_table[0 := queue_inst rs 4096]"

definition pending :: "ino_rec list" where
  "pending = [Rec 1 IN_CREATE 0 (Some [97]), Rec 1 IN_IGNORED 0 None]"

lemma pending_holds: "holds (queue_inst pending 4096) pending"
  by (auto simp: holds_def queue_inst_def pending_def name_ok_def zero_inst_def QUEUE_MAX_def st_name_def
      name_len_def SIZEOF_EVENT_def intro: exI [of _ 0])

lemma pending_table_ok: "tbl_ok (queue_table pending)"
proof -
  have "inst_ok (queue_inst pending 4096)"
    using pending_holds by (auto simp: inst_ok_def queue_inst_def zero_inst_def)
  then show ?thesis unfolding queue_table_def by (rule tbl_ok_set [OF empty_table_ok])
qed

text \<open>A watch on a directory that held one name, \<open>z\<close>.\<close>

definition dir_watch :: watch where
  "dir_watch = \<lparr>wt_wd = 1, wt_path = [100], wt_mask = IN_ALL_EVENTS, wt_is_dir = True, wt_fd = 60,
     wt_kids = [fill [122, 122, 122] (sample_stat 0x8000 [122, 122, 122])]\<rparr>"

lemma dir_watch_ok: "watch_ok dir_watch" "asks_names dir_watch"
  by (simp_all add: watch_ok_def dir_watch_def names_ok_def name_ok_def fill_def asks_names_def in_defs)

subsection \<open>A temporary directory\<close>

text \<open>A file system without nameless files: the world says whether the one name is there and
  whether the one descriptor is open.\<close>

definition the_name :: cstr where "the_name = SLASH_TMP @ TMPFILE_LEAF"

definition sample_tm :: "(bool \<times> bool) tmp_os" where
  "sample_tm = \<lparr>tm_getenv = (\<lambda>_. None), tm_open_tmpfile = (\<lambda>_ w. (Inl EOPNOTSUPP, w)),
     tm_mkstemp = (\<lambda>_ w. if fst w \<or> snd w then (Inl EEXIST, w) else (Inr (7, the_name), (True, True))),
     tm_fchmod = (\<lambda>_ w. (None, w)), tm_getfd = (\<lambda>_ w. (Inr 0, w)), tm_setfd = (\<lambda>_ _ w. (None, w)),
     tm_unlink = (\<lambda>n w. if n = the_name \<and> fst w then (None, (False, snd w)) else (Some ENOENT, w)),
     tm_close = (\<lambda>fd w. if fd = 7 then (fst w, False) else w),
     tm_linkat = (\<lambda>_ _ w. (None, w))\<rparr>"

definition sample_nms :: "bool \<times> bool \<Rightarrow> cstr set" where
  "sample_nms w = (if fst w then {the_name} else {})"

definition sample_fds :: "bool \<times> bool \<Rightarrow> i32 set" where
  "sample_fds w = (if snd w then {7} else {})"

lemma sample_tm_laws: "files_laws sample_tm sample_nms sample_fds"
  unfolding files_laws_def
  by (intro conjI)
    (auto simp: sample_tm_def sample_nms_def sample_fds_def untouched_def pos_errno_def neg32_unat errno_defs
      split: if_splits)

end
