(* ===== verification/Sample_Win.thy ===== *)
theory Sample_Win
  imports Inotify_Win_Gone Inotify_Linux Tmpfile_Win Sample_Files
begin

text \<open>
  A Windows under the inotify emulation, and states over it, on which the theorems of the root
  theory are exercised.
\<close>

text \<open>The world is the handles that are open and the packets at the port.  The path \<open>d\\f\<close> is a
  file that is gone where the last component says so; every other path is a directory.\<close>

type_synonym sample_world = "handle list \<times> win_packet list \<times> bool"

definition file_path :: cstr where "file_path = [100, BACKSLASH, 102]"

definition sample_wino :: "sample_world wino_os" where
  "sample_wino = \<lparr>wi_malloc = (\<lambda>_ w. (True, w)),
     wi_attrs = (\<lambda>p (hs, ps, gone). if p = file_path then (if gone then None else Some 32) else Some 16),
     wi_new_port = (\<lambda>(hs, ps, gone). (Some 4, 4 # hs, ps, gone)),
     wi_open = (\<lambda>_ (hs, ps, gone). let h = if 8 \<in> set hs then 12 else 8 in (h, h # hs, ps, gone)),
     wi_assoc = (\<lambda>_ _ _ w. (True, w)), wi_read_changes = (\<lambda>_ _ w. (True, w)), wi_cancel = (\<lambda>_ w. w),
     wi_close = (\<lambda>h (hs, ps, gone). (remove1 h hs, ps, gone)),
     wi_get = (\<lambda>_ _ (hs, ps, gone). case ps of [] \<Rightarrow> (None, hs, [], gone) | p # ps \<Rightarrow> (Some p, hs, ps, gone)),
     wi_delete_pending = (\<lambda>_ _. Some False), wi_find = (\<lambda>_ w. (Some [([115], 16)], w)),
     wi_utf8 = (\<lambda>name _ _. map ucast name)\<rparr>"

text \<open>The handles the system counts; 0 and the invalid one are none.\<close>

definition sample_handles :: "sample_world \<Rightarrow> handle multiset" where
  "sample_handles w = filter_mset (\<lambda>h. h \<noteq> 0 \<and> h \<noteq> INVALID_HANDLE) (mset (fst w))"

lemma sample_handle_laws: "handle_laws sample_wino sample_handles"
  unfolding handle_laws_def
  by (intro conjI; clarsimp simp: sample_wino_def sample_handles_def INVALID_HANDLE_def Let_def split: list.splits if_splits)

definition empty_wtable :: "winst list" where
  "empty_wtable = replicate INST_MAX zero_winst"

lemma empty_wtable_ok: "wtbl_ok empty_wtable"
  using zero_winst_ok by (simp add: wtbl_ok_def empty_wtable_def)

lemma empty_wtable_held: "held_all empty_wtable = {#}"
proof -
  have "sum_list (replicate n {#}) = ({#} :: handle multiset)" for n by (induction n) simp_all
  then show ?thesis by (simp add: empty_wtable_def held_all_def held_inst_def zero_winst_def)
qed

text \<open>An instance, and a watch on a directory in it.\<close>

definition dir_path :: cstr where "dir_path = [97, BACKSLASH, 98]"

lemma sample_win_opened:
  "\<exists>ws1 ws2. win_inotify_init1 sample_wino 0 empty_wtable ([], [], False) = (1000, ws1, [4], [], False) \<and>
     win_inotify_add_watch sample_wino 1000 (Some dir_path) IN_ALL_EVENTS ws1 ([4], [], False) =
       (1, ws2, [12, 8, 4], [], False)"
proof -
  let ?i = "win_inotify_init1 sample_wino 0 empty_wtable ([], [], False)"
  let ?a = "win_inotify_add_watch sample_wino 1000 (Some dir_path) IN_ALL_EVENTS (fst (snd ?i)) ([4], [], False)"
  have "fst ?i = 1000 \<and> snd (snd ?i) = ([4], [], False)" "fst ?a = 1 \<and> snd (snd ?a) = ([12, 8, 4], [], False)"
    by code_simp+
  then show ?thesis by (intro exI [of _ "fst (snd ?i)"] exI [of _ "fst (snd ?a)"]) (simp add: prod_eq_iff)
qed

text \<open>A watch on the file, the packet that reports it removed, and an instance with the watch.\<close>

definition file_watch :: wwatch where
  "file_watch = \<lparr>wt_wd = 1, wt_path = [100], wt_mask = IN_ALL_EVENTS, wt_is_dir = False, ww_dir = 8,
     ww_up = INVALID_HANDLE, ww_only = Some [102], ww_self_name = Some [102], ww_pending = True, ww_dirs = []\<rparr>"

definition removed_packet :: win_packet where
  "removed_packet = \<lparr>pk_key = 1, pk_ok = True, pk_chain = [\<lparr>nt_action = FA_REMOVED, nt_name = [102]\<rparr>]\<rparr>"

definition watching :: "wwatch \<Rightarrow> ino_rec list \<Rightarrow> winst" where
  "watching wt rs = zero_winst\<lparr>in_used := True, in_next_wd := 2, in_qcap := 4096,
     in_queue := concat (map enc rs), wn_port := 4, wn_key := 1000, wn_watches := [wt]\<rparr>"

definition watching_table :: "wwatch \<Rightarrow> ino_rec list \<Rightarrow> winst list" where
  "watching_table wt rs = empty_wtable[0 := watching wt rs]"

lemma watching_holds_none: "holds (watching wt []) []"
  by (simp add: holds_def watching_def zero_winst_def)

lemma watching_holds: "holds (watching wt pending) pending"
  using pending_holds by (simp add: holds_def watching_def queue_inst_def zero_winst_def zero_inst_def)

lemma watching_table_ok: "wtbl_ok (watching_table file_watch pending)"
proof -
  have "winst_ok (watching file_watch pending)"
    using watching_holds [of file_watch]
    by (auto simp: winst_ok_def watches_ok_def watching_def wwatch_ok_def file_watch_def)
  then show ?thesis unfolding watching_table_def by (rule wtbl_ok_set [OF empty_wtable_ok])
qed

lemma watching_table_at [simp]: "watching_table wt rs ! 0 = watching wt rs"
  by (simp add: watching_table_def empty_wtable_def INST_MAX_def)

lemma watching_table_holds: "holds (watching_table wt pending ! 0) pending"
  by (simp add: watching_holds)

text \<open>The file is removed, reported, and then asked about.\<close>

definition gone_world :: sample_world where "gone_world = ([8, 4], [], True)"

definition end_of_file :: "ino_rec list" where
  "end_of_file = [Rec 1 IN_DELETE_SELF 0 None, Rec 1 IN_IGNORED 0 None]"

lemma farewell_file: "farewell file_watch = end_of_file"
  by code_simp

lemma removed_name: "notified_name sample_wino \<lparr>nt_action = FA_REMOVED, nt_name = [102]\<rparr> gone_world = [102]"
  by code_simp

lemma gone_paths: "path_is_dir sample_wino [100] gone_world" "wi_attrs sample_wino (joined [100] [102]) gone_world = None"
  by code_simp+

lemma watching_fields [simp]: "wn_watches (watching wt rs) = [wt]" "in_queue (watching wt rs) = concat (map enc rs)"
  "(watching wt rs)\<lparr>in_queue := []\<rparr> = watching wt []"
  by (simp_all add: watching_def)

subsection \<open>A temporary directory on Windows\<close>

text \<open>The world says whether the one name is there, whether its handle is open and whether the one
  descriptor is.\<close>

type_synonym temp_world = "bool \<times> bool \<times> bool"

definition sample_tmpw :: "temp_world tmpw_os" where
  "sample_tmpw = \<lparr>tw_temp_path = (\<lambda>_. (4, [67, 58, 92, 84])), tw_to_wide = (\<lambda>p _ _. Some (map ucast p)),
     tw_temp_name = (\<lambda>_ (n, h, f). if n then (None, n, h, f) else (Some [110], True, h, f)),
     tw_create = (\<lambda>p (n, h, f). if h \<or> p \<noteq> [110] then (INVALID_HANDLE, n, h, f) else (8, n, True, f)),
     tw_delete = (\<lambda>p (n, h, f). (n \<and> p \<noteq> [110], h, f)),
     tw_osfhandle = (\<lambda>_ (n, h, f). if f then (- 1, n, h, f) else (7, n, h, True)),
     tw_close = (\<lambda>k (n, h, f). if h \<and> k = 8 then (False, False, f) else (n, h, f))\<rparr>"

definition temp_nms :: "temp_world \<Rightarrow> u16 list set" where
  "temp_nms w = (if fst w then {[110]} else {})"

definition temp_dels :: "temp_world \<Rightarrow> handle \<Rightarrow> u16 list option" where
  "temp_dels w = (if fst (snd w) then [8 \<mapsto> [110]] else Map.empty)"

definition temp_fds :: "temp_world \<Rightarrow> i32 set" where
  "temp_fds w = (if snd (snd w) then {7} else {})"

lemma sample_tmpw_laws: "win_files_laws sample_tmpw temp_nms temp_fds temp_dels"
proof -
  have "neg32 (- 1)" "\<not> neg32 7" by (simp_all add: neg32_def)
  then show ?thesis
    unfolding win_files_laws_def
    by (intro conjI)
      (auto simp: sample_tmpw_def temp_nms_def temp_dels_def temp_fds_def INVALID_HANDLE_def split: if_splits)
qed

end
