(* ===== verification/Spec2Isabelle.thy ===== *)
theory Spec2Isabelle
  imports Sample_Iocp Sample_Win
begin

text \<open>
  slipstreamIO gives programs written against \<open>io_uring\<close> one interface on every platform: on
  Linux the kernel answers, elsewhere an engine in user space does.  This library models that
  engine, the routing between the two, and the emulated file-watching, signal and
  temporary-file calls beside them, and proves what makes them correct.  The paths below are those of the repository.

  \<^bold>\<open>The program.\<close>  A ring (\<open>struct slip_ring\<close>, \<open>src/src/engine_internal.h\<close>) is memory shared
  with one caller: a submission ring, an array of entries and a completion ring, and beside them
  the engine's own pool of ops.  \<open>io_uring_enter\<close> (\<open>slipstream_engine_enter\<close>,
  \<open>src/src/slipstream_engine.c\<close>) copies submissions into ops, runs the queue of ops
  (\<open>process_queue\<close>), and waits until enough completions stand in the ring.  An op is executed
  by a backend.  The completion port of Windows (\<open>src/src/engine_iocp.c\<close>) issues the op and hands
  it back when it is done.  The readiness family (epoll, kqueue, select, dispatch) shares one machinery
  (\<open>src/src/engine_posix.c\<close>): an op is tried without blocking; one that would block is parked
  on its descriptor until the backend's wait finds it ready, and one that cannot be made ready
  goes to a worker thread, whose result comes back through the completion ring and, for a linked
  op, through a ticket.  Ops with \<open>IOSQE_IO_LINK\<close> form chains: a member runs when the one before
  it has succeeded, and a failure cancels the rest.

  \<^bold>\<open>The theories, in the order of the code.\<close>
  \<^item> \<open>Prelude\<close>: machine integers, signed tests, lemmas on words and lists.
  \<^item> \<open>Abi\<close>: submission and completion entries, opcodes, flags and errnos, with the numbers of
    \<open>io_uring.h\<close>.
  \<^item> \<open>Ring\<close>: the ring, its shared memory and its op pool (\<open>op_alloc_locked\<close>, \<open>op_release\<close>).  A
    pointer to an op is its index in the pool, a linked list of ops a list of indices.
  \<^item> \<open>Completions\<close>: posting, the backlog and emissions (\<open>post_locked\<close>,
    \<open>drain_backlog_locked\<close>, \<open>slip_engine_post\<close>, \<open>slip_engine_emit\<close>).  The abstract view is one
    queue, the unread entries followed by the backlog (\<open>cq_stream\<close>).
  \<^item> \<open>FixedFiles\<close>, \<open>BufRings\<close>: the fixed file table and the provided buffers.
  \<^item> \<open>Posix_Try\<close>: one attempt at one op, every opcode of \<open>slip_posix_try\<close>, with the multishot
    loops; \<open>Posix_Frame\<close>: what an attempt may change; \<open>Multishot\<close>: where the loops end.
  \<^item> \<open>Readiness\<close>: what a readiness backend is (the locales); \<open>Posix_Exec\<close>: parking, the hand-over
    to the worker, cancelling and executing; \<open>Posix_Inv\<close>: each keeps the invariant; \<open>Cancel\<close>:
    which ops a cancel takes.
  \<^item> \<open>Engine\<close>: the queue, its chains, messages between rings and \<open>enter\<close>; \<open>Engine_Inv\<close>: the
    locale \<open>backend_contract\<close> and what the core keeps of the invariant over any backend that
    meets it.  What an invariant of rings must allow is the locale \<open>ring_contract\<close> of \<open>Posix_Inv\<close>,
    so that each backend has the core's theorems for its own invariant; \<open>Engine_Chain\<close>: what happens to a failed chain and which submissions are taken.
  \<^item> \<open>Worker\<close>: the worker's loop cut at its lock operations, and every interleaving of it with
    the engine and the caller.
  \<^item> \<open>Setup\<close>, \<open>Setup_Facts\<close>: the choice of backend, setup, register, mmap and close.
  \<^item> \<open>Select\<close>, \<open>Sides\<close>, \<open>Epoll\<close>, \<open>Kqueue\<close>: the three backends; \<open>Sides\<close> is the
    descriptor table that epoll and kqueue share in shape.  Each interprets the readiness locale
    and, through it, the contract of the core.
  \<^item> \<open>Dispatch\<close>: the dispatch backend, over the same table of sides; \<open>Dispatch_Facts\<close>: its table
    and counters, and the readiness locale; \<open>Dispatch_Inv\<close>: its handlers and what it hands to
    GCD; \<open>Dispatch_Wait\<close>: what a wait collects; \<open>Dispatch_Door\<close>: its threads between the mutex
    and the semaphores, to the end of a close.
  \<^item> \<open>Iocp\<close>: the Windows backend; \<open>Iocp_Facts\<close>: where its ops are, its wait, its multishot accept,
    its close, and how its calls differ from those of the other backends.
  \<^item> \<open>Routing\<close>: \<open>src/src/slipstream_syscall.c\<close> and \<open>src/src/uring_available.h\<close>: which side answers.
  \<^item> \<open>Signals\<close>, \<open>Signals_Facts\<close>: the four arms of \<open>src/src/slipstream_signal.c\<close>, their common
    contract as the locale \<open>signal_arm\<close>, and the thread of the generic arm with its caller.
  \<^item> \<open>Inotify_Queue\<close>, \<open>Inotify_Tell\<close>, \<open>Inotify_Read\<close>: of \<open>src/src/slipstream_inotify.c\<close> what its
    kqueue and its Windows arm have in common, the records and their byte queue; what making records
    does to an instance; and the locale \<open>record_source\<close>, what an arm must keep while it fills an empty
    queue, from which both have what a read hands over.
  \<^item> \<open>Inotify\<close>, \<open>Inotify_Facts\<close>, \<open>Inotify_Calls\<close>: the kqueue arm, which compares directory listings:
    the comparison, what the records say, and the calls.
  \<^item> \<open>Inotify_Win\<close>: the Windows arm, which translates what \<open>ReadDirectoryChangesW\<close> reports, and the last
    one, which has nothing; \<open>Inotify_Win_Facts\<close>: what each of its steps keeps of the records;
    \<open>Inotify_Win_Calls\<close>: its calls; \<open>Inotify_Win_Handles\<close>: its handles; \<open>Inotify_Win_Gone\<close>: what it
    tells of the end of a watch.  \<open>Inotify_Linux\<close>: the arm that only hands on.
  \<^item> \<open>Tmpfile\<close>, \<open>Tmpfile_Win\<close>: the two builds of \<open>src/src/slipstream_tmpfile.c\<close>.
  \<^item> \<open>Sample\<close>, \<open>Sample_Files\<close>, \<open>Sample_Win\<close>, \<open>Sample_Dispatch\<close>, \<open>Sample_Iocp\<close>: concrete systems and concrete states
    on which the theorems below are exercised.

  \<^bold>\<open>The model.\<close>  State is passed explicitly.  A world \<open>'w\<close> stands for the operating system; the
  system calls the code makes are the fields of records (\<open>os\<close>, \<open>epoll_os\<close>, \<open>kqueue_os\<close>,
  \<open>select_os\<close>, \<open>dispatch_os\<close>, \<open>iocp_os\<close>, \<open>kernel_os\<close>, \<open>ino_os\<close>, \<open>wino_os\<close>,
  \<open>inotify_kernel\<close>, \<open>tmp_os\<close>, \<open>tmpw_os\<close>, one per signal arm) and may answer anything unless a theorem names a law, such
  as \<open>drains\<close> (the system has finitely much at hand), \<open>c_dirs\<close> (\<open>readdir\<close> gives distinct names
  without NUL), \<open>handle_laws\<close> (what opens and closes a handle), \<open>files_laws\<close> or \<open>win_files_laws\<close>.  A backend is a record of its entries, as \<open>struct eng_backend\<close>
  is a table of function pointers.  Integers keep their width; counters wrap.  Errors are the
  negated errnos the code answers.  Loops with a bound are recursive functions; those that may
  run for ever (\<open>process_queue\<close>, \<open>wait_loop\<close>, the multishots, \<open>round_up_pow2\<close>,
  \<open>take_events\<close>, \<open>win_take_events\<close>, \<open>win_block\<close>, \<open>iocp_collect\<close>) are partial functions whose value is \<open>None\<close> where they do not return, so that
  no fuel is chosen anywhere; that they return is proved where it is true (\<open>queue_runs_out\<close>,
  \<open>recv_multishot_ends_with_buffers\<close>), and that one does not is proved too
  (\<open>setup_rounds_up_or_hangs\<close>).  A section under a mutex is one step; the interleavings of threads
  are the step relations of \<open>Worker\<close>, \<open>Dispatch_Door\<close> and \<open>Signals_Facts\<close>.  What Grand Central
  Dispatch runs while the engine waits is a list of events that its record may choose freely
  among what it was given.

  \<^bold>\<open>What is proved.\<close>  Every \<open>enter\<close>, on all five backends, keeps each op of a pool in exactly one
  place (free, queued, parked, at the worker, at GCD, in flight, blocking, in the backlog or held
  by a call) and
  every ring structure well formed; so does every interleaving with the worker, and every
  register call.  Posting is an enqueue, an emission is lost only where nothing can carry it,
  the queue runs until it is empty or blocked and always returns, chains fail as a whole,
  cancels take exactly what they name, the fixed table and the buffer rings round-trip, a setup
  gives a fresh ring whose slices lie apart, a temporary file leaves no name, or on Windows one that
  goes with its handle, the queues of the inotify emulation hold whole records whatever is called,
  its records turn one look at a directory into the next, and on Windows it holds exactly the
  handles of its watches.  On the dispatch
  backend no news of a descriptor is lost and no wake-up is surplus whatever
  its threads do, a wait collects everything, and its copies stay inside the buffer.  A process
  holds one signal descriptor, and reads the signals in their order.  Some theorems state what
  the code does where it does not do what it means to: a failing message between rings does not
  fail its chain, cancelling a queued op hits the op at the head of the queue, two shapes of
  poll miss their event on epoll, a ticket settled inside a wait leaves the queue unrun, a huge
  setup hangs, a directory that empties tells nothing, closing a dispatch ring can free it under
  a signal, a signal descriptor can be impossible to close, a failed open on macOS stays
  counted, unmapping goes by the mode, and the completion port never comes back from endless
  connections, leaves accepted sockets open, truncates what it should refuse, and closes descriptor
  0 where it is asked to close a slot, and the inotify emulation of Windows tells the end of a file
  twice and other ends and losses never.

  \<^bold>\<open>Not modelled.\<close>  The headers that replace liburing's and only rename the routed calls; the C11 threads shim and
  the mruby glue.  Of \<open>engine_posix.c\<close> the branches that only other platforms build (accept
  without \<open>accept4\<close>, \<open>select\<close> in place of \<open>poll\<close>, \<open>statx\<close> from \<open>fstatat\<close>) are left out.  Memory
  ordering of the shared indices is not modelled: each access is atomic.  Caller memory is read
  through parameters, so buffers' contents are the system's business.
\<close>

section \<open>The invariant of every ring\<close>



section \<open>Completions\<close>

text \<open>C2: Posting the completion of an op refines one queue: the unread entries followed by
  the backlog gain exactly that completion at their end, in order, whether or not the ring
  had room; an op that asked for it adds none where it succeeds.\<close>

theorem post_is_enqueue:
  assumes "cq_wf r" "i \<notin> set (r_backlog r)"
  shows "cq_stream (slip_engine_post i res r) = cq_stream r @ completion_of r i res"
  by (rule post_stream [OF assms])

lemma post_is_enqueue_witness:
  "cq_stream (slip_engine_post 0 5 (sample_ring ())) =
     cq_stream (sample_ring ()) @ completion_of (sample_ring ()) 0 5"
  by (rule post_is_enqueue) (rule sample_cq_wf, simp add: sample_rings)

text \<open>C3: A completion that leaves its op alive is lost exactly when the completion ring is full
  and no op is free to carry it; otherwise it joins the queue at its end.\<close>

theorem emit_lost_iff_full:
  assumes "cq_wf r" "pool_ok r H"
  shows "cq_stream (slip_engine_emit ud res fl r) =
    (if cq_room (drain_backlog_locked r) \<or> r_op_free (drain_backlog_locked r) \<noteq> []
     then cq_stream r @ [\<lparr>cqe_user_data = ud, cqe_res = res, cqe_flags = fl\<rparr>] else cq_stream r)"
  by (rule emit_stream [OF assms])

lemma emit_lost_iff_full_witness:
  "cq_stream (slip_engine_emit 3 1 2 (sample_ring ())) =
    (if cq_room (drain_backlog_locked (sample_ring ())) \<or> r_op_free (drain_backlog_locked (sample_ring ())) \<noteq> []
     then cq_stream (sample_ring ()) @ [\<lparr>cqe_user_data = 3, cqe_res = 1, cqe_flags = 2\<rparr>]
     else cq_stream (sample_ring ()))"
  by (rule emit_lost_iff_full [OF sample_cq_wf sample_pool_ok])

section \<open>The queue and its chains\<close>

text \<open>C4: Running the queue ends, for every ring that satisfies the invariant, if the system has
  at any moment only finitely many connections and messages at hand: cancels end because the
  set they scan shrinks, multishots because what they take runs out, and the queue because no
  op that runs makes it longer.  It keeps the invariant of every ring, and stops only where the
  queue is empty or a chain waits for an op that is elsewhere.\<close>

theorem queue_runs_out:
  assumes "drains os m" "me < length rs" "others_inv (ring_inv sides_inv) me Hs rs" "ring_inv sides_inv H (rs ! me)"
  shows "\<exists>rs' w'. process_queue (slip_backend_epoll os eo) me rs w = Some (rs', w') \<and>
    others_inv (ring_inv sides_inv) me Hs rs' \<and> ring_inv sides_inv H (rs' ! me) \<and>
    (r_queue (rs' ! me) = [] \<or> r_blocking (rs' ! me) \<noteq> None)"
proof -
  have "process_queue (slip_backend_epoll os eo) me rs w \<noteq> None"
  proof (rule epoll_engine.process_queue_returns [OF _ assms(2-4)])
    fix i r w H assume "ring_inv sides_inv (add_mset i H) (r :: ep_state slip_ring)"
    then show "eb_execute (slip_backend_epoll os eo) i r w \<noteq> None"
      using epoll.slip_posix_execute_ends [OF assms(1)] by (simp add: slip_backend_epoll_def del: not_None_eq)
  qed
  then obtain rs' w' where q: "process_queue (slip_backend_epoll os eo) me rs w = Some (rs', w')" by auto
  then show ?thesis using epoll_engine.process_queue_inv [OF q assms(2-4)] by blast
qed

definition sample_queue :: "ep_state slip_ring list" where
  "sample_queue = [queued_ring [] [linked_sqe (nop_sqe 1), recv_sqe 2 5, cancel_sqe 2 0]]"

lemma sample_queue_inv: "others_inv (ring_inv sides_inv) 0 (\<lambda>_. {#}) sample_queue" "ring_inv sides_inv {#} (sample_queue ! 0)"
  by (simp_all add: others_inv_def sample_queue_def queued_ring_inv epoll.wait_invariant_axioms sides_inv_nil)

lemma sample_queue_run:
  "map_option (\<lambda>(rs, w). map cqe_res (unread (rs ! 0)))
     (process_queue (slip_backend_epoll sample_os sample_eo) 0 sample_queue ()) = Some [0, - ECANCELED, 0]"
  by code_simp

lemma queue_runs_out_witness:
  "\<exists>rs'. process_queue (slip_backend_epoll sample_os sample_eo) 0 sample_queue () = Some (rs', ()) \<and>
     map cqe_res (unread (rs' ! 0)) = [0, - ECANCELED, 0] \<and> ring_inv sides_inv {#} (rs' ! 0)"
proof -
  obtain rs' w' where e: "process_queue (slip_backend_epoll sample_os sample_eo) 0 sample_queue () = Some (rs', w')"
    "ring_inv sides_inv {#} (rs' ! 0)"
    using queue_runs_out [OF sample_drains _ sample_queue_inv, of sample_eo "()"] by (auto simp: sample_queue_def)
  moreover have "map cqe_res (unread (rs' ! 0)) = [0, - ECANCELED, 0]" using sample_queue_run e(1) by simp
  ultimately show ?thesis by auto
qed

text \<open>C5: A failed chain is cancelled to its last member and no further: the members up to and
  with the first that carries no link bit complete with \<open>-ECANCELED\<close> in their order (or
  vanish, if the op that failed was to fail quietly), none of them runs, and the loop goes on
  with the rest of the queue in a chain that holds.\<close>

theorem failed_chain_cancelled:
  fixes rs :: "ep_state slip_ring list"
  assumes "me < length rs" "ring_inv sides_inv H (rs ! me)" "r_queue (rs ! me) = ls @ e # rest"
    "\<And>l. l \<in> set ls \<Longrightarrow> io_link (sqe_of (rs ! me) l)" "\<not> io_link (sqe_of (rs ! me) e)"
    "r_blocking (rs ! me) = None" "r_chain_failed (rs ! me) \<noteq> SLIP_CHAIN_HOLDS"
  shows "\<exists>r'. process_queue be me rs w = process_queue be me (rs[me := r']) w \<and>
    ring_inv sides_inv H r' \<and> r_queue r' = rest \<and> r_blocking r' = None \<and> r_chain_failed r' = SLIP_CHAIN_HOLDS \<and>
    cq_stream r' = cq_stream (rs ! me) @ cancel_stream (rs ! me) (ls @ [e]) \<and>
    (\<forall>j \<in> set rest. the_op r' j = the_op (rs ! me) j)"
  by (rule epoll.process_queue_cancels_chain [OF assms])

definition sample_failed :: "ep_state slip_ring list" where
  "sample_failed = [(queued_ring [] [linked_sqe (nop_sqe 1), nop_sqe 2, nop_sqe 3])
     \<lparr>r_chain_failed := SLIP_CHAIN_CANCELS\<rparr>]"

lemma failed_chain_cancelled_witness:
  "\<exists>r'. process_queue (slip_backend_epoll sample_os sample_eo) 0 sample_failed () =
      process_queue (slip_backend_epoll sample_os sample_eo) 0 [r'] () \<and>
    ring_inv sides_inv {#} r' \<and> r_queue r' = [2] \<and> r_blocking r' = None \<and> r_chain_failed r' = SLIP_CHAIN_HOLDS \<and>
    cq_stream r' = cq_stream (sample_failed ! 0) @ cancel_stream (sample_failed ! 0) [0, 1] \<and>
    (\<forall>j \<in> set [2]. the_op r' j = the_op (sample_failed ! 0) j)"
proof -
  have q: "r_queue (sample_failed ! 0) = [0] @ 1 # [2]" "0 < length sample_failed" "\<And>x. sample_failed[0 := x] = [x]"
    "r_blocking (sample_failed ! 0) = None" "r_chain_failed (sample_failed ! 0) \<noteq> SLIP_CHAIN_HOLDS"
    by (simp_all add: sample_failed_def upt_rec)
  have l: "io_link (sqe_of (sample_failed ! 0) 0)" "\<not> io_link (sqe_of (sample_failed ! 0) 1)" by code_simp+
  have "ring_inv sides_inv {#} (sample_failed ! 0)"
    by (simp add: sample_failed_def epoll.set_chain_inv queued_ring_inv epoll.wait_invariant_axioms sides_inv_nil)
  from failed_chain_cancelled [OF q(2) this q(1) _ l(2) q(4,5),
      of "slip_backend_epoll sample_os sample_eo" "()"] l(1)
  show ?thesis by (simp add: q(3))
qed





section \<open>Parking and cancelling\<close>

lemma cancel_all_named:
  assumes "ring_inv sides_inv H r" "cancels_every (sqe_of r i)" "r_blocking r = None"
  shows "\<exists>M r' w'. cancel_matching (epoll_readiness eo) i r w =
      Some (if named (sqe_of r i) r = {} then - ENOENT else of_nat (card (named (sqe_of r i) r)), r', w') \<and>
    ring_inv sides_inv H r' \<and> set M = named (sqe_of r i) r \<and> waiters r' = waiters r - set M \<and> distinct M \<and>
    cq_stream r' = cq_stream r @ map (canceled_cqe r) M"
proof -
  obtain M r' w' where c: "cancel_matching (epoll_readiness eo) i r w = Some (cancel_answer True M r', r', w')"
    "ring_inv sides_inv H r'" "cancels M r r'" "set M = named (sqe_of r i) r"
    using epoll.cancel_matching_all [OF assms(1,2), of eo w] by (elim exE conjE) (rule that)
  have x: "distinct M" "r_blocking r' = None" "waiters r' = waiters r - set M"
    "cq_stream r' = cq_stream r @ map (canceled_cqe r) M"
    using c(3) assms(3) unfolding cancels_def by simp_all
  have "cancel_answer True M r' =
      (if named (sqe_of r i) r = {} then - ENOENT else of_nat (card (named (sqe_of r i) r)))"
    unfolding c(4) [symmetric] using x(1,2) by (simp add: cancel_answer_def distinct_card)
  with c(1,2,4) x show ?thesis by (intro exI [of _ M] exI [of _ r'] exI [of _ w']) simp
qed

lemma cancel_one_named:
  assumes "ring_inv sides_inv H r" "\<not> cancels_every (sqe_of r i)" "r_blocking r = None"
  shows "\<exists>M r' w'. cancel_matching (epoll_readiness eo) i r w =
      Some (if named (sqe_of r i) r = {} then - ENOENT else 0, r', w') \<and>
    ring_inv sides_inv H r' \<and> length M = (if named (sqe_of r i) r = {} then 0 else 1) \<and>
    set M \<subseteq> named (sqe_of r i) r \<and> waiters r' = waiters r - set M \<and>
    cq_stream r' = cq_stream r @ map (canceled_cqe r) M"
proof -
  obtain M r' w' where c: "cancel_matching (epoll_readiness eo) i r w = Some (cancel_answer False M r', r', w')"
    "ring_inv sides_inv H r'" "cancels M r r'"
    "M = [] \<and> named (sqe_of r i) r = {} \<or> (\<exists>t \<in> named (sqe_of r i) r. M = [t])"
    using epoll.cancel_matching_one [OF assms(1,2), of eo w] by (elim exE conjE) (rule that)
  have x: "r_blocking r' = None" "waiters r' = waiters r - set M"
    "cq_stream r' = cq_stream r @ map (canceled_cqe r) M"
    using c(3) assms(3) unfolding cancels_def by simp_all
  have m: "M = [] \<longleftrightarrow> named (sqe_of r i) r = {}" "set M \<subseteq> named (sqe_of r i) r" "length M \<le> 1"
    using c(4) by auto
  have "cancel_answer False M r' = (if named (sqe_of r i) r = {} then - ENOENT else 0)"
    using x(1) m(1) by (simp add: cancel_answer_def)
  moreover have "length M = (if named (sqe_of r i) r = {} then 0 else 1)"
    using m(1,3) by (cases M) auto
  ultimately show ?thesis using c(1,2) x m(2) by (intro exI [of _ M] exI [of _ r'] exI [of _ w']) simp
qed

text \<open>C8: A cancel of all takes every waiting op it names, parked, queued or at the worker, and
  no other; a cancel of one takes one of them if there is any.  Each that is taken leaves its
  list and completes with \<open>-ECANCELED\<close>, once, in the order of taking; the answer is the number
  taken, 0 for a cancel of one, and \<open>-ENOENT\<close> if nothing waits that it names; in particular
  \<open>-EALREADY\<close> is not among the answers, since the loop runs ops only while no chain blocks.\<close>

theorem cancel_takes_what_it_names:
  assumes "ring_inv sides_inv H r" "r_blocking r = None"
  shows "\<exists>M r' w'. cancel_matching (epoll_readiness eo) i r w =
      Some (if named (sqe_of r i) r = {} then - ENOENT
            else if cancels_every (sqe_of r i) then of_nat (card (named (sqe_of r i) r)) else 0, r', w') \<and>
    ring_inv sides_inv H r' \<and> set M \<subseteq> named (sqe_of r i) r \<and> distinct M \<and>
    length M = (if cancels_every (sqe_of r i) then card (named (sqe_of r i) r)
                else if named (sqe_of r i) r = {} then 0 else 1) \<and>
    waiters r' = waiters r - set M \<and> cq_stream r' = cq_stream r @ map (canceled_cqe r) M"
proof (cases "cancels_every (sqe_of r i)")
  case True
  obtain M r' w' where c: "cancel_matching (epoll_readiness eo) i r w =
      Some (if named (sqe_of r i) r = {} then - ENOENT else of_nat (card (named (sqe_of r i) r)), r', w')"
    "ring_inv sides_inv H r'" "set M = named (sqe_of r i) r" "waiters r' = waiters r - set M" "distinct M"
    "cq_stream r' = cq_stream r @ map (canceled_cqe r) M"
    using cancel_all_named [OF assms(1) True assms(2), of eo w] by (elim exE conjE) (rule that)
  from c(3,5) have "length M = card (named (sqe_of r i) r)" using distinct_card by fastforce
  with c True show ?thesis by (intro exI [of _ M] exI [of _ r'] exI [of _ w']) simp
next
  case False
  obtain M r' w' where c: "cancel_matching (epoll_readiness eo) i r w =
      Some (if named (sqe_of r i) r = {} then - ENOENT else 0, r', w')"
    "ring_inv sides_inv H r'" "length M = (if named (sqe_of r i) r = {} then 0 else 1)"
    "set M \<subseteq> named (sqe_of r i) r" "waiters r' = waiters r - set M"
    "cq_stream r' = cq_stream r @ map (canceled_cqe r) M"
    using cancel_one_named [OF assms(1) False assms(2), of eo w] by (elim exE conjE) (rule that)
  from c(3) have "distinct M" by (cases M) (auto split: if_splits)
  with c False show ?thesis by (intro exI [of _ M] exI [of _ r'] exI [of _ w']) simp
qed

definition sample_cancels :: "ep_state slip_ring" where
  "sample_cancels = queued_ring [] [recv_sqe 2 5, nop_sqe 3, recv_sqe 2 6, cancel_sqe 2 1]"

lemma sample_cancels_inv: "ring_inv sides_inv {#} sample_cancels"
  by (simp add: sample_cancels_def queued_ring_inv epoll.wait_invariant_axioms sides_inv_nil)

lemma cancel_takes_what_it_names_witness:
  "(\<exists>M r' w'. cancel_matching (epoll_readiness sample_eo) 3 sample_cancels () = Some (2, r', w') \<and>
     length M = 2 \<and> waiters r' = waiters sample_cancels - set M \<and> ring_inv sides_inv {#} r') \<and>
   (\<exists>M r' w'. cancel_matching (epoll_readiness sample_eo) 2 (sample_queue ! 0) () = Some (0, r', w') \<and>
     length M = 1 \<and> waiters r' = waiters (sample_queue ! 0) - set M \<and> ring_inv sides_inv {#} r')"
proof -
  note one = cancel_takes_what_it_names [OF sample_queue_inv(2), of sample_eo 2 "()"]
  note all = cancel_takes_what_it_names [OF sample_cancels_inv, of sample_eo 3 "()"]
  have b: "r_blocking sample_cancels = None" "r_blocking (sample_queue ! 0) = None"
    by (simp_all add: sample_cancels_def sample_queue_def)
  have n: "named (sqe_of sample_cancels 3) sample_cancels = {0, 2}"
    "named (sqe_of (sample_queue ! 0) 2) (sample_queue ! 0) = {1}"
    unfolding named_def by code_simp+
  have e: "cancels_every (sqe_of sample_cancels 3)" "\<not> cancels_every (sqe_of (sample_queue ! 0) 2)" by code_simp+
  have c: "card {0 :: nat, 2} = 2" by simp
  note all = all [OF b(1), unfolded n c if_P [OF e(1)] if_not_P [OF insert_not_empty] of_nat_numeral]
  note one = one [OF b(2), unfolded n if_not_P [OF e(2)] if_not_P [OF insert_not_empty]]
  show ?thesis using all one by blast
qed

text \<open>The two cases, each on its own.\<close>

lemma failed_message_runs_on:
  assumes "me < length rs" "r_queue (rs ! me) = i # q" "r_blocking (rs ! me) = None"
    "r_chain_failed (rs ! me) = SLIP_CHAIN_HOLDS" "sqe_opcode (sqe_of (rs ! me) i) = OP_MSG_RING"
    "\<not> fixed_file (sqe_of (rs ! me) i)" "sqe_addr (sqe_of (rs ! me) i) \<noteq> MSG_DATA"
  shows "\<exists>r'. process_queue be me rs w = process_queue be me (rs[me := r']) w \<and>
    r' = slip_engine_post i (- EOPNOTSUPP) ((rs ! me)\<lparr>r_queue := q\<rparr>) \<and>
    r_queue r' = q \<and> r_chain_failed r' = SLIP_CHAIN_HOLDS"
proof -
  let ?p = "(rs ! me)\<lparr>r_queue := q\<rparr>"
  have "process_one be me i (rs[me := ?p]) w = Some (rs[me := slip_engine_post i (- EOPNOTSUPP) ?p], w)"
    using assms by (simp add: process_one_def Let_def run_one_def msg_ring_def)
  then have "process_queue be me rs w =
      process_queue be me (rs[me := slip_engine_post i (- EOPNOTSUPP) ?p]) w"
    by (simp add: process_queue_next [OF assms(2,3)])
  then show ?thesis using assms(4) by (intro exI [of _ "slip_engine_post i (- EOPNOTSUPP) ?p"]) simp
qed

lemma queued_cancel_hits_head:
  fixes rs :: "ep_state slip_ring list"
  assumes "me < length rs" "ring_inv sides_inv H (rs ! me)" "r_queue (rs ! me) = [a, b, c]"
    "r_waiting (rs ! me) = []" "r_blocking (rs ! me) = None"
    "\<not> cancels_every cq" "sqe_of (rs ! me) i = cq" "cancel_names cq (sqe_of (rs ! me) b)"
    "\<not> cancel_names cq (sqe_of (rs ! me) a)" "io_link (sqe_of (rs ! me) b)" "\<not> io_link (sqe_of (rs ! me) a)"
  shows "\<exists>r' r''. cancel_matching (epoll_readiness eo) i (rs ! me) w = Some (0, r', w) \<and>
    r_queue r' = [a, c] \<and>
    process_queue be me (rs[me := r']) w = process_queue be me (rs[me := r'']) w \<and>
    r_queue r'' = [c] \<and> r_chain_failed r'' = SLIP_CHAIN_HOLDS \<and>
    cq_stream r'' = cq_stream r' @ cancel_stream r' [a]"
proof -
  let ?r = "rs ! me"
  let ?r' = "cancel_target b (?r\<lparr>r_queue := [a, c]\<rparr>)"
  have w: "cancel_waiting (epoll_readiness eo) cq False 0 0 ?r w = Some (False, 0, ?r, w)"
    using assms(4) by (subst cancel_waiting.simps) simp
  have cm: "cancel_matching (epoll_readiness eo) i ?r w = Some (0, ?r', w)"
    using assms(3,6-9) w by (simp add: epoll.cancel_matching_eq Let_def)
  have dist: "a \<noteq> b" using pool_ok_distinct(4) [OF ring_inv_pool [OF assms(2)]] by (simp add: assms(3))
  have inv: "ring_inv sides_inv H ?r'"
    using epoll.take_queue_inv(1) [OF assms(2), of "[a]" b "[c]"] assms(3)
    by (intro epoll.cancel_target_inv) simp
  have f: "r_queue ?r' = [a, c]" "r_blocking ?r' = None" "r_chain_failed ?r' \<noteq> SLIP_CHAIN_HOLDS"
    "sqe_of ?r' a = sqe_of ?r a"
    using assms(5,10) dist by (simp_all add: cancel_target_def Let_def sqe_of_def post_the_op)
  let ?r'' = "cancel_front a ?r'"
  have "process_queue be me (rs[me := ?r']) w = process_queue be me (rs[me := ?r'']) w"
    using process_queue_cancels_one [of me "rs[me := ?r']" a "[c]" be w] assms(1) f by simp
  with cm f(1) epoll.cancel_front_view [OF inv f(1,3)] f(4) assms(11) show ?thesis
    by (intro exI [of _ ?r'] exI [of _ ?r'']) simp
qed

text \<open>C9: Two failures of linked ops that miss their chain.  A linked message to another ring that
  fails leaves its chain standing, where any other op would fail it, and the next member runs.
  Cancelling a queued op that is linked fails the chain at once, and the op at the head
  of the queue pays for it: with an unrelated op \<open>a\<close> ahead of the linked \<open>b\<close> and its
  successor \<open>c\<close>, the cancel of \<open>b\<close> has \<open>a\<close> cancelled and \<open>c\<close> run, in a chain that holds.\<close>

theorem chain_failure_misplaced:
  fixes rs :: "ep_state slip_ring list"
  assumes "me < length rs" "ring_inv sides_inv H (rs ! me)" "r_queue (rs ! me) = [a, b, c]"
    "r_waiting (rs ! me) = []" "r_blocking (rs ! me) = None"
    "\<not> cancels_every cq" "sqe_of (rs ! me) i = cq" "cancel_names cq (sqe_of (rs ! me) b)"
    "\<not> cancel_names cq (sqe_of (rs ! me) a)" "io_link (sqe_of (rs ! me) b)" "\<not> io_link (sqe_of (rs ! me) a)"
    "k < length ms" "r_queue (ms ! k) = m # q" "r_blocking (ms ! k) = None"
    "r_chain_failed (ms ! k) = SLIP_CHAIN_HOLDS" "sqe_opcode (sqe_of (ms ! k) m) = OP_MSG_RING"
    "\<not> fixed_file (sqe_of (ms ! k) m)" "sqe_addr (sqe_of (ms ! k) m) \<noteq> MSG_DATA"
  shows "(\<exists>r'. process_queue mb k ms v = process_queue mb k (ms[k := r']) v \<and>
      r' = slip_engine_post m (- EOPNOTSUPP) ((ms ! k)\<lparr>r_queue := q\<rparr>) \<and>
      r_queue r' = q \<and> r_chain_failed r' = SLIP_CHAIN_HOLDS) \<and>
    (\<exists>r' r''. cancel_matching (epoll_readiness eo) i (rs ! me) w = Some (0, r', w) \<and>
      r_queue r' = [a, c] \<and>
      process_queue be me (rs[me := r']) w = process_queue be me (rs[me := r'']) w \<and>
      r_queue r'' = [c] \<and> r_chain_failed r'' = SLIP_CHAIN_HOLDS \<and>
      cq_stream r'' = cq_stream r' @ cancel_stream r' [a])"
  by (rule conjI [OF failed_message_runs_on [OF assms(12-18)] queued_cancel_hits_head [OF assms(1-11)]])

definition sample_msg_fail :: "unit slip_ring list" where
  "sample_msg_fail = [queued_ring () [linked_sqe ((msg_sqe 0 0 0)\<lparr>sqe_addr := 1\<rparr>), nop_sqe 2]]"

definition sample_chain :: "ep_state slip_ring" where
  "sample_chain = (queued_ring [] [nop_sqe 1, linked_sqe (nop_sqe 2), nop_sqe 3, cancel_sqe 2 0])
     \<lparr>r_queue := [0, 1, 2]\<rparr>"

lemma chain_failure_misplaced_witness:
  "(\<exists>r'. process_queue (slip_backend_select sample_os sample_so) 0 sample_msg_fail () =
      process_queue (slip_backend_select sample_os sample_so) 0 (sample_msg_fail[0 := r']) () \<and>
    r' = slip_engine_post 0 (- EOPNOTSUPP) ((sample_msg_fail ! 0)\<lparr>r_queue := [1]\<rparr>) \<and>
    r_queue r' = [1] \<and> r_chain_failed r' = SLIP_CHAIN_HOLDS) \<and>
   (\<exists>r' r''. cancel_matching (epoll_readiness sample_eo) 3 ([sample_chain] ! 0) () = Some (0, r', ()) \<and>
    r_queue r' = [0, 2] \<and>
    process_queue (slip_backend_epoll sample_os sample_eo) 0 ([sample_chain][0 := r']) () =
      process_queue (slip_backend_epoll sample_os sample_eo) 0 ([sample_chain][0 := r'']) () \<and>
    r_queue r'' = [2] \<and> r_chain_failed r'' = SLIP_CHAIN_HOLDS \<and>
    cq_stream r'' = cq_stream r' @ cancel_stream r' [0])"
proof (rule chain_failure_misplaced [where H = "{#3#}"])
  show "0 < length sample_msg_fail" "r_queue (sample_msg_fail ! 0) = 0 # [1]"
    "r_blocking (sample_msg_fail ! 0) = None" "r_chain_failed (sample_msg_fail ! 0) = SLIP_CHAIN_HOLDS"
    by (simp_all add: sample_msg_fail_def upt_rec)
  show "sqe_opcode (sqe_of (sample_msg_fail ! 0) 0) = OP_MSG_RING"
    "\<not> fixed_file (sqe_of (sample_msg_fail ! 0) 0)" "sqe_addr (sqe_of (sample_msg_fail ! 0) 0) \<noteq> MSG_DATA"
    by code_simp+
next
  let ?q = "queued_ring ([] :: ep_state) [nop_sqe 1, linked_sqe (nop_sqe 2), nop_sqe 3, cancel_sqe 2 0]"
  have "ring_inv sides_inv {#} ?q" by (simp add: queued_ring_inv epoll.wait_invariant_axioms sides_inv_nil)
  from epoll.take_queue_inv(1) [OF this, of "[0, 1, 2]" 3 "[]"]
  show "ring_inv sides_inv {#3#} ([sample_chain] ! 0)" by (simp add: sample_chain_def upt_rec)
next
  show "0 < length [sample_chain]" "r_queue ([sample_chain] ! 0) = [0, 1, 2]" "r_waiting ([sample_chain] ! 0) = []"
    "r_blocking ([sample_chain] ! 0) = None"
    by (simp_all add: sample_chain_def)
  show "sqe_of ([sample_chain] ! 0) 3 = sqe_of ([sample_chain] ! 0) 3" ..
qed (code_simp+)

section \<open>Fixed files and provided buffers\<close>

text \<open>C10: Installing never replaces a descriptor.  Where the engine picks, a free slot of the alloc
  range is found whenever there is one, only that slot changes, and \<open>-ENFILE\<close> means that every
  slot of the range is taken; without a table it is \<open>-ENXIO\<close>.  At a named slot, one past the
  table is \<open>-EBADF\<close>, an occupied one is \<open>-EBUSY\<close> and keeps its descriptor, an empty one takes
  the new one.\<close>

theorem install_takes_free_slots:
  assumes "fixed_wf r"
  shows "(case slip_fixed_install r FILE_INDEX_ALLOC fd of (s, r') \<Rightarrow>
     (case r_fixed r of
        None \<Rightarrow> s = - ENXIO \<and> r' = r
      | Some t \<Rightarrow>
          if \<exists>k \<in> alloc_range r. slot_free r k
          then unat s \<in> alloc_range r \<and> slot_free r (unat s) \<and> r_fixed r' = Some (t[unat s := fd])
          else s = - ENFILE \<and> r' = r)) \<and>
    (\<forall>t x. r_fixed r = Some t \<and> x \<noteq> FILE_INDEX_ALLOC \<longrightarrow>
       slip_fixed_install r x fd =
         (if length t \<le> unat (x - 1) then (- EBADF, r)
          else if \<not> neg32 (t ! unat (x - 1)) then (- EBUSY, r)
          else (x - 1, r\<lparr>r_fixed := Some (t[unat (x - 1) := fd])\<rparr>)))"
proof
  show "case slip_fixed_install r FILE_INDEX_ALLOC fd of (s, r') \<Rightarrow>
     (case r_fixed r of
        None \<Rightarrow> s = - ENXIO \<and> r' = r
      | Some t \<Rightarrow>
          if \<exists>k \<in> alloc_range r. slot_free r k
          then unat s \<in> alloc_range r \<and> slot_free r (unat s) \<and> r_fixed r' = Some (t[unat s := fd])
          else s = - ENFILE \<and> r' = r)"
    by (cases rule: install_alloc_cases [OF assms, of fd, case_names null full found]) auto
qed (use install_named_table [OF assms] in blast)

definition table_ring :: "i32 list \<Rightarrow> unit slip_ring" where
  "table_ring t = (sample_ring ())\<lparr>r_fixed := Some t, r_alloc_len := of_nat (length t)\<rparr>"

lemma table_ring_wf: "length t = 3 \<Longrightarrow> fixed_wf (table_ring t)"
  by (simp add: fixed_wf_def table_ring_def) (simp add: sample_rings)

lemma install_takes_free_slots_witness:
  "unat (fst (slip_fixed_install (table_ring [7, - 1, - 1]) FILE_INDEX_ALLOC 9)) \<in> alloc_range (table_ring [7, - 1, - 1]) \<and>
   fst (slip_fixed_install (table_ring [7, - 1, - 1]) FILE_INDEX_ALLOC 9) = 1 \<and>
   slip_fixed_install (table_ring [7, - 1, - 1]) 1 9 = (- EBUSY, table_ring [7, - 1, - 1])"
proof -
  let ?r = "table_ring [7, - 1, - 1]"
  have wf: "fixed_wf ?r" by (rule table_ring_wf) simp
  have t: "r_fixed ?r = Some [7, - 1, - 1]" by (simp add: table_ring_def)
  have one: "fst (slip_fixed_install ?r FILE_INDEX_ALLOC 9) = 1" by code_simp
  then obtain r' where i: "slip_fixed_install ?r FILE_INDEX_ALLOC 9 = (1, r')" by (metis prod.collapse)
  have "1 \<noteq> - ENFILE" by (simp add: ENFILE_def)
  then have "unat (1 :: i32) \<in> alloc_range ?r"
    using conjunct1 [OF install_takes_free_slots [OF wf, of 9]] by (simp add: i t split: if_splits)
  moreover have "slip_fixed_install ?r 1 9 = (- EBUSY, ?r)"
    using conjunct2 [OF install_takes_free_slots [OF wf, of 9], rule_format, of "[7, - 1, - 1]" 1]
    by (simp add: t FILE_INDEX_ALLOC_def neg32_def)
  ultimately show ?thesis using one by simp
qed

text \<open>C11: Look-up after install and after clear: an installed slot names its descriptor until it
  is cleared, a cleared one is free and answers \<open>-EBADF\<close>, and no other slot is touched by
  either.\<close>

theorem lookup_after_install_and_clear:
  assumes "fixed_wf r" "slip_fixed_install r x fd = (s, r')" "\<not> neg32 s" "\<not> neg32 fd"
    "slip_fixed_clear r' s = (res, r'')"
  shows "slip_fixed_lookup r' s = fd \<and> (\<forall>u. u \<noteq> s \<longrightarrow> slip_fixed_lookup r' u = slip_fixed_lookup r u) \<and>
    res = 0 \<and> slot_free r'' (unat s) \<and> slip_fixed_lookup r'' s = - EBADF \<and>
    (\<forall>u. u \<noteq> s \<longrightarrow> slip_fixed_lookup r'' u = slip_fixed_lookup r u)"
proof -
  obtain t where t: "r_fixed r = Some t" "unat s < length t" "r_fixed r' = Some (t[unat s := fd])"
    by (rule install_shape_ok [OF assms(1-3)])
  have wf': "fixed_wf r'" using fixed_wf_install [OF assms(1), of x fd] assms(2) by simp
  note l = lookup_table [OF assms(1) t(1)] and l' = lookup_table [OF wf' t(3)]
  have neg: "neg32 (- 1)" by (simp add: neg32_def)
  note c = clear_table [OF wf' t(3), of s]
  have r'': "res = 0" "r_fixed r'' = Some (t[unat s := - 1])"
    using c assms(4,5) t(2) by auto
  have wf'': "fixed_wf r''" using fixed_wf_clear [OF wf', of s] assms(5) by simp
  note l'' = lookup_table [OF wf'' r''(2)]
  have other: "t[unat s := v] ! unat u = t ! unat u" if "u \<noteq> s" for u v
  proof -
    have "unat s \<noteq> unat u" using that by (simp add: word_unat_eq_iff)
    then show ?thesis by simp
  qed
  have "slip_fixed_lookup r' s = fd" "slip_fixed_lookup r'' s = - EBADF" "slot_free r'' (unat s)"
    using t(2) assms(4) neg r'' by (simp_all add: l' l'' slot_free_table)
  moreover have "slip_fixed_lookup r' u = slip_fixed_lookup r u" "slip_fixed_lookup r'' u = slip_fixed_lookup r u"
    if "u \<noteq> s" for u
    by (simp_all add: l l' l'' other [OF that])
  ultimately show ?thesis using r''(1) by blast
qed

lemma lookup_after_install_and_clear_witness:
  "\<exists>r' r''. slip_fixed_install (table_ring [7, - 1, - 1]) 3 9 = (2, r') \<and> slip_fixed_clear r' 2 = (0, r'') \<and>
     slip_fixed_lookup r' 2 = 9 \<and> slip_fixed_lookup r'' 2 = - EBADF \<and> slip_fixed_lookup r'' 0 = slip_fixed_lookup (table_ring [7, - 1, - 1]) 0"
proof -
  have i: "fst (slip_fixed_install (table_ring [7, - 1, - 1]) 3 9) = 2" by code_simp
  obtain r' where r': "slip_fixed_install (table_ring [7, - 1, - 1]) 3 9 = (2, r')"
    using i by (cases "slip_fixed_install (table_ring [7, - 1, - 1]) 3 9") auto
  obtain res r'' where c: "slip_fixed_clear r' 2 = (res, r'')" by fastforce
  have n: "\<not> neg32 2" "\<not> neg32 9" by (simp_all add: neg32_def)
  have "fixed_wf (table_ring [7, - 1, - 1])" by (rule table_ring_wf) simp
  from lookup_after_install_and_clear [OF this r' n c] r' c show ?thesis by auto
qed



text \<open>C13: A multishot receive into provided buffers ends even if the system has data for ever:
  each round uses up a buffer, and without one it completes with \<open>-ENOBUFS\<close>.\<close>

theorem recv_multishot_ends_with_buffers:
  assumes "steady_tails os" "bufrings_wf r" "pool_ok r (add_mset i H)" "buffer_select (sqe_of r i)"
  shows "\<exists>v r' w'. run_recv_multishot os i r w = Some (v, r', w')"
  using run_recv_multishot_buffers [OF assms, of w] by (metis not_None_eq prod_cases3)

definition endless_os :: "unit os" where
  "endless_os = sample_os\<lparr>os_recv := (\<lambda>_ _ n _ _. (SysOk (uint n), ()))\<rparr>"

definition bufs_ring :: "unit slip_ring" where
  "bufs_ring = (queued_ring () [(recv_sqe 8 5)\<lparr>sqe_flags := 32, sqe_ioprio := 2, sqe_buf_group := 1\<rparr>])
     \<lparr>r_queue := [], r_bufrings := (replicate 16 zero_bufring)
        [0 := \<lparr>br_bufs = 64, br_entries = 8, br_bgid = 1, br_head = 0, br_in_use = True\<rparr>]\<rparr>"

lemma bufs_ring_run:
  "map_option (\<lambda>(v, r, w). (v, map cqe_res (unread r))) (run_recv_multishot endless_os 0 bufs_ring ()) =
     Some (ENG_RAN (- ENOBUFS), [64, 64])"
  by code_simp

lemma recv_multishot_ends_with_buffers_witness:
  "\<exists>v r' w'. run_recv_multishot endless_os 0 bufs_ring () = Some (v, r', w')"
proof (rule recv_multishot_ends_with_buffers)
  show "steady_tails endless_os" by (simp add: steady_tails_def endless_os_def sample_os_def)
  show "bufrings_wf bufs_ring"
    using set_update_subset_insert [of "replicate 16 zero_bufring" 0
        "\<lparr>br_bufs = 64, br_entries = 8, br_bgid = 1, br_head = 0, br_in_use = True\<rparr>"]
    by (auto simp: bufrings_wf_def bufs_ring_def SLIP_BUFRINGS_MAX_def bufring_wf_def zero_bufring_def
        dest!: subsetD intro: exI [of _ 3])
  have "ring_inv (\<lambda>_. True) {#} (queued_ring () [(recv_sqe 8 5)\<lparr>sqe_flags := 32, sqe_ioprio := 2, sqe_buf_group := 1\<rparr>])"
    by (rule queued_ring_inv [OF select.wait_invariant_axioms]) simp_all
  from select.take_queue_inv(1) [OF this, of "[]" 0 "[]"]
  show "pool_ok bufs_ring (add_mset 0 {#})"
    by (simp add: ring_inv_def bufs_ring_def pool_ok_def acct_def)
  show "buffer_select (sqe_of bufs_ring 0)" by code_simp
qed

section \<open>The life of a ring\<close>


definition sample_sizes :: sizes where "sample_sizes = \<lparr>sz_eng_op = 112, sz_ptr = 8, sz_eng_done = 16\<rparr>"
definition sample_plat :: plat_ok where "sample_plat = \<lparr>ok_calloc = (\<lambda>_. True), ok_mtx = True, ok_cnd = True\<rparr>"
definition sample_params :: io_uring_params where
  "sample_params = \<lparr>p_flags = 0, p_sq_entries = 0, p_cq_entries = 0, p_features = 0, p_sq_off = [], p_cq_off = []\<rparr>"

definition no_rings :: "ep_state slip_ring list" where
  "no_rings = replicate SLIP_RINGS_MAX (zero_ring [])"


text \<open>C15: The slices of a ring's one block: each starts on a cache line, holds the bytes it is
  used for, ends before the next begins, and lies inside the block.\<close>

theorem slices_apart:
  assumes "i < j" "j < length (slice_uses sz sq_n cq_n)"
  defines "off \<equiv> slice_offsets sz sq_n cq_n" and "use \<equiv> slice_uses sz sq_n cq_n"
  shows "64 dvd off ! i \<and> off ! i + use ! i \<le> off ! j \<and> off ! j + use ! j \<le> block_size sz sq_n cq_n"
proof -
  have i: "i < length use" and j: "j < length use" using assms by simp_all
  note p = place_slices [OF i, where at = 0] and q = place_slices [OF j, where at = 0]
  have "64 dvd place 0 use ! i" using p(4) by simp
  moreover have "place 0 use ! i + use ! i \<le> place 0 use ! j"
    using p(1) p(3) [OF assms(1) j] by linarith
  moreover have "place 0 use ! j + use ! j \<le> sum_list (map block_align use)"
    using q(1,2) by linarith
  ultimately show ?thesis by (simp add: off_def use_def slice_offsets_def block_size_def)
qed

lemma slices_apart_witness:
  "64 dvd slice_offsets sample_sizes 2 4 ! 0 \<and>
   slice_offsets sample_sizes 2 4 ! 0 + slice_uses sample_sizes 2 4 ! 0 \<le> slice_offsets sample_sizes 2 4 ! 1 \<and>
   slice_offsets sample_sizes 2 4 ! 1 + slice_uses sample_sizes 2 4 ! 1 \<le> block_size sample_sizes 2 4"
  by (rule slices_apart) (simp_all add: slice_uses_def)

text \<open>C16: Rounding up ends for every request up to \<open>2 ^ 31\<close> and gives the least power of two
  that is not below it.  Above that the doubling runs through zero and never ends: a setup that
  asks for so many entries does not return.\<close>

theorem setup_rounds_up_or_hangs:
  "(unat v \<le> 2 ^ 31 \<longrightarrow>
     (\<exists>m w. round_up_pow2 v = Some w \<and> unat w = 2 ^ m \<and> unat v \<le> 2 ^ m \<and> (\<forall>j < m. 2 ^ j < unat v))) \<and>
   (2 ^ 31 < unat v \<and> \<not> refused_setup (p_flags p) \<and> free_ring_index rs = Some idx \<longrightarrow>
     slipstream_engine_setup be nul sz pl v (Some p) rs w = None)"
proof (intro conjI impI)
  show "\<exists>m w. round_up_pow2 v = Some w \<and> unat w = 2 ^ m \<and> unat v \<le> 2 ^ m \<and> (\<forall>j < m. 2 ^ j < unat v)"
    if "unat v \<le> 2 ^ 31"
    by (rule round_up_pow2_correct [OF that]) blast
  show "slipstream_engine_setup be nul sz pl v (Some p) rs w = None"
    if "2 ^ 31 < unat v \<and> \<not> refused_setup (p_flags p) \<and> free_ring_index rs = Some idx"
  proof -
    have "v \<noteq> 0" using that by auto
    then show ?thesis
      using that round_up_pow2_diverges [of v] by (simp add: slipstream_engine_setup_def)
  qed
qed

lemma setup_rounds_up_or_hangs_witness:
  "(\<exists>m w. round_up_pow2 100 = Some w \<and> unat w = 2 ^ m \<and> unat (100 :: u32) \<le> 2 ^ m) \<and>
   slipstream_engine_setup (slip_backend_epoll sample_os sample_eo) [] sample_sizes sample_plat
     0x80000001 (Some sample_params) no_rings () = None"
proof
  show "\<exists>m w. round_up_pow2 100 = Some w \<and> unat w = 2 ^ m \<and> unat (100 :: u32) \<le> 2 ^ m"
    using setup_rounds_up_or_hangs [THEN conjunct1, of 100] by auto
  have "\<not> refused_setup (p_flags sample_params)" "free_ring_index no_rings = Some 0" by code_simp+
  then show "slipstream_engine_setup (slip_backend_epoll sample_os sample_eo) [] sample_sizes sample_plat
     0x80000001 (Some sample_params) no_rings () = None"
    by (intro mp [OF setup_rounds_up_or_hangs [THEN conjunct2]]) simp
qed

text \<open>C17: No register call breaks a ring: whatever its opcode and arguments, the tables it
  writes are well formed afterwards and no other ring is touched.\<close>

theorem register_keeps_rings:
  fixes rs :: "ep_state slip_ring list"
  assumes "slipstream_engine_register be os num mok fd ix opc n rs w = (res, out, rs', w')"
    "rings_inv (ring_inv sides_inv) Hs rs"
  shows "rings_inv (ring_inv sides_inv) Hs rs' \<and> (\<forall>j. ring_of rs fd \<noteq> Some j \<longrightarrow> rs' ! j = rs ! j)"
  using epoll.register_inv [OF assms] register_changes [OF assms(1)] by auto

lemma register_keeps_rings_witness:
  "\<exists>rs'. slipstream_engine_register (slip_backend_epoll sample_os sample_eo) sample_os sample_num (\<lambda>_. True)
      (ring_token 0) False (REG_FILES2 (Some \<lparr>rr_sparse = True, rr_data = 0, rr_tags = 0, rr_nr = 3\<rparr>)) 1
      [submitted_ring []] () = (0, OUT_NONE, rs', ()) \<and> rings_inv (ring_inv sides_inv) (\<lambda>_. {#}) rs'"
proof -
  let ?g = "slipstream_engine_register (slip_backend_epoll sample_os sample_eo) sample_os sample_num (\<lambda>_. True)
      (ring_token 0) False (REG_FILES2 (Some \<lparr>rr_sparse = True, rr_data = 0, rr_tags = 0, rr_nr = 3\<rparr>)) 1
      [submitted_ring ([] :: ep_state)] ()"
  have "fst ?g = 0" "fst (snd ?g) = OUT_NONE" by code_simp+
  then obtain rs' where g: "?g = (0, OUT_NONE, rs', ())" by (cases ?g) auto
  have "rings_inv (ring_inv sides_inv) (\<lambda>_. {#}) [submitted_ring ([] :: ep_state)]"
    by (rule sample_rings_inv [OF epoll.wait_invariant_axioms]) (simp add: sides_inv_nil)
  from register_keeps_rings [OF g this] g show ?thesis by blast
qed

section \<open>What modelling the backends showed\<close>

lemma priority_event_lost:
  assumes "\<not> neg32 f" "unat f < length (r_be_state r)"
  shows "ep_event eo (EP_FD f, EPOLLPRI) ready r w = (ready, r, w) \<and> ep_events_of POLLPRI = EPOLLPRI"
proof -
  have "fd_slot (ep_room eo) zero_ep_fd f r = (Some (unat f), r)"
    using assms by (simp add: fd_slot_def Let_def)
  then show ?thesis by (simp add: ep_event_def Let_def epoll_bits ep_events_of_def poll_defs)
qed

lemma ep_quiet_interest:
  assumes "ep_quiet eo k f u r w = (r', w')" "k < length (r_be_state r)"
    "\<And>opn who ev w. fst (eo_ctl eo opn who ev w) = None"
  shows "ef_interest (r_be_state r' ! k) = ef_interest (r_be_state r ! k) AND NOT u"
proof -
  define left where "left = ef_interest (r_be_state r ! k) AND NOT u"
  obtain w2 where c: "eo_ctl eo EPOLL_CTL_MOD (EP_FD f) left w = (None, w2)"
    using assms(3) [of EPOLL_CTL_MOD "EP_FD f" left w] by (metis prod.collapse)
  have "r' = set_fd k ((r_be_state r ! k)\<lparr>ef_interest := left\<rparr>) r"
    using assms(1) c unfolding ep_quiet_def Let_def left_def [symmetric] by (auto split: if_splits)
  then show ?thesis using assms(2) by (simp add: set_fd_def left_def)
qed

definition both_ring :: "ep_state slip_ring" where
  "both_ring = fst (snd (park (epoll_readiness sample_eo) 0
     (upd_op 0 (set_wait (POLLIN OR POLLOUT)) taken_ring) ()))"

lemma reader_and_writer_misses_input:
  assumes "\<not> neg32 f" "unat f < length (r_be_state r)" "sf_in (r_be_state r ! unat f) = []"
    "ep_event eo (EP_FD f, EPOLLIN) ready r w = (ready', r', w')"
    "\<And>opn who ev w. fst (eo_ctl eo opn who ev w) = None"
  shows "ready' = ready \<and> ef_interest (r_be_state r' ! unat f) AND EPOLLIN = 0 \<and>
    waits_out (op\<lparr>op_wait_events := POLLIN OR POLLOUT\<rparr>)"
proof -
  let ?e = "r_be_state r ! unat f"
  have s: "fd_slot (ep_room eo) zero_ep_fd f r = (Some (unat f), r)"
    using assms(1,2) by (simp add: fd_slot_def Let_def)
  have ev: "ep_event eo (EP_FD f, EPOLLIN) ready r w =
      (case ep_quiet eo (unat f) f (EPOLLIN OR EPOLLPRI) r w of (r, w) \<Rightarrow> (ready, r, w))"
    by (simp add: ep_event_def s Let_def epoll_bits assms(3))
  then have q: "ep_quiet eo (unat f) f (EPOLLIN OR EPOLLPRI) r w = (r', w')" "ready' = ready"
    using assms(4) by (auto split: prod.splits)
  have "(x AND NOT (EPOLLIN OR EPOLLPRI)) AND EPOLLIN = 0" for x
    by (rule bit_word_eqI) (auto simp: epoll_bits bit_simps)
  then have "ef_interest (r_be_state r' ! unat f) AND EPOLLIN = 0"
    using ep_quiet_interest [OF q(1) assms(2,5)] by simp
  moreover have "waits_out (op\<lparr>op_wait_events := POLLIN OR POLLOUT\<rparr>)"
    by (simp add: waits_out_def poll_defs)
  ultimately show ?thesis using q(2) by blast
qed

text \<open>C18: Two shapes of poll miss their event on epoll.  \<open>EPOLLPRI\<close> is asked for where an op waits
  for priority data, but an event that reports it alone wakes nobody and is not quieted: nothing
  changes, so the level-triggered descriptor is reported again at once, for ever.  And an op that
  waits for reading or writing joins the writers only: when its descriptor becomes readable it
  is not woken, and the kernel is told to report readability no more.\<close>

theorem epoll_misses_events:
  assumes "\<not> neg32 f" "unat f < length (r_be_state r)" "\<And>opn who ev w. fst (eo_ctl eo opn who ev w) = None"
  shows "ep_events_of POLLPRI = EPOLLPRI \<and> ep_event eo (EP_FD f, EPOLLPRI) ready r w = (ready, r, w) \<and>
    waits_out (op\<lparr>op_wait_events := POLLIN OR POLLOUT\<rparr>) \<and>
    (sf_in (r_be_state r ! unat f) = [] \<and> ep_event eo (EP_FD f, EPOLLIN) ready r w = (ready', r', w') \<longrightarrow>
      ready' = ready \<and> ef_interest (r_be_state r' ! unat f) AND EPOLLIN = 0)"
proof (intro conjI impI; (elim conjE)?)
  show "ep_events_of POLLPRI = EPOLLPRI"
    using priority_event_lost [OF assms(1,2), of eo ready w] by simp
  show "ep_event eo (EP_FD f, EPOLLPRI) ready r w = (ready, r, w)"
    using priority_event_lost [OF assms(1,2), of eo ready w] by simp
  show "waits_out (op\<lparr>op_wait_events := POLLIN OR POLLOUT\<rparr>)" by (simp add: waits_out_def poll_defs)
  assume "sf_in (r_be_state r ! unat f) = []" "ep_event eo (EP_FD f, EPOLLIN) ready r w = (ready', r', w')"
  note m = reader_and_writer_misses_input [OF assms(1,2) this assms(3)]
  show "ready' = ready" using m by blast
  show "ef_interest (r_be_state r' ! unat f) AND EPOLLIN = 0" using m by blast
qed

lemma epoll_misses_events_witness:
  "ep_event sample_eo (EP_FD 5, EPOLLPRI) [] parked_ring () = ([], parked_ring, ()) \<and>
   (\<exists>r'. ep_event sample_eo (EP_FD 5, EPOLLIN) [] both_ring () = ([], r', ()) \<and>
     ef_interest (r_be_state r' ! 5) AND EPOLLIN = 0 \<and> 0 \<in> set (r_waiting both_ring))"
proof -
  have ctl: "fst (eo_ctl sample_eo opn who ev w) = None" for opn who ev w by (simp add: sample_eo_def)
  have p: "\<not> neg32 5" "unat (5 :: i32) < length (r_be_state parked_ring)" by code_simp+
  obtain ready' r' where e: "ep_event sample_eo (EP_FD 5, EPOLLIN) [] both_ring () = (ready', r', ())"
    by (cases "ep_event sample_eo (EP_FD 5, EPOLLIN) [] both_ring ()") auto
  have h: "unat (5 :: i32) < length (r_be_state both_ring)" "sf_in (r_be_state both_ring ! unat (5 :: i32)) = []" by code_simp+
  have "0 \<in> set (r_waiting both_ring)" by code_simp
  moreover have "ready' = [] \<and> ef_interest (r_be_state r' ! unat (5 :: i32)) AND EPOLLIN = 0"
    by (rule epoll_misses_events [OF p(1) h(1) ctl, THEN conjunct2, THEN conjunct2, THEN conjunct2, THEN mp,
      OF conjI [OF h(2) e]])
  moreover have "ep_event sample_eo (EP_FD 5, EPOLLPRI) [] parked_ring () = ([], parked_ring, ())"
    by (rule epoll_misses_events [OF p ctl, THEN conjunct2, THEN conjunct1])
  ultimately show ?thesis using e by (simp add: exI [of _ r'])
qed

text \<open>C19: The worker has finished the op a chain waits for and has poked: the round of \<open>enter\<close>
  runs the queue first and settles the ticket after it, so that the round ends with the chain
  released, its next member still queued, the poke consumed, and (with too few completions)
  another wait ahead that nothing has cause to end.\<close>

theorem settled_ticket_leaves_queue:
  assumes "me < length rs" "r_blocking (rs ! me) = Some i" "r_blocked_done (rs ! me) = Some i"
    "r_blocked_failed (rs ! me) = SLIP_CHAIN_HOLDS" "r_backlog (rs ! me) = []"
    "eb_wait be (rs ! me) (unat (r_op_pool_n (rs ! me))) (- 1) w =
       Some (Some [], (rs ! me)\<lparr>r_ctl := False\<rparr>, w')" "cq_avail (rs ! me) < m"
  shows "\<exists>r'. wait_loop be clock me None m rs w = wait_loop be clock me None m (rs[me := r']) w' \<and>
    r_queue r' = r_queue (rs ! me) \<and> r_blocking r' = None \<and> \<not> r_ctl r' \<and> cq_avail r' < m"
proof -
  let ?r = "(rs ! me)\<lparr>r_ctl := False, r_blocking := None, r_blocked_done := None\<rparr>"
  have "wait_loop be clock me None m rs w = wait_loop be clock me None m (rs[me := ?r]) w'"
    using wait_round_after_poke [OF assms(1-6), of clock m] assms(7) by (subst wait_loop.simps) simp
  then show ?thesis using assms(7) by (intro exI [of _ ?r]) (simp add: cq_avail_def)
qed

definition ticket_ring :: "ep_state slip_ring" where
  "ticket_ring = (queued_ring [] [nop_sqe 1])\<lparr>r_blocking := Some 3, r_blocked_done := Some 3, r_ctl := True\<rparr>"

text \<open>A backend whose wait finds the poke and nothing else.\<close>

definition poked_backend :: "(ep_state, unit) eng_backend" where
  "poked_backend = (slip_backend_epoll sample_os sample_eo)
     \<lparr>eb_wait := \<lambda>r cap t w. Some (Some [], r\<lparr>r_ctl := False\<rparr>, w)\<rparr>"

lemma settled_ticket_leaves_queue_witness:
  "\<exists>r'. wait_loop poked_backend sample_clock 0 None 1 [ticket_ring] () =
      wait_loop poked_backend sample_clock 0 None 1 ([ticket_ring][0 := r']) () \<and>
    r_queue r' = r_queue ([ticket_ring] ! 0) \<and> r_blocking r' = None \<and> \<not> r_ctl r' \<and> cq_avail r' < 1"
proof (rule settled_ticket_leaves_queue)
  show "cq_avail ([ticket_ring] ! 0) < 1" by code_simp
  show "r_blocked_failed ([ticket_ring] ! 0) = SLIP_CHAIN_HOLDS" "r_backlog ([ticket_ring] ! 0) = []" by code_simp+
qed (simp_all add: ticket_ring_def poked_backend_def)



section \<open>The dispatch backend\<close>

text \<open>C21: However the handlers, the pool, other threads and the ring's own thread interleave,
  between a section under the mutex and the signal that follows it too: never more than one
  wake-up stands in the semaphore, is owed to it or is being used, and while a result or a hit
  side has not been collected there is one, so that no news is lost and no wait comes back for
  nothing.\<close>

theorem dispatch_news_has_one_wake_up:
  assumes "door_reach os dso d e" "door_inv d"
  shows "d_sem (dr_st e) + knocks (dr_owed e) + of_bool (dr_inside e) \<le> 1 \<and>
    (d_done (dr_st e) \<noteq> [] \<or> (\<exists>x \<in> set (d_fds (dr_st e)). hit x) \<longrightarrow>
       d_sem (dr_st e) = 1 \<or> (\<exists>t. Knock t \<in># dr_owed e) \<or> dr_inside e)"
  using door_inv_says [OF door_reach_inv [OF assms]] by blast

lemma dispatch_news_has_one_wake_up_witness:
  "\<exists>e. door_reach sample_os sample_dso reader_door e \<and> hit (d_fds (dr_st e) ! 0) \<and>
     d_sem (dr_st e) = 0 \<and> knocks (dr_owed e) = 1"
proof -
  let ?x = "dsp_report_locked 0 False (dr_st reader_door)"
  let ?e = "locked (snd ?x) (if_owed (fst ?x) On_queue) reader_door"
  have x: "fst ?x" "d_fds (snd ?x) = [zero_dsp_fd\<lparr>sf_in := [0], df_rd := True, df_rd_hit := True, df_queued := True\<rparr>]"
    "d_sem (snd ?x) = 0"
    by (simp_all add: reader_door_def opened_dsp_def zero_dsp_def dsp_report_locked_def dsp_knock_locked_def
        set_entry_def note_hit_def zero_dsp_fd_def)
  have step: "door_step sample_os sample_dso reader_door ?e"
    by (rule door_step.report [OF prod.collapse [symmetric]]) (simp add: reader_door_def)
  have reach: "door_reach sample_os sample_dso reader_door ?e" by (rule door_reach.there [OF door_reach.here step])
  have "dr_owed reader_door = {#}" by (simp add: reader_door_def)
  moreover from this have "knocks (dr_owed ?e) \<le> 1"
    using dispatch_news_has_one_wake_up [OF reach reader_door_inv] by simp
  ultimately show ?thesis using reach x by (intro exI [of _ ?e]) (simp add: hit_def)
qed

text \<open>C22: With the pool's own size as the room, as \<open>enter\<close> waits, what a wait collects is what the
  one-line reference says: every result, newest first, and every waiter of every side that was
  hit.  Both fit, so that the branches that leave something for later are taken only where the
  results take up the whole room, and then nobody is waiting.\<close>

theorem dispatch_wait_collects_all:
  assumes "dsp_collect (unat (r_op_pool_n r)) (unat (r_op_pool_n r)) (r_be_state r) = (out, ready, left, st')"
    "dsp_ring_ok 1 H r"
  shows "(out, ready, left) = collect_all (unat (r_op_pool_n r)) (r_be_state r) \<and>
    length out + length ready \<le> unat (r_op_pool_n r) \<and> d_done st' = [] \<and>
    d_ready st' = (if left then d_ready (r_be_state r) else [])"
  using collects_all [OF assms] by blast

lemma dispatch_wait_collects_all_witness:
  "\<exists>st'. dsp_collect 4 4 (r_be_state collecting_ring) = ([(0, 9)], [], False, st') \<and> d_done st' = []"
proof -
  obtain out ready left st' where c: "dsp_collect 4 4 (r_be_state collecting_ring) = (out, ready, left, st')"
    by (metis prod_cases4)
  have n: "unat (r_op_pool_n collecting_ring) = 4" by (simp add: collecting_ring_def dsp_taken_ring_def)
  have a: "collect_all 4 (r_be_state collecting_ring) = ([(0, 9)], [], False)"
    by (simp add: collect_all_def collecting_ring_def dsp_taken_ring_def opened_dsp_def zero_dsp_def)
  from dispatch_wait_collects_all [of collecting_ring, unfolded n, OF c collecting_ring_ok] c show ?thesis by (simp add: a)
qed

text \<open>C23: Closing frees the state only when no job and no source is left and no handler of the
  queue has a signal to give.  A job of the pool is not waited for as long as that: the last one
  can have dropped \<open>live\<close> to 0 and still be about to signal the gate of the state that is freed.\<close>

theorem dispatch_close_frees_under_a_signal:
  assumes "closing_ok d" "dr_phase d = Closing"
  shows "(\<forall>e. door_reach os dso d e \<and> dr_phase e = Freed \<longrightarrow> d_jobs (dr_st e) = [] \<and> d_ending (dr_st e) = 0 \<and>
       Knock On_queue \<notin># dr_owed e \<and> Gate On_queue \<notin># dr_owed e) \<and>
    (d_jobs (dr_st d) = [Job_pool i] \<and> d_ending (dr_st d) = 0 \<and>
       Knock On_queue \<notin># dr_owed d \<and> Gate On_queue \<notin># dr_owed d \<longrightarrow>
     (\<exists>e. door_reach os dso d e \<and> dr_phase e = Freed \<and> Gate On_pool \<in># dr_owed e))"
proof (intro conjI allI impI)
  show "d_jobs (dr_st e) = []" "d_ending (dr_st e) = 0" "Knock On_queue \<notin># dr_owed e" "Gate On_queue \<notin># dr_owed e"
    if "door_reach os dso d e \<and> dr_phase e = Freed" for e
    using freed_says [OF closing_reach [OF _ assms(1)], of os dso e] that by blast+
  assume j: "d_jobs (dr_st d) = [Job_pool i] \<and> d_ending (dr_st d) = 0 \<and>
       Knock On_queue \<notin># dr_owed d \<and> Gate On_queue \<notin># dr_owed d"
  have "d_live (dr_st d) = 1" using assms(1) j by (auto simp: closing_ok_def live_ok_def)
  then show "\<exists>e. door_reach os dso d e \<and> dr_phase e = Freed \<and> Gate On_pool \<in># dr_owed e"
    using freed_under_a_signal [OF assms(2)] j by blast
qed

lemma dispatch_close_frees_under_a_signal_witness:
  "\<exists>e. door_reach sample_os sample_dso closing_door e \<and> dr_phase e = Freed \<and> Gate On_pool \<in># dr_owed e"
  by (rule mp [OF conjunct2 [OF dispatch_close_frees_under_a_signal [OF closing_door_ok, of sample_os sample_dso 0]]])
    (simp_all add: closing_door_def opened_dsp_def zero_dsp_def)

section \<open>The completion port\<close>

text \<open>C24: A wait on the completion port returns where nothing in flight is a multishot accept, with
  a bound, without room, or if the port gives something at all: after the first packet it takes
  only what is there, and each packet is the last of its op.  A multishot accept answers outside
  the batch, so that it never fills the room: while connections keep coming the wait, and the
  \<open>enter\<close> that called it, does not return, however many completions stand in the ring.\<close>

theorem iocp_wait_ends:
  "(no_multishot r \<longrightarrow>
      (iocp_wait ios r cap t w \<noteq> None \<longleftrightarrow> 0 \<le> t \<or> cap = 0 \<or> fst (port_get ios t r w) \<noteq> None)) \<and>
   (always_accepts ios \<and> accepting H r \<and> 0 < cap \<longrightarrow> iocp_wait ios r cap t w = None)"
  using iocp_wait_returns [of r ios cap t w] endless_accepts [of ios H r cap t w] by blast

lemma iocp_wait_ends_witness:
  "iocp_wait silent_ios (queued_ring opened_iocp []) 4 0 () \<noteq> None \<and>
   iocp_wait silent_ios (queued_ring opened_iocp []) 4 (- 1) () = None \<and>
   iocp_wait sample_ios accepting_ring 4 0 () = None"
proof (intro conjI)
  have n: "no_multishot (queued_ring opened_iocp [])" by (simp add: no_multishot_def)
  note w = iocp_wait_ends [THEN conjunct1, THEN mp, OF n]
  show "iocp_wait silent_ios (queued_ring opened_iocp []) 4 0 () \<noteq> None" by (subst w) simp
  have "fst (port_get silent_ios (- 1) (queued_ring opened_iocp []) ()) = None"
    by (simp add: port_get_def silent_ios_def)
  then show "iocp_wait silent_ios (queued_ring opened_iocp []) 4 (- 1) () = None"
    using w [of silent_ios 4 "- 1" "()"] by (simp del: not_None_eq)
  show "iocp_wait sample_ios accepting_ring 4 0 () = None"
    by (rule iocp_wait_ends [THEN conjunct2, THEN mp,
          OF conjI [OF sample_always_accepts conjI [OF accepting_ring_accepts]]]) simp
qed



text \<open>C26: Closing a ring always comes back, and frees everything the ring had: with nothing in
  flight, or after a second in which the port was silent, though the system may still write into
  the wrappers that are left.  It closes no socket: those that accepts in flight had been given
  stay open, whatever \<open>closesocket\<close> would have done.\<close>

theorem iocp_close_leaves_sockets:
  assumes "ic_there (r_be_state r)"
  shows "iocp_close_ring (ios\<lparr>ios_closesocket := f\<rparr>) r w = iocp_close_ring ios r w \<and>
    (\<exists>r1 w1. iocp_close_ring ios r w = (r1\<lparr>r_be_state := zero_iocp\<rparr>, ios_cleanup ios (ios_close_port ios w1)) \<and>
       (ic_flight (r_be_state r1) = [] \<or> (\<exists>w2. port_get ios 1000 r1 w2 = (None, w1))))"
proof -
  let ?w = "fold (\<lambda>x. ios_cancel ios (ov_sock x)) (ic_flight (r_be_state r)) w"
  obtain r1 w1 where d: "iocp_drain ios r ?w = (r1, w1)" by fastforce
  then show ?thesis
    using iocp_drain_ends [OF d] assms by (auto simp: iocp_close_ring_def iocp_drain_other simp del: iocp_drain.simps)
qed

lemma iocp_close_leaves_sockets_witness:
  "iocp_close_ring (silent_ios\<lparr>ios_closesocket := \<lambda>_ _. (W_OK (), ())\<rparr>) accepting_ring () =
     iocp_close_ring silent_ios accepting_ring () \<and>
   ov_accepted (ic_flight (r_be_state accepting_ring) ! 0) = 9 \<and>
   r_be_state (fst (iocp_close_ring silent_ios accepting_ring ())) = zero_iocp"
proof -
  have "ic_there (r_be_state accepting_ring)" by code_simp
  from iocp_close_leaves_sockets [OF this, of "\<lambda>_ _. (W_OK (), ())" silent_ios "()"] show ?thesis
    by (auto simp: new_wrapper_def)
qed

text \<open>C27: What an open does to a file.  By the disposition the code picks, it is what POSIX says of
  the flags but for two shapes: \<open>O_TRUNC\<close> without \<open>O_CREAT\<close> creates a file that is not there,
  and with \<open>O_CREAT\<close> and \<open>O_EXCL\<close> it empties one that is.  A refusal for any reason that has to
  do with files is \<open>-EIO\<close>: not found, no such path, no access, there already.\<close>

theorem iocp_open_like_posix_iff:
  "(create_file_effect (open_disposition fl) there = posix_open_effect fl there \<longleftrightarrow>
      \<not> o_trunc fl \<or> (if there then \<not> (o_creat fl \<and> o_excl fl) else o_creat fl)) \<and>
   (sqe_addr s \<noteq> 0 \<and> sqe_fd s = AT_FDCWD \<and> e \<in> {2, 3, 5, 80} \<and>
      ios_create_file ios (sqe_addr s) (open_access (sqe_op_flags s)) (open_disposition (sqe_op_flags s)) w =
        (W_ERR e, w') \<longrightarrow>
      iocp_openat ios s w = (- EIO, w'))"
  using open_effects_agree [of fl there]
  by (auto simp: iocp_openat_def Let_def win_err_to_errno_def winerr_defs)

definition open_sqe :: sqe where
  "open_sqe = zero_sqe\<lparr>sqe_opcode := OP_OPENAT, sqe_addr := 4096, sqe_fd := AT_FDCWD\<rparr>"

definition absent_ios :: "unit iocp_os" where
  "absent_ios = sample_ios\<lparr>ios_create_file := \<lambda>_ _ _ _. (W_ERR 2, ())\<rparr>"

lemma iocp_open_like_posix_iff_witness:
  "create_file_effect (open_disposition 0x700) True \<noteq> posix_open_effect 0x700 True \<and>
   create_file_effect (open_disposition 0x300) True = posix_open_effect 0x300 True \<and>
   iocp_openat absent_ios open_sqe () = (- EIO, ())"
proof -
  have b: "o_trunc 0x700" "o_creat 0x700" "o_excl 0x700" "o_creat 0x300" "\<not> o_excl 0x300" by code_simp+
  have s: "sqe_addr open_sqe \<noteq> 0" "sqe_fd open_sqe = AT_FDCWD" by code_simp+
  show ?thesis
    using iocp_open_like_posix_iff [THEN conjunct1, of "0x700" True]
      iocp_open_like_posix_iff [THEN conjunct1, of "0x300" True]
      iocp_open_like_posix_iff [THEN conjunct2, of "open_sqe" 2 absent_ios "()" "()"] b s
    by (simp add: absent_ios_def)
qed

text \<open>C28: \<open>CLOSE\<close>, \<open>SOCKET\<close>, \<open>RECV\<close> and \<open>SEND\<close> do not look at the fields that name a slot of the
  fixed table or a group of buffers: entries that differ there only have the same effect on the
  system and the same answer, and the tables stay as they are.  A close of a slot closes the
  descriptor 0 and leaves the slot.\<close>

theorem iocp_ignores_slots_and_groups:
  assumes "sqe_opcode (sqe_of r i) \<in> {OP_CLOSE, OP_SOCKET, OP_RECV, OP_SEND}" "same_call (sqe_of r i) (sqe_of s i)"
    "iocp_execute ios i r w = (v, r', w')" "iocp_execute ios i s w = (v2, s', w2)"
  shows "v2 = v \<and> w2 = w' \<and> r_fixed r' = r_fixed r \<and> r_bufrings r' = r_bufrings r"
  using execute_ignores [OF assms] by simp

definition closing_slot :: iocp_ring where
  "closing_slot = (queued_ring opened_iocp [zero_sqe\<lparr>sqe_opcode := OP_CLOSE, sqe_fd := 0, sqe_file_index := 1\<rparr>])
     \<lparr>r_queue := [], r_fixed := Some [7], r_alloc_len := 1\<rparr>"

definition closing_zero :: iocp_ring where
  "closing_zero = (queued_ring opened_iocp [zero_sqe\<lparr>sqe_opcode := OP_CLOSE, sqe_fd := 0\<rparr>])\<lparr>r_queue := []\<rparr>"

lemma iocp_ignores_slots_and_groups_witness:
  "\<exists>r'. iocp_execute sample_ios 0 closing_slot () = (EXEC_DONE 0, r', ()) \<and> r_fixed r' = Some [7] \<and>
     fst (iocp_execute sample_ios 0 closing_zero ()) = EXEC_DONE 0"
proof -
  obtain v r' where a: "iocp_execute sample_ios 0 closing_slot () = (v, r', ())" by (metis old.unit.exhaust prod_cases3)
  obtain v2 s' where b: "iocp_execute sample_ios 0 closing_zero () = (v2, s', ())" by (metis old.unit.exhaust prod_cases3)
  have "sqe_opcode (sqe_of closing_slot 0) \<in> {OP_CLOSE, OP_SOCKET, OP_RECV, OP_SEND}"
    "same_call (sqe_of closing_slot 0) (sqe_of closing_zero 0)" by code_simp+
  from iocp_ignores_slots_and_groups [OF this a b]
  have "v2 = v" "r_fixed r' = r_fixed closing_slot" by simp_all
  moreover have "fst (iocp_execute sample_ios 0 closing_zero ()) = EXEC_DONE 0" by code_simp
  ultimately show ?thesis using a b by (simp add: closing_slot_def)
qed

section \<open>The inotify emulation\<close>

text \<open>C29: Whatever calls of the interface a program makes, in whatever order, every instance of
  the table keeps its queue of whole records, inside the bound and inside what was allocated
  for it; on the kqueue arm every watch keeps its listing of distinct names without a NUL, on
  the Windows arm its list of distinct names that are directories.\<close>

theorem inotify_calls_keep_table:
  "((ino_step io)\<^sup>*\<^sup>* (tbl, w) (tbl', w') \<and> tbl_ok tbl \<and> c_dirs io \<longrightarrow> tbl_ok tbl') \<and>
   ((wino_step wi)\<^sup>*\<^sup>* (ws, v) (ws', v') \<and> wtbl_ok ws \<longrightarrow> wtbl_ok ws')"
  using ino_steps_ok [of io "(tbl, w)" "(tbl', w')"] wino_steps_ok [of wi "(ws, v)" "(ws', v')"] by auto

lemma inotify_calls_keep_table_witness:
  "(\<exists>tbl1 tbl2. slipstream_inotify_init1 sample_dir_io 0 empty_table True = (50, tbl1, True) \<and>
     slipstream_inotify_add_watch sample_dir_io 50 (Some [100]) IN_ALL_EVENTS tbl1 True = (1, tbl2, True) \<and>
     tbl_ok tbl2) \<and>
   (\<exists>ws1 ws2. win_inotify_init1 sample_wino 0 empty_wtable ([], [], False) = (1000, ws1, [4], [], False) \<and>
     win_inotify_add_watch sample_wino 1000 (Some dir_path) IN_ALL_EVENTS ws1 ([4], [], False) =
       (1, ws2, [12, 8, 4], [], False) \<and> wtbl_ok ws2)"
proof
  show "\<exists>tbl1 tbl2. slipstream_inotify_init1 sample_dir_io 0 empty_table True = (50, tbl1, True) \<and>
     slipstream_inotify_add_watch sample_dir_io 50 (Some [100]) IN_ALL_EVENTS tbl1 True = (1, tbl2, True) \<and>
     tbl_ok tbl2"
  proof -
    obtain r1 tbl1 w1 where i: "slipstream_inotify_init1 sample_dir_io 0 empty_table True = (r1, tbl1, w1)"
      by (metis prod_cases3)
    have "fst (slipstream_inotify_init1 sample_dir_io 0 empty_table True) = 50 \<and>
        snd (snd (slipstream_inotify_init1 sample_dir_io 0 empty_table True))" by code_simp
    then have i1: "r1 = 50" "w1 = True" by (simp_all add: i)
    obtain r2 tbl2 w2 where a: "slipstream_inotify_add_watch sample_dir_io 50 (Some [100]) IN_ALL_EVENTS tbl1 True = (r2, tbl2, w2)"
      by (metis prod_cases3)
    have "(let x = slipstream_inotify_add_watch sample_dir_io 50 (Some [100]) IN_ALL_EVENTS
          (fst (snd (slipstream_inotify_init1 sample_dir_io 0 empty_table True))) True in fst x = 1 \<and> snd (snd x))"
      by code_simp
    then have a1: "r2 = 1" "w2 = True" by (simp_all add: i a)
    have "(ino_step sample_dir_io)\<^sup>*\<^sup>* (empty_table, True) (tbl2, True)"
      using ino_step.init1 [OF i] ino_step.add_watch [OF a] i1 a1 by simp
    from inotify_calls_keep_table [THEN conjunct1, THEN mp, OF conjI [OF this conjI [OF empty_table_ok sample_dir_laws]]]
    show ?thesis using i a i1 a1 by auto
  qed
  obtain ws1 ws2 where ws: "win_inotify_init1 sample_wino 0 empty_wtable ([], [], False) = (1000, ws1, [4], [], False)"
    "win_inotify_add_watch sample_wino 1000 (Some dir_path) IN_ALL_EVENTS ws1 ([4], [], False) =
       (1, ws2, [12, 8, 4], [], False)"
    using sample_win_opened by blast
  have "(wino_step sample_wino)\<^sup>*\<^sup>* (empty_wtable, [], [], False) (ws2, [12, 8, 4], [], False)"
    using rtranclp.rtrancl_into_rtrancl [OF r_into_rtranclp [where r = "wino_step sample_wino"],
        OF wino_step.init1 [OF ws(1)] wino_step.add_watch [OF ws(2)]] .
  from inotify_calls_keep_table [THEN conjunct2, THEN mp, OF conjI [OF this empty_wtable_ok]] ws
  show "\<exists>ws1 ws2. win_inotify_init1 sample_wino 0 empty_wtable ([], [], False) = (1000, ws1, [4], [], False) \<and>
     win_inotify_add_watch sample_wino 1000 (Some dir_path) IN_ALL_EVENTS ws1 ([4], [], False) =
       (1, ws2, [12, 8, 4], [], False) \<and> wtbl_ok ws2" by blast
qed

text \<open>C30: On both arms a read hands over whole records from the front of the queue, as many as fit
  the buffer, and leaves the others where they are; an empty queue is first filled from the
  kernel; a buffer too small for the first record gets \<open>-EINVAL\<close> and takes nothing.\<close>

theorem inotify_read_gives_whole_records:
  "(slipstream_inotify_read io fd True len tbl w = Some (res, bs, tbl', w') \<and> tbl_ok tbl \<and> c_dirs io \<and>
      inst_of tbl fd = Some i \<and> SIZEOF_EVENT \<le> unat len \<and> holds (tbl ! i) old \<longrightarrow>
    (\<exists>new k. (old = [] \<or> new = []) \<and> bs = concat (map enc (take k (old @ new))) \<and>
    holds (tbl' ! i) (drop k (old @ new)) \<and>
    (if old @ new = [] then res = 0
     else if unat len < length (enc (hd (old @ new))) then res = - EINVAL \<and> k = 0
     else unat res = length bs \<and> 0 < k \<and> length bs \<le> unat len \<and>
       (k < length (old @ new) \<longrightarrow> unat len < length (concat (map enc (take (Suc k) (old @ new)))))))) \<and>
   (win_inotify_read wi fd True len ws v = Some (res, bs, ws', v') \<and> wtbl_ok ws \<and>
      winst_of ws fd = Some i \<and> SIZEOF_EVENT \<le> unat len \<and> holds (ws ! i) old \<longrightarrow>
    (\<exists>new k. (old = [] \<or> new = []) \<and> bs = concat (map enc (take k (old @ new))) \<and>
    holds (ws' ! i) (drop k (old @ new)) \<and>
    (if old @ new = [] then res = 0
     else if unat len < length (enc (hd (old @ new))) then res = - EINVAL \<and> k = 0
     else unat res = length bs \<and> 0 < k \<and> length bs \<le> unat len \<and>
       (k < length (old @ new) \<longrightarrow> unat len < length (concat (map enc (take (Suc k) (old @ new))))))))"
  by (intro conjI impI; elim conjE) (rule read_gives win_read_gives, assumption+, blast)+

text \<open>Of the two records that wait, a buffer of 40 bytes takes the first.\<close>

lemma first_of_pending:
  assumes "pending = [] \<or> new = []" "enc (hd pending) = concat (map enc (take k (pending @ new)))"
    "holds inn (drop k (pending @ new))"
  shows "holds inn (tl pending)"
proof -
  have new: "new = []" using assms(1) by (simp add: pending_def)
  have len: "length (enc (hd pending)) = 32" "length (concat (map enc pending)) = 48" by code_simp+
  have "k \<noteq> 0" using assms(2) enc_nonempty [of "hd pending"] by (cases k) auto
  moreover have "\<not> 2 \<le> k"
  proof
    assume "2 \<le> k"
    then have "take k (pending @ new) = pending" using new by (simp add: pending_def)
    then show False using assms(2) len by simp
  qed
  ultimately have "k = 1" by simp
  then show ?thesis using assms(3) new by (simp add: pending_def)
qed

lemma inotify_read_gives_whole_records_witness:
  "(\<exists>tbl'. slipstream_inotify_read sample_dir_io 50 True 40 (queue_table pending) True =
      Some (32, enc (hd pending), tbl', True) \<and> holds (tbl' ! 0) (tl pending)) \<and>
   (\<exists>ws'. win_inotify_read sample_wino 1000 True 40 (watching_table file_watch pending) ([8, 4], [], False) =
      Some (32, enc (hd pending), ws', [8, 4], [], False) \<and> holds (ws' ! 0) (tl pending))"
proof
  let ?x = "slipstream_inotify_read sample_dir_io 50 True 40 (queue_table pending) True"
  have "map_option (\<lambda>(res, bs, tbl, w). (res, bs, w)) ?x = Some (32, enc (hd pending), True)" by code_simp
  then obtain tbl' where r: "?x = Some (32, enc (hd pending), tbl', True)" by auto
  have at: "inst_of (queue_table pending) 50 = Some 0" by code_simp
  have q: "holds (queue_table pending ! 0) pending"
    using pending_holds by (simp add: queue_table_def empty_table_def INOTIFY_MAX_def)
  have room: "SIZEOF_EVENT \<le> unat (40 :: u32)" by (simp add: SIZEOF_EVENT_def)
  obtain new k where "pending = [] \<or> new = []" "enc (hd pending) = concat (map enc (take k (pending @ new)))"
    "holds (tbl' ! 0) (drop k (pending @ new))"
    using inotify_read_gives_whole_records [THEN conjunct1, THEN mp, OF conjI [OF r conjI [OF pending_table_ok
      conjI [OF sample_dir_laws conjI [OF at conjI [OF room q]]]]]] by blast
  then show "\<exists>tbl'. slipstream_inotify_read sample_dir_io 50 True 40 (queue_table pending) True =
      Some (32, enc (hd pending), tbl', True) \<and> holds (tbl' ! 0) (tl pending)"
    using r first_of_pending by blast
  let ?y = "win_inotify_read sample_wino 1000 True 40 (watching_table file_watch pending) ([8, 4], [], False)"
  have "map_option (\<lambda>(res, bs, tbl, w). (res, bs, w)) ?y = Some (32, enc (hd pending), [8, 4], [], False)" by code_simp
  then obtain ws' where y: "?y = Some (32, enc (hd pending), ws', [8, 4], [], False)" by auto
  have "winst_of (watching_table file_watch pending) 1000 = Some 0" by code_simp
  from conjI [OF this conjI [OF room watching_table_holds]]
  obtain new k where "pending = [] \<or> new = []" "enc (hd pending) = concat (map enc (take k (pending @ new)))"
    "holds (ws' ! 0) (drop k (pending @ new))"
    using inotify_read_gives_whole_records [THEN conjunct2, THEN mp, OF conjI [OF y conjI [OF watching_table_ok]]] by blast
  then show "\<exists>ws'. win_inotify_read sample_wino 1000 True 40 (watching_table file_watch pending) ([8, 4], [], False) =
      Some (32, enc (hd pending), ws', [8, 4], [], False) \<and> holds (ws' ! 0) (tl pending)"
    using y first_of_pending by blast
qed






text \<open>C33: On Windows, whatever calls a program makes and whichever step of them fails, the handles
  that the system has open for the emulation are those its table holds: the port of each
  instance in use and, for each of its watches, the directory watched and the one above; the others
  (\<open>B\<close>) are left alone.  No handle is lost and none is closed twice.\<close>

theorem win_inotify_holds_its_handles:
  assumes "(wino_step wi)\<^sup>*\<^sup>* (ws, w) (ws', w')" "handle_laws wi hs" "wtbl_ok ws" "hs w = held_all ws + B"
  shows "hs w' = held_all ws' + B"
  using wino_steps_hs [OF assms(1,2), of B] assms(3,4) by simp

lemma win_inotify_holds_its_handles_witness:
  "\<exists>ws1 ws2. win_inotify_init1 sample_wino 0 empty_wtable ([], [], False) = (1000, ws1, [4], [], False) \<and>
     win_inotify_add_watch sample_wino 1000 (Some dir_path) IN_ALL_EVENTS ws1 ([4], [], False) =
       (1, ws2, [12, 8, 4], [], False) \<and> held_all ws2 = {#12, 8, 4#}"
proof -
  obtain ws1 ws2 where ws: "win_inotify_init1 sample_wino 0 empty_wtable ([], [], False) = (1000, ws1, [4], [], False)"
    "win_inotify_add_watch sample_wino 1000 (Some dir_path) IN_ALL_EVENTS ws1 ([4], [], False) =
       (1, ws2, [12, 8, 4], [], False)"
    using sample_win_opened by blast
  have steps: "(wino_step sample_wino)\<^sup>*\<^sup>* (empty_wtable, [], [], False) (ws2, [12, 8, 4], [], False)"
    using rtranclp.rtrancl_into_rtrancl [OF r_into_rtranclp [where r = "wino_step sample_wino"],
        OF wino_step.init1 [OF ws(1)] wino_step.add_watch [OF ws(2)]] .
  have "sample_handles ([], [], False) = held_all empty_wtable + {#}"
    by (simp add: empty_wtable_held sample_handles_def)
  from win_inotify_holds_its_handles [OF steps sample_handle_laws empty_wtable_ok this]
  have "held_all ws2 = {#12, 8, 4#}" by (simp add: sample_handles_def INVALID_HANDLE_def)
  with ws show ?thesis by blast
qed

text \<open>C34: How Windows tells the end of a watch.  A watched file that is removed is told
  \<open>DELETE_SELF\<close> and \<open>IGNORED\<close> when its directory reports it, and the watch stays; once the
  caller has read these and the queue is empty, the question whether the file is there tells
  both again.  A read on the directory above that fails ends the watch and tells nothing.  A
  directory whose changes did not fit the kernel's buffer, so that they are lost, leaves no
  \<open>IN_Q_OVERFLOW\<close> and no other record.\<close>

theorem win_end_told_twice_or_never:
  "(wn_watches inn = [wt] \<and> ww_only wt = Some (notified_name wi nt w) \<and> nt_action nt = FA_REMOVED \<and>
      BACKSLASH \<notin> set (notified_name wi nt w) \<and> notified_name wi nt w \<noteq> [] \<and> path_is_dir wi (wt_path wt) w \<and>
      pk_key p = wt_wd wt \<and> pk_ok p \<and> pk_chain p = [nt] \<and> holds inn [] \<and> (\<forall>n w. fst (wi_malloc wi n w)) \<and>
      packet_taken wi p inn w = (i1, w1) \<and>
      wi_attrs wi (joined (wt_path wt) (notified_name wi nt w)) v = None \<and>
      check_gone wi (i1\<lparr>in_queue := []\<rparr>) v = (i2, v2) \<longrightarrow>
    holds i1 (farewell wt) \<and> length (wn_watches i1) = 1 \<and> holds i2 (farewell wt) \<and> wn_watches i2 = []) \<and>
   (watch_of_key jnn (pk_key q) = Some (at, True) \<and> \<not> pk_ok q \<longrightarrow>
    in_queue (fst (packet_taken wi q jnn w)) = in_queue jnn \<and>
    Suc (length (wn_watches (fst (packet_taken wi q jnn w)))) = length (wn_watches jnn)) \<and>
   (watch_of_key jnn (pk_key q) = Some (at, False) \<and> pk_ok q \<and> pk_chain q = [] \<and>
      path_is_dir wi (wt_path (wn_watches jnn ! at)) w \<longrightarrow>
    in_queue (fst (packet_taken wi q jnn w)) = in_queue jnn)"
proof (intro conjI impI; elim conjE)
  assume w: "wn_watches inn = [wt]" "ww_only wt = Some (notified_name wi nt w)" "nt_action nt = FA_REMOVED"
    "BACKSLASH \<notin> set (notified_name wi nt w)" "notified_name wi nt w \<noteq> []" "path_is_dir wi (wt_path wt) w"
    "pk_key p = wt_wd wt" "pk_ok p" "pk_chain p = [nt]" "holds inn []" "\<forall>n w. fst (wi_malloc wi n w)"
    and p: "packet_taken wi p inn w = (i1, w1)"
    and g: "wi_attrs wi (joined (wt_path wt) (notified_name wi nt w)) v = None"
    "check_gone wi (i1\<lparr>in_queue := []\<rparr>) v = (i2, v2)"
  have room: "length (in_queue inn) + 32 \<le> QUEUE_MAX" using w(10) by (simp add: holds_def QUEUE_MAX_def)
  note t = removed_file_packet [OF p w(1,7,8,9,2,3,4,5,6,10,11) room]
  obtain wt' where wt': "wn_watches i1 = [wt']" "farewell wt' = farewell wt" "wt_path wt' = wt_path wt"
    "ww_only wt' = ww_only wt" using t(2) by blast
  have i1: "wn_watches (i1\<lparr>in_queue := []\<rparr>) = [wt']" "\<not> still_there wi wt' v" "holds (i1\<lparr>in_queue := []\<rparr>) []"
    "length (in_queue (i1\<lparr>in_queue := []\<rparr>)) + 32 \<le> QUEUE_MAX"
    using wt' w(2) g(1) t(1) by (simp_all add: still_there_def holds_def QUEUE_MAX_def)
  note m = missing_told [OF g(2) i1(1,2,3) w(11) i1(4)]
  show "holds i1 (farewell wt)" using t(1) by simp
  show "length (wn_watches i1) = 1" using wt'(1) by simp
  show "holds i2 (farewell wt)" "wn_watches i2 = []" using m wt'(2) by simp_all
next
  assume q: "watch_of_key jnn (pk_key q) = Some (at, True)" "\<not> pk_ok q"
  show "in_queue (fst (packet_taken wi q jnn w)) = in_queue jnn" by (simp add: failed_up_read [OF q])
  show "Suc (length (wn_watches (fst (packet_taken wi q jnn w)))) = length (wn_watches jnn)"
    using watch_of_key_Some [OF q(1)] by (simp add: failed_up_read [OF q])
next
  assume q: "watch_of_key jnn (pk_key q) = Some (at, False)" "pk_ok q" "pk_chain q = []"
    "path_is_dir wi (wt_path (wn_watches jnn ! at)) w"
  obtain i' w' where p: "packet_taken wi q jnn w = (i', w')" by fastforce
  show "in_queue (fst (packet_taken wi q jnn w)) = in_queue jnn" using unfilled_buffer [OF p q] by (auto simp: p)
qed

lemma win_end_told_twice_or_never_witness:
  "(\<exists>i1 w1 i2 w2. packet_taken sample_wino removed_packet (watching file_watch []) gone_world = (i1, w1) \<and>
      holds i1 [Rec 1 IN_DELETE_SELF 0 None, Rec 1 IN_IGNORED 0 None] \<and>
      check_gone sample_wino (i1\<lparr>in_queue := []\<rparr>) gone_world = (i2, w2) \<and>
      holds i2 [Rec 1 IN_DELETE_SELF 0 None, Rec 1 IN_IGNORED 0 None]) \<and>
   in_queue (fst (packet_taken sample_wino (removed_packet\<lparr>pk_chain := []\<rparr>) (watching file_watch []) gone_world)) = [] \<and>
   Suc (length (wn_watches (fst (packet_taken sample_wino \<lparr>pk_key = UP_KEY 1, pk_ok = False, pk_chain = []\<rparr>
     (watching file_watch []) gone_world)))) = 1"
proof (intro conjI)
  let ?nt = "\<lparr>nt_action = FA_REMOVED, nt_name = [102]\<rparr>"
  obtain i1 w1 where x: "packet_taken sample_wino removed_packet (watching file_watch []) gone_world = (i1, w1)"
    by (rule prod.exhaust)
  obtain i2 w2 where y: "check_gone sample_wino (i1\<lparr>in_queue := []\<rparr>) gone_world = (i2, w2)"
    by (rule prod.exhaust)
  have m: "\<forall>n w. fst (wi_malloc sample_wino n w)" by (simp add: sample_wino_def)
  have c: "wn_watches (watching file_watch []) = [file_watch]" "ww_only file_watch = Some (notified_name sample_wino ?nt gone_world)"
    "nt_action ?nt = FA_REMOVED" "BACKSLASH \<notin> set (notified_name sample_wino ?nt gone_world)"
    "notified_name sample_wino ?nt gone_world \<noteq> []" "path_is_dir sample_wino (wt_path file_watch) gone_world"
    "pk_key removed_packet = wt_wd file_watch" "pk_ok removed_packet" "pk_chain removed_packet = [?nt]"
    "wi_attrs sample_wino (joined (wt_path file_watch) (notified_name sample_wino ?nt gone_world)) gone_world = None"
    using gone_paths by (simp_all add: removed_name file_watch_def removed_packet_def BACKSLASH_def)
  have "holds i1 (farewell file_watch) \<and> length (wn_watches i1) = 1 \<and> holds i2 (farewell file_watch) \<and> wn_watches i2 = []"
    by (rule win_end_told_twice_or_never [where inn = "watching file_watch []" and wt = file_watch and wi = sample_wino
        and nt = ?nt and w = gone_world and p = removed_packet and v = gone_world and ?i1.0 = i1 and ?w1.0 = w1
        and ?i2.0 = i2 and ?v2.0 = w2, THEN conjunct1, THEN mp])
      (intro conjI c m watching_holds_none x y)
  then show "\<exists>i1 w1 i2 w2. packet_taken sample_wino removed_packet (watching file_watch []) gone_world = (i1, w1) \<and>
      holds i1 [Rec 1 IN_DELETE_SELF 0 None, Rec 1 IN_IGNORED 0 None] \<and>
      check_gone sample_wino (i1\<lparr>in_queue := []\<rparr>) gone_world = (i2, w2) \<and>
      holds i2 [Rec 1 IN_DELETE_SELF 0 None, Rec 1 IN_IGNORED 0 None]"
    using x y unfolding farewell_file end_of_file_def by blast
  have q: "watch_of_key (watching file_watch []) (pk_key (removed_packet\<lparr>pk_chain := []\<rparr>)) = Some (0, False)"
    "pk_ok (removed_packet\<lparr>pk_chain := []\<rparr>)" "pk_chain (removed_packet\<lparr>pk_chain := []\<rparr>) = []"
    "watch_of_key (watching file_watch []) (pk_key \<lparr>pk_key = UP_KEY 1, pk_ok = False, pk_chain = []\<rparr>) = Some (0, True)"
    "\<not> pk_ok \<lparr>pk_key = UP_KEY 1, pk_ok = False, pk_chain = []\<rparr>"
    by code_simp+
  have d: "path_is_dir sample_wino (wt_path (wn_watches (watching file_watch []) ! 0)) gone_world"
    using gone_paths by (simp add: file_watch_def)
  have "in_queue (fst (packet_taken sample_wino (removed_packet\<lparr>pk_chain := []\<rparr>) (watching file_watch []) gone_world)) =
      in_queue (watching file_watch [])"
    by (rule win_end_told_twice_or_never [THEN conjunct2, THEN conjunct2, THEN mp,
      OF conjI [OF q(1) conjI [OF q(2) conjI [OF q(3) d]]]])
  then show "in_queue (fst (packet_taken sample_wino (removed_packet\<lparr>pk_chain := []\<rparr>) (watching file_watch []) gone_world)) = []"
    by simp
  have "Suc (length (wn_watches (fst (packet_taken sample_wino \<lparr>pk_key = UP_KEY 1, pk_ok = False, pk_chain = []\<rparr>
      (watching file_watch []) gone_world)))) = length (wn_watches (watching file_watch []))"
    by (rule win_end_told_twice_or_never [THEN conjunct2, THEN conjunct1, THEN mp, THEN conjunct2, OF conjI [OF q(4,5)]])
  then show "Suc (length (wn_watches (fst (packet_taken sample_wino \<lparr>pk_key = UP_KEY 1, pk_ok = False, pk_chain = []\<rparr>
      (watching file_watch []) gone_world)))) = 1" by simp
qed

section \<open>Signal descriptors\<close>








text \<open>C38: On macOS an open that fails at one of its sources leaves those it had made counted: the
  next open writes past \<open>g_src\<close> exactly if they and its own are more than 32 together, though
  neither asked for more.\<close>

theorem mac_failed_open_stays_counted:
  assumes "mac_signal_open ms (Some xs) n zero_mac w = Some (- ENOMEM, g, w1)" "pipe_lawful (mc_pipe ms)"
    "\<forall>s w. fst (mc_source ms' s w)" "mc_pipe ms' w2 = (Inr (a, b), w3)"
    "m \<noteq> 0" "m \<le> 32" "unat m \<le> length ys"
  shows "mac_signal_open ms' (Some ys) m g w2 = None \<longleftrightarrow> 32 < ms_nsrc g + unat m"
proof -
  have "case fst (mc_pipe ms w) of Inl e \<Rightarrow> neg32 (- e) | Inr (a, b) \<Rightarrow> \<not> neg32 a \<and> \<not> neg32 b"
    using assms(2) by (simp add: pipe_lawful_def)
  then have g: "length (ms_src g) = 32" "neg32 (ms_write g)"
    using assms(1)
    by (auto simp: mac_signal_open_def zero_mac_def split: if_splits prod.splits sum.splits option.splits bool.splits
        dest!: mac_sources_failed)
  have "unat m \<noteq> 0" using assms(5) by (simp add: unat_eq_0)
  then have ne: "take (unat m) ys \<noteq> []" using assms(7) by auto
  have "mac_signal_open ms' (Some ys) m g w2 = None \<longleftrightarrow>
      mac_sources ms' (take (unat m) ys) (g\<lparr>ms_write := b\<rparr>) (mc_fcntl ms' b (mc_fcntl ms' a w3)) = None"
    using assms(4-6) g(2) by (auto simp: mac_signal_open_def first_sigs_def not_less split: option.splits bool.splits)
  also have "\<dots> \<longleftrightarrow> 32 < ms_nsrc g + unat m"
    using mac_sources_run [OF assms(3), of "g\<lparr>ms_write := b\<rparr>" "take (unat m) ys"] g(1) ne assms(7)
    by (simp add: min_absorb2)
  finally show ?thesis .
qed

lemma mac_failed_open_stays_counted_witness:
  "\<exists>g w1. mac_signal_open (sample_mac_sig 31) (Some (replicate 32 2)) 32 zero_mac 0 = Some (- ENOMEM, g, w1) \<and>
     ms_nsrc g = 31 \<and> mac_signal_open willing_mac_sig (Some [2, 15]) 2 g w1 = None"
proof -
  let ?o = "mac_signal_open (sample_mac_sig 31) (Some (replicate 32 2)) 32 zero_mac 0"
  have "map_option (\<lambda>(r, g, w). (r, ms_nsrc g)) ?o = Some (- ENOMEM, 31)" by code_simp
  then obtain g w1 where o: "?o = Some (- ENOMEM, g, w1)" "ms_nsrc g = 31" by auto
  have p: "mc_pipe willing_mac_sig w1 = (Inr (7, 8), w1)" "\<forall>s w. fst (mc_source willing_mac_sig s w)"
    by (simp_all add: willing_mac_sig_def sample_mac_sig_def)
  have "pipe_lawful (mc_pipe (sample_mac_sig 31))" by (simp add: pipe_lawful_def sample_mac_sig_def neg32_unat)
  then have "mac_signal_open willing_mac_sig (Some [2, 15]) 2 g w1 = None"
    using mac_failed_open_stays_counted [OF o(1) _ p(2,1), of 2 "[2, 15]"] o(2) by simp
  with o show ?thesis by blast
qed

section \<open>Nameless files\<close>



section \<open>Which side answers\<close>




end
